(* ===== verification/Prelude.thy ===== *)
theory Prelude
  imports Main "HOL-Library.Sublist" "HOL-Library.While_Combinator" "HOL-Library.List_Lexorder"
begin

text \<open>
  Shared vocabulary of the development: results that may carry an error, the insertion-ordered
  sets and maps the code takes from the \<open>indexmap\<close> crate, decimal and hexadecimal
  formatting, the search for a fresh name every pass that mints names uses, and the
  iterate-until-nothing-changes loop every fixed point of the compiler is written as.
  The interfaces are locales; the interpretations below discharge them for the definitions
  the other theories use.
\<close>

named_theorems iset_simps \<open>facts on insertion-ordered sets\<close>
named_theorems imap_simps \<open>facts on insertion-ordered maps\<close>

section \<open>Results\<close>

type_synonym ('e, 'a) result = "'e + 'a"

definition res_bind :: "('e, 'a) result \<Rightarrow> ('a \<Rightarrow> ('e, 'b) result) \<Rightarrow> ('e, 'b) result" where
  "res_bind r f = (case r of Inl e \<Rightarrow> Inl e | Inr x \<Rightarrow> f x)"

fun res_fold :: "('s \<Rightarrow> 'a \<Rightarrow> ('e, 's) result) \<Rightarrow> 's \<Rightarrow> 'a list \<Rightarrow> ('e, 's) result" where
  "res_fold f s [] = Inr s"
| "res_fold f s (x # xs) = res_bind (f s x) (\<lambda>s'. res_fold f s' xs)"

fun res_map :: "('a \<Rightarrow> ('e, 'b) result) \<Rightarrow> 'a list \<Rightarrow> ('e, 'b list) result" where
  "res_map f [] = Inr []"
| "res_map f (x # xs) = res_bind (f x) (\<lambda>y. res_bind (res_map f xs) (\<lambda>ys. Inr (y # ys)))"

text \<open>The first error of a run of checks, in order.\<close>

fun res_check :: "('a \<Rightarrow> ('e, unit) result) \<Rightarrow> 'a list \<Rightarrow> ('e, unit) result" where
  "res_check f [] = Inr ()"
| "res_check f (x # xs) = res_bind (f x) (\<lambda>_. res_check f xs)"

lemma res_bind_simps [simp]:
  "res_bind (Inl e) f = Inl e"
  "res_bind (Inr x) f = f x"
  by (simp_all add: res_bind_def)

lemma res_bind_Inr_iff: "res_bind r f = Inr y \<longleftrightarrow> (\<exists>x. r = Inr x \<and> f x = Inr y)"
  by (cases r) auto

lemma res_bind_cong [fundef_cong]:
  "r = r' \<Longrightarrow> (\<And>x. r' = Inr x \<Longrightarrow> f x = g x) \<Longrightarrow> res_bind r f = res_bind r' g"
  by (cases r') auto

lemma res_check_Inr: "res_check f xs = Inr () \<longleftrightarrow> (\<forall>x\<in>set xs. f x = Inr ())"
  by (induction xs) (auto simp: res_bind_Inr_iff)

lemma res_check_cong [fundef_cong]:
  "xs = ys \<Longrightarrow> (\<And>x. x \<in> set ys \<Longrightarrow> f x = g x) \<Longrightarrow> res_check f xs = res_check g ys"
  by (induction ys arbitrary: xs) (auto intro: res_bind_cong)

lemma res_fold_cong [fundef_cong]:
  "s = t \<Longrightarrow> xs = ys \<Longrightarrow> (\<And>a x. x \<in> set ys \<Longrightarrow> f a x = g a x) \<Longrightarrow>
   res_fold f s xs = res_fold g t ys"
  by (induction ys arbitrary: xs s t) (auto intro: res_bind_cong)

lemma res_fold_append:
  "res_fold f s (xs @ ys) = res_bind (res_fold f s xs) (\<lambda>s'. res_fold f s' ys)"
  by (induction xs arbitrary: s) (auto simp: res_bind_def split: sum.splits)

lemma res_fold_invariant:
  assumes "res_fold f s xs = Inr t" and "P s"
    and "\<And>a x b. x \<in> set xs \<Longrightarrow> P a \<Longrightarrow> f a x = Inr b \<Longrightarrow> P b"
  shows "P t"
  using assms by (induction xs arbitrary: s) (auto simp: res_bind_Inr_iff)

text \<open>The first hit of a search.\<close>

fun first_some :: "('a \<Rightarrow> 'b option) \<Rightarrow> 'a list \<Rightarrow> 'b option" where
  "first_some f [] = None"
| "first_some f (x # xs) = (case f x of Some y \<Rightarrow> Some y | None \<Rightarrow> first_some f xs)"

lemma first_some_cong [fundef_cong]:
  "xs = ys \<Longrightarrow> (\<And>x. x \<in> set ys \<Longrightarrow> f x = g x) \<Longrightarrow> first_some f xs = first_some g ys"
  by (induction ys arbitrary: xs) (auto split: option.split)

lemma first_some_None: "first_some f xs = None \<longleftrightarrow> (\<forall>x\<in>set xs. f x = None)"
  by (induction xs) (auto split: option.split)

lemma first_some_Some: "first_some f xs = Some y \<Longrightarrow> \<exists>x\<in>set xs. f x = Some y"
  by (induction xs) (auto split: option.splits)

lemma foldl_invariant:
  "P s \<Longrightarrow> (\<And>a x. x \<in> set xs \<Longrightarrow> P a \<Longrightarrow> P (f a x)) \<Longrightarrow> P (foldl f s xs)"
  by (induction xs arbitrary: s) auto

text \<open>A stateful traversal that may panic (\<open>None\<close>).\<close>

fun state_map :: "('a \<Rightarrow> 's \<Rightarrow> ('b \<times> 's) option) \<Rightarrow> 'a list \<Rightarrow> 's \<Rightarrow> ('b list \<times> 's) option" where
  "state_map f [] s = Some ([], s)"
| "state_map f (x # xs) s =
     Option.bind (f x s) (\<lambda>(y, s1).
       Option.bind (state_map f xs s1) (\<lambda>(ys, s2). Some (y # ys, s2)))"

lemma state_map_cong [fundef_cong]:
  "xs = ys \<Longrightarrow> s = t \<Longrightarrow> (\<And>x u. x \<in> set ys \<Longrightarrow> f x u = g x u) \<Longrightarrow> state_map f xs s = state_map g ys t"
  by (induction ys arbitrary: xs s t) (auto intro!: Option.bind_cong)

lemma state_map_Cons_Some:
  "state_map f (x # xs) s = Some (zs, t) \<longleftrightarrow>
   (\<exists>y s1 ys. f x s = Some (y, s1) \<and> state_map f xs s1 = Some (ys, t) \<and> zs = y # ys)"
  by (auto simp: bind_eq_Some_conv)

lemma state_map_total:
  "(\<And>x u. x \<in> set xs \<Longrightarrow> \<exists>y v. f x u = Some (y, v)) \<Longrightarrow> \<exists>ys t. state_map f xs s = Some (ys, t)"
proof (induction xs arbitrary: s)
  case (Cons x xs)
  obtain y v where "f x s = Some (y, v)" using Cons.prems by fastforce
  moreover obtain ys t where "state_map f xs v = Some (ys, t)" using Cons by fastforce
  ultimately show ?case by simp
qed simp

lemma state_map_length: "state_map f xs s = Some (ys, t) \<Longrightarrow> length ys = length xs"
  by (induction xs arbitrary: s ys) (auto simp: bind_eq_Some_conv)

section \<open>Insertion-ordered sets\<close>

text \<open>
  The code's \<open>IndexSet\<close> is a set that iterates in the order its members were first inserted.
  It is the list of its members; inserting one that is present leaves the order alone.
\<close>

definition iset_insert :: "'a \<Rightarrow> 'a list \<Rightarrow> 'a list" where
  "iset_insert x xs = (if x \<in> set xs then xs else xs @ [x])"

definition iset_extend :: "'a list \<Rightarrow> 'a list \<Rightarrow> 'a list" where
  "iset_extend xs ys = foldl (\<lambda>acc y. iset_insert y acc) xs ys"

locale ordered_set =
  fixes emp :: "'s"
    and ins :: "'a \<Rightarrow> 's \<Rightarrow> 's"
    and elems :: "'s \<Rightarrow> 'a list"
  assumes elems_emp: "elems emp = []"
    and elems_ins_old: "x \<in> set (elems s) \<Longrightarrow> elems (ins x s) = elems s"
    and elems_ins_new: "x \<notin> set (elems s) \<Longrightarrow> elems (ins x s) = elems s @ [x]"
begin

lemma set_ins: "set (elems (ins x s)) = insert x (set (elems s))"
  by (cases "x \<in> set (elems s)") (auto simp: elems_ins_old elems_ins_new)

lemma distinct_ins: "distinct (elems s) \<Longrightarrow> distinct (elems (ins x s))"
  by (cases "x \<in> set (elems s)") (auto simp: elems_ins_old elems_ins_new)

lemma set_ins_all: "set (elems (foldl (\<lambda>acc y. ins y acc) s ys)) = set (elems s) \<union> set ys"
  by (induction ys arbitrary: s) (auto simp: set_ins)

lemma distinct_ins_all:
  "distinct (elems s) \<Longrightarrow> distinct (elems (foldl (\<lambda>acc y. ins y acc) s ys))"
  by (induction ys arbitrary: s) (auto simp: distinct_ins)

lemma ins_all_extends: "\<exists>zs. elems (foldl (\<lambda>acc y. ins y acc) s ys) = elems s @ zs"
proof (induction ys arbitrary: s)
  case (Cons y ys)
  obtain zs where "elems (foldl (\<lambda>acc y. ins y acc) (ins y s) ys) = elems (ins y s) @ zs"
    using Cons.IH by blast
  then show ?case by (cases "y \<in> set (elems s)") (auto simp: elems_ins_old elems_ins_new)
qed simp

end

interpretation iset: ordered_set "[]" iset_insert "\<lambda>xs. xs"
  by unfold_locales (auto simp: iset_insert_def)

lemma set_iset_insert [simp, iset_simps]: "set (iset_insert x xs) = insert x (set xs)"
  by (rule iset.set_ins)

lemma set_iset_extend [simp, iset_simps]: "set (iset_extend xs ys) = set xs \<union> set ys"
  unfolding iset_extend_def by (rule iset.set_ins_all)

lemma distinct_iset_insert [simp, iset_simps]: "distinct (iset_insert x xs) = distinct xs"
  by (auto simp: iset_insert_def)

lemma distinct_iset_extend: "distinct xs \<Longrightarrow> distinct (iset_extend xs ys)"
  unfolding iset_extend_def by (rule iset.distinct_ins_all)

section \<open>Insertion-ordered maps\<close>

text \<open>
  The code's \<open>IndexMap\<close>: assigning a present key keeps its position, a new key goes last.
\<close>

fun imap_insert :: "'k \<Rightarrow> 'v \<Rightarrow> ('k \<times> 'v) list \<Rightarrow> ('k \<times> 'v) list" where
  "imap_insert k v [] = [(k, v)]"
| "imap_insert k v ((k', v') # m) =
     (if k' = k then (k, v) # m else (k', v') # imap_insert k v m)"

definition imap_remove :: "'k \<Rightarrow> ('k \<times> 'v) list \<Rightarrow> ('k \<times> 'v) list" where
  "imap_remove k m = filter (\<lambda>(k', _). k' \<noteq> k) m"

definition imap_get_or :: "'v \<Rightarrow> ('k \<times> 'v) list \<Rightarrow> 'k \<Rightarrow> 'v" where
  "imap_get_or d m k = (case map_of m k of None \<Rightarrow> d | Some v \<Rightarrow> v)"

locale ordered_map =
  fixes nil :: "'m"
    and upd :: "'k \<Rightarrow> 'v \<Rightarrow> 'm \<Rightarrow> 'm"
    and del :: "'k \<Rightarrow> 'm \<Rightarrow> 'm"
    and look :: "'m \<Rightarrow> 'k \<Rightarrow> 'v option"
  assumes look_nil: "look nil k = None"
    and look_upd: "look (upd k v m) k' = (if k' = k then Some v else look m k')"
    and look_del: "look (del k m) k' = (if k' = k then None else look m k')"
begin

lemma look_upd_other:
  "k' \<notin> fst ` set kvs \<Longrightarrow> look (foldl (\<lambda>acc kv. upd (fst kv) (snd kv) acc) m kvs) k' = look m k'"
  by (induction kvs arbitrary: m) (auto simp: look_upd)

lemma look_upd_distinct:
  "distinct (map fst kvs) \<Longrightarrow> (k, v) \<in> set kvs \<Longrightarrow>
   look (foldl (\<lambda>acc kv. upd (fst kv) (snd kv) acc) m kvs) k = Some v"
  by (induction kvs arbitrary: m) (auto simp: look_upd look_upd_other rev_image_eqI)

lemma upd_upd: "look (upd k v (upd k w m)) = look (upd k v m)"
  by (rule ext) (simp add: look_upd)

end

lemma map_of_imap_insert [simp, imap_simps]:
  "map_of (imap_insert k v m) k' = (if k' = k then Some v else map_of m k')"
  by (induction m) auto

lemma map_of_imap_remove [simp, imap_simps]:
  "map_of (imap_remove k m) k' = (if k' = k then None else map_of m k')"
  by (induction m) (auto simp: imap_remove_def)

interpretation imap: ordered_map "[]" imap_insert imap_remove map_of
  by unfold_locales simp_all

lemma imap_insert_keys:
  "map fst (imap_insert k v m) =
     (if k \<in> fst ` set m then map fst m else map fst m @ [k])"
  by (induction k v m rule: imap_insert.induct) auto

lemma distinct_imap_insert: "distinct (map fst m) \<Longrightarrow> distinct (map fst (imap_insert k v m))"
  by (auto simp: imap_insert_keys)

lemma set_imap_remove: "set (imap_remove k m) = {kv \<in> set m. fst kv \<noteq> k}"
  by (auto simp: imap_remove_def)

lemma set_imap_insert: "set (imap_insert k v m) \<subseteq> insert (k, v) (set m)"
  by (induction k v m rule: imap_insert.induct) auto

section \<open>Loops that run until a pass changes nothing\<close>

text \<open>
  \<open>let mut changed = true; while changed { changed = false; ... }\<close>: a pass maps the state to
  the next one and says whether it changed anything.
\<close>

definition change_loop :: "('s \<Rightarrow> 's \<times> bool) \<Rightarrow> 's \<Rightarrow> 's" where
  "change_loop pass s = fst (while snd (\<lambda>(s, _). pass s) (s, True))"

locale changing_pass =
  fixes pass :: "'s \<Rightarrow> 's \<times> bool"
    and inv :: "'s \<Rightarrow> bool"
    and rank :: "'s \<Rightarrow> nat"
  assumes keeps: "inv s \<Longrightarrow> inv (fst (pass s))"
    and shrinks: "inv s \<Longrightarrow> snd (pass s) \<Longrightarrow> rank (fst (pass s)) < rank s"
    and settled: "inv s \<Longrightarrow> \<not> snd (pass s) \<Longrightarrow> fst (pass s) = s"
begin

lemma loop_result:
  assumes "inv s"
  shows "inv (change_loop pass s) \<and> pass (change_loop pass s) = (change_loop pass s, False)"
  unfolding change_loop_def
proof (rule while_rule [where P = "\<lambda>(t, c). inv t \<and> (\<not> c \<longrightarrow> pass t = (t, False))"
      and r = "measures [\<lambda>(t, c). rank t, \<lambda>(t, c). of_bool c]"])
  show "case (s, True) of (t, c) \<Rightarrow> inv t \<and> (\<not> c \<longrightarrow> pass t = (t, False))"
    using assms by simp
next
  fix q :: "'s \<times> bool"
  assume q: "case q of (t, c) \<Rightarrow> inv t \<and> (\<not> c \<longrightarrow> pass t = (t, False))" and c: "snd q"
  obtain t where qt: "q = (t, True)" using c by (cases q) auto
  have it: "inv t" using q qt by simp
  obtain u d where p: "pass t = (u, d)" by (cases "pass t")
  have iu: "inv u" using keeps [OF it] p by simp
  show "case (case q of (s, _) \<Rightarrow> pass s) of (t, c) \<Rightarrow> inv t \<and> (\<not> c \<longrightarrow> pass t = (t, False))"
    using settled [OF it] p iu qt by auto
  show "((case q of (s, _) \<Rightarrow> pass s), q) \<in> measures [\<lambda>(t, c). rank t, \<lambda>(t, c). of_bool c]"
    using shrinks [OF it] settled [OF it] p qt by (cases d) auto
qed (auto split: prod.splits)

lemmas loop_inv = loop_result [THEN conjunct1]
lemmas loop_fixed = loop_result [THEN conjunct2]

end

section \<open>Names that are not taken yet\<close>

text \<open>
  Every pass that mints names counts up until a candidate is free:
  \<open>while used.contains(&name) { i += 1; ... }\<close>. With as many steps as there are taken names,
  the loop cannot still be running, provided the candidates are distinct.
\<close>

fun first_fresh :: "(nat \<Rightarrow> 'a) \<Rightarrow> 'a list \<Rightarrow> nat \<Rightarrow> nat \<Rightarrow> 'a" where
  "first_fresh cand used i 0 = cand i"
| "first_fresh cand used i (Suc fuel) =
     (if cand i \<in> set used then first_fresh cand used (Suc i) fuel else cand i)"

definition fresh_from :: "(nat \<Rightarrow> 'a) \<Rightarrow> 'a list \<Rightarrow> nat \<Rightarrow> 'a" where
  "fresh_from cand used i = first_fresh cand used i (length used)"

locale name_supply =
  fixes cand :: "nat \<Rightarrow> 'a"
  assumes cand_inj: "inj cand"
begin

lemma first_fresh_shape:
  "\<exists>j. i \<le> j \<and> j \<le> i + fuel \<and> first_fresh cand used i fuel = cand j \<and>
     (\<forall>k. i \<le> k \<and> k < j \<longrightarrow> cand k \<in> set used) \<and> (cand j \<notin> set used \<or> j = i + fuel)"
proof (induction fuel arbitrary: i)
  case (Suc fuel)
  show ?case
  proof (cases "cand i \<in> set used")
    case True
    obtain j where "Suc i \<le> j" "j \<le> Suc i + fuel" "first_fresh cand used (Suc i) fuel = cand j"
      "\<forall>k. Suc i \<le> k \<and> k < j \<longrightarrow> cand k \<in> set used" "cand j \<notin> set used \<or> j = Suc i + fuel"
      using Suc.IH by blast
    moreover have "\<forall>k. i \<le> k \<and> k < j \<longrightarrow> cand k \<in> set used"
      using True calculation(4) by (metis Suc_leI le_neq_implies_less)
    ultimately show ?thesis using True by (intro exI [of _ j]) auto
  next
    case False
    then show ?thesis by (intro exI [of _ i]) auto
  qed
qed auto

lemma fresh_from_first:
  obtains j where "i \<le> j" and "fresh_from cand used i = cand j" and "cand j \<notin> set used"
    and "\<And>k. i \<le> k \<Longrightarrow> k < j \<Longrightarrow> cand k \<in> set used"
proof -
  obtain j where j: "i \<le> j" "j \<le> i + length used" "fresh_from cand used i = cand j"
    "\<forall>k. i \<le> k \<and> k < j \<longrightarrow> cand k \<in> set used" "cand j \<notin> set used \<or> j = i + length used"
    unfolding fresh_from_def using first_fresh_shape by blast
  have "cand j \<notin> set used"
  proof
    assume taken: "cand j \<in> set used"
    then have "j = i + length used" using j(5) by simp
    then have "cand ` {i..i + length used} \<subseteq> set used"
      using j(4) taken by (auto simp: le_less)
    then have "card (cand ` {i..i + length used}) \<le> length used"
      by (meson List.finite_set card_length card_mono le_trans)
    moreover have "card (cand ` {i..i + length used}) = Suc (length used)"
      by (subst card_image) (auto intro: inj_on_subset [OF cand_inj])
    ultimately show False by simp
  qed
  with j that show ?thesis by blast
qed

lemma fresh_from_notin: "fresh_from cand used i \<notin> set used"
  by (rule fresh_from_first [of i used]) simp

end

section \<open>Numbers as text\<close>

definition digit_char :: "nat \<Rightarrow> char" where
  "digit_char d = (''0123456789ABCDEF'' ! d)"

fun nat_str :: "nat \<Rightarrow> string" where
  "nat_str n = (if n < 10 then [digit_char n] else nat_str (n div 10) @ [digit_char (n mod 10)])"

declare nat_str.simps [simp del]

text \<open>Evaluation must decide before it unfolds.\<close>

lemma nat_str_code [code]:
  "nat_str n = (case n < 10 of True \<Rightarrow> [digit_char n] | False \<Rightarrow> nat_str (n div 10) @ [digit_char (n mod 10)])"
  by (subst nat_str.simps) simp

definition is_digit :: "char \<Rightarrow> bool" where
  "is_digit c = (c \<in> set ''0123456789'')"

fun digits_value :: "string \<Rightarrow> nat" where
  "digits_value [] = 0"
| "digits_value (c # cs) = (of_char c - 48) * 10 ^ length cs + digits_value cs"

lemma digits_value_snoc: "digits_value (cs @ [c]) = 10 * digits_value cs + (of_char c - 48)"
  by (induction cs) (auto simp: algebra_simps)

lemma less_10_cases: "n < (10::nat) \<Longrightarrow> n \<in> {0, 1, 2, 3, 4, 5, 6, 7, 8, 9}"
  by auto

lemma digit_char_value: "d < 10 \<Longrightarrow> of_char (digit_char d) = (48 + d :: nat)"
  by (drule less_10_cases) (auto simp: digit_char_def)

lemma digit_char_is_digit: "d < 10 \<Longrightarrow> is_digit (digit_char d)"
  by (drule less_10_cases) (auto simp: digit_char_def is_digit_def)

lemma nat_str_value: "digits_value (nat_str n) = n"
proof (induction n rule: nat_str.induct)
  case (1 n)
  then show ?case
    by (subst nat_str.simps) (auto simp: digits_value_snoc digit_char_value)
qed

lemma nat_str_inj: "inj nat_str"
  by (rule inj_on_inverseI [of _ digits_value]) (rule nat_str_value)

lemma nat_str_eq [simp]: "nat_str a = nat_str b \<longleftrightarrow> a = b"
  using nat_str_inj by (auto dest: injD)

lemma nat_str_digits: "c \<in> set (nat_str n) \<Longrightarrow> is_digit c"
proof (induction n rule: nat_str.induct)
  case (1 n)
  then show ?case
    by (subst (asm) (2) nat_str.simps) (auto simp: digit_char_is_digit split: if_splits)
qed

lemma nat_str_nonempty [simp]: "nat_str n \<noteq> []"
  by (subst nat_str.simps) simp

text \<open>A prefix followed by a number, the shape of every minted name, numbers apart.\<close>

interpretation numbered: name_supply "\<lambda>i. pre @ nat_str i @ post" for pre post :: string
  by unfold_locales (auto simp: inj_def)

lemmas fresh_numbered = numbered.fresh_from_notin

text \<open>Names whose first candidate is the bare hint and whose later ones carry a number.\<close>

definition hinted :: "string \<Rightarrow> string \<Rightarrow> nat \<Rightarrow> string" where
  "hinted hint sep i = (if i = 0 then hint else hint @ sep @ nat_str i)"

interpretation hint_names: name_supply "hinted hint sep" for hint sep :: string
  by unfold_locales (auto simp: inj_def hinted_def)

lemmas fresh_hinted = hint_names.fresh_from_notin

section \<open>Text\<close>

definition int_str :: "int \<Rightarrow> string" where
  "int_str i = (if i < 0 then ''-'' @ nat_str (nat (- i)) else nat_str (nat i))"

text \<open>\<open>split_once\<close> at a character: what stands before its first occurrence, and after.\<close>

fun split_once :: "char \<Rightarrow> string \<Rightarrow> (string \<times> string) option" where
  "split_once c [] = None"
| "split_once c (x # xs) =
     (if x = c then Some ([], xs) else map_option (\<lambda>(a, b). (x # a, b)) (split_once c xs))"

fun join :: "string \<Rightarrow> string list \<Rightarrow> string" where
  "join sep [] = []"
| "join sep [x] = x"
| "join sep (x # y # xs) = x @ sep @ join sep (y # xs)"

lemma split_once_Some: "split_once c s = Some (a, b) \<Longrightarrow> s = a @ c # b \<and> c \<notin> set a"
  by (induction s arbitrary: a) (auto split: if_splits)

lemma split_once_iff: "split_once c s = Some (a, b) \<longleftrightarrow> s = a @ c # b \<and> c \<notin> set a"
proof
  show "s = a @ c # b \<and> c \<notin> set a \<Longrightarrow> split_once c s = Some (a, b)"
    by (induction a arbitrary: s) auto
qed (rule split_once_Some)

text \<open>
  A string is its UTF-8 bytes; \<open>chars\<close> decodes it to code points. A \<open>str\<close> is always valid
  UTF-8, so the cases a decoder would reject are never reached.
\<close>

definition utf8_tail :: "char \<Rightarrow> nat" where
  "utf8_tail c = of_char c mod 64"

definition utf8_width :: "nat \<Rightarrow> nat" where
  "utf8_width x = (if x < 128 then 1 else if x < 224 then 2 else if x < 240 then 3 else 4)"

definition utf8_head :: "nat \<Rightarrow> nat" where
  "utf8_head x = (if x < 128 then x else if x < 224 then x mod 32 else if x < 240 then x mod 16 else x mod 8)"

definition utf8_next :: "char \<Rightarrow> string \<Rightarrow> nat" where
  "utf8_next c t = foldl (\<lambda>acc d. acc * 64 + utf8_tail d) (utf8_head (of_char c))
     (take (utf8_width (of_char c) - 1) t)"

function chars :: "string \<Rightarrow> nat list" where
  "chars [] = []"
| "chars (c # t) = utf8_next c t # chars (drop (utf8_width (of_char c) - 1) t)"
  by pat_completeness auto
termination by (relation "measure length") auto

definition utf8_char :: "nat \<Rightarrow> string" where
  "utf8_char n =
     (if n < 128 then [char_of n]
      else if n < 2048 then [char_of (192 + n div 64), char_of (128 + n mod 64)]
      else if n < 65536 then
        [char_of (224 + n div 4096), char_of (128 + n div 64 mod 64), char_of (128 + n mod 64)]
      else
        [char_of (240 + n div 262144), char_of (128 + n div 4096 mod 64),
         char_of (128 + n div 64 mod 64), char_of (128 + n mod 64)])"

definition utf8 :: "nat list \<Rightarrow> string" where
  "utf8 ns = concat (map utf8_char ns)"

definition utf16_units :: "nat \<Rightarrow> nat list" where
  "utf16_units n =
     (if n < 65536 then [n]
      else [55296 + (n - 65536) div 1024, 56320 + (n - 65536) mod 1024])"

definition utf16 :: "string \<Rightarrow> nat list" where
  "utf16 s = concat (map utf16_units (chars s))"

lemma utf8_tail_cont: "m < 64 \<Longrightarrow> utf8_tail (char_of (128 + m)) = m"
proof -
  assume "m < 64"
  then have "(128 + m) mod 256 = 128 + m" "(m + 64 * 2) mod 64 = m" by (simp_all only: mod_mult_self2) simp_all
  then show ?thesis by (simp add: utf8_tail_def add.commute)
qed

lemma of_char_small: "n < 256 \<Longrightarrow> of_char (char_of n) = (n :: nat)"
  by (simp only: of_char_of) simp

lemma chars_1: "a < 128 \<Longrightarrow> chars (char_of a # s) = a # chars s"
  by (simp add: utf8_next_def utf8_width_def utf8_head_def of_char_small del: of_char_of)

lemma chars_2:
  assumes "a < 32" "b < 64"
  shows "chars (char_of (192 + a) # char_of (128 + b) # s) = (a * 64 + b) # chars s"
proof -
  have "(192 + a) mod 32 = a" using assms mod_mult_self2 [of a 32 6] by (simp add: add.commute)
  then show ?thesis using assms
    by (simp add: utf8_next_def utf8_width_def utf8_head_def of_char_small utf8_tail_cont del: of_char_of)
qed

lemma chars_3:
  assumes "a < 16" "b < 64" "c < 64"
  shows "chars (char_of (224 + a) # char_of (128 + b) # char_of (128 + c) # s) = ((a * 64 + b) * 64 + c) # chars s"
proof -
  have "(224 + a) mod 16 = a" using assms mod_mult_self2 [of a 16 14] by (simp add: add.commute)
  then show ?thesis using assms
    by (simp add: utf8_next_def utf8_width_def utf8_head_def of_char_small utf8_tail_cont del: of_char_of)
qed

lemma chars_4:
  assumes "a < 8" "b < 64" "c < 64" "d < 64"
  shows "chars (char_of (240 + a) # char_of (128 + b) # char_of (128 + c) # char_of (128 + d) # s) =
    (((a * 64 + b) * 64 + c) * 64 + d) # chars s"
proof -
  have "(240 + a) mod 8 = a" using assms mod_mult_self2 [of a 8 30] by (simp add: add.commute)
  then show ?thesis using assms
    by (simp add: utf8_next_def utf8_width_def utf8_head_def of_char_small utf8_tail_cont numeral_3_eq_3 del: of_char_of)
qed

lemma chars_utf8_char:
  assumes "n < 1114112"
  shows "chars (utf8_char n @ s) = n # chars s"
proof -
  have m: "k mod 64 < 64" for k :: nat by simp
  consider "n < 128" | "128 \<le> n" "n < 2048" | "2048 \<le> n" "n < 65536" | "65536 \<le> n" by linarith
  then show ?thesis
  proof cases
    case 1
    then show ?thesis by (simp add: utf8_char_def chars_1 del: chars.simps)
  next
    case 2
    then have "n div 64 < 32" by auto
    from chars_2 [OF this m, of n s] 2 show ?thesis by (simp add: utf8_char_def del: chars.simps)
  next
    case 3
    then have q: "n div 4096 < 16" by auto
    have "n div 4096 * 64 + n div 64 mod 64 = n div 64"
      using div_mult_mod_eq [of "n div 64" 64] by (simp add: div_mult2_eq [symmetric])
    then have "(n div 4096 * 64 + n div 64 mod 64) * 64 + n mod 64 = n" by simp
    with chars_3 [OF q m m, of "n div 64" n s] 3 show ?thesis by (simp add: utf8_char_def del: chars.simps)
  next
    case 4
    then have q: "n div 262144 < 8" using assms by auto
    have "n div 262144 * 64 + n div 4096 mod 64 = n div 4096"
      using div_mult_mod_eq [of "n div 4096" 64] by (simp add: div_mult2_eq [symmetric])
    moreover have "n div 4096 * 64 + n div 64 mod 64 = n div 64"
      using div_mult_mod_eq [of "n div 64" 64] by (simp add: div_mult2_eq [symmetric])
    ultimately have "((n div 262144 * 64 + n div 4096 mod 64) * 64 + n div 64 mod 64) * 64 + n mod 64 = n" by simp
    with chars_4 [OF q m m m, of "n div 4096" "n div 64" n s] 4
    show ?thesis by (simp add: utf8_char_def del: chars.simps)
  qed
qed

lemma chars_utf8: "list_all (\<lambda>n. n < 1114112) ns \<Longrightarrow> chars (utf8 ns @ s) = ns @ chars s"
  by (induction ns) (simp_all add: utf8_def chars_utf8_char del: chars.simps(2))

end
