(* ===== verification/IR.thy ===== *)
theory IR
  imports Prelude
begin

text \<open>
  The grammar IR of \<open>rs/src/ir.rs\<close> and its working copy in \<open>rs/src/shared.rs\<close>. The two differ
  only in how an element is owned (\<open>Element\<close> there, \<open>Rc<Element>\<close> here), which a value does not
  show, so one set of records models both. Strings are their UTF-8 bytes, as in Rust.
  An \<open>EmitError\<close> keeps its rule and span; its message is a constructor of \<open>emit_failure\<close> with
  the values the message interpolates, in place of the English text around them.
\<close>

section \<open>Elements and productions\<close>

record src_span =
  sp_s :: nat
  sp_e :: nat
  sp_r :: "nat option"
  sp_c :: "nat option"

definition span_new :: "nat \<Rightarrow> nat \<Rightarrow> src_span" where
  "span_new s e = \<lparr>sp_s = s, sp_e = e, sp_r = None, sp_c = None\<rparr>"

definition span_at :: "nat \<Rightarrow> nat \<Rightarrow> nat \<Rightarrow> nat \<Rightarrow> src_span" where
  "span_at s e r c = \<lparr>sp_s = s, sp_e = e, sp_r = Some r, sp_c = Some c\<rparr>"

type_synonym debts = "(string \<times> int) list"

datatype kind =
    Term string "bool option" "string option"
  | Ref string "debts option"
  | Token string
  | Prose string
  | Regex string string
  | Opt element
  | Star element "string option"
  | Plus element
  | Rep nat "nat option" element
  | Group "element list list"
and element = Element (kind_of: kind) (sp_of: "src_span option")

type_synonym seq = "element list"

definition el_of :: "kind \<Rightarrow> element" where
  "el_of k = Element k None"

definition el_term :: "string \<Rightarrow> element" where
  "el_term literal = el_of (Term literal None None)"

definition el_term_cs :: "string \<Rightarrow> bool \<Rightarrow> element" where
  "el_term_cs literal cs = el_of (Term literal (Some cs) None)"

definition el_reference :: "string \<Rightarrow> element" where
  "el_reference name = el_of (Ref name None)"

definition el_token :: "string \<Rightarrow> element" where
  "el_token name = el_of (Token name)"

definition el_prose :: "string \<Rightarrow> element" where
  "el_prose text = el_of (Prose text)"

definition el_regex :: "string \<Rightarrow> string \<Rightarrow> element" where
  "el_regex pattern flags = el_of (Regex pattern flags)"

definition el_opt :: "element \<Rightarrow> element" where
  "el_opt inner = el_of (Opt inner)"

definition el_star :: "element \<Rightarrow> element" where
  "el_star inner = el_of (Star inner None)"

definition el_plus :: "element \<Rightarrow> element" where
  "el_plus inner = el_of (Plus inner)"

definition el_rep :: "nat \<Rightarrow> nat option \<Rightarrow> element \<Rightarrow> element" where
  "el_rep mn mx inner = el_of (Rep mn mx inner)"

definition el_group :: "seq list \<Rightarrow> element" where
  "el_group alts = el_of (Group alts)"

definition with_span :: "element \<Rightarrow> src_span \<Rightarrow> element" where
  "with_span el sp = Element (kind_of el) (Some sp)"

definition ref_name :: "element \<Rightarrow> string option" where
  "ref_name el = (case kind_of el of Ref name _ \<Rightarrow> Some name | _ \<Rightarrow> None)"

definition is_ref :: "element \<Rightarrow> bool" where
  "is_ref el = (case kind_of el of Ref _ _ \<Rightarrow> True | _ \<Rightarrow> False)"

definition is_ref_to :: "element \<Rightarrow> string \<Rightarrow> bool" where
  "is_ref_to el name = (case kind_of el of Ref n _ \<Rightarrow> n = name | _ \<Rightarrow> False)"

definition literal_of :: "element \<Rightarrow> string option" where
  "literal_of el = (case kind_of el of Term literal _ _ \<Rightarrow> Some literal | _ \<Rightarrow> None)"

definition is_terminal :: "element \<Rightarrow> bool" where
  "is_terminal el =
     (case kind_of el of Term _ _ _ \<Rightarrow> True | Token _ \<Rightarrow> True | Regex _ _ \<Rightarrow> True | _ \<Rightarrow> False)"

definition el_inner :: "element \<Rightarrow> element option" where
  "el_inner el =
     (case kind_of el of Opt i \<Rightarrow> Some i | Star i _ \<Rightarrow> Some i | Plus i \<Rightarrow> Some i
      | Rep _ _ i \<Rightarrow> Some i | _ \<Rightarrow> None)"

datatype node_kind = UserNode | CoreNode | HelperNode

definition node_kind_str :: "node_kind \<Rightarrow> string" where
  "node_kind_str k =
     (case k of UserNode \<Rightarrow> ''user'' | CoreNode \<Rightarrow> ''core'' | HelperNode \<Rightarrow> ''helper'')"

record value_annotation =
  va_kind :: string
  va_members :: "string list"

definition va_object :: "string list \<Rightarrow> value_annotation" where
  "va_object members = \<lparr>va_kind = ''object'', va_members = members\<rparr>"

definition va_array :: value_annotation where
  "va_array = \<lparr>va_kind = ''array'', va_members = []\<rparr>"

record probe_dispatch_spec =
  pd_probe_rule :: string
  pd_disambiguator :: element
  pd_with_branch :: string
  pd_no_branch :: string

record production =
  p_name :: string
  p_alts :: "seq list"
  p_incremental :: bool
  p_node_kind :: node_kind
  p_origin :: "string option"
  p_sp :: "src_span option"
  p_value :: "value_annotation option"
  p_tail_repeat :: "seq option"
  p_repeat_helper :: bool
  p_repeat_loop :: bool
  p_debt_guard :: "string option"
  p_debt_owed :: "string list option"
  p_probe_dispatch :: "probe_dispatch_spec option"
  p_probe_helper :: "element list option"

definition default_production :: production where
  "default_production =
     \<lparr>p_name = [], p_alts = [], p_incremental = False, p_node_kind = UserNode, p_origin = None,
      p_sp = None, p_value = None, p_tail_repeat = None, p_repeat_helper = False,
      p_repeat_loop = False, p_debt_guard = None, p_debt_owed = None, p_probe_dispatch = None,
      p_probe_helper = None\<rparr>"

definition prod_new :: "string \<Rightarrow> seq list \<Rightarrow> production" where
  "prod_new name alts = default_production\<lparr>p_name := name, p_alts := alts\<rparr>"

text \<open>A production rebuilt from its author-facing fields: every rewrite flag is left behind.\<close>

definition rebuilt :: "production \<Rightarrow> seq list \<Rightarrow> production" where
  "rebuilt p alts = default_production
     \<lparr>p_name := p_name p, p_alts := alts, p_node_kind := p_node_kind p, p_origin := p_origin p,
      p_sp := p_sp p, p_value := p_value p\<rparr>"

definition prod_helper :: "string \<Rightarrow> seq list \<Rightarrow> string \<Rightarrow> production" where
  "prod_helper name alts origin = default_production
     \<lparr>p_name := name, p_alts := alts, p_node_kind := HelperNode, p_origin := Some origin\<rparr>"

definition origin_of :: "production \<Rightarrow> string" where
  "origin_of p = (case p_origin p of Some n \<Rightarrow> n | None \<Rightarrow> p_name p)"

record ambiguity_report =
  ar_rule :: string
  ar_alt_idx :: nat
  ar_opt_idx :: nat
  ar_reason :: string
  ar_resolved :: bool

record grammar =
  productions :: "production list"
  ambiguities :: "ambiguity_report list"
  removals :: "string list"
  clear_all :: bool

definition grammar_new :: "production list \<Rightarrow> grammar" where
  "grammar_new ps = \<lparr>productions = ps, ambiguities = [], removals = [], clear_all = False\<rparr>"

definition find_prod :: "grammar \<Rightarrow> string \<Rightarrow> production option" where
  "find_prod g name = find (\<lambda>p. p_name p = name) (productions g)"

abbreviation names :: "production list \<Rightarrow> string list" where
  "names ps \<equiv> map p_name ps"

lemma p_name_rebuilt [simp]: "p_name (rebuilt p alts) = p_name p"
  by (simp add: rebuilt_def)

lemma p_alts_rebuilt [simp]: "p_alts (rebuilt p alts) = alts"
  by (simp add: rebuilt_def)

lemma origin_of_rebuilt [simp]: "origin_of (rebuilt p alts) = origin_of p"
  by (simp add: rebuilt_def origin_of_def split: option.splits)

lemma p_name_helper [simp]: "p_name (prod_helper n alts o') = n"
  by (simp add: prod_helper_def)

lemma p_alts_helper [simp]: "p_alts (prod_helper n alts o') = alts"
  by (simp add: prod_helper_def)

lemma kind_of_reference [simp]: "kind_of (el_reference n) = Ref n None"
  by (simp add: el_reference_def el_of_def)

lemma is_ref_to_iff: "is_ref_to el n \<longleftrightarrow> (\<exists>d. kind_of el = Ref n d)"
  by (auto simp: is_ref_to_def split: kind.splits)

lemma find_prod_Some: "find_prod g n = Some p \<Longrightarrow> p \<in> set (productions g) \<and> p_name p = n"
  by (auto simp: find_prod_def find_Some_iff in_set_conv_nth)

lemma find_prod_None: "find_prod g n = None \<longleftrightarrow> n \<notin> set (names (productions g))"
  by (auto simp: find_prod_def find_None_iff)

text \<open>Induction over elements: the sugar wraps one element, a group holds sequences of them.\<close>

lemma element_induct [case_names Term Ref Token Prose Regex Opt Star Plus Rep Group]:
  assumes "\<And>l c t sp. P (Element (Term l c t) sp)"
    and "\<And>n d sp. P (Element (Ref n d) sp)"
    and "\<And>n sp. P (Element (Token n) sp)"
    and "\<And>t sp. P (Element (Prose t) sp)"
    and "\<And>p f sp. P (Element (Regex p f) sp)"
    and "\<And>i sp. P i \<Longrightarrow> P (Element (Opt i) sp)"
    and "\<And>i g sp. P i \<Longrightarrow> P (Element (Star i g) sp)"
    and "\<And>i sp. P i \<Longrightarrow> P (Element (Plus i) sp)"
    and "\<And>mn mx i sp. P i \<Longrightarrow> P (Element (Rep mn mx i) sp)"
    and "\<And>alts sp. (\<And>alt e. alt \<in> set alts \<Longrightarrow> e \<in> set alt \<Longrightarrow> P e) \<Longrightarrow>
           P (Element (Group alts) sp)"
  shows "P el"
proof -
  have "\<forall>sp. P (Element k sp)" and "P el" for k
    by (induction k and el rule: kind.induct element.induct) (use assms in \<open>auto\<close>)
  then show ?thesis by blast
qed

section \<open>Refusals\<close>

text \<open>What the emit budget names in a refusal: the subject, and the step under way.\<close>

datatype subject = SubjectRule string | SubjectClass string | SubjectRemovals nat

datatype emit_step =
    StepProbe | StepTokenSet | StepTokenClass | StepFirst | StepFollow | StepPairs
  | StepAlternates | StepLookahead | StepRemove

text \<open>A part of an annotated rule, as a refusal names it.\<close>

datatype value_part = PartElement nat | PartMember string

datatype emit_failure =
    NestsTooDeep string
  | ProseName string
  | NotRemovalTarget string
  | ProseOnly string string
  | ProseInside string string
  | NoRules
  | BadRepBounds string nat nat
  | NonConsumingItem string
  | RepTooLarge string nat "nat option"
  | ProbeNonConsuming string
  | TailNonConsuming string
  | LeftRecAlternatives string string nat nat
  | LeftRecElements string string nat nat nat
  | LeftRecSplit string nat nat
  | PurelyLeftRecursive string
  | ProbeOverValue string
  | FactorsValue string string
  | OverBudget subject emit_step nat nat bool
  | UnknownRule string string
  | InternalKind string
  | FoldsAnnotated string string string
  | UnknownValueKind string string
  | ValueAlternatives string nat
  | EmptyMember string
  | MemberTwice string string
  | MemberIsSource string
  | ValueOverProse string string
  | ArrayNamesMembers string nat
  | MemberCount string nat nat
  | FoldNotOnePart string string
  | TextReachesItself string value_part
  | TextReachesValue string value_part string
  | NoStartProduction
  | FlagUnknown string char string
  | FlagTwice string char string
  | FlagsBothUV string string
  | BadRegex string
  | ProbeUnresolved string string
  | LoopShape string
  | LoopTerminalItem string
  | NamesBuild string nat nat
  | PartsBuild string nat nat
  | NullableAlternative string nat
  | UnitsBelow string nat nat

record emit_error =
  e_what :: emit_failure
  e_rule :: "string option"
  e_sp :: "src_span option"

definition err_new :: "emit_failure \<Rightarrow> emit_error" where
  "err_new w = \<lparr>e_what = w, e_rule = None, e_sp = None\<rparr>"

definition err_at :: "emit_failure \<Rightarrow> string \<Rightarrow> src_span option \<Rightarrow> emit_error" where
  "err_at w rule sp = \<lparr>e_what = w, e_rule = Some rule, e_sp = sp\<rparr>"

section \<open>Limits\<close>

definition MAX_ELEMENT_DEPTH :: nat where "MAX_ELEMENT_DEPTH = 128"
definition MAX_REPEAT_EXPANSION :: nat where "MAX_REPEAT_EXPANSION = 8192"
definition MAX_LEFT_RECURSION_EXPANSION :: nat where "MAX_LEFT_RECURSION_EXPANSION = 512"
definition MAX_LEFT_RECURSION_ELEMENTS :: nat where "MAX_LEFT_RECURSION_ELEMENTS = 131072"

section \<open>Walks\<close>

text \<open>What a walk of an element pushes: the inner element of sugar, the elements of a group.\<close>

definition children :: "element \<Rightarrow> element list" where
  "children el =
     (case kind_of el of Opt i \<Rightarrow> [i] | Star i _ \<Rightarrow> [i] | Plus i \<Rightarrow> [i] | Rep _ _ i \<Rightarrow> [i]
      | Group alts \<Rightarrow> concat alts | _ \<Rightarrow> [])"

lemma size_concat_alts:
  "sum_list (map size (concat alts)) \<le> size_list (size_list size) (alts :: element list list)"
proof (induction alts)
  case (Cons a alts)
  have "sum_list (map size a) \<le> size_list size a" by (induction a) auto
  with Cons show ?case by simp
qed simp

lemma children_smaller: "sum_list (map size (children el)) < size el"
proof (cases el)
  case (Element k sp)
  then show ?thesis
    using size_concat_alts by (auto simp: children_def le_imp_less_Suc less_SucI split: kind.splits)
qed

lemma element_children_induct [case_names El]:
  assumes "\<And>el. (\<And>c. c \<in> set (children el) \<Longrightarrow> P c) \<Longrightarrow> P el"
  shows "P el"
  by (induction el rule: element_induct) (rule assms, auto simp: children_def)+

text \<open>
  The depth check keeps its own stack, so that finding the depth cannot overflow the call
  stack. The stack's top is the head of the list.
\<close>

function depth_walk :: "(element \<times> nat) list \<Rightarrow> bool" where
  "depth_walk [] = False"
| "depth_walk ((el, depth) # stack) =
     (MAX_ELEMENT_DEPTH < depth \<or>
      depth_walk (rev (map (\<lambda>c. (c, Suc depth)) (children el)) @ stack))"
  by pat_completeness auto
termination
proof (relation "measure (\<lambda>st. sum_list (map (size \<circ> fst) st))")
  fix el depth and stack :: "(element \<times> nat) list"
  have "sum_list (map (size \<circ> fst) (rev (map (\<lambda>c. (c, Suc depth)) (children el))))
        = sum_list (map size (children el))"
    by (simp add: rev_map [symmetric] comp_def sum_list_rev)
  then show "(rev (map (\<lambda>c. (c, Suc depth)) (children el)) @ stack, (el, depth) # stack)
          \<in> measure (\<lambda>st. sum_list (map (size \<circ> fst) st))"
    using children_smaller [of el] by simp
qed simp

text \<open>The roots the check walks: the alternatives, a tail separator, a probe's vocabulary.\<close>

definition depth_roots :: "production \<Rightarrow> element list" where
  "depth_roots p =
     concat (p_alts p) @ (case p_tail_repeat p of None \<Rightarrow> [] | Some sep \<Rightarrow> sep) @
     (case p_probe_helper p of None \<Rightarrow> [] | Some vocab \<Rightarrow> vocab)"

definition check_prod_depth :: "production \<Rightarrow> (emit_error, unit) result" where
  "check_prod_depth p =
     (if depth_walk (rev (map (\<lambda>el. (el, 1)) (depth_roots p)))
      then Inl (err_at (NestsTooDeep (p_name p)) (p_name p) (p_sp p)) else Inr ())"

definition check_element_depth :: "grammar \<Rightarrow> (emit_error, unit) result" where
  "check_element_depth g = res_check check_prod_depth (productions g)"

text \<open>How deep an element nests, itself included.\<close>

fun el_depth :: "element \<Rightarrow> nat" where
  "el_depth (Element (Opt i) _) = Suc (el_depth i)"
| "el_depth (Element (Star i _) _) = Suc (el_depth i)"
| "el_depth (Element (Plus i) _) = Suc (el_depth i)"
| "el_depth (Element (Rep _ _ i) _) = Suc (el_depth i)"
| "el_depth (Element (Group alts) _) =
     Suc (foldr max (map (\<lambda>alt. foldr max (map el_depth alt) 0) alts) 0)"
| "el_depth _ = 1"

lemma foldr_max_le: "foldr max (xs :: nat list) 0 \<le> m \<longleftrightarrow> (\<forall>x\<in>set xs. x \<le> m)"
  by (induction xs) auto

lemma el_depth_le: "el_depth el \<le> Suc m \<longleftrightarrow> (\<forall>c\<in>set (children el). el_depth c \<le> m)"
proof (cases el)
  case (Element k sp)
  then show ?thesis
    by (cases k) (simp_all add: children_def foldr_max_le)
qed

lemma el_depth_pos [simp]: "0 < el_depth el"
  by (cases el rule: el_depth.cases) auto

lemma depth_walk_iff:
  "depth_walk st \<longleftrightarrow> (\<exists>(el, d)\<in>set st. MAX_ELEMENT_DEPTH < d + el_depth el - 1)"
proof (induction st rule: depth_walk.induct)
  case (2 el d st)
  have step: "MAX_ELEMENT_DEPTH < d + el_depth el - 1 \<longleftrightarrow>
      MAX_ELEMENT_DEPTH < d \<or> (\<exists>c\<in>set (children el). MAX_ELEMENT_DEPTH < Suc d + el_depth c - 1)"
    (is "_ \<longleftrightarrow> ?now \<or> ?deep")
  proof (cases ?now)
    case True
    then show ?thesis using el_depth_pos [of el] by linarith
  next
    case False
    then have "MAX_ELEMENT_DEPTH < d + el_depth el - 1 \<longleftrightarrow> \<not> el_depth el \<le> Suc (MAX_ELEMENT_DEPTH - d)"
      using el_depth_pos [of el] by linarith
    moreover have "MAX_ELEMENT_DEPTH < Suc d + el_depth c - 1 \<longleftrightarrow>
        \<not> el_depth c \<le> MAX_ELEMENT_DEPTH - d" for c
      using False by linarith
    ultimately show ?thesis using False by (simp only: el_depth_le) blast
  qed
  show ?case
  proof (cases "MAX_ELEMENT_DEPTH < d")
    case True
    then have "MAX_ELEMENT_DEPTH < d + el_depth el - 1" using el_depth_pos [of el] by linarith
    with True show ?thesis by auto
  next
    case False
    have "(\<exists>x\<in>set (rev (map (\<lambda>c. (c, Suc d)) (children el)) @ st).
             case x of (el, d) \<Rightarrow> MAX_ELEMENT_DEPTH < d + el_depth el - 1) \<longleftrightarrow>
          (\<exists>c\<in>set (children el). MAX_ELEMENT_DEPTH < Suc d + el_depth c - 1) \<or>
          (\<exists>(el, d)\<in>set st. MAX_ELEMENT_DEPTH < d + el_depth el - 1)"
      by (simp only: set_append set_rev set_map bex_Un bex_simps prod.case)
    with False step show ?thesis by (simp only: depth_walk.simps "2.IH") auto
  qed
qed simp

lemma check_prod_depth_iff:
  "check_prod_depth p = Inr () \<longleftrightarrow> (\<forall>el\<in>set (depth_roots p). el_depth el \<le> MAX_ELEMENT_DEPTH)"
  by (simp add: check_prod_depth_def depth_walk_iff) (meson not_le)

lemma check_element_depth_iff:
  "check_element_depth g = Inr () \<longleftrightarrow>
   (\<forall>p\<in>set (productions g). \<forall>el\<in>set (depth_roots p). el_depth el \<le> MAX_ELEMENT_DEPTH)"
  by (simp add: check_element_depth_def res_check_Inr check_prod_depth_iff)

text \<open>Every rule reference of a sequence, sugar included, in the order of first occurrence.\<close>

fun refs_in_el :: "element \<Rightarrow> string list \<Rightarrow> string list" where
  "refs_in_el (Element (Ref name _) _) out = iset_insert name out"
| "refs_in_el (Element (Opt i) _) out = refs_in_el i out"
| "refs_in_el (Element (Star i _) _) out = refs_in_el i out"
| "refs_in_el (Element (Plus i) _) out = refs_in_el i out"
| "refs_in_el (Element (Rep _ _ i) _) out = refs_in_el i out"
| "refs_in_el (Element (Group alts) _) out = foldl (\<lambda>acc a. foldl (\<lambda>acc' e. refs_in_el e acc') acc a) out alts"
| "refs_in_el _ out = out"

definition refs_in :: "seq \<Rightarrow> string list \<Rightarrow> string list" where
  "refs_in alt out = foldl (\<lambda>acc e. refs_in_el e acc) out alt"

fun tokens_in_el :: "element \<Rightarrow> string list \<Rightarrow> string list" where
  "tokens_in_el (Element (Token name) _) out = iset_insert name out"
| "tokens_in_el (Element (Opt i) _) out = tokens_in_el i out"
| "tokens_in_el (Element (Star i _) _) out = tokens_in_el i out"
| "tokens_in_el (Element (Plus i) _) out = tokens_in_el i out"
| "tokens_in_el (Element (Rep _ _ i) _) out = tokens_in_el i out"
| "tokens_in_el (Element (Group alts) _) out = foldl (\<lambda>acc a. foldl (\<lambda>acc' e. tokens_in_el e acc') acc a) out alts"
| "tokens_in_el _ out = out"

definition tokens_in :: "seq \<Rightarrow> string list \<Rightarrow> string list" where
  "tokens_in alt out = foldl (\<lambda>acc e. tokens_in_el e acc) out alt"

text \<open>The names an element mentions, as a set.\<close>

fun el_refs :: "element \<Rightarrow> string set" where
  "el_refs (Element (Ref name _) _) = {name}"
| "el_refs (Element (Opt i) _) = el_refs i"
| "el_refs (Element (Star i _) _) = el_refs i"
| "el_refs (Element (Plus i) _) = el_refs i"
| "el_refs (Element (Rep _ _ i) _) = el_refs i"
| "el_refs (Element (Group alts) _) = (\<Union>alt\<in>set alts. \<Union>e\<in>set alt. el_refs e)"
| "el_refs _ = {}"

abbreviation seq_refs :: "seq \<Rightarrow> string set" where
  "seq_refs alt \<equiv> (\<Union>e\<in>set alt. el_refs e)"

lemma set_foldl_union:
  "(\<And>out x. x \<in> set xs \<Longrightarrow> set (f out x) = set out \<union> g x) \<Longrightarrow>
   set (foldl f out xs) = set out \<union> (\<Union>x\<in>set xs. g x)"
  by (induction xs arbitrary: out) auto

lemma set_refs_in_el: "set (refs_in_el el out) = set out \<union> el_refs el"
  by (induction el arbitrary: out rule: element_induct) (simp_all add: set_foldl_union Un_commute)

lemma set_refs_in: "set (refs_in alt out) = set out \<union> seq_refs alt"
  by (simp add: refs_in_def set_foldl_union set_refs_in_el)

section \<open>Built-in tokens, directives and token keys\<close>

definition BUILTIN_TOKENS :: "(string \<times> string) list" where
  "BUILTIN_TOKENS = [(''TX'', ''#TX''), (''NR'', ''#NR''), (''ST'', ''#ST''), (''VL'', ''#VL'')]"

definition builtin_token :: "string \<Rightarrow> string option" where
  "builtin_token name = map_option snd (find (\<lambda>(bare, _). bare = name) BUILTIN_TOKENS)"

definition REMOVE_PROSE :: string where "REMOVE_PROSE = ''remove''"
definition REMOVE_ALL :: string where "REMOVE_ALL = ''all''"

definition is_prose_name :: "string \<Rightarrow> bool" where
  "is_prose_name name = (prefix ''<'' name \<and> suffix ''>'' name)"

definition is_ascii_alphabetic :: "char \<Rightarrow> bool" where
  "is_ascii_alphabetic c =
     (let n = (of_char c :: nat) in (65 \<le> n \<and> n \<le> 90) \<or> (97 \<le> n \<and> n \<le> 122))"

definition is_ascii_digit :: "char \<Rightarrow> bool" where
  "is_ascii_digit c = (let n = (of_char c :: nat) in 48 \<le> n \<and> n \<le> 57)"

definition is_ascii_alphanumeric :: "char \<Rightarrow> bool" where
  "is_ascii_alphanumeric c = (is_ascii_alphabetic c \<or> is_ascii_digit c)"

definition is_effectively_case_sensitive :: "string \<Rightarrow> bool option \<Rightarrow> bool" where
  "is_effectively_case_sensitive literal cs =
     (if cs = Some True then True else \<not> list_ex is_ascii_alphabetic literal)"

definition term_key :: "string \<Rightarrow> bool option \<Rightarrow> string" where
  "term_key literal cs =
     (if is_effectively_case_sensitive literal cs then ''cs:'' else ''ci:'') @ literal"

text \<open>\<open>term_key_of\<close> and \<open>regex_key\<close>; the former is only called on a term, and panics elsewhere.\<close>

definition term_key_of :: "element \<Rightarrow> string option" where
  "term_key_of el = (case kind_of el of Term literal cs _ \<Rightarrow> Some (term_key literal cs) | _ \<Rightarrow> None)"

definition regex_key :: "string \<Rightarrow> string \<Rightarrow> string" where
  "regex_key pattern flags = ''/'' @ pattern @ ''/'' @ flags"

lemma term_key_eq:
  "term_key l c = term_key l' c' \<longleftrightarrow>
   l = l' \<and> is_effectively_case_sensitive l c = is_effectively_case_sensitive l' c'"
  by (auto simp: term_key_def)

text \<open>The metacharacters a literal's regular expression escapes: all ASCII, so byte by byte.\<close>

definition REGEXP_META :: string where
  "REGEXP_META = [CHR 0x5C] @ ''^$.*+?()[]{}|''"

fun escape_regexp :: "string \<Rightarrow> string" where
  "escape_regexp [] = []"
| "escape_regexp (c # cs) =
     (if c \<in> set REGEXP_META then [CHR 0x5C, c] else [c]) @ escape_regexp cs"

end
