(* ===== verification/Language.thy ===== *)
theory Language
  imports IR
begin

text \<open>
  What a grammar describes. The code never computes a language; the passes are correct when
  they keep it, so it is the abstract specification they are held to. A grammar's language
  assigns each rule name the words it derives: the least assignment that every alternative
  of every production stays inside. What a terminal matches is decided by the engine's lexer,
  which is not part of the repository, so it is a parameter \<open>T\<close> of the whole theory.
\<close>

type_synonym 'a lang = "'a list set"
type_synonym 'a env = "string \<Rightarrow> 'a lang"
type_synonym 'a terminals = "kind \<Rightarrow> 'a lang"

named_theorems lang_simps \<open>equations of the language of elements and sequences\<close>

section \<open>Languages\<close>

definition conc :: "'a lang \<Rightarrow> 'a lang \<Rightarrow> 'a lang" where
  "conc A B = {u @ v | u v. u \<in> A \<and> v \<in> B}"

definition concs :: "'a lang list \<Rightarrow> 'a lang" where
  "concs As = foldr conc As {[]}"

fun lpow :: "nat \<Rightarrow> 'a lang \<Rightarrow> 'a lang" where
  "lpow 0 A = {[]}"
| "lpow (Suc n) A = conc A (lpow n A)"

definition lstar :: "'a lang \<Rightarrow> 'a lang" where
  "lstar A = (\<Union>n. lpow n A)"

definition rep_counts :: "nat \<Rightarrow> nat option \<Rightarrow> nat set" where
  "rep_counts mn mx = {k. mn \<le> k \<and> (case mx of None \<Rightarrow> True | Some m \<Rightarrow> k \<le> m)}"

lemma concI: "u \<in> A \<Longrightarrow> v \<in> B \<Longrightarrow> u @ v \<in> conc A B"
  by (auto simp: conc_def)

lemma concE:
  assumes "w \<in> conc A B" obtains u v where "w = u @ v" "u \<in> A" "v \<in> B"
  using assms by (auto simp: conc_def)

lemma conc_mono: "A \<subseteq> A' \<Longrightarrow> B \<subseteq> B' \<Longrightarrow> conc A B \<subseteq> conc A' B'"
  by (auto simp: conc_def)

lemma conc_empty_word [simp]: "conc {[]} A = A" "conc A {[]} = A"
  by (auto simp: conc_def)

lemma conc_empty [simp]: "conc {} A = {}" "conc A {} = {}"
  by (auto simp: conc_def)

lemma conc_assoc: "conc (conc A B) C = conc A (conc B C)"
  by (auto simp: conc_def) (metis append.assoc)+

lemma conc_Un: "conc (A \<union> B) C = conc A C \<union> conc B C" "conc A (B \<union> C) = conc A B \<union> conc A C"
  by (auto simp: conc_def)

lemma conc_UN: "conc (\<Union>x\<in>X. F x) C = (\<Union>x\<in>X. conc (F x) C)" "conc C (\<Union>x\<in>X. F x) = (\<Union>x\<in>X. conc C (F x))"
  by (auto simp: conc_def)

lemma Nil_in_conc [simp]: "[] \<in> conc A B \<longleftrightarrow> [] \<in> A \<and> [] \<in> B"
  by (auto simp: conc_def)

lemma concs_simps [simp]: "concs [] = {[]}" "concs (A # As) = conc A (concs As)"
  by (simp_all add: concs_def)

lemma concs_append: "concs (As @ Bs) = conc (concs As) (concs Bs)"
  by (induction As) (auto simp: conc_assoc)

lemma concs_mono: "list_all2 (\<subseteq>) As Bs \<Longrightarrow> concs As \<subseteq> concs Bs"
  by (induction rule: list_all2_induct) (simp_all add: conc_mono)

lemma concs_map_mono: "(\<And>x. x \<in> set xs \<Longrightarrow> f x \<subseteq> g x) \<Longrightarrow> concs (map f xs) \<subseteq> concs (map g xs)"
  by (induction xs) (simp_all add: conc_mono)

lemma concs_replicate: "concs (replicate n A) = lpow n A"
  by (induction n) auto

lemma lpow_mono: "A \<subseteq> B \<Longrightarrow> lpow n A \<subseteq> lpow n B"
  by (induction n) (simp_all add: conc_mono)

lemma lpow_add: "lpow (m + n) A = conc (lpow m A) (lpow n A)"
  by (induction m) (auto simp: conc_assoc)

lemma lstar_mono: "A \<subseteq> B \<Longrightarrow> lstar A \<subseteq> lstar B"
  unfolding lstar_def by (rule UN_mono [OF order_refl]) (rule lpow_mono)

lemma lstar_unfold: "lstar A = {[]} \<union> conc A (lstar A)"
proof -
  have "(\<Union>n. lpow n A) = lpow 0 A \<union> (\<Union>n. lpow (Suc n) A)"
    by (auto simp del: lpow.simps) (metis not0_implies_Suc)
  also have "\<dots> = {[]} \<union> conc A (\<Union>n. lpow n A)"
    by (simp only: conc_UN lpow.simps)
  finally show ?thesis by (simp only: lstar_def)
qed

lemma lstar_Nil [simp]: "[] \<in> lstar A"
  by (subst lstar_unfold) simp

lemma lstar_least:
  assumes "[] \<in> X" and "conc A X \<subseteq> X" shows "lstar A \<subseteq> X"
proof -
  have "lpow n A \<subseteq> X" for n
  proof (induction n)
    case (Suc n)
    then have "conc A (lpow n A) \<subseteq> conc A X" by (rule conc_mono [OF order_refl])
    with assms(2) show ?case by simp
  qed (use assms in simp)
  then show ?thesis by (auto simp: lstar_def)
qed

lemma lstar_least_seed:
  assumes "B \<subseteq> X" and "conc X A \<subseteq> X" shows "conc B (lstar A) \<subseteq> X"
proof -
  have "conc B (lpow n A) \<subseteq> X" for n
  proof (induction n)
    case (Suc n)
    have "lpow (Suc n) A = conc (lpow n A) A"
      using lpow_add [of n 1 A] by simp
    then show ?case
      using Suc assms(2) conc_mono [OF Suc order_refl] by (fastforce simp: conc_assoc [symmetric])
  qed (use assms in simp)
  then show ?thesis by (auto simp: lstar_def conc_UN)
qed

section \<open>Elements, sequences and grammars\<close>

fun elang :: "'a terminals \<Rightarrow> 'a env \<Rightarrow> element \<Rightarrow> 'a lang" where
  "elang T L (Element (Ref n _) _) = L n"
| "elang T L (Element (Opt i) _) = {[]} \<union> elang T L i"
| "elang T L (Element (Star i _) _) = lstar (elang T L i)"
| "elang T L (Element (Plus i) _) = conc (elang T L i) (lstar (elang T L i))"
| "elang T L (Element (Rep mn mx i) _) = (\<Union>k\<in>rep_counts mn mx. lpow k (elang T L i))"
| "elang T L (Element (Group alts) _) =
     \<Union> (set (map (\<lambda>alt. concs (map (elang T L) alt)) alts))"
| "elang T L (Element (Prose _) _) = {}"
| "elang T L (Element k _) = T k"

definition slang :: "'a terminals \<Rightarrow> 'a env \<Rightarrow> seq \<Rightarrow> 'a lang" where
  "slang T L alt = concs (map (elang T L) alt)"

text \<open>The union of a list of alternatives.\<close>

definition alang :: "'a terminals \<Rightarrow> 'a env \<Rightarrow> seq list \<Rightarrow> 'a lang" where
  "alang T L alts = (\<Union>alt\<in>set alts. slang T L alt)"

definition models :: "'a terminals \<Rightarrow> 'a env \<Rightarrow> production list \<Rightarrow> bool" where
  "models T L ps \<longleftrightarrow> (\<forall>p\<in>set ps. alang T L (p_alts p) \<subseteq> L (p_name p))"

definition glang :: "'a terminals \<Rightarrow> production list \<Rightarrow> 'a env" where
  "glang T ps n = \<Inter> {L n | L. models T L ps}"

lemma slang_simps [simp, lang_simps]:
  "slang T L [] = {[]}"
  "slang T L (e # alt) = conc (elang T L e) (slang T L alt)"
  by (simp_all add: slang_def)

lemma slang_append [simp, lang_simps]: "slang T L (a @ b) = conc (slang T L a) (slang T L b)"
  by (simp add: slang_def concs_append)

lemma slang_replicate: "slang T L (replicate n e) = lpow n (elang T L e)"
  by (simp add: slang_def map_replicate concs_replicate)

lemma elang_group [simp, lang_simps]: "elang T L (Element (Group alts) sp) = alang T L alts"
  by (simp add: alang_def slang_def)

lemma elang_reference [simp, lang_simps]: "elang T L (el_reference n) = L n"
  by (simp add: el_reference_def el_of_def)

lemma elang_sp: "elang T L (Element k sp) = elang T L (Element k sp')"
  by (cases k) auto

lemma alang_simps [simp, lang_simps]:
  "alang T L [] = {}"
  "alang T L (a # as) = slang T L a \<union> alang T L as"
  "alang T L (as @ bs) = alang T L as \<union> alang T L bs"
  by (auto simp: alang_def)

declare elang.simps(6) [simp del]

lemma elang_mono: "(\<And>n. L n \<subseteq> L' n) \<Longrightarrow> elang T L e \<subseteq> elang T L' e"
proof (induction e rule: element_induct)
  case (Group alts sp)
  have "slang T L alt \<subseteq> slang T L' alt" if "alt \<in> set alts" for alt
    unfolding slang_def using Group that by (intro concs_map_mono) auto
  then show ?case by (auto simp: alang_def)
next
  case (Rep mn mx i sp)
  then show ?case by (simp add: UN_mono lpow_mono)
qed (auto simp: lstar_mono conc_mono)

lemma slang_mono: "(\<And>n. L n \<subseteq> L' n) \<Longrightarrow> slang T L alt \<subseteq> slang T L' alt"
  unfolding slang_def by (intro concs_map_mono elang_mono)

lemma alang_mono: "(\<And>n. L n \<subseteq> L' n) \<Longrightarrow> alang T L alts \<subseteq> alang T L' alts"
  unfolding alang_def by (intro UN_mono order_refl slang_mono)

text \<open>Only the rules an element mentions matter to what it describes.\<close>

lemma elang_cong: "(\<And>n. n \<in> el_refs e \<Longrightarrow> L n = L' n) \<Longrightarrow> elang T L e = elang T L' e"
proof (induction e rule: element_induct)
  case (Group alts sp)
  have "slang T L alt = slang T L' alt" if "alt \<in> set alts" for alt
  proof -
    have "elang T L e = elang T L' e" if "e \<in> set alt" for e
      using Group.IH [OF \<open>alt \<in> set alts\<close> that] Group.prems \<open>alt \<in> set alts\<close> that by auto
    then show ?thesis unfolding slang_def by (metis map_cong)
  qed
  then show ?case by (auto simp: alang_def)
qed auto

lemma slang_cong: "(\<And>n. n \<in> seq_refs alt \<Longrightarrow> L n = L' n) \<Longrightarrow> slang T L alt = slang T L' alt"
  unfolding slang_def by (rule arg_cong [where f = concs], rule map_cong [OF refl], rule elang_cong) auto

abbreviation alts_refs :: "seq list \<Rightarrow> string set" where
  "alts_refs alts \<equiv> (\<Union>alt\<in>set alts. seq_refs alt)"

lemma alang_cong: "(\<And>n. n \<in> alts_refs alts \<Longrightarrow> L n = L' n) \<Longrightarrow> alang T L alts = alang T L' alts"
  unfolding alang_def by (rule SUP_cong [OF refl], rule slang_cong) auto

section \<open>The least assignment\<close>

lemma glang_least: "models T L ps \<Longrightarrow> glang T ps n \<subseteq> L n"
  by (auto simp: glang_def)

lemma glang_models: "models T (glang T ps) ps"
  unfolding models_def
proof (intro ballI)
  fix p assume p: "p \<in> set ps"
  have "alang T (glang T ps) (p_alts p) \<subseteq> L (p_name p)" if "models T L ps" for L
  proof -
    have "alang T (glang T ps) (p_alts p) \<subseteq> alang T L (p_alts p)"
      by (rule alang_mono) (rule glang_least [OF that])
    with that p show ?thesis by (auto simp: models_def)
  qed
  then show "alang T (glang T ps) (p_alts p) \<subseteq> glang T ps (p_name p)"
    unfolding glang_def by blast
qed

lemma glang_unfold:
  "glang T ps n = (\<Union>p\<in>{p \<in> set ps. p_name p = n}. alang T (glang T ps) (p_alts p))" (is "_ = ?F n")
proof
  show "?F n \<subseteq> glang T ps n" using glang_models [of T ps] by (auto simp: models_def)
  have sub: "?F m \<subseteq> glang T ps m" for m using glang_models [of T ps] by (auto simp: models_def)
  have "models T ?F ps"
    unfolding models_def using alang_mono [of ?F "glang T ps"] sub by fastforce
  then show "glang T ps n \<subseteq> ?F n" by (rule glang_least)
qed

lemma glang_undefined: "n \<notin> set (names ps) \<Longrightarrow> glang T ps n = {}"
  by (subst glang_unfold) auto

lemma glang_alt: "p \<in> set ps \<Longrightarrow> alt \<in> set (p_alts p) \<Longrightarrow> slang T (glang T ps) alt \<subseteq> glang T ps (p_name p)"
  using glang_models [of T ps] by (auto simp: models_def alang_def)

text \<open>
  Words of the least assignment by induction: a property every alternative establishes from
  words that have it already.
\<close>

lemma glang_induct:
  assumes "w \<in> glang T ps n"
    and step: "\<And>p. p \<in> set ps \<Longrightarrow> alang T (\<lambda>m. {u \<in> glang T ps m. Q m u}) (p_alts p) \<subseteq> {u. Q (p_name p) u}"
  shows "Q n w"
proof -
  let ?L = "\<lambda>m. {u \<in> glang T ps m. Q m u}"
  have "models T ?L ps"
    unfolding models_def
  proof (intro ballI)
    fix p assume p: "p \<in> set ps"
    have "alang T ?L (p_alts p) \<subseteq> alang T (glang T ps) (p_alts p)" by (rule alang_mono) auto
    also have "\<dots> \<subseteq> glang T ps (p_name p)" using glang_models p by (auto simp: models_def)
    finally show "alang T ?L (p_alts p) \<subseteq> ?L (p_name p)" using step [OF p] by auto
  qed
  with assms(1) show ?thesis using glang_least by fastforce
qed

text \<open>
  Two grammars agree on a set of rules when the least assignment of each extends to, or is, an
  assignment of the other. Every rewrite pass is proved to keep the language this way.
\<close>

lemma glang_le:
  assumes "models T M ps'" and "M n \<subseteq> glang T ps n"
  shows "glang T ps' n \<subseteq> glang T ps n"
  using glang_least [OF assms(1), of n] assms(2) by blast

lemma glang_ge:
  assumes "models T (glang T ps') ps"
  shows "glang T ps n \<subseteq> glang T ps' n"
  by (rule glang_least [OF assms])

definition closed :: "production list \<Rightarrow> bool" where
  "closed ps \<longleftrightarrow> (\<forall>p\<in>set ps. alts_refs (p_alts p) \<subseteq> set (names ps))"

lemma glang_set_eq: "set ps = set ps' \<Longrightarrow> glang T ps = glang T ps'"
  by (simp add: glang_def models_def fun_eq_iff)

text \<open>Only names and alternatives matter.\<close>

lemma models_cong:
  assumes eq: "map (\<lambda>p. (p_name p, p_alts p)) ps = map (\<lambda>p. (p_name p, p_alts p)) ps'"
  shows "models T L ps \<longleftrightarrow> models T L ps'"
proof -
  have key: "models T L qs \<longleftrightarrow>
      (\<forall>x\<in>set (map (\<lambda>p. (p_name p, p_alts p)) qs). alang T L (snd x) \<subseteq> L (fst x))" for qs
    by (simp add: models_def)
  show ?thesis unfolding key [of ps] key [of ps'] eq ..
qed

lemma glang_cong:
  assumes "map (\<lambda>p. (p_name p, p_alts p)) ps = map (\<lambda>p. (p_name p, p_alts p)) ps'"
  shows "glang T ps = glang T ps'"
  by (rule ext) (simp only: glang_def models_cong [OF assms])

section \<open>Assignments that solve a grammar\<close>

text \<open>
  The language solves the grammar; conversely a rewrite keeps it once what solves either grammar
  models the other.
\<close>

definition solves :: "'a terminals \<Rightarrow> 'a env \<Rightarrow> production list \<Rightarrow> bool" where
  "solves T L ps \<longleftrightarrow> (\<forall>p\<in>set ps. L (p_name p) = alang T L (p_alts p))"

lemma solves_append [simp]: "solves T L (a @ b) \<longleftrightarrow> solves T L a \<and> solves T L b"
  by (auto simp: solves_def)

lemma solves_Cons [simp]: "solves T L (p # ps) \<longleftrightarrow> L (p_name p) = alang T L (p_alts p) \<and> solves T L ps"
  by (simp add: solves_def)

lemma solves_Nil [simp]: "solves T L []"
  by (simp add: solves_def)

lemma glang_solves: "distinct (names ps) \<Longrightarrow> solves T (glang T ps) ps"
  unfolding solves_def
proof
  fix p assume d: "distinct (names ps)" and p: "p \<in> set ps"
  have "{q \<in> set ps. p_name q = p_name p} = {p}" using d p by (auto simp: distinct_map inj_on_def)
  then show "glang T ps (p_name p) = alang T (glang T ps) (p_alts p)" using glang_unfold [of T ps "p_name p"] by simp
qed

lemma solves_models: "solves T L ps \<Longrightarrow> models T L ps"
  by (auto simp: solves_def models_def)

lemma glang_swap:
  assumes "distinct (names ps)" and "distinct (names ps')"
    and "\<And>L. solves T L ps \<Longrightarrow> models T L ps'" and "\<And>L. solves T L ps' \<Longrightarrow> models T L ps"
  shows "glang T ps' = glang T ps"
proof (rule ext, rule equalityI)
  fix n
  show "glang T ps' n \<subseteq> glang T ps n"
    by (rule glang_least) (rule assms(3), rule glang_solves, rule assms(1))
  show "glang T ps n \<subseteq> glang T ps' n"
    by (rule glang_least) (rule assms(4), rule glang_solves, rule assms(2))
qed

section \<open>Preconditions\<close>

fun no_prose :: "element \<Rightarrow> bool" where
  "no_prose (Element (Prose _) _) = False"
| "no_prose (Element (Group alts) _) = list_all (list_all no_prose) alts"
| "no_prose (Element (Opt i) _) = no_prose i"
| "no_prose (Element (Star i _) _) = no_prose i"
| "no_prose (Element (Plus i) _) = no_prose i"
| "no_prose (Element (Rep _ _ i) _) = no_prose i"
| "no_prose _ = True"

fun bounds_ok :: "element \<Rightarrow> bool" where
  "bounds_ok (Element (Group alts) _) = list_all (list_all bounds_ok) alts"
| "bounds_ok (Element (Opt i) _) = bounds_ok i"
| "bounds_ok (Element (Star i _) _) = bounds_ok i"
| "bounds_ok (Element (Plus i) _) = bounds_ok i"
| "bounds_ok (Element (Rep mn mx i) _) =
     ((case mx of None \<Rightarrow> True | Some m \<Rightarrow> mn \<le> m) \<and> bounds_ok i)"
| "bounds_ok _ = True"

abbreviation all_elements :: "(element \<Rightarrow> bool) \<Rightarrow> production list \<Rightarrow> bool" where
  "all_elements P ps \<equiv> list_all (\<lambda>p. list_all (list_all P) (p_alts p)) ps"

section \<open>A lexer for examples\<close>

text \<open>Terminals that match their literal, the instance the examples use.\<close>

definition literal_terminals :: "kind \<Rightarrow> string set" where
  "literal_terminals k = (case k of Term l _ _ \<Rightarrow> {l} | Token n \<Rightarrow> {n} | Regex p _ \<Rightarrow> {p} | _ \<Rightarrow> {})"

end
