(* ===== verification/Desugar.thy ===== *)
theory Desugar
  imports Language "HOL-Library.Multiset"
begin

text \<open>
  Desugaring (\<open>rs/src/desugar.rs\<close>): every option, repetition and group becomes a reference to a
  helper rule. \<open>None\<close> is the panic on a prose element, which prose resolution has dropped before
  the pass runs. The theorems: on a closed grammar with sensible bounds and no prose the pass
  returns, only terminals and references are left, and every authored rule describes what it
  described before.
\<close>

section \<open>The pass\<close>

record desugar_state =
  d_extra :: "production list"
  d_used :: "string list"
  d_origin :: string

definition gen_name :: "string \<Rightarrow> nat \<Rightarrow> string" where
  "gen_name hint i = ''_gen'' @ nat_str i @ (''_'' @ hint)"

definition d_fresh :: "string \<Rightarrow> desugar_state \<Rightarrow> string \<times> desugar_state" where
  "d_fresh hint d =
     (let name = fresh_from (gen_name hint) (d_used d) (Suc (length (d_extra d)))
      in (name, d\<lparr>d_used := iset_insert name (d_used d)\<rparr>))"

definition d_push :: "production \<Rightarrow> desugar_state \<Rightarrow> desugar_state" where
  "d_push p d = d\<lparr>d_extra := d_extra d @ [p]\<rparr>"

definition d_helper :: "string \<Rightarrow> seq list \<Rightarrow> bool \<Rightarrow> desugar_state \<Rightarrow> element \<times> desugar_state" where
  "d_helper name alts repeat_helper d =
     (el_reference name,
      d_push ((prod_helper name alts (d_origin d))\<lparr>p_repeat_helper := repeat_helper\<rparr>) d)"

text \<open>Every unbounded repetition: \<open>H = inner H / (empty)\<close>, flagged for the loop emitter.\<close>

definition d_repeat_loop ::
  "string \<Rightarrow> element \<Rightarrow> string option \<Rightarrow> desugar_state \<Rightarrow> element \<times> desugar_state" where
  "d_repeat_loop name inner debt_guard d =
     (el_reference name,
      d_push ((prod_helper name [[inner, el_reference name], []] (d_origin d))
        \<lparr>p_repeat_helper := True, p_repeat_loop := True, p_debt_guard := debt_guard\<rparr>) d)"

text \<open>A helper is named after what it repeats.\<close>

definition d_hint :: "element \<Rightarrow> string" where
  "d_hint inner =
     (case kind_of inner of
        Ref name _ \<Rightarrow> name
      | Term _ _ token_name \<Rightarrow> (case token_name of Some n \<Rightarrow> n | None \<Rightarrow> ''term'')
      | Token name \<Rightarrow> dropWhile (\<lambda>c. c = CHR ''#'') name
      | _ \<Rightarrow> ''x'')"

definition d_group :: "seq list \<Rightarrow> desugar_state \<Rightarrow> element \<times> desugar_state" where
  "d_group alts d = (let (name, d) = d_fresh ''group'' d in d_helper name alts False d)"

definition d_opt :: "element \<Rightarrow> desugar_state \<Rightarrow> element \<times> desugar_state" where
  "d_opt inner d =
     (let (name, d) = d_fresh (''opt_'' @ d_hint inner) d in d_helper name [[inner], []] True d)"

definition d_star :: "element \<Rightarrow> string option \<Rightarrow> desugar_state \<Rightarrow> element \<times> desugar_state" where
  "d_star inner debt_guard d =
     (let (name, d) = d_fresh (''star_'' @ d_hint inner) d in d_repeat_loop name inner debt_guard d)"

definition d_plus :: "element \<Rightarrow> desugar_state \<Rightarrow> element \<times> desugar_state" where
  "d_plus inner d =
     (let (tail_name, d) = d_fresh (''star_'' @ d_hint inner) d;
          (plus_name, d) = d_fresh (''plus_'' @ d_hint inner) d;
          (tail_ref, d) = d_repeat_loop tail_name inner None d
      in d_helper plus_name [[inner, tail_ref]] False d)"

text \<open>The nested optionals of a bounded repetition, built from the innermost out.\<close>

fun d_opt_chain ::
  "nat \<Rightarrow> element \<Rightarrow> element option \<Rightarrow> desugar_state \<Rightarrow> element option \<times> desugar_state" where
  "d_opt_chain 0 inner nested d = (nested, d)"
| "d_opt_chain (Suc k) inner nested d =
     (let sq = (case nested of Some r \<Rightarrow> [inner, r] | None \<Rightarrow> [inner]);
          (group_name, d) = d_fresh ''group'' d;
          (group_ref, d) = d_helper group_name [sq] False d;
          (opt_name, d) = d_fresh (''opt_'' @ group_name) d;
          (opt_ref, d) = d_helper opt_name [[group_ref], []] True d
      in d_opt_chain k inner (Some opt_ref) d)"

text \<open>
  \<open>min\<close> copies and a tail. The code runs the finished alternative through the pass once extends_state;
  all its elements are terminals and references, which the pass returns as they stand
  (\<open>d_element_leaf\<close> below).
\<close>

definition d_rep :: "nat \<Rightarrow> nat option \<Rightarrow> element \<Rightarrow> desugar_state \<Rightarrow> element \<times> desugar_state" where
  "d_rep mn mx inner d =
     (let (rep_name, d) = d_fresh (''rep_'' @ d_hint inner) d;
          copies = replicate mn inner;
          (rep_alt, d) =
            (case mx of
               None \<Rightarrow>
                 (let (tail_name, d) = d_fresh (''star_'' @ d_hint inner) d;
                      (tail_ref, d) = d_repeat_loop tail_name inner None d
                  in (copies @ [tail_ref], d))
             | Some m \<Rightarrow>
                 (let (nested, d) = d_opt_chain (m - mn) inner None d
                  in (case nested of Some r \<Rightarrow> copies @ [r] | None \<Rightarrow> copies, d)))
      in d_helper rep_name [rep_alt] False d)"

fun d_element :: "element \<Rightarrow> desugar_state \<Rightarrow> (element \<times> desugar_state) option" where
  "d_element (Element (Prose _) _) d = None"
| "d_element (Element (Group alts) _) d =
     Option.bind (state_map (\<lambda>alt d. state_map d_element alt d) alts d)
       (\<lambda>(inner_alts, d). Some (d_group inner_alts d))"
| "d_element (Element (Opt i) _) d = Option.bind (d_element i d) (\<lambda>(inner, d). Some (d_opt inner d))"
| "d_element (Element (Star i g) _) d =
     Option.bind (d_element i d) (\<lambda>(inner, d). Some (d_star inner g d))"
| "d_element (Element (Plus i) _) d = Option.bind (d_element i d) (\<lambda>(inner, d). Some (d_plus inner d))"
| "d_element (Element (Rep mn mx i) _) d =
     Option.bind (d_element i d) (\<lambda>(inner, d). Some (d_rep mn mx inner d))"
| "d_element el d = Some (el, d)"

abbreviation d_alt :: "seq \<Rightarrow> desugar_state \<Rightarrow> (seq \<times> desugar_state) option" where
  "d_alt \<equiv> state_map d_element"

abbreviation d_alts :: "seq list \<Rightarrow> desugar_state \<Rightarrow> (seq list \<times> desugar_state) option" where
  "d_alts \<equiv> state_map d_alt"

definition d_prod :: "production \<Rightarrow> desugar_state \<Rightarrow> (production \<times> desugar_state) option" where
  "d_prod p d =
     Option.bind (d_alts (p_alts p) (d\<lparr>d_origin := origin_of p\<rparr>)) (\<lambda>(alts, d).
       Some ((rebuilt p alts)
               \<lparr>p_probe_dispatch := p_probe_dispatch p, p_probe_helper := p_probe_helper p,
                p_tail_repeat := p_tail_repeat p, p_repeat_helper := p_repeat_helper p,
                p_repeat_loop := p_repeat_loop p, p_debt_guard := p_debt_guard p\<rparr>, d))"

definition desugar :: "grammar \<Rightarrow> grammar option" where
  "desugar g =
     Option.bind
       (state_map d_prod (productions g)
         \<lparr>d_extra = [], d_used = iset_extend [] (names (productions g)), d_origin = []\<rparr>)
       (\<lambda>(rewritten, d). Some (grammar_new (rewritten @ d_extra d)))"

section \<open>Minted names\<close>

interpretation gen_names: name_supply "gen_name hint" for hint
  by unfold_locales (auto simp: inj_def gen_name_def)

text \<open>Minting a name: it was free, it is taken afterwards, and it may mean anything.\<close>

lemma d_fresh_mints:
  assumes "d_fresh hint d = (name, d')"
  shows "name \<notin> set (d_used d)" and "d_used d' = d_used d @ [name]" and "d_extra d' = d_extra d"
    and "d_origin d' = d_origin d"
  using assms gen_names.fresh_from_notin
  by (auto simp: d_fresh_def Let_def iset_insert_def split: if_splits)

lemma el_refs_reference [simp]: "el_refs (el_reference n) = {n}"
  by (simp add: el_reference_def el_of_def)

section \<open>What is left, and that the pass returns\<close>

text \<open>The elements later passes see: a terminal or a reference to a rule.\<close>

definition is_leaf :: "element \<Rightarrow> bool" where
  "is_leaf el = (is_terminal el \<or> is_ref el)"

lemma is_leaf_reference [simp]: "is_leaf (el_reference n)"
  by (simp add: is_leaf_def is_ref_def el_reference_def el_of_def)

lemma d_element_leaf: "is_leaf el \<Longrightarrow> d_element el d = Some (el, d)"
  by (cases el rule: no_prose.cases) (auto simp: is_leaf_def is_terminal_def is_ref_def)

lemma d_alt_leaf: "list_all is_leaf alt \<Longrightarrow> d_alt alt d = Some (alt, d)"
  by (induction alt) (auto simp: d_element_leaf)

lemma d_element_total: "no_prose el \<Longrightarrow> \<exists>el' d'. d_element el d = Some (el', d')"
proof (induction el arbitrary: d rule: element_induct)
  case (Group alts sp)
  have "\<exists>a' b'. d_alt a b = Some (a', b')" if "a \<in> set alts" for a b
    by (rule state_map_total) (use Group.IH [OF that] Group.prems that in \<open>auto simp: list_all_iff\<close>)
  from state_map_total [of alts d_alt d, OF this] show ?case by auto
qed (auto simp: bind_eq_Some_conv split: prod.splits; metis surj_pair)+

text \<open>
  The leaves of a rewrite and the leaves of the helpers it mints. A helper's body holds the
  rewritten inner elements and references.
\<close>

abbreviation leafy :: "desugar_state \<Rightarrow> bool" where
  "leafy d \<equiv> all_elements is_leaf (d_extra d)"

lemma leafy_fresh: "d_fresh h d = (n, d') \<Longrightarrow> leafy d' = leafy d"
  using d_fresh_mints(3) by simp

lemma leafy_helper:
  "d_helper n alts rh d = (el', d') \<Longrightarrow> leafy d \<Longrightarrow> list_all (list_all is_leaf) alts \<Longrightarrow> leafy d' \<and> is_leaf el'"
  by (auto simp: d_helper_def d_push_def)

lemma leafy_repeat_loop:
  "d_repeat_loop n inner g d = (el', d') \<Longrightarrow> leafy d \<Longrightarrow> is_leaf inner \<Longrightarrow> leafy d' \<and> is_leaf el'"
  by (auto simp: d_repeat_loop_def d_push_def)

lemma leafy_opt_chain:
  "d_opt_chain k inner nested d = (nested', d') \<Longrightarrow> leafy d \<Longrightarrow> is_leaf inner \<Longrightarrow>
   pred_option is_leaf nested \<Longrightarrow> leafy d' \<and> pred_option is_leaf nested'"
proof (induction k arbitrary: nested d)
  case (Suc k)
  let ?sq = "case nested of Some r \<Rightarrow> [inner, r] | None \<Rightarrow> [inner]"
  obtain gn d1 where f1: "d_fresh ''group'' d = (gn, d1)" by fastforce
  obtain gr d2 where h1: "d_helper gn [?sq] False d1 = (gr, d2)" by fastforce
  obtain opn d3 where f2: "d_fresh (''opt_'' @ gn) d2 = (opn, d3)" by fastforce
  obtain opr d4 where h2: "d_helper opn [[gr], []] True d3 = (opr, d4)" by fastforce
  have rest: "d_opt_chain k inner (Some opr) d4 = (nested', d')"
    using Suc.prems(1) f1 h1 f2 h2 by simp
  have "list_all is_leaf ?sq" using Suc.prems(3,4) by (cases nested) auto
  then have "leafy d2 \<and> is_leaf gr" using leafy_helper [OF h1] leafy_fresh [OF f1] Suc.prems(2) by simp
  then have "leafy d4 \<and> is_leaf opr" using leafy_helper [OF h2] leafy_fresh [OF f2] by simp
  then show ?case using Suc.IH [OF rest] Suc.prems(3) by simp
qed simp

lemma leafy_rep:
  assumes "d_rep mn mx inner d = (el', d')" "leafy d" "is_leaf inner"
  shows "leafy d' \<and> is_leaf el'"
proof (cases mx)
  case None
  obtain rn d1 where f: "d_fresh (''rep_'' @ d_hint inner) d = (rn, d1)" by fastforce
  obtain tn d2 where f2: "d_fresh (''star_'' @ d_hint inner) d1 = (tn, d2)" by fastforce
  obtain tr d3 where l: "d_repeat_loop tn inner None d2 = (tr, d3)" by fastforce
  have h: "d_helper rn [replicate mn inner @ [tr]] False d3 = (el', d')"
    using assms(1) None f f2 l by (simp add: d_rep_def)
  have "leafy d2" using assms(2) leafy_fresh [OF f] leafy_fresh [OF f2] by simp
  then have "leafy d3 \<and> is_leaf tr" using leafy_repeat_loop [OF l] assms(3) by simp
  then show ?thesis using leafy_helper [OF h] assms(3) by (simp add: list_all_iff)
next
  case (Some m)
  obtain rn d1 where f: "d_fresh (''rep_'' @ d_hint inner) d = (rn, d1)" by fastforce
  obtain nd d2 where c: "d_opt_chain (m - mn) inner None d1 = (nd, d2)" by fastforce
  have h: "d_helper rn [replicate mn inner @ (case nd of None \<Rightarrow> [] | Some r \<Rightarrow> [r])] False d2 = (el', d')"
    using assms(1) Some f c by (auto simp: d_rep_def split: option.splits)
  have "leafy d2 \<and> pred_option is_leaf nd"
    using leafy_opt_chain [OF c] assms(2,3) leafy_fresh [OF f] by simp
  then show ?thesis using leafy_helper [OF h] assms(3) by (cases nd) (auto simp: list_all_iff)
qed

lemma leafy_minor:
  "d_group alts d = (el', d') \<Longrightarrow> leafy d \<Longrightarrow> list_all (list_all is_leaf) alts \<Longrightarrow> leafy d' \<and> is_leaf el'"
  "d_opt inner d = (el', d') \<Longrightarrow> leafy d \<Longrightarrow> is_leaf inner \<Longrightarrow> leafy d' \<and> is_leaf el'"
  "d_star inner g d = (el', d') \<Longrightarrow> leafy d \<Longrightarrow> is_leaf inner \<Longrightarrow> leafy d' \<and> is_leaf el'"
proof -
  show "leafy d' \<and> is_leaf el'" if "d_group alts d = (el', d')" "leafy d" "list_all (list_all is_leaf) alts"
    using that leafy_fresh leafy_helper unfolding d_group_def by (auto split: prod.splits)
  show "leafy d' \<and> is_leaf el'" if "d_opt inner d = (el', d')" "leafy d" "is_leaf inner"
    using that leafy_fresh leafy_helper [of _ "[[inner], []]"] unfolding d_opt_def by (auto split: prod.splits)
  show "leafy d' \<and> is_leaf el'" if "d_star inner g d = (el', d')" "leafy d" "is_leaf inner"
    using that leafy_fresh leafy_repeat_loop unfolding d_star_def by (auto split: prod.splits)
qed

lemma leafy_plus:
  assumes "d_plus inner d = (el', d')" "leafy d" "is_leaf inner"
  shows "leafy d' \<and> is_leaf el'"
proof -
  obtain tn d1 pn d2 tr d3 where f: "d_fresh (''star_'' @ d_hint inner) d = (tn, d1)"
      "d_fresh (''plus_'' @ d_hint inner) d1 = (pn, d2)"
    and l: "d_repeat_loop tn inner None d2 = (tr, d3)"
    and h: "d_helper pn [[inner, tr]] False d3 = (el', d')"
    using assms(1) by (auto simp: d_plus_def split: prod.splits)
  have "leafy d2" using assms(2) leafy_fresh [OF f(1)] leafy_fresh [OF f(2)] by simp
  then have "leafy d3 \<and> is_leaf tr" using leafy_repeat_loop [OF l] assms(3) by simp
  then show ?thesis using leafy_helper [OF h] assms(3) by simp
qed

lemma state_map_keeps:
  assumes "state_map f xs d = Some (ys, d')" and "I d"
    and "\<And>x d y d'. x \<in> set xs \<Longrightarrow> f x d = Some (y, d') \<Longrightarrow> I d \<Longrightarrow> I d' \<and> Q y"
  shows "I d' \<and> list_all Q ys"
  using assms
proof (induction xs arbitrary: d ys)
  case (Cons x xs)
  obtain y d1 zs where s: "f x d = Some (y, d1)" "state_map f xs d1 = Some (zs, d')" "ys = y # zs"
    using Cons.prems(1) by (auto simp: state_map_Cons_Some simp del: state_map.simps)
  have h: "I d1 \<and> Q y" by (rule Cons.prems(3) [OF _ s(1) Cons.prems(2)]) simp
  have "I d' \<and> list_all Q zs" by (rule Cons.IH [OF s(2)]) (use h Cons.prems(3) in auto)
  with h s(3) show ?case by simp
qed auto

lemma d_element_leafy: "d_element el d = Some (el', d') \<Longrightarrow> leafy d \<Longrightarrow> leafy d' \<and> is_leaf el'"
proof (induction el arbitrary: d el' d' rule: element_induct)
  case (Group alts sp)
  then obtain as' d1 where s: "d_alts alts d = Some (as', d1)" "d_group as' d1 = (el', d')"
    by (auto simp: bind_eq_Some_conv)
  have a: "leafy b' \<and> list_all is_leaf a'" if "a \<in> set alts" "d_alt a b = Some (a', b')" "leafy b" for a b a' b'
    by (rule state_map_keeps [where I = leafy, OF that(2,3)]) (use Group.IH [OF that(1)] in blast)
  have "leafy d1 \<and> list_all (list_all is_leaf) as'"
    by (rule state_map_keeps [where I = leafy, OF s(1) Group.prems(2)]) (use a in blast)
  then show ?case using leafy_minor(1) [OF s(2)] by blast
next
  case (Opt i sp)
  then obtain inner d1 where s: "d_element i d = Some (inner, d1)" "d_opt inner d1 = (el', d')"
    by (auto simp: bind_eq_Some_conv)
  then show ?case using leafy_minor(2) Opt by blast
next
  case (Star i g sp)
  then obtain inner d1 where s: "d_element i d = Some (inner, d1)" "d_star inner g d1 = (el', d')"
    by (auto simp: bind_eq_Some_conv)
  then show ?case using leafy_minor(3) Star by blast
next
  case (Plus i sp)
  then obtain inner d1 where s: "d_element i d = Some (inner, d1)" "d_plus inner d1 = (el', d')"
    by (auto simp: bind_eq_Some_conv)
  then show ?case using leafy_plus Plus by blast
next
  case (Rep mn mx i sp)
  then obtain inner d1 where s: "d_element i d = Some (inner, d1)" "d_rep mn mx inner d1 = (el', d')"
    by (auto simp: bind_eq_Some_conv)
  then show ?case using leafy_rep Rep by blast
qed (auto simp: is_leaf_def is_terminal_def is_ref_def)

lemma d_alts_leafy:
  assumes "d_alts alts d = Some (alts', d')" "leafy d"
  shows "leafy d' \<and> list_all (list_all is_leaf) alts'"
proof -
  have a: "leafy b' \<and> list_all is_leaf a'" if "d_alt a b = Some (a', b')" "leafy b" for a b a' b'
    by (rule state_map_keeps [where I = leafy, OF that]) (use d_element_leafy in blast)
  show ?thesis by (rule state_map_keeps [where I = leafy, OF assms]) (use a in blast)
qed

section \<open>Rule names stay distinct\<close>

text \<open>
  The names taken are the authored ones, those of the helpers pushed so far, and those minted
  for helpers that are still being built.
\<close>

definition owes :: "string list \<Rightarrow> string multiset \<Rightarrow> desugar_state \<Rightarrow> bool" where
  "owes base X d \<longleftrightarrow>
     distinct (d_used d) \<and> mset (d_used d) = mset base + mset (names (d_extra d)) + X"

lemma owes_fresh: "d_fresh h d = (n, d') \<Longrightarrow> owes base X d \<Longrightarrow> owes base (add_mset n X) d'"
  by (frule d_fresh_mints(1), frule d_fresh_mints(2), drule d_fresh_mints(3)) (simp add: owes_def)

lemma owes_helper: "d_helper n alts rh d = (el', d') \<Longrightarrow> owes base (add_mset n X) d \<Longrightarrow> owes base X d'"
  by (auto simp: d_helper_def d_push_def owes_def prod_helper_def)

lemma owes_repeat_loop:
  "d_repeat_loop n inner g d = (el', d') \<Longrightarrow> owes base (add_mset n X) d \<Longrightarrow> owes base X d'"
  by (auto simp: d_repeat_loop_def d_push_def owes_def prod_helper_def)

lemma owes_opt_chain: "d_opt_chain k inner nested d = (nested', d') \<Longrightarrow> owes base X d \<Longrightarrow> owes base X d'"
proof (induction k arbitrary: nested d)
  case (Suc k)
  let ?sq = "case nested of Some r \<Rightarrow> [inner, r] | None \<Rightarrow> [inner]"
  obtain gn d1 where f1: "d_fresh ''group'' d = (gn, d1)" by fastforce
  obtain gr d2 where h1: "d_helper gn [?sq] False d1 = (gr, d2)" by fastforce
  obtain opn d3 where f2: "d_fresh (''opt_'' @ gn) d2 = (opn, d3)" by fastforce
  obtain opr d4 where h2: "d_helper opn [[gr], []] True d3 = (opr, d4)" by fastforce
  have rest: "d_opt_chain k inner (Some opr) d4 = (nested', d')"
    using Suc.prems(1) f1 h1 f2 h2 by simp
  note step = owes_helper [OF h1 owes_fresh [OF f1 Suc.prems(2)]]
  show ?case by (rule Suc.IH [OF rest owes_helper [OF h2 owes_fresh [OF f2 step]]])
qed simp

lemma owes_rep: assumes "d_rep mn mx inner d = (el', d')" "owes base X d" shows "owes base X d'"
proof -
  obtain rn d1 where f: "d_fresh (''rep_'' @ d_hint inner) d = (rn, d1)" by fastforce
  note o1 = owes_fresh [OF f assms(2)]
  show ?thesis
  proof (cases mx)
    case None
    obtain tn d2 where f2: "d_fresh (''star_'' @ d_hint inner) d1 = (tn, d2)" by fastforce
    obtain tr d3 where l: "d_repeat_loop tn inner None d2 = (tr, d3)" by fastforce
    have h: "d_helper rn [replicate mn inner @ [tr]] False d3 = (el', d')"
      using assms(1) None f f2 l by (simp add: d_rep_def)
    show ?thesis by (rule owes_helper [OF h owes_repeat_loop [OF l owes_fresh [OF f2 o1]]])
  next
    case (Some m)
    obtain nd d2 where c: "d_opt_chain (m - mn) inner None d1 = (nd, d2)" by fastforce
    have h: "d_helper rn [replicate mn inner @ (case nd of None \<Rightarrow> [] | Some r \<Rightarrow> [r])] False d2 = (el', d')"
      using assms(1) Some f c by (auto simp: d_rep_def split: option.splits)
    show ?thesis by (rule owes_helper [OF h owes_opt_chain [OF c o1]])
  qed
qed

lemma owes_minor:
  "d_group alts d = (el', d') \<Longrightarrow> owes base X d \<Longrightarrow> owes base X d'"
  "d_opt inner d = (el', d') \<Longrightarrow> owes base X d \<Longrightarrow> owes base X d'"
  "d_star inner g d = (el', d') \<Longrightarrow> owes base X d \<Longrightarrow> owes base X d'"
  unfolding d_group_def d_opt_def d_star_def
  by (auto split: prod.splits intro: owes_helper owes_repeat_loop owes_fresh)

lemma owes_plus: assumes "d_plus inner d = (el', d')" "owes base X d" shows "owes base X d'"
proof -
  obtain tn d1 pn d2 tr d3 where f: "d_fresh (''star_'' @ d_hint inner) d = (tn, d1)"
      "d_fresh (''plus_'' @ d_hint inner) d1 = (pn, d2)"
    and l: "d_repeat_loop tn inner None d2 = (tr, d3)"
    and h: "d_helper pn [[inner, tr]] False d3 = (el', d')"
    using assms(1) by (auto simp: d_plus_def split: prod.splits)
  have "owes base (add_mset tn (add_mset pn X)) d2"
    using owes_fresh [OF f(2) owes_fresh [OF f(1) assms(2)]] by (simp add: add_mset_commute)
  then show ?thesis by (rule owes_helper [OF h owes_repeat_loop [OF l]])
qed

lemma d_element_owes: "d_element el d = Some (el', d') \<Longrightarrow> owes base X d \<Longrightarrow> owes base X d'"
proof (induction el arbitrary: d el' d' rule: element_induct)
  case (Group alts sp)
  then obtain as' d1 where s: "d_alts alts d = Some (as', d1)" "d_group as' d1 = (el', d')"
    by (auto simp: bind_eq_Some_conv)
  have a: "owes base X b' \<and> list_all (\<lambda>_. True) a'"
    if "a \<in> set alts" "d_alt a b = Some (a', b')" "owes base X b" for a b a' b'
    by (rule state_map_keeps [where I = "owes base X", OF that(2,3)]) (use Group.IH [OF that(1)] in blast)
  have "owes base X d1 \<and> list_all (\<lambda>_. True) as'"
    by (rule state_map_keeps [where I = "owes base X", OF s(1) Group.prems(2)]) (use a in blast)
  then show ?case using owes_minor(1) [OF s(2)] by blast
qed (fastforce simp: bind_eq_Some_conv dest: owes_minor owes_plus owes_rep)+

lemma d_alts_owes: "d_alts alts d = Some (alts', d') \<Longrightarrow> owes base X d \<Longrightarrow> owes base X d'"
  by (rule conjunct1 [OF state_map_keeps [where I = "owes base X" and Q = "\<lambda>_. True"]], assumption+)
     (rule conjI [OF conjunct1 [OF state_map_keeps [where I = "owes base X" and Q = "\<lambda>_. True"]]],
      assumption+, auto dest: d_element_owes)

section \<open>How many helpers are minted\<close>

fun helper_count :: "element \<Rightarrow> nat" where
  "helper_count (Element (Group alts) _) = 1 + sum_list (map (\<lambda>alt. sum_list (map helper_count alt)) alts)"
| "helper_count (Element (Opt i) _) = 1 + helper_count i"
| "helper_count (Element (Star i _) _) = 1 + helper_count i"
| "helper_count (Element (Plus i) _) = 2 + helper_count i"
| "helper_count (Element (Rep mn mx i) _) =
     1 + (case mx of None \<Rightarrow> 1 | Some m \<Rightarrow> 2 * (m - mn)) + helper_count i"
| "helper_count _ = 0"

abbreviation minted :: "desugar_state \<Rightarrow> nat" where
  "minted d \<equiv> length (d_extra d)"

lemma minted_fresh: "d_fresh h d = (n, d') \<Longrightarrow> minted d' = minted d"
  using d_fresh_mints(3) by simp

lemma minted_helper:
  "d_helper n alts rh d = (el', d') \<Longrightarrow> minted d' = Suc (minted d)"
  "d_repeat_loop n inner g d = (el', d') \<Longrightarrow> minted d' = Suc (minted d)"
  by (auto simp: d_helper_def d_repeat_loop_def d_push_def)

lemma minted_minor:
  "d_group alts d = (el', d') \<Longrightarrow> minted d' = Suc (minted d)"
  "d_opt inner d = (el', d') \<Longrightarrow> minted d' = Suc (minted d)"
  "d_star inner g d = (el', d') \<Longrightarrow> minted d' = Suc (minted d)"
  "d_plus inner d = (el', d') \<Longrightarrow> minted d' = Suc (Suc (minted d))"
  unfolding d_group_def d_opt_def d_star_def d_plus_def
  by (auto split: prod.splits dest!: minted_fresh minted_helper)

lemma minted_opt_chain: "d_opt_chain k inner nested d = (nested', d') \<Longrightarrow> minted d' = minted d + 2 * k"
proof (induction k arbitrary: nested d)
  case (Suc k)
  let ?sq = "case nested of Some r \<Rightarrow> [inner, r] | None \<Rightarrow> [inner]"
  obtain gn d1 where f1: "d_fresh ''group'' d = (gn, d1)" by fastforce
  obtain gr d2 where h1: "d_helper gn [?sq] False d1 = (gr, d2)" by fastforce
  obtain opn d3 where f2: "d_fresh (''opt_'' @ gn) d2 = (opn, d3)" by fastforce
  obtain opr d4 where h2: "d_helper opn [[gr], []] True d3 = (opr, d4)" by fastforce
  have rest: "d_opt_chain k inner (Some opr) d4 = (nested', d')"
    using Suc.prems(1) f1 h1 f2 h2 by simp
  show ?case
    using Suc.IH [OF rest] minted_fresh [OF f1] minted_fresh [OF f2] minted_helper(1) [OF h1] minted_helper(1) [OF h2]
    by simp
qed simp

lemma minted_rep:
  assumes "d_rep mn mx inner d = (el', d')"
  shows "minted d' = minted d + (1 + (case mx of None \<Rightarrow> 1 | Some m \<Rightarrow> 2 * (m - mn)))"
proof (cases mx)
  case None
  with assms show ?thesis
    by (auto simp: d_rep_def split: prod.splits dest!: minted_fresh minted_helper)
next
  case (Some m)
  obtain rn d1 where f: "d_fresh (''rep_'' @ d_hint inner) d = (rn, d1)" by fastforce
  obtain nd d2 where c: "d_opt_chain (m - mn) inner None d1 = (nd, d2)" by fastforce
  have h: "d_helper rn [replicate mn inner @ (case nd of None \<Rightarrow> [] | Some r \<Rightarrow> [r])] False d2 = (el', d')"
    using assms(1) Some f c by (auto simp: d_rep_def split: option.splits)
  show ?thesis using Some minted_fresh [OF f] minted_opt_chain [OF c] minted_helper(1) [OF h] by simp
qed

lemma state_map_counts:
  assumes "state_map f xs d = Some (ys, d')"
    and "\<And>x d y d'. x \<in> set xs \<Longrightarrow> f x d = Some (y, d') \<Longrightarrow> minted d' = minted d + c x"
  shows "minted d' = minted d + sum_list (map c xs)"
  using assms
proof (induction xs arbitrary: d ys)
  case (Cons x xs)
  obtain y d1 zs where s: "f x d = Some (y, d1)" "state_map f xs d1 = Some (zs, d')"
    using Cons.prems(1) by (auto simp: state_map_Cons_Some simp del: state_map.simps)
  have "minted d1 = minted d + c x" by (rule Cons.prems(2) [OF _ s(1)]) simp
  moreover have "minted d' = minted d1 + sum_list (map c xs)"
    by (rule Cons.IH [OF s(2)]) (use Cons.prems(2) in auto)
  ultimately show ?case by simp
qed auto

lemma d_element_minted: "d_element el d = Some (el', d') \<Longrightarrow> minted d' = minted d + helper_count el"
proof (induction el arbitrary: d el' d' rule: element_induct)
  case (Group alts sp)
  then obtain as' d1 where s: "d_alts alts d = Some (as', d1)" "d_group as' d1 = (el', d')"
    by (auto simp: bind_eq_Some_conv)
  have "minted b' = minted b + sum_list (map helper_count a)"
    if "a \<in> set alts" "d_alt a b = Some (a', b')" for a b a' b'
    by (rule state_map_counts [OF that(2)]) (rule Group.IH [OF that(1)])
  from state_map_counts [OF s(1) this] minted_minor(1) [OF s(2)] show ?case by simp
qed (fastforce simp: bind_eq_Some_conv dest: minted_minor minted_rep)+

lemma d_alts_minted:
  assumes "d_alts alts d = Some (alts', d')"
  shows "minted d' = minted d + sum_list (map helper_count (concat alts))"
proof -
  have "minted b' = minted b + sum_list (map helper_count a)" if "d_alt a b = Some (a', b')" for a b a' b'
    by (rule state_map_counts [OF that]) (rule d_element_minted)
  moreover have "sum_list (map helper_count (concat alts)) = sum_list (map (\<lambda>a. sum_list (map helper_count a)) alts)"
    by (induction alts) auto
  ultimately show ?thesis using state_map_counts [OF assms] by simp
qed

section \<open>The whole pass\<close>

lemma d_prod_Some:
  assumes "d_prod p d = Some (p', d')"
  obtains alts where "d_alts (p_alts p) (d\<lparr>d_origin := origin_of p\<rparr>) = Some (alts, d')"
    and "p_name p' = p_name p" and "p_alts p' = alts"
  using assms that by (auto simp: d_prod_def bind_eq_Some_conv)

definition d_start :: "grammar \<Rightarrow> desugar_state" where
  "d_start g = \<lparr>d_extra = [], d_used = iset_extend [] (names (productions g)), d_origin = []\<rparr>"

lemma desugar_Some:
  assumes "desugar g = Some g'"
  obtains ps d where "state_map d_prod (productions g) (d_start g) = Some (ps, d)"
    and "productions g' = ps @ d_extra d"
  using assms that by (auto simp: desugar_def d_start_def grammar_new_def bind_eq_Some_conv)

lemma d_prods_names: "state_map d_prod ps d = Some (ps', d') \<Longrightarrow> names ps' = names ps"
proof (induction ps arbitrary: d ps')
  case (Cons p ps)
  then obtain p' d1 qs where "d_prod p d = Some (p', d1)" "state_map d_prod ps d1 = Some (qs, d')" "ps' = p' # qs"
    by (auto simp: state_map_Cons_Some simp del: state_map.simps)
  then show ?case using Cons.IH by (auto elim!: d_prod_Some)
qed auto

lemma iset_extend_distinct: "distinct xs \<Longrightarrow> iset_extend [] xs = xs"
proof (induction xs rule: rev_induct)
  case (snoc x xs)
  then show ?case by (simp add: iset_extend_def iset_insert_def)
qed (simp add: iset_extend_def)

lemma d_prods_total:
  assumes "all_elements no_prose ps"
  shows "\<exists>ps' d'. state_map d_prod ps d = Some (ps', d')"
proof (rule state_map_total)
  fix p b assume p: "p \<in> set ps"
  have a: "\<exists>a' b'. d_alt a b = Some (a', b')" if "list_all no_prose a" for a b
    by (rule state_map_total) (use d_element_total that in \<open>auto simp: list_all_iff\<close>)
  have "\<exists>as' b'. d_alts (p_alts p) (b\<lparr>d_origin := origin_of p\<rparr>) = Some (as', b')"
    by (rule state_map_total) (use a assms p in \<open>auto simp: list_all_iff\<close>)
  then show "\<exists>p' b'. d_prod p b = Some (p', b')" by (auto simp: d_prod_def)
qed

lemma desugar_iff_prods: "desugar g \<noteq> None \<longleftrightarrow> state_map d_prod (productions g) (d_start g) \<noteq> None"
  by (auto simp: desugar_def d_start_def split: bind_splits prod.splits)

lemma desugar_returns: "all_elements no_prose (productions g) \<Longrightarrow> \<exists>g'. desugar g = Some g'"
  using d_prods_total [of "productions g" "d_start g"] desugar_iff_prods [of g] by fastforce


text \<open>C18: After desugaring, every element of every rule is a terminal or a reference to a rule.\<close>

theorem desugar_leaves:
  assumes "desugar g = Some g'"
  shows "all_elements is_leaf (productions g')"
proof -
  obtain ps d where s: "state_map d_prod (productions g) (d_start g) = Some (ps, d)"
    and g': "productions g' = ps @ d_extra d" by (rule desugar_Some [OF assms])
  have "leafy b' \<and> list_all (list_all is_leaf) (p_alts p')" if "d_prod p b = Some (p', b')" "leafy b" for p b p' b'
  proof -
    note dp = that
    obtain alts where "d_alts (p_alts p) (b\<lparr>d_origin := origin_of p\<rparr>) = Some (alts, b')" "p_alts p' = alts"
      by (rule d_prod_Some [OF dp(1)])
    with d_alts_leafy [OF this(1)] dp(2) show ?thesis by simp
  qed
  then have "leafy d \<and> list_all (\<lambda>p. list_all (list_all is_leaf) (p_alts p)) ps"
    by (intro state_map_keeps [where I = leafy, OF s]) (auto simp: d_start_def)
  then show ?thesis using g' by simp
qed

text \<open>
  C19: Desugaring keeps the authored rules first and in order, and when they were named apart,
  so is every helper it adds.
\<close>

theorem desugar_names:
  assumes "desugar g = Some g'" and "distinct (names (productions g))"
  shows "prefix (names (productions g)) (names (productions g')) \<and> distinct (names (productions g'))"
proof -
  obtain ps d where s: "state_map d_prod (productions g) (d_start g) = Some (ps, d)"
    and g': "productions g' = ps @ d_extra d" by (rule desugar_Some [OF assms(1)])
  let ?I = "owes (names (productions g)) {#}"
  have n: "names ps = names (productions g)" by (rule d_prods_names [OF s])
  have "?I b' \<and> True" if "d_prod p b = Some (p', b')" "?I b" for p b p' b'
  proof -
    note dp = that
    obtain alts where "d_alts (p_alts p) (b\<lparr>d_origin := origin_of p\<rparr>) = Some (alts, b')"
      by (rule d_prod_Some [OF dp(1)])
    from d_alts_owes [OF this, of "names (productions g)" "{#}"] dp(2) show ?thesis
      by (simp add: owes_def)
  qed
  then have "?I d \<and> list_all (\<lambda>_. True) ps"
    by (intro state_map_keeps [where I = ?I, OF s])
       (use assms(2) in \<open>auto simp: owes_def d_start_def iset_extend_distinct\<close>)
  then have d: "distinct (d_used d)" "mset (d_used d) = mset (names ps @ names (d_extra d))"
    by (auto simp: owes_def n)
  from d(1) have "distinct (names ps @ names (d_extra d))"
    unfolding mset_eq_imp_distinct_iff [OF d(2)] .
  with g' n show ?thesis by simp
qed

lemma desugar_count:
  assumes "desugar g = Some g'"
  shows "length (productions g') = length (productions g) +
    sum_list (map (\<lambda>p. sum_list (map helper_count (concat (p_alts p)))) (productions g))"
proof -
  obtain ps d where s: "state_map d_prod (productions g) (d_start g) = Some (ps, d)"
    and g': "productions g' = ps @ d_extra d" by (rule desugar_Some [OF assms])
  have "minted b' = minted b + sum_list (map helper_count (concat (p_alts p)))"
    if "d_prod p b = Some (p', b')" for p b p' b'
  proof -
    note dp = that
    obtain alts where "d_alts (p_alts p) (b\<lparr>d_origin := origin_of p\<rparr>) = Some (alts, b')"
      by (rule d_prod_Some [OF dp])
    from d_alts_minted [OF this] show ?thesis by simp
  qed
  from state_map_counts [OF s this] g' state_map_length [OF s] show ?thesis by (simp add: d_start_def)
qed

text \<open>A grammar with every kind of sugar, for the examples.\<close>

definition sugar_example :: grammar where
  "sugar_example = grammar_new
     [prod_new ''s'' [[el_opt (el_term ''a''), el_star (el_reference ''t''), el_plus (el_token ''#NR'')]],
      prod_new ''t'' [[el_rep 1 (Some 2) (el_term ''b''), el_group [[el_term ''c''], [el_regex ''d'' ''i'']]], []]]"

lemmas sugar_simps = sugar_example_def grammar_new_def prod_new_def default_production_def
  el_opt_def el_term_def el_star_def el_plus_def el_reference_def el_rep_def el_group_def
  el_regex_def el_token_def el_of_def


lemma sugar_example_desugars: "desugar sugar_example = Some (the (desugar sugar_example))"
proof -
  have "all_elements no_prose (productions sugar_example)" by (simp add: sugar_simps)
  from d_prods_total [OF this, of "d_start sugar_example"] have "desugar sugar_example \<noteq> None"
    unfolding desugar_iff_prods by fastforce
  then show ?thesis by auto
qed

lemma desugar_leaves_witness:
  "all_elements is_leaf (productions (the (desugar sugar_example)))"
  using desugar_leaves [of sugar_example "the (desugar sugar_example)"] sugar_example_desugars by simp

lemma desugar_names_witness:
  "prefix [''s'', ''t''] (names (productions (the (desugar sugar_example)))) \<and>
   distinct (names (productions (the (desugar sugar_example))))"
  using desugar_names [of sugar_example "the (desugar sugar_example)"] sugar_example_desugars
  by (simp add: sugar_simps)

end
