(* ===== verification/Desugar_Language.thy ===== *)
theory Desugar_Language
  imports Desugar
begin

text \<open>
  Desugaring keeps the language: the helpers the pass mints can be explained by an assignment
  that extends the authored one, and any assignment that satisfies them covers what was there.
\<close>

section \<open>The working state\<close>

text \<open>
  \<open>E\<close> explains the helpers minted so far: it satisfies their productions, and they mention
  only names that are taken, so that a name minted later can be given any meaning.
\<close>

definition explains :: "'a terminals \<Rightarrow> desugar_state \<Rightarrow> 'a env \<Rightarrow> bool" where
  "explains T d E \<longleftrightarrow> models T E (d_extra d) \<and>
     (\<forall>p\<in>set (d_extra d). p_name p \<in> set (d_used d) \<and> alts_refs (p_alts p) \<subseteq> set (d_used d))"

definition grows :: "'a terminals \<Rightarrow> desugar_state \<Rightarrow> 'a env \<Rightarrow> desugar_state \<Rightarrow> 'a env \<Rightarrow> bool" where
  "grows T d E d' E' \<longleftrightarrow>
     explains T d' E' \<and> (\<forall>n\<in>set (d_used d). E' n = E n) \<and> set (d_used d) \<subseteq> set (d_used d')"

lemma grows_refl: "explains T d E \<Longrightarrow> grows T d E d E"
  by (simp add: grows_def)

lemma grows_trans: "grows T d E d1 E1 \<Longrightarrow> grows T d1 E1 d2 E2 \<Longrightarrow> grows T d E d2 E2"
  unfolding grows_def by (metis subset_iff)

lemma grows_explains: "grows T d E d' E' \<Longrightarrow> explains T d' E'"
  by (simp add: grows_def)

lemma grows_used: "grows T d E d' E' \<Longrightarrow> n \<in> set (d_used d) \<Longrightarrow> n \<in> set (d_used d')"
  by (auto simp: grows_def)

lemma grows_elang: "grows T d E d' E' \<Longrightarrow> el_refs e \<subseteq> set (d_used d) \<Longrightarrow> elang T E' e = elang T E e"
  by (rule elang_cong) (auto simp: grows_def)

lemma grows_slang: "grows T d E d' E' \<Longrightarrow> seq_refs a \<subseteq> set (d_used d) \<Longrightarrow> slang T E' a = slang T E a"
  by (rule slang_cong) (auto simp: grows_def)

lemma grows_alang: "grows T d E d' E' \<Longrightarrow> alts_refs as \<subseteq> set (d_used d) \<Longrightarrow> alang T E' as = alang T E as"
  by (rule alang_cong) (auto simp: grows_def)

lemma d_fresh_grows:
  assumes "d_fresh hint d = (name, d')" and "explains T d E"
  shows "grows T d E d' (E(name := X))"
proof -
  note mint = d_fresh_mints [OF assms(1)]
  have refs: "p_name p \<in> set (d_used d) \<and> alts_refs (p_alts p) \<subseteq> set (d_used d)"
    if "p \<in> set (d_extra d)" for p
    using assms(2) that by (simp add: explains_def)
  have "alang T (E(name := X)) (p_alts p) = alang T E (p_alts p)" if "p \<in> set (d_extra d)" for p
    using refs [OF that] mint(1) by (intro alang_cong) auto
  then have "models T (E(name := X)) (d_extra d')"
    using assms(2) mint refs unfolding explains_def models_def by auto
  moreover have "p_name p \<in> set (d_used d') \<and> alts_refs (p_alts p) \<subseteq> set (d_used d')"
    if "p \<in> set (d_extra d')" for p
    using refs [of p] that unfolding mint by (metis Un_upper1 in_mono order_trans set_append)
  ultimately have "explains T d' (E(name := X))"
    unfolding explains_def by blast
  with mint show ?thesis by (auto simp: grows_def)
qed

lemma d_push_grows:
  assumes "explains T d E" and "p_name p \<in> set (d_used d)" and "alts_refs (p_alts p) \<subseteq> set (d_used d)"
    and "alang T E (p_alts p) \<subseteq> E (p_name p)"
  shows "grows T d E (d_push p d) E"
  using assms by (auto simp: grows_def explains_def d_push_def models_def)

text \<open>A helper whose name was minted with the meaning of its alternatives.\<close>

lemma d_helper_grows:
  assumes "d_helper name alts rh d = (el', d')" and "explains T d E" and "name \<in> set (d_used d)"
    and "alts_refs alts \<subseteq> set (d_used d)" and "alang T E alts \<subseteq> E name"
  shows "grows T d E d' E \<and> el' = el_reference name"
  using assms d_push_grows [OF assms(2), of "(prod_helper name alts (d_origin d))\<lparr>p_repeat_helper := rh\<rparr>"]
  by (auto simp: d_helper_def prod_helper_def)

lemma d_repeat_loop_grows:
  assumes "d_repeat_loop name inner g d = (el', d')" and "explains T d E" and "name \<in> set (d_used d)"
    and "el_refs inner \<subseteq> set (d_used d)" and "E name = lstar (elang T E inner)"
  shows "grows T d E d' E \<and> el' = el_reference name"
proof -
  have "conc (elang T E inner) (lstar (elang T E inner)) \<union> {[]} \<subseteq> lstar (elang T E inner)"
    by (subst (2) lstar_unfold) auto
  with assms show ?thesis
    using d_push_grows [OF assms(2), of "(prod_helper name [[inner, el_reference name], []] (d_origin d))
        \<lparr>p_repeat_helper := True, p_repeat_loop := True, p_debt_guard := g\<rparr>"]
    by (auto simp: d_repeat_loop_def prod_helper_def)
qed

text \<open>
  One rewritten element: the state grows, and the new element describes what the old one did.
\<close>

definition elem_sim :: "'a terminals \<Rightarrow> desugar_state \<Rightarrow> 'a env \<Rightarrow> 'a lang \<Rightarrow> desugar_state \<Rightarrow> element \<Rightarrow> bool" where
  "elem_sim T d E X d' el' \<longleftrightarrow>
     (\<exists>E'. grows T d E d' E' \<and> el_refs el' \<subseteq> set (d_used d') \<and> elang T E' el' = X)"

lemma mint_helper_sim:
  assumes f: "d_fresh hint d = (name, d1)" and hp: "d_helper name alts rh d1 = (el', d')"
    and "explains T d E" and refs: "alts_refs alts \<subseteq> set (d_used d)"
  shows "elem_sim T d E (alang T E alts) d' el'"
proof -
  let ?E = "E(name := alang T E alts)"
  have g: "grows T d E d1 ?E" by (rule d_fresh_grows [OF f assms(3)])
  have u: "name \<in> set (d_used d1)" "alts_refs alts \<subseteq> set (d_used d1)"
    using d_fresh_mints [OF f] refs by auto
  have "alang T ?E alts = alang T E alts" by (rule grows_alang [OF g refs])
  then have h: "grows T d1 ?E d' ?E \<and> el' = el_reference name"
    using d_helper_grows [OF hp grows_explains [OF g]] u by simp
  then show ?thesis
    unfolding elem_sim_def using grows_trans [OF g] grows_used u(1) by (intro exI [of _ ?E]) auto
qed

lemma d_group_sim:
  assumes "d_group alts d = (el', d')" and "explains T d E" and "alts_refs alts \<subseteq> set (d_used d)"
  shows "elem_sim T d E (alang T E alts) d' el'"
  using assms mint_helper_sim by (auto simp: d_group_def split: prod.splits)

lemma d_opt_sim:
  assumes "d_opt inner d = (el', d')" and "explains T d E" and "el_refs inner \<subseteq> set (d_used d)"
  shows "elem_sim T d E ({[]} \<union> elang T E inner) d' el'"
proof -
  obtain name d1 where f: "d_fresh (''opt_'' @ d_hint inner) d = (name, d1)" by fastforce
  have "d_helper name [[inner], []] True d1 = (el', d')" using assms(1) f by (simp add: d_opt_def)
  from mint_helper_sim [OF f this assms(2)] assms(3) show ?thesis by simp
qed

lemma d_star_sim:
  assumes "d_star inner gd d = (el', d')" and "explains T d E" and "el_refs inner \<subseteq> set (d_used d)"
  shows "elem_sim T d E (lstar (elang T E inner)) d' el'"
proof -
  obtain name d1 where f: "d_fresh (''star_'' @ d_hint inner) d = (name, d1)" by fastforce
  let ?E = "E(name := lstar (elang T E inner))"
  have g: "grows T d E d1 ?E" by (rule d_fresh_grows [OF f assms(2)])
  have u: "name \<in> set (d_used d1)" "el_refs inner \<subseteq> set (d_used d1)"
    using d_fresh_mints [OF f] assms(3) by auto
  have "elang T ?E inner = elang T E inner" by (rule grows_elang [OF g assms(3)])
  moreover have "d_repeat_loop name inner gd d1 = (el', d')" using assms(1) f by (simp add: d_star_def)
  ultimately have h: "grows T d1 ?E d' ?E \<and> el' = el_reference name"
    using d_repeat_loop_grows [of name inner gd d1 el' d' T ?E] grows_explains [OF g] u by simp
  then show ?thesis
    unfolding elem_sim_def using grows_trans [OF g] grows_used u(1) by (intro exI [of _ ?E]) auto
qed

lemma d_plus_sim:
  assumes "d_plus inner d = (el', d')" and "explains T d E" and "el_refs inner \<subseteq> set (d_used d)"
  shows "elem_sim T d E (conc (elang T E inner) (lstar (elang T E inner))) d' el'"
proof -
  let ?A = "elang T E inner"
  obtain tn d1 where f1: "d_fresh (''star_'' @ d_hint inner) d = (tn, d1)" by fastforce
  obtain pn d2 where f2: "d_fresh (''plus_'' @ d_hint inner) d1 = (pn, d2)" by fastforce
  obtain tr d3 where l: "d_repeat_loop tn inner None d2 = (tr, d3)" by fastforce
  let ?E1 = "E(tn := lstar ?A)"
  let ?E2 = "?E1(pn := conc ?A (lstar ?A))"
  have g1: "grows T d E d1 ?E1" by (rule d_fresh_grows [OF f1 assms(2)])
  have g2: "grows T d1 ?E1 d2 ?E2" by (rule d_fresh_grows [OF f2 grows_explains [OF g1]])
  note g12 = grows_trans [OF g1 g2]
  have u: "tn \<in> set (d_used d2)" "pn \<in> set (d_used d2)" "el_refs inner \<subseteq> set (d_used d2)" "pn \<noteq> tn"
    using d_fresh_mints [OF f1] d_fresh_mints [OF f2] assms(3) by auto
  have A: "elang T ?E2 inner = ?A" by (rule grows_elang [OF g12 assms(3)])
  have h1: "grows T d2 ?E2 d3 ?E2 \<and> tr = el_reference tn"
    using d_repeat_loop_grows [OF l grows_explains [OF g12] u(1,3)] u(4) A by simp
  have "d_helper pn [[inner, tr]] False d3 = (el', d')"
    using assms(1) f1 f2 l by (simp add: d_plus_def)
  then have h2: "grows T d3 ?E2 d' ?E2 \<and> el' = el_reference pn"
    using d_helper_grows [of pn "[[inner, tr]]" False d3 el' d' T ?E2] h1 u A
    by (auto simp: grows_def)
  then have "grows T d E d' ?E2" using grows_trans [OF g12] grows_trans h1 by blast
  moreover have "pn \<in> set (d_used d')" using h1 h2 grows_used u(2) by blast
  ultimately show ?thesis
    unfolding elem_sim_def using h2 by (intro exI [of _ ?E2]) auto
qed

text \<open>At most \<open>k\<close> copies.\<close>

definition upto_pow :: "nat \<Rightarrow> 'a lang \<Rightarrow> 'a lang" where
  "upto_pow k A = (\<Union>j\<le>k. lpow j A)"

lemma upto_pow_Suc: "upto_pow (Suc k) A = {[]} \<union> conc A (upto_pow k A)"
  by (simp add: upto_pow_def atMost_Suc_eq_insert_0 conc_UN image_Un image_image)

lemma rep_tail_unbounded: "conc (lpow mn A) (lstar A) = (\<Union>k\<in>rep_counts mn None. lpow k A)"
proof -
  have "rep_counts mn None = (\<lambda>n. mn + n) ` UNIV"
    by (auto simp: rep_counts_def image_iff le_iff_add)
  then show ?thesis by (simp add: lstar_def conc_UN lpow_add image_image)
qed

lemma rep_tail_bounded:
  "mn \<le> m \<Longrightarrow> conc (lpow mn A) (upto_pow (m - mn) A) = (\<Union>k\<in>rep_counts mn (Some m). lpow k A)"
proof -
  assume "mn \<le> m"
  then have "rep_counts mn (Some m) = (\<lambda>n. mn + n) ` {..m - mn}"
    by (auto simp: rep_counts_def image_iff le_iff_add)
  then show ?thesis by (simp add: upto_pow_def conc_UN lpow_add image_image)
qed

text \<open>Each turn of the chain adds one extends_state optional copy around what is there.\<close>

definition nested_lang :: "'a terminals \<Rightarrow> 'a env \<Rightarrow> element option \<Rightarrow> 'a lang" where
  "nested_lang T E nested = (case nested of None \<Rightarrow> {[]} | Some r \<Rightarrow> elang T E r)"

abbreviation nested_refs :: "element option \<Rightarrow> string set" where
  "nested_refs nested \<equiv> (case nested of None \<Rightarrow> {} | Some r \<Rightarrow> el_refs r)"

lemma d_opt_chain_sim:
  assumes "d_opt_chain k inner nested d = (nested', d')" and "explains T d E"
    and "el_refs inner \<subseteq> set (d_used d)" and "nested_refs nested \<subseteq> set (d_used d)"
    and "nested_lang T E nested = upto_pow j (elang T E inner)"
  shows "\<exists>E'. grows T d E d' E' \<and> nested_refs nested' \<subseteq> set (d_used d') \<and>
     nested_lang T E' nested' = upto_pow (j + k) (elang T E inner)"
  using assms
proof (induction k arbitrary: nested d E j)
  case 0
  then show ?case by (auto intro: grows_refl)
next
  case (Suc k)
  let ?A = "elang T E inner"
  let ?sq = "case nested of Some r \<Rightarrow> [inner, r] | None \<Rightarrow> [inner]"
  obtain gn d1 where f1: "d_fresh ''group'' d = (gn, d1)" by fastforce
  obtain gr d2 where h1: "d_helper gn [?sq] False d1 = (gr, d2)" by fastforce
  obtain opn d3 where f2: "d_fresh (''opt_'' @ gn) d2 = (opn, d3)" by fastforce
  obtain opr d4 where h2: "d_helper opn [[gr], []] True d3 = (opr, d4)" by fastforce
  have rest: "d_opt_chain k inner (Some opr) d4 = (nested', d')"
    using Suc.prems(1) f1 h1 f2 h2 by simp
  have sq: "slang T E ?sq = conc ?A (upto_pow j ?A)" "seq_refs ?sq \<subseteq> set (d_used d)"
    unfolding Suc.prems(5) [symmetric]
    using Suc.prems(3,4) by (auto simp: nested_lang_def split: option.splits)
  obtain E1 where E1: "grows T d E d2 E1" "el_refs gr \<subseteq> set (d_used d2)"
      "elang T E1 gr = conc ?A (upto_pow j ?A)"
    using mint_helper_sim [OF f1 h1 Suc.prems(2)] sq by (auto simp: elem_sim_def)
  obtain E2 where E2: "grows T d2 E1 d4 E2" "el_refs opr \<subseteq> set (d_used d4)"
      "elang T E2 opr = {[]} \<union> conc ?A (upto_pow j ?A)"
    using mint_helper_sim [OF f2 h2 grows_explains [OF E1(1)]] E1 by (auto simp: elem_sim_def)
  note g = grows_trans [OF E1(1) E2(1)]
  have A: "elang T E2 inner = ?A" by (rule grows_elang [OF g Suc.prems(3)])
  have "el_refs inner \<subseteq> set (d_used d4)" using Suc.prems(3) grows_used [OF g] by blast
  then obtain E3 where "grows T d4 E2 d' E3" "nested_refs nested' \<subseteq> set (d_used d')"
      "nested_lang T E3 nested' = upto_pow (Suc j + k) ?A"
    using Suc.IH [OF rest grows_explains [OF g], of "Suc j"] E2 A
    by (auto simp: nested_lang_def upto_pow_Suc)
  then show ?case using grows_trans [OF g] by (intro exI [of _ E3]) auto
qed

lemma d_rep_sim:
  assumes "d_rep mn mx inner d = (el', d')" and "explains T d E" and "el_refs inner \<subseteq> set (d_used d)"
    and ok: "case mx of None \<Rightarrow> True | Some m \<Rightarrow> mn \<le> m"
  shows "elem_sim T d E (\<Union>k\<in>rep_counts mn mx. lpow k (elang T E inner)) d' el'"
proof -
  let ?A = "elang T E inner"
  let ?X = "\<Union>k\<in>rep_counts mn mx. lpow k ?A"
  obtain rn d1 where f: "d_fresh (''rep_'' @ d_hint inner) d = (rn, d1)" by fastforce
  let ?E1 = "E(rn := ?X)"
  have g1: "grows T d E d1 ?E1" by (rule d_fresh_grows [OF f assms(2)])
  have u1: "rn \<in> set (d_used d1)" "el_refs inner \<subseteq> set (d_used d1)"
    using d_fresh_mints [OF f] assms(3) by auto
  have A1: "elang T ?E1 inner = ?A" by (rule grows_elang [OF g1 assms(3)])
  have "\<exists>tl d2 E2. d_helper rn [replicate mn inner @ tl] False d2 = (el', d') \<and>
      grows T d1 ?E1 d2 E2 \<and> seq_refs tl \<subseteq> set (d_used d2) \<and> conc (lpow mn ?A) (slang T E2 tl) = ?X"
  proof (cases mx)
    case None
    obtain tn d2 where f2: "d_fresh (''star_'' @ d_hint inner) d1 = (tn, d2)" by fastforce
    obtain tr d3 where l: "d_repeat_loop tn inner None d2 = (tr, d3)" by fastforce
    have "d_star inner None d1 = (tr, d3)" using f2 l by (simp add: d_star_def)
    from d_star_sim [OF this grows_explains [OF g1] u1(2)] A1
    obtain E2 where "grows T d1 ?E1 d3 E2" "el_refs tr \<subseteq> set (d_used d3)" "elang T E2 tr = lstar ?A"
      by (auto simp: elem_sim_def)
    moreover have "d_helper rn [replicate mn inner @ [tr]] False d3 = (el', d')"
      using assms(1) None f f2 l by (simp add: d_rep_def)
    ultimately show ?thesis using rep_tail_unbounded None by fastforce
  next
    case (Some m)
    obtain nd d2 where c: "d_opt_chain (m - mn) inner None d1 = (nd, d2)" by fastforce
    obtain E2 where E2: "grows T d1 ?E1 d2 E2" "nested_refs nd \<subseteq> set (d_used d2)"
        "nested_lang T E2 nd = upto_pow (m - mn) ?A"
      using d_opt_chain_sim [OF c grows_explains [OF g1] u1(2), of 0] A1
      by (auto simp: nested_lang_def upto_pow_def)
    let ?tl = "case nd of None \<Rightarrow> [] | Some r \<Rightarrow> [r]"
    have "d_helper rn [replicate mn inner @ ?tl] False d2 = (el', d')"
      using assms(1) Some f c by (auto simp: d_rep_def split: option.splits)
    moreover have "slang T E2 ?tl = upto_pow (m - mn) ?A" "seq_refs ?tl \<subseteq> set (d_used d2)"
      using E2 by (auto simp: nested_lang_def split: option.splits)
    ultimately show ?thesis using E2(1) rep_tail_bounded ok Some by fastforce
  qed
  then obtain tl d2 E2 where hp: "d_helper rn [replicate mn inner @ tl] False d2 = (el', d')"
    and g2: "grows T d1 ?E1 d2 E2" and tl: "seq_refs tl \<subseteq> set (d_used d2)"
    and X: "conc (lpow mn ?A) (slang T E2 tl) = ?X" by blast
  have "elang T E2 inner = ?A" using grows_elang [OF g2 u1(2)] A1 by simp
  then have "alang T E2 [replicate mn inner @ tl] = ?X" using X by (simp add: slang_replicate)
  moreover have "E2 rn = ?X" using g2 u1(1) by (simp add: grows_def)
  moreover have "alts_refs [replicate mn inner @ tl] \<subseteq> set (d_used d2)"
    using tl grows_used [OF g2] u1(2) by auto
  ultimately have "grows T d2 E2 d' E2 \<and> el' = el_reference rn"
    using d_helper_grows [OF hp grows_explains [OF g2]] grows_used [OF g2 u1(1)] by simp
  then show ?thesis
    unfolding elem_sim_def using grows_trans [OF g1 grows_trans [OF g2]] \<open>E2 rn = ?X\<close>
      grows_used [OF g2 u1(1)] grows_used by (intro exI [of _ E2]) auto
qed

text \<open>Elements, then sequences, then lists of alternatives.\<close>

lemma d_alt_sim_from:
  assumes elem: "\<And>e d E e' d'. e \<in> set alt \<Longrightarrow> d_element e d = Some (e', d') \<Longrightarrow> explains T d E \<Longrightarrow>
      el_refs e \<subseteq> set (d_used d) \<Longrightarrow> elem_sim T d E (elang T E e) d' e'"
    and "d_alt alt d = Some (alt', d')" and "explains T d E" and "seq_refs alt \<subseteq> set (d_used d)"
  shows "\<exists>E'. grows T d E d' E' \<and> seq_refs alt' \<subseteq> set (d_used d') \<and> slang T E' alt' = slang T E alt"
  using assms
proof (induction alt arbitrary: d E alt')
  case Nil
  then show ?case by (auto intro: grows_refl)
next
  case (Cons e alt)
  obtain e' d1 as' where s: "d_element e d = Some (e', d1)" "d_alt alt d1 = Some (as', d')" "alt' = e' # as'"
    using Cons.prems(2) by (auto simp: state_map_Cons_Some simp del: state_map.simps)
  obtain E1 where E1: "grows T d E d1 E1" "el_refs e' \<subseteq> set (d_used d1)" "elang T E1 e' = elang T E e"
    using Cons.prems(1) [OF _ s(1) Cons.prems(3)] Cons.prems(4) by (auto simp: elem_sim_def)
  have "seq_refs alt \<subseteq> set (d_used d1)" using Cons.prems(4) grows_used [OF E1(1)] by auto
  then obtain E2 where E2: "grows T d1 E1 d' E2" "seq_refs as' \<subseteq> set (d_used d')" "slang T E2 as' = slang T E1 alt"
    using Cons.IH [OF _ s(2) grows_explains [OF E1(1)]] Cons.prems(1) by auto
  have "slang T E1 alt = slang T E alt" using grows_slang [OF E1(1)] Cons.prems(4) by simp
  moreover have "elang T E2 e' = elang T E e" using grows_elang [OF E2(1) E1(2)] E1(3) by simp
  moreover have "el_refs e' \<subseteq> set (d_used d')" using grows_used [OF E2(1)] E1(2) by blast
  ultimately show ?case using E2 grows_trans [OF E1(1) E2(1)] s(3) by (intro exI [of _ E2]) auto
qed

lemma d_alts_sim_from:
  assumes alt: "\<And>alt d E alt' d'. alt \<in> set alts \<Longrightarrow> d_alt alt d = Some (alt', d') \<Longrightarrow> explains T d E \<Longrightarrow>
      seq_refs alt \<subseteq> set (d_used d) \<Longrightarrow>
      \<exists>E'. grows T d E d' E' \<and> seq_refs alt' \<subseteq> set (d_used d') \<and> slang T E' alt' = slang T E alt"
    and "d_alts alts d = Some (alts', d')" and "explains T d E" and "alts_refs alts \<subseteq> set (d_used d)"
  shows "\<exists>E'. grows T d E d' E' \<and> alts_refs alts' \<subseteq> set (d_used d') \<and> alang T E' alts' = alang T E alts"
  using assms
proof (induction alts arbitrary: d E alts')
  case Nil
  then show ?case by (auto intro: grows_refl)
next
  case (Cons a alts)
  obtain a' d1 as' where s: "d_alt a d = Some (a', d1)" "d_alts alts d1 = Some (as', d')" "alts' = a' # as'"
    using Cons.prems(2) by (auto simp: state_map_Cons_Some simp del: state_map.simps)
  obtain E1 where E1: "grows T d E d1 E1" "seq_refs a' \<subseteq> set (d_used d1)" "slang T E1 a' = slang T E a"
    using Cons.prems(1) [OF _ s(1) Cons.prems(3)] Cons.prems(4) by auto
  have "alts_refs alts \<subseteq> set (d_used d)" using Cons.prems(4) by simp
  then have "alts_refs alts \<subseteq> set (d_used d1)" using grows_used [OF E1(1)] by blast
  then obtain E2 where E2: "grows T d1 E1 d' E2" "alts_refs as' \<subseteq> set (d_used d')" "alang T E2 as' = alang T E1 alts"
    using Cons.IH [OF _ s(2) grows_explains [OF E1(1)]] Cons.prems(1) by auto
  have "alang T E1 alts = alang T E alts" using grows_alang [OF E1(1)] Cons.prems(4) by simp
  moreover have "slang T E2 a' = slang T E a" using grows_slang [OF E2(1) E1(2)] E1(3) by simp
  moreover have "seq_refs a' \<subseteq> set (d_used d')" using grows_used [OF E2(1)] E1(2) by blast
  ultimately show ?case using E2 grows_trans [OF E1(1) E2(1)] s(3) by (intro exI [of _ E2]) auto
qed

lemma elem_sim_then:
  assumes "elem_sim T d E X d1 inner"
    and step: "\<And>E1. explains T d1 E1 \<Longrightarrow> el_refs inner \<subseteq> set (d_used d1) \<Longrightarrow>
      elem_sim T d1 E1 (F (elang T E1 inner)) d' el'"
  shows "elem_sim T d E (F X) d' el'"
proof -
  obtain E1 where E1: "grows T d E d1 E1" "el_refs inner \<subseteq> set (d_used d1)" "elang T E1 inner = X"
    using assms(1) by (auto simp: elem_sim_def)
  then have "elem_sim T d1 E1 (F X) d' el'" using step grows_explains by blast
  then show ?thesis unfolding elem_sim_def using grows_trans [OF E1(1)] by blast
qed

lemma d_element_sim:
  "d_element el d = Some (el', d') \<Longrightarrow> explains T d E \<Longrightarrow> el_refs el \<subseteq> set (d_used d) \<Longrightarrow> bounds_ok el \<Longrightarrow>
   elem_sim T d E (elang T E el) d' el'"
proof (induction el arbitrary: d E el' d' rule: element_induct)
  case (Opt i sp)
  then obtain inner d1 where s: "d_element i d = Some (inner, d1)" "d_opt inner d1 = (el', d')"
    by (auto simp: bind_eq_Some_conv)
  have "elem_sim T d E (elang T E i) d1 inner" using Opt.IH [OF s(1)] Opt.prems by simp
  from elem_sim_then [where F = "\<lambda>X. {[]} \<union> X", OF this d_opt_sim [OF s(2)]]
  show ?case by simp
next
  case (Star i g sp)
  then obtain inner d1 where s: "d_element i d = Some (inner, d1)" "d_star inner g d1 = (el', d')"
    by (auto simp: bind_eq_Some_conv)
  have "elem_sim T d E (elang T E i) d1 inner" using Star.IH [OF s(1)] Star.prems by simp
  from elem_sim_then [where F = lstar, OF this d_star_sim [OF s(2)]] show ?case by simp
next
  case (Plus i sp)
  then obtain inner d1 where s: "d_element i d = Some (inner, d1)" "d_plus inner d1 = (el', d')"
    by (auto simp: bind_eq_Some_conv)
  have "elem_sim T d E (elang T E i) d1 inner" using Plus.IH [OF s(1)] Plus.prems by simp
  from elem_sim_then [where F = "\<lambda>X. conc X (lstar X)", OF this d_plus_sim [OF s(2)]]
  show ?case by simp
next
  case (Rep mn mx i sp)
  then obtain inner d1 where s: "d_element i d = Some (inner, d1)" "d_rep mn mx inner d1 = (el', d')"
    by (auto simp: bind_eq_Some_conv)
  have ok: "case mx of None \<Rightarrow> True | Some m \<Rightarrow> mn \<le> m" using Rep.prems(4) by simp
  have "elem_sim T d E (elang T E i) d1 inner" using Rep.IH [OF s(1)] Rep.prems by simp
  then show ?case
    unfolding elang.simps
    by (rule elem_sim_then [where F = "\<lambda>X. \<Union>k\<in>rep_counts mn mx. lpow k X", OF _ d_rep_sim [OF s(2) _ _ ok]])
next
  case (Group alts sp)
  then obtain as' d1 where s: "d_alts alts d = Some (as', d1)" "d_group as' d1 = (el', d')"
    by (auto simp: bind_eq_Some_conv)
  have elem: "elem_sim T b F (elang T F e) b' e'"
    if "alt \<in> set alts" "e \<in> set alt" "d_element e b = Some (e', b')" "explains T b F"
      "el_refs e \<subseteq> set (d_used b)" for alt e b F e' b'
    using Group.IH [OF that] Group.prems(4) that(1,2) by (auto simp: list_all_iff)
  have refs: "alts_refs alts \<subseteq> set (d_used d)" using Group.prems(3) by simp
  have alt: "\<exists>F'. grows T b F b' F' \<and> seq_refs a' \<subseteq> set (d_used b') \<and> slang T F' a' = slang T F a"
    if "a \<in> set alts" "d_alt a b = Some (a', b')" "explains T b F" "seq_refs a \<subseteq> set (d_used b)"
    for a b F a' b'
    by (rule d_alt_sim_from [OF elem that(2-4)]) (use that(1) in simp_all)
  have "\<exists>E1. grows T d E d1 E1 \<and> alts_refs as' \<subseteq> set (d_used d1) \<and> alang T E1 as' = alang T E alts"
    by (rule d_alts_sim_from [OF alt s(1) Group.prems(2) refs])
  then obtain E1 where E1: "grows T d E d1 E1" "alts_refs as' \<subseteq> set (d_used d1)" "alang T E1 as' = alang T E alts"
    by blast
  have "elem_sim T d1 E1 (alang T E1 as') d' el'"
    by (rule d_group_sim [OF s(2) grows_explains [OF E1(1)] E1(2)])
  then obtain E2 where "grows T d1 E1 d' E2" "el_refs el' \<subseteq> set (d_used d')" "elang T E2 el' = alang T E1 as'"
    by (auto simp: elem_sim_def)
  then show ?case
    unfolding elem_sim_def elang_group using E1(3) grows_trans [OF E1(1)] by (intro exI [of _ E2]) simp
qed (auto simp: elem_sim_def intro: grows_refl)

lemma d_alt_sim:
  assumes "d_alt alt d = Some (alt', d')" "explains T d E" "seq_refs alt \<subseteq> set (d_used d)" "list_all bounds_ok alt"
  shows "\<exists>E'. grows T d E d' E' \<and> seq_refs alt' \<subseteq> set (d_used d') \<and> slang T E' alt' = slang T E alt"
  by (rule d_alt_sim_from [OF d_element_sim assms(1-3)]) (use assms(4) in \<open>auto simp: list_all_iff\<close>)

lemma d_alts_sim:
  assumes "d_alts alts d = Some (alts', d')" "explains T d E" "alts_refs alts \<subseteq> set (d_used d)"
    "list_all (list_all bounds_ok) alts"
  shows "\<exists>E'. grows T d E d' E' \<and> alts_refs alts' \<subseteq> set (d_used d') \<and> alang T E' alts' = alang T E alts"
  by (rule d_alts_sim_from [OF d_alt_sim assms(1-3)]) (use assms(4) in \<open>auto simp: list_all_iff\<close>)

section \<open>Nothing is lost\<close>

text \<open>
  In any assignment that satisfies the helpers minted by the end, the new element describes at
  least what the old one does.
\<close>

definition covers :: "'a terminals \<Rightarrow> 'a env \<Rightarrow> desugar_state \<Rightarrow> bool" where
  "covers T L d \<longleftrightarrow> models T L (d_extra d)"

definition extends_state :: "desugar_state \<Rightarrow> desugar_state \<Rightarrow> bool" where
  "extends_state d d' \<longleftrightarrow> set (d_extra d) \<subseteq> set (d_extra d')"

lemma ext_refl [intro]: "extends_state d d" by (simp add: extends_state_def)

lemma ext_trans [trans]: "extends_state d d1 \<Longrightarrow> extends_state d1 d2 \<Longrightarrow> extends_state d d2" by (auto simp: extends_state_def)

lemma ext_covers: "extends_state d d' \<Longrightarrow> covers T L d' \<Longrightarrow> covers T L d"
  by (auto simp: extends_state_def covers_def models_def)

lemma ext_fresh: "d_fresh h d = (n, d') \<Longrightarrow> extends_state d d'"
  using d_fresh_mints(3) by (auto simp: extends_state_def)

lemma d_helper_covers:
  assumes "d_helper n alts rh d = (el', d')"
  shows "extends_state d d'" and "covers T L d' \<Longrightarrow> alang T L alts \<subseteq> elang T L el'"
  using assms by (auto simp: d_helper_def d_push_def extends_state_def covers_def models_def prod_helper_def)

lemma d_repeat_loop_covers:
  assumes "d_repeat_loop n inner g d = (el', d')"
  shows "extends_state d d'" and "covers T L d' \<Longrightarrow> lstar (elang T L inner) \<subseteq> elang T L el'"
proof -
  show "extends_state d d'" using assms by (auto simp: d_repeat_loop_def d_push_def extends_state_def)
  assume "covers T L d'"
  then have "conc (elang T L inner) (L n) \<union> {[]} \<subseteq> L n" and "el' = el_reference n"
    using assms by (auto simp: d_repeat_loop_def d_push_def covers_def models_def prod_helper_def)
  then show "lstar (elang T L inner) \<subseteq> elang T L el'" by (simp add: lstar_least)
qed

lemma d_group_covers:
  assumes "d_group alts d = (el', d')"
  shows "extends_state d d'" and "covers T L d' \<Longrightarrow> alang T L alts \<subseteq> elang T L el'"
proof -
  obtain n d1 where f: "d_fresh ''group'' d = (n, d1)"
    and h: "d_helper n alts False d1 = (el', d')"
    using assms by (auto simp: d_group_def split: prod.splits)
  show "extends_state d d'" by (rule ext_trans [OF ext_fresh [OF f] d_helper_covers(1) [OF h]])
  show "covers T L d' \<Longrightarrow> alang T L alts \<subseteq> elang T L el'" by (rule d_helper_covers(2) [OF h])
qed

lemma d_opt_covers:
  assumes "d_opt inner d = (el', d')"
  shows "extends_state d d'" and "covers T L d' \<Longrightarrow> {[]} \<union> elang T L inner \<subseteq> elang T L el'"
proof -
  obtain n d1 where f: "d_fresh (''opt_'' @ d_hint inner) d = (n, d1)"
    and h: "d_helper n [[inner], []] True d1 = (el', d')"
    using assms by (auto simp: d_opt_def split: prod.splits)
  show "extends_state d d'" by (rule ext_trans [OF ext_fresh [OF f] d_helper_covers(1) [OF h]])
  show "covers T L d' \<Longrightarrow> {[]} \<union> elang T L inner \<subseteq> elang T L el'"
    using d_helper_covers(2) [OF h] by simp
qed

lemma d_star_covers:
  assumes "d_star inner g d = (el', d')"
  shows "extends_state d d'" and "covers T L d' \<Longrightarrow> lstar (elang T L inner) \<subseteq> elang T L el'"
proof -
  obtain n d1 where f: "d_fresh (''star_'' @ d_hint inner) d = (n, d1)"
    and l: "d_repeat_loop n inner g d1 = (el', d')"
    using assms by (auto simp: d_star_def split: prod.splits)
  show "extends_state d d'" by (rule ext_trans [OF ext_fresh [OF f] d_repeat_loop_covers(1) [OF l]])
  show "covers T L d' \<Longrightarrow> lstar (elang T L inner) \<subseteq> elang T L el'" by (rule d_repeat_loop_covers(2) [OF l])
qed

lemma d_plus_covers:
  assumes "d_plus inner d = (el', d')"
  shows "extends_state d d'"
    and "covers T L d' \<Longrightarrow> conc (elang T L inner) (lstar (elang T L inner)) \<subseteq> elang T L el'"
proof -
  obtain tn d1 pn d2 tr d3 where f: "d_fresh (''star_'' @ d_hint inner) d = (tn, d1)"
      "d_fresh (''plus_'' @ d_hint inner) d1 = (pn, d2)"
    and l: "d_repeat_loop tn inner None d2 = (tr, d3)"
    and h: "d_helper pn [[inner, tr]] False d3 = (el', d')"
    using assms by (auto simp: d_plus_def split: prod.splits)
  note ml = d_repeat_loop_covers(1) [OF l] and mh = d_helper_covers(1) [OF h]
  show "extends_state d d'"
    by (rule ext_trans [OF ext_trans [OF ext_fresh [OF f(1)] ext_fresh [OF f(2)]] ext_trans [OF ml mh]])
  assume c: "covers T L d'"
  have "lstar (elang T L inner) \<subseteq> elang T L tr"
    by (rule d_repeat_loop_covers(2) [OF l ext_covers [OF mh c]])
  then have "conc (elang T L inner) (lstar (elang T L inner)) \<subseteq> conc (elang T L inner) (elang T L tr)"
    by (rule conc_mono [OF order_refl])
  also have "\<dots> \<subseteq> elang T L el'" using d_helper_covers(2) [OF h c] by simp
  finally show "conc (elang T L inner) (lstar (elang T L inner)) \<subseteq> elang T L el'" .
qed

lemma d_opt_chain_covers:
  assumes "d_opt_chain k inner nested d = (nested', d')"
  shows "extends_state d d'" and "covers T L d' \<Longrightarrow> upto_pow j (elang T L inner) \<subseteq> nested_lang T L nested \<Longrightarrow>
    upto_pow (j + k) (elang T L inner) \<subseteq> nested_lang T L nested'"
proof -
  have "extends_state d d' \<and> (covers T L d' \<longrightarrow> upto_pow j (elang T L inner) \<subseteq> nested_lang T L nested \<longrightarrow>
      upto_pow (j + k) (elang T L inner) \<subseteq> nested_lang T L nested')"
    using assms
  proof (induction k arbitrary: nested d j)
    case (Suc k)
    let ?sq = "case nested of Some r \<Rightarrow> [inner, r] | None \<Rightarrow> [inner]"
    obtain gn d1 where f1: "d_fresh ''group'' d = (gn, d1)" by fastforce
    obtain gr d2 where h1: "d_helper gn [?sq] False d1 = (gr, d2)" by fastforce
    obtain opn d3 where f2: "d_fresh (''opt_'' @ gn) d2 = (opn, d3)" by fastforce
    obtain opr d4 where h2: "d_helper opn [[gr], []] True d3 = (opr, d4)" by fastforce
    have rest: "d_opt_chain k inner (Some opr) d4 = (nested', d')"
      using Suc.prems f1 h1 f2 h2 by simp
    note IH = Suc.IH [OF rest]
    have m: "extends_state d d2" "extends_state d2 d4" "extends_state d4 d'"
      using ext_trans [OF ext_fresh [OF f1] d_helper_covers(1) [OF h1]]
        ext_trans [OF ext_fresh [OF f2] d_helper_covers(1) [OF h2]] IH [of 0] by blast+
    have "upto_pow (j + Suc k) (elang T L inner) \<subseteq> nested_lang T L nested'"
      if c: "covers T L d'" and j: "upto_pow j (elang T L inner) \<subseteq> nested_lang T L nested"
    proof -
      have c4: "covers T L d4" by (rule ext_covers [OF m(3) c])
      have c2: "covers T L d2" by (rule ext_covers [OF m(2) c4])
      have "slang T L ?sq = conc (elang T L inner) (nested_lang T L nested)"
        by (auto simp: nested_lang_def split: option.splits)
      then have "conc (elang T L inner) (upto_pow j (elang T L inner)) \<subseteq> elang T L gr"
        using d_helper_covers(2) [OF h1 c2] conc_mono [OF order_refl j, of "elang T L inner"] by auto
      then have "upto_pow (Suc j) (elang T L inner) \<subseteq> nested_lang T L (Some opr)"
        using d_helper_covers(2) [OF h2 c4] by (auto simp: nested_lang_def upto_pow_Suc)
      with IH [of "Suc j"] c show ?thesis by simp
    qed
    with ext_trans [OF m(1) ext_trans [OF m(2,3)]] show ?case by simp
  qed auto
  then show "extends_state d d'" and "covers T L d' \<Longrightarrow> upto_pow j (elang T L inner) \<subseteq> nested_lang T L nested \<Longrightarrow>
    upto_pow (j + k) (elang T L inner) \<subseteq> nested_lang T L nested'" by auto
qed

lemma d_rep_covers:
  assumes "d_rep mn mx inner d = (el', d')" and ok: "case mx of None \<Rightarrow> True | Some m \<Rightarrow> mn \<le> m"
  shows "extends_state d d'"
    and "covers T L d' \<Longrightarrow> (\<Union>k\<in>rep_counts mn mx. lpow k (elang T L inner)) \<subseteq> elang T L el'"
proof -
  let ?A = "elang T L inner"
  let ?X = "\<Union>k\<in>rep_counts mn mx. lpow k ?A"
  obtain rn d1 where f: "d_fresh (''rep_'' @ d_hint inner) d = (rn, d1)" by fastforce
  have "\<exists>tl d2. d_helper rn [replicate mn inner @ tl] False d2 = (el', d') \<and> extends_state d1 d2 \<and>
      (covers T L d2 \<longrightarrow> ?X \<subseteq> conc (lpow mn ?A) (slang T L tl))"
  proof (cases mx)
    case None
    obtain tn d2 where f2: "d_fresh (''star_'' @ d_hint inner) d1 = (tn, d2)" by fastforce
    obtain tr d3 where l: "d_repeat_loop tn inner None d2 = (tr, d3)" by fastforce
    have st: "d_star inner None d1 = (tr, d3)" using f2 l by (simp add: d_star_def)
    have "d_helper rn [replicate mn inner @ [tr]] False d3 = (el', d')"
      using assms(1) None f f2 l by (simp add: d_rep_def)
    moreover have "?X \<subseteq> conc (lpow mn ?A) (slang T L [tr])" if "covers T L d3"
      using conc_mono [OF order_refl d_star_covers(2) [OF st that]] None
      by (simp add: rep_tail_unbounded [symmetric])
    ultimately show ?thesis using d_star_covers(1) [OF st] by blast
  next
    case (Some m)
    obtain nd d2 where c: "d_opt_chain (m - mn) inner None d1 = (nd, d2)" by fastforce
    let ?tl = "case nd of None \<Rightarrow> [] | Some r \<Rightarrow> [r]"
    have "d_helper rn [replicate mn inner @ ?tl] False d2 = (el', d')"
      using assms(1) Some f c by (auto simp: d_rep_def split: option.splits)
    moreover have "?X \<subseteq> conc (lpow mn ?A) (slang T L ?tl)" if "covers T L d2"
    proof -
      have "upto_pow (m - mn) ?A \<subseteq> nested_lang T L nd"
        using d_opt_chain_covers(2) [OF c that, of 0] by (simp add: nested_lang_def upto_pow_def)
      also have "\<dots> = slang T L ?tl" by (auto simp: nested_lang_def split: option.splits)
      finally have "conc (lpow mn ?A) (upto_pow (m - mn) ?A) \<subseteq> conc (lpow mn ?A) (slang T L ?tl)"
        by (rule conc_mono [OF order_refl])
      moreover have "mn \<le> m" using ok Some by simp
      ultimately show ?thesis unfolding Some by (simp only: rep_tail_bounded)
    qed
    ultimately show ?thesis using d_opt_chain_covers(1) [OF c] by blast
  qed
  then obtain tl d2 where hp: "d_helper rn [replicate mn inner @ tl] False d2 = (el', d')"
    and m: "extends_state d1 d2" and X: "covers T L d2 \<Longrightarrow> ?X \<subseteq> conc (lpow mn ?A) (slang T L tl)" by blast
  note mh = d_helper_covers(1) [OF hp]
  show "extends_state d d'" by (rule ext_trans [OF ext_fresh [OF f] ext_trans [OF m mh]])
  assume c: "covers T L d'"
  have "?X \<subseteq> alang T L [replicate mn inner @ tl]"
    using X [OF ext_covers [OF mh c]] by (simp add: slang_replicate)
  then show "?X \<subseteq> elang T L el'" using d_helper_covers(2) [OF hp c] by (rule order_trans)
qed

lemma state_map_extends:
  assumes "state_map f xs d = Some (ys, d')"
    and "\<And>x d y d'. x \<in> set xs \<Longrightarrow> f x d = Some (y, d') \<Longrightarrow> extends_state d d'"
  shows "extends_state d d'"
  using assms
proof (induction xs arbitrary: d ys)
  case (Cons x xs)
  obtain y d1 zs where s: "f x d = Some (y, d1)" "state_map f xs d1 = Some (zs, d')"
    using Cons.prems(1) by (auto simp: state_map_Cons_Some simp del: state_map.simps)
  have "extends_state d d1" by (rule Cons.prems(2) [OF _ s(1)]) simp
  moreover have "extends_state d1 d'" by (rule Cons.IH [OF s(2)]) (use Cons.prems(2) in auto)
  ultimately show ?case by (rule ext_trans)
qed auto

lemma state_map_covers:
  assumes "state_map f xs d = Some (ys, d')" and "covers T L d'"
    and "\<And>x d y d'. x \<in> set xs \<Longrightarrow> f x d = Some (y, d') \<Longrightarrow> extends_state d d'"
    and "\<And>x d y d'. x \<in> set xs \<Longrightarrow> f x d = Some (y, d') \<Longrightarrow> covers T L d' \<Longrightarrow> P x y"
  shows "list_all2 P xs ys"
  using assms
proof (induction xs arbitrary: d ys)
  case (Cons x xs)
  obtain y d1 zs where s: "f x d = Some (y, d1)" "state_map f xs d1 = Some (zs, d')" "ys = y # zs"
    using Cons.prems(1) by (auto simp: state_map_Cons_Some simp del: state_map.simps)
  have "extends_state d1 d'" using state_map_extends [OF s(2)] Cons.prems(3) by (metis list.set_intros(2))
  then have "P x y" using Cons.prems(2,4) s(1) ext_covers by (metis list.set_intros(1))
  moreover have "list_all2 P xs zs" by (rule Cons.IH [OF s(2) Cons.prems(2)]) (use Cons.prems in auto)
  ultimately show ?case using s(3) by simp
qed simp

lemma slang_covers: "list_all2 (\<lambda>e e'. elang T L e \<subseteq> elang T L e') a a' \<Longrightarrow> slang T L a \<subseteq> slang T L a'"
  by (induction rule: list_all2_induct) (simp_all add: conc_mono)

lemma alang_covers: "list_all2 (\<lambda>e e'. slang T L e \<subseteq> slang T L e') a a' \<Longrightarrow> alang T L a \<subseteq> alang T L a'"
  by (induction rule: list_all2_induct) auto

lemma d_element_covers:
  "d_element el d = Some (el', d') \<Longrightarrow> bounds_ok el \<Longrightarrow>
   extends_state d d' \<and> (covers T L d' \<longrightarrow> elang T L el \<subseteq> elang T L el')"
proof (induction el arbitrary: d el' d' rule: element_induct)
  case (Opt i sp)
  then obtain inner d1 where s: "d_element i d = Some (inner, d1)" "d_opt inner d1 = (el', d')"
    by (auto simp: bind_eq_Some_conv)
  note c = d_opt_covers [OF s(2)]
  have IH: "extends_state d d1 \<and> (covers T L d1 \<longrightarrow> elang T L i \<subseteq> elang T L inner)"
    using Opt.IH [OF s(1)] Opt.prems by simp
  have "elang T L (Element (Opt i) sp) \<subseteq> elang T L el'" if d': "covers T L d'"
  proof -
    have sub: "elang T L i \<subseteq> elang T L inner" using IH ext_covers [OF c(1) d'] by blast
    have "elang T L (Element (Opt i) sp) \<subseteq> {[]} \<union> elang T L inner"
      unfolding elang.simps by (rule Un_mono [OF order_refl sub])
    then show ?thesis using c(2) [OF d'] by (rule order_trans)
  qed
  then show ?case using ext_trans [OF _ c(1)] IH by blast
next
  case (Star i g sp)
  then obtain inner d1 where s: "d_element i d = Some (inner, d1)" "d_star inner g d1 = (el', d')"
    by (auto simp: bind_eq_Some_conv)
  note c = d_star_covers [OF s(2)]
  have IH: "extends_state d d1 \<and> (covers T L d1 \<longrightarrow> elang T L i \<subseteq> elang T L inner)"
    using Star.IH [OF s(1)] Star.prems by simp
  have "elang T L (Element (Star i g) sp) \<subseteq> elang T L el'" if d': "covers T L d'"
  proof -
    have sub: "elang T L i \<subseteq> elang T L inner" using IH ext_covers [OF c(1) d'] by blast
    have "elang T L (Element (Star i g) sp) \<subseteq> lstar (elang T L inner)"
      unfolding elang.simps by (rule lstar_mono [OF sub])
    then show ?thesis using c(2) [OF d'] by (rule order_trans)
  qed
  then show ?case using ext_trans [OF _ c(1)] IH by blast
next
  case (Plus i sp)
  then obtain inner d1 where s: "d_element i d = Some (inner, d1)" "d_plus inner d1 = (el', d')"
    by (auto simp: bind_eq_Some_conv)
  note c = d_plus_covers [OF s(2)]
  have IH: "extends_state d d1 \<and> (covers T L d1 \<longrightarrow> elang T L i \<subseteq> elang T L inner)"
    using Plus.IH [OF s(1)] Plus.prems by simp
  have "elang T L (Element (Plus i) sp) \<subseteq> elang T L el'" if d': "covers T L d'"
  proof -
    have sub: "elang T L i \<subseteq> elang T L inner" using IH ext_covers [OF c(1) d'] by blast
    have "elang T L (Element (Plus i) sp) \<subseteq> conc (elang T L inner) (lstar (elang T L inner))"
      unfolding elang.simps by (rule conc_mono [OF sub lstar_mono [OF sub]])
    then show ?thesis using c(2) [OF d'] by (rule order_trans)
  qed
  then show ?case using ext_trans [OF _ c(1)] IH by blast
next
  case (Rep mn mx i sp)
  then obtain inner d1 where s: "d_element i d = Some (inner, d1)" "d_rep mn mx inner d1 = (el', d')"
    by (auto simp: bind_eq_Some_conv)
  have ok: "case mx of None \<Rightarrow> True | Some m \<Rightarrow> mn \<le> m" using Rep.prems(2) by simp
  note c = d_rep_covers [OF s(2) ok]
  have IH: "extends_state d d1 \<and> (covers T L d1 \<longrightarrow> elang T L i \<subseteq> elang T L inner)"
    using Rep.IH [OF s(1)] Rep.prems by simp
  have "elang T L (Element (Rep mn mx i) sp) \<subseteq> elang T L el'" if d': "covers T L d'"
  proof -
    have sub: "elang T L i \<subseteq> elang T L inner" using IH ext_covers [OF c(1) d'] by blast
    have "elang T L (Element (Rep mn mx i) sp) \<subseteq> (\<Union>k\<in>rep_counts mn mx. lpow k (elang T L inner))"
      unfolding elang.simps by (rule UN_mono [OF order_refl lpow_mono [OF sub]])
    then show ?thesis using c(2) [OF d'] by (rule order_trans)
  qed
  then show ?case using ext_trans [OF _ c(1)] IH by blast
next
  case (Group alts sp)
  then obtain as' d1 where s: "d_alts alts d = Some (as', d1)" "d_group as' d1 = (el', d')"
    by (auto simp: bind_eq_Some_conv)
  note c = d_group_covers [OF s(2)]
  have e: "extends_state b b' \<and> (covers T L b' \<longrightarrow> elang T L e \<subseteq> elang T L e')"
    if "a \<in> set alts" "e \<in> set a" "d_element e b = Some (e', b')" for a e b e' b'
    using Group.IH [OF that] Group.prems(2) that(1,2) by (auto simp: list_all_iff)
  have m: "extends_state b b'" if "a \<in> set alts" "d_alt a b = Some (a', b')" for a b a' b'
    by (rule state_map_extends [OF that(2)]) (use e [OF that(1)] in blast)
  have "slang T L a \<subseteq> slang T L a'"
    if "a \<in> set alts" "d_alt a b = Some (a', b')" "covers T L b'" for a b a' b'
    by (rule slang_covers, rule state_map_covers [OF that(2,3)]) (use e [OF that(1)] in blast)+
  then have sub: "alang T L alts \<subseteq> alang T L as'" if "covers T L d1"
    by (intro alang_covers state_map_covers [OF s(1) that]) (use m in blast)+
  have "extends_state d d1" by (rule state_map_extends [OF s(1) m])
  moreover have "alang T L alts \<subseteq> elang T L el'" if "covers T L d'"
    by (rule order_trans [OF sub [OF ext_covers [OF c(1) that]] c(2) [OF that]])
  ultimately show ?case using ext_trans [OF _ c(1)] by (simp only: elang_group) blast
qed auto

lemma d_alts_covers:
  assumes "d_alts alts d = Some (alts', d')" and "list_all (list_all bounds_ok) alts"
  shows "extends_state d d'" and "covers T L d' \<Longrightarrow> alang T L alts \<subseteq> alang T L alts'"
proof -
  have e: "extends_state b b' \<and> (covers T L b' \<longrightarrow> elang T L e \<subseteq> elang T L e')"
    if "a \<in> set alts" "e \<in> set a" "d_element e b = Some (e', b')" for a e b e' b'
    using d_element_covers [OF that(3)] assms(2) that(1,2) by (auto simp: list_all_iff)
  have m: "extends_state b b'" if "a \<in> set alts" "d_alt a b = Some (a', b')" for a b a' b'
    using state_map_extends [OF that(2)] e [OF that(1)] by blast
  show "extends_state d d'" using state_map_extends [OF assms(1)] m by blast
  have "slang T L a \<subseteq> slang T L a'"
    if "a \<in> set alts" "d_alt a b = Some (a', b')" "covers T L b'" for a b a' b'
    by (rule slang_covers, rule state_map_covers [OF that(2,3)]) (use e [OF that(1)] in blast)+
  then show "alang T L alts \<subseteq> alang T L alts'" if "covers T L d'"
    by (intro alang_covers state_map_covers [OF assms(1) that]) (use m in blast)+
qed

section \<open>The whole pass\<close>

lemma d_prods_sim:
  assumes "state_map d_prod ps d = Some (ps', d')" and "explains T d E"
    and "\<And>p. p \<in> set ps \<Longrightarrow> alts_refs (p_alts p) \<subseteq> set (d_used d)"
    and "all_elements bounds_ok ps"
  shows "\<exists>E'. grows T d E d' E' \<and> list_all2 (\<lambda>p p'. p_name p' = p_name p \<and>
     alts_refs (p_alts p') \<subseteq> set (d_used d') \<and> alang T E' (p_alts p') = alang T E (p_alts p)) ps ps'"
  using assms
proof (induction ps arbitrary: d E ps')
  case Nil
  then show ?case by (auto intro: grows_refl)
next
  case (Cons p ps)
  obtain p' d1 qs where s: "d_prod p d = Some (p', d1)" "state_map d_prod ps d1 = Some (qs, d')" "ps' = p' # qs"
    using Cons.prems(1) by (auto simp: state_map_Cons_Some simp del: state_map.simps)
  let ?d = "d\<lparr>d_origin := origin_of p\<rparr>"
  obtain alts where alts: "d_alts (p_alts p) ?d = Some (alts, d1)" "p_name p' = p_name p" "p_alts p' = alts"
    by (rule d_prod_Some [OF s(1)])
  have "explains T ?d E" using Cons.prems(2) by (simp add: explains_def)
  then obtain E1 where E1: "grows T ?d E d1 E1" "alts_refs alts \<subseteq> set (d_used d1)"
      "alang T E1 alts = alang T E (p_alts p)"
    using d_alts_sim [OF alts(1), of T E] Cons.prems(3) [of p] Cons.prems(4) by auto
  have g: "grows T d E d1 E1" using E1(1) by (simp add: grows_def)
  have refs: "alts_refs (p_alts q) \<subseteq> set (d_used d)" if "q \<in> set ps" for q using Cons.prems(3) that by simp
  have "alts_refs (p_alts q) \<subseteq> set (d_used d1)" if "q \<in> set ps" for q
    using refs [OF that] grows_used [OF g] by blast
  then obtain E2 where E2: "grows T d1 E1 d' E2" "list_all2 (\<lambda>p p'. p_name p' = p_name p \<and>
     alts_refs (p_alts p') \<subseteq> set (d_used d') \<and> alang T E2 (p_alts p') = alang T E1 (p_alts p)) ps qs"
    using Cons.IH [OF s(2) grows_explains [OF g]] Cons.prems(4) by auto
  have "list_all2 (\<lambda>p p'. p_name p' = p_name p \<and>
     alts_refs (p_alts p') \<subseteq> set (d_used d') \<and> alang T E2 (p_alts p') = alang T E (p_alts p)) ps qs"
    by (rule list.rel_mono_strong [OF E2(2)]) (use grows_alang [OF g] refs in auto)
  moreover have "alang T E2 alts = alang T E (p_alts p)" using grows_alang [OF E2(1) E1(2)] E1(3) by simp
  moreover have "alts_refs alts \<subseteq> set (d_used d')" using grows_used [OF E2(1)] E1(2) by blast
  ultimately show ?case using grows_trans [OF g E2(1)] alts(2,3) s(3) by (intro exI [of _ E2]) auto
qed

lemma d_prod_covers:
  assumes "d_prod p d = Some (p', d')" and "list_all (list_all bounds_ok) (p_alts p)"
  shows "extends_state d d'"
    and "covers T L d' \<Longrightarrow> p_name p = p_name p' \<and> alang T L (p_alts p) \<subseteq> alang T L (p_alts p')"
proof -
  obtain alts where alts: "d_alts (p_alts p) (d\<lparr>d_origin := origin_of p\<rparr>) = Some (alts, d')"
    "p_name p' = p_name p" "p_alts p' = alts" by (rule d_prod_Some [OF assms(1)])
  note c = d_alts_covers [OF alts(1) assms(2)]
  show "extends_state d d'" using c(1) by (simp add: extends_state_def)
  show "p_name p = p_name p' \<and> alang T L (p_alts p) \<subseteq> alang T L (p_alts p')" if "covers T L d'"
    using c(2) [OF that] alts by simp
qed

lemma desugar_keeps_language:
  assumes "desugar g = Some g'" and "closed (productions g)" and "all_elements bounds_ok (productions g)"
    and "n \<in> set (names (productions g))"
  shows "glang T (productions g') n = glang T (productions g) n"
proof
  let ?ps = "productions g"
  obtain ps d where s: "state_map d_prod ?ps (d_start g) = Some (ps, d)"
    and g': "productions g' = ps @ d_extra d" by (rule desugar_Some [OF assms(1)])
  let ?E = "glang T ?ps"
  have used: "set (d_used (d_start g)) = set (names ?ps)" by (simp add: d_start_def)
  have "explains T (d_start g) ?E" by (simp add: explains_def models_def d_start_def)
  then obtain E' where E': "grows T (d_start g) ?E d E'" "list_all2 (\<lambda>p p'. p_name p' = p_name p \<and>
     alts_refs (p_alts p') \<subseteq> set (d_used d) \<and> alang T E' (p_alts p') = alang T ?E (p_alts p)) ?ps ps"
    using d_prods_sim [OF s] assms(2,3) used unfolding closed_def by blast
  have agree: "E' m = ?E m" if "m \<in> set (names ?ps)" for m
    using E'(1) that unfolding grows_def used by blast
  have "alang T E' (p_alts p') \<subseteq> E' (p_name p')" if p': "p' \<in> set ps" for p'
  proof -
    obtain p where "p \<in> set ?ps" "p_name p' = p_name p" "alang T E' (p_alts p') = alang T ?E (p_alts p)"
      using E'(2) p' by (auto simp: list_all2_conv_all_nth in_set_conv_nth) fastforce
    then show ?thesis using glang_models [of T ?ps] agree by (auto simp: models_def)
  qed
  then have "models T E' (productions g')"
    using E'(1) g' by (auto simp: models_def grows_def explains_def)
  then show "glang T (productions g') n \<subseteq> glang T ?ps n"
    using agree [OF assms(4)] glang_least by metis
  let ?L = "glang T (productions g')"
  have L: "covers T ?L d" using glang_models [of T "productions g'"] g' by (auto simp: covers_def models_def)
  have "list_all2 (\<lambda>p p'. p_name p = p_name p' \<and> alang T ?L (p_alts p) \<subseteq> alang T ?L (p_alts p')) ?ps ps"
  proof (rule state_map_covers [OF s L])
    fix p d p' d' assume p: "p \<in> set ?ps" "d_prod p d = Some (p', d')"
    have ok: "list_all (list_all bounds_ok) (p_alts p)" using assms(3) p(1) by (simp add: list_all_iff)
    show "extends_state d d'" by (rule d_prod_covers(1) [OF p(2) ok])
    show "p_name p = p_name p' \<and> alang T ?L (p_alts p) \<subseteq> alang T ?L (p_alts p')" if "covers T ?L d'"
      by (rule d_prod_covers(2) [OF p(2) ok that])
  qed
  then have "alang T ?L (p_alts p) \<subseteq> ?L (p_name p)" if "p \<in> set ?ps" for p
    using that glang_models [of T "productions g'"] g'
    by (fastforce simp: models_def list_all2_conv_all_nth in_set_conv_nth)
  then show "glang T ?ps n \<subseteq> glang T (productions g') n"
    by (intro glang_ge) (simp add: models_def)
qed

text \<open>
  C10: Desugaring keeps the language. Whatever the terminals match, every authored rule of a
  closed grammar with bounds the right way round describes exactly what it described before.
\<close>

theorem desugar_language:
  assumes "desugar g = Some g'" and "closed (productions g)" and "all_elements bounds_ok (productions g)"
    and "n \<in> set (names (productions g))"
  shows "glang T (productions g') n = glang T (productions g) n"
  by (rule desugar_keeps_language [OF assms])

lemma desugar_language_witness:
  "glang (\<lambda>k. {[k]}) (productions (the (desugar sugar_example))) ''t'' =
   glang (\<lambda>k. {[k]}) (productions sugar_example) ''t''"
  using desugar_language [of sugar_example "the (desugar sugar_example)" "''t''" "\<lambda>k. {[k]}"] sugar_example_desugars
  by (simp add: closed_def sugar_simps)

end
