(* ===== verification/Spec_Data.thy ===== *)
theory Spec_Data
  imports IR
begin

text \<open>
  The emitted grammar as data (first half of \<open>rs/src/spec.rs\<close>): JSON values, an alternate as
  an insertion-ordered map of fields with its mark, a rule as its open and close alternates, and
  the document they make. JSON objects keep insertion order (\<open>preserve_order\<close>), so an object is
  an association list. A number is an integer or a float; a float is what its decimal text is
  made from, the shortest digits that read back as it and the exponent of the first.
\<close>

datatype jfloat = FNan | FInf bool | FZero | FNum bool string int

datatype jnum = NInt int | NFloat jfloat

datatype json =
    JNull
  | JBool bool
  | JNum jnum
  | JStr string
  | JArr "json list"
  | JObj "(string \<times> json) list"

definition json_str :: "json \<Rightarrow> string option" where
  "json_str v = (case v of JStr s \<Rightarrow> Some s | _ \<Rightarrow> None)"

definition json_u64 :: "json \<Rightarrow> nat option" where
  "json_u64 v = (case v of JNum (NInt i) \<Rightarrow> if 0 \<le> i \<and> i < 2 ^ 64 then Some (nat i) else None | _ \<Rightarrow> None)"

definition json_object :: "json \<Rightarrow> (string \<times> json) list option" where
  "json_object v = (case v of JObj m \<Rightarrow> Some m | _ \<Rightarrow> None)"

section \<open>Alternates\<close>

record alt_spec =
  as_fields :: "(string \<times> json) list"
  as_m :: "string option"

definition alt_new :: alt_spec where
  "alt_new = \<lparr>as_fields = [], as_m = None\<rparr>"

definition alt_set :: "string \<Rightarrow> json \<Rightarrow> alt_spec \<Rightarrow> alt_spec" where
  "alt_set key value a = a\<lparr>as_fields := imap_insert key value (as_fields a)\<rparr>"

definition alt_with_tag :: "string \<Rightarrow> alt_spec" where
  "alt_with_tag tag = alt_set ''g'' (JStr tag) alt_new"

definition alt_remove :: "string \<Rightarrow> alt_spec \<Rightarrow> alt_spec" where
  "alt_remove key a = a\<lparr>as_fields := imap_remove key (as_fields a)\<rparr>"

definition alt_get :: "alt_spec \<Rightarrow> string \<Rightarrow> json option" where
  "alt_get a key = map_of (as_fields a) key"

definition alt_contains :: "alt_spec \<Rightarrow> string \<Rightarrow> bool" where
  "alt_contains a key = (alt_get a key \<noteq> None)"

definition alt_assign_from :: "alt_spec \<Rightarrow> alt_spec \<Rightarrow> alt_spec" where
  "alt_assign_from other a =
     a\<lparr>as_fields := foldl (\<lambda>acc kv. imap_insert (fst kv) (snd kv) acc) (as_fields a) (as_fields other)\<rparr>"

definition alt_str_field :: "alt_spec \<Rightarrow> string \<Rightarrow> string option" where
  "alt_str_field a key = Option.bind (alt_get a key) json_str"

definition alt_s :: "alt_spec \<Rightarrow> string option" where "alt_s a = alt_str_field a ''s''"
definition alt_p :: "alt_spec \<Rightarrow> string option" where "alt_p a = alt_str_field a ''p''"
definition alt_r :: "alt_spec \<Rightarrow> string option" where "alt_r a = alt_str_field a ''r''"
definition alt_g :: "alt_spec \<Rightarrow> string option" where "alt_g a = alt_str_field a ''g''"
definition alt_b :: "alt_spec \<Rightarrow> nat option" where "alt_b a = Option.bind (alt_get a ''b'') json_u64"

definition alt_actions :: "alt_spec \<Rightarrow> string list" where
  "alt_actions a =
     (case alt_get a ''a'' of
        Some (JStr s) \<Rightarrow> [s]
      | Some (JArr list) \<Rightarrow> List.map_filter json_str list
      | _ \<Rightarrow> [])"

definition alt_set_actions :: "string list \<Rightarrow> alt_spec \<Rightarrow> alt_spec" where
  "alt_set_actions actions a =
     (case actions of
        [] \<Rightarrow> alt_remove ''a'' a
      | [one] \<Rightarrow> alt_set ''a'' (JStr one) a
      | many \<Rightarrow> alt_set ''a'' (JArr (map JStr many)) a)"

definition alt_append_action :: "string \<Rightarrow> alt_spec \<Rightarrow> alt_spec" where
  "alt_append_action added a =
     alt_set ''a''
       (case alt_get a ''a'' of
          None \<Rightarrow> JStr added
        | Some JNull \<Rightarrow> JStr added
        | Some (JArr list) \<Rightarrow> JArr (list @ [JStr added])
        | Some existing \<Rightarrow> JArr [existing, JStr added]) a"

definition alt_k :: "alt_spec \<Rightarrow> (string \<times> json) list option" where
  "alt_k a = Option.bind (alt_get a ''k'') json_object"

definition alt_to_value :: "alt_spec \<Rightarrow> json" where
  "alt_to_value a = JObj (as_fields a)"

lemma alt_get_set [simp]: "alt_get (alt_set k v a) k' = (if k' = k then Some v else alt_get a k')"
  by (simp add: alt_get_def alt_set_def)

lemma alt_get_remove [simp]: "alt_get (alt_remove k a) k' = (if k' = k then None else alt_get a k')"
  by (simp add: alt_get_def alt_remove_def)

lemma map_filter_json_str [simp]: "List.map_filter json_str (map JStr xs) = xs"
  by (induction xs) (auto simp: List.map_filter_def json_str_def)

lemma map_filter_append: "List.map_filter f (xs @ ys) = List.map_filter f xs @ List.map_filter f ys"
  by (simp add: List.map_filter_def)

lemma alt_append_action_actions:
  "alt_actions (alt_append_action x a) = alt_actions a @ [x]"
  by (auto simp: alt_actions_def alt_append_action_def map_filter_append List.map_filter_def json_str_def
      split: option.splits json.splits)

lemma alt_append_action_get: "k \<noteq> ''a'' \<Longrightarrow> alt_get (alt_append_action x a) k = alt_get a k"
  by (simp add: alt_append_action_def)

lemma alt_append_action_m [simp]: "as_m (alt_append_action x a) = as_m a"
  by (simp add: alt_append_action_def alt_set_def)

text \<open>The action list an alternate is given is the list it reads back, in every wire form.\<close>

theorem alt_set_actions_roundtrip: "alt_actions (alt_set_actions xs a) = xs"
  by (auto simp: alt_set_actions_def alt_actions_def split: list.splits)
     (simp add: List.map_filter_def json_str_def comp_def)

section \<open>Rules and documents\<close>

record rule_spec =
  rs_open :: "alt_spec list"
  rs_close :: "alt_spec list option"

definition rule_spec_empty :: rule_spec where
  "rule_spec_empty = \<lparr>rs_open = [], rs_close = None\<rparr>"

definition rule_to_value :: "rule_spec \<Rightarrow> json" where
  "rule_to_value rs =
     JObj ([(''open'', JArr (map alt_to_value (rs_open rs)))] @
           (case rs_close rs of None \<Rightarrow> [] | Some close \<Rightarrow> [(''close'', JArr (map alt_to_value close))]))"

definition rule_alts :: "rule_spec \<Rightarrow> string \<Rightarrow> alt_spec list" where
  "rule_alts rs phase =
     (if phase = ''open'' then rs_open rs
      else (case rs_close rs of None \<Rightarrow> [] | Some close \<Rightarrow> close))"

text \<open>\<open>alts_mut\<close>: the alternates of a phase replaced by \<open>f\<close> of them.\<close>

definition rule_alts_update :: "(alt_spec list \<Rightarrow> alt_spec list) \<Rightarrow> string \<Rightarrow> rule_spec \<Rightarrow> rule_spec" where
  "rule_alts_update f phase rs =
     (if phase = ''open'' then rs\<lparr>rs_open := f (rs_open rs)\<rparr>
      else rs\<lparr>rs_close := Some (f (case rs_close rs of None \<Rightarrow> [] | Some close \<Rightarrow> close))\<rparr>)"

text \<open>
  What a ref stands for. A user action is an engine callback, outside the repository: \<open>'f\<close>.
  \<open>RefUser\<close> keeps the functions a single composed action runs, in order.
\<close>

datatype 'f ref_action =
    RefNode bool string node_kind nat
  | RefCapture string node_kind
  | RefBubble
  | RefFold nat
  | RefProbeInit
  | RefProbeDecide string
  | RefProbePhase nat
  | RefUser "'f list"
  | RefPhase "'f list"

record 'f grammar_spec =
  gs_refs :: "(string \<times> 'f ref_action) list"
  gs_options :: "(string \<times> json) list"
  gs_rule :: "(string \<times> rule_spec option) list"
  gs_meta :: "json option"
  gs_clear :: bool

definition rules_value :: "'f grammar_spec \<Rightarrow> (string \<times> json) list" where
  "rules_value spec =
     map (\<lambda>(name, rule). (name, case rule of Some r \<Rightarrow> rule_to_value r | None \<Rightarrow> JNull)) (gs_rule spec)"

definition spec_to_value :: "'f grammar_spec \<Rightarrow> json" where
  "spec_to_value spec =
     JObj ([(''options'', JObj (gs_options spec)), (''rule'', JObj (rules_value spec))] @
           (case gs_meta spec of None \<Rightarrow> [] | Some meta \<Rightarrow> [(''meta'', meta)]) @
           (if gs_clear spec then [(''clear'', JBool True)] else []))"

definition has_closures :: "'f grammar_spec \<Rightarrow> bool" where
  "has_closures spec = (gs_refs spec \<noteq> [])"

lemma json_induct [case_names Null Bool Num Str Arr Obj]:
  assumes "P JNull" "\<And>b. P (JBool b)" "\<And>n. P (JNum n)" "\<And>s. P (JStr s)"
    and "\<And>xs. (\<And>x. x \<in> set xs \<Longrightarrow> P x) \<Longrightarrow> P (JArr xs)"
    and "\<And>m. (\<And>k x. (k, x) \<in> set m \<Longrightarrow> P x) \<Longrightarrow> P (JObj m)"
  shows "P v"
proof (induction v)
  case (JObj m)
  show ?case by (rule assms(6)) (use JObj in \<open>fastforce simp: snds.simps\<close>)
qed (use assms in auto)

end
