(* ===== verification/Budget.thy ===== *)
theory Budget
  imports Spec_Data
begin

text \<open>
  The emit budget of \<open>rs/src/budget.rs\<close>: what one compile has written and what the decision
  under way holds, against \<open>MAX_EMIT_UNITS\<close>. The cells of the code are the fields of a state
  every operation returns. Machine integers cannot wrap here: the invariant keeps every sum
  at most the limit, and the subtraction of a refusal is shown never to go below zero.
\<close>

section \<open>State and operations\<close>

definition MAX_EMIT_UNITS :: nat where "MAX_EMIT_UNITS = 3500000"

record budget_step =
  bs_subject :: subject
  bs_sp :: "src_span option"
  bs_step :: emit_step
  bs_start :: nat

record emit_budget =
  b_written :: nat
  b_held :: nat
  b_step :: budget_step

definition budget_new :: emit_budget where
  "budget_new = \<lparr>b_written = 0, b_held = 0,
     b_step = \<lparr>bs_subject = SubjectRule [], bs_sp = None, bs_step = StepAlternates, bs_start = 0\<rparr>\<rparr>"

definition b_begin :: "subject \<Rightarrow> src_span option \<Rightarrow> emit_step \<Rightarrow> emit_budget \<Rightarrow> emit_budget" where
  "b_begin subject sp step b =
     b\<lparr>b_step := \<lparr>bs_subject = subject, bs_sp = sp, bs_step = step, bs_start = b_written b\<rparr>\<rparr>"

definition b_begin_rule :: "string \<Rightarrow> src_span option \<Rightarrow> emit_step \<Rightarrow> emit_budget \<Rightarrow> emit_budget" where
  "b_begin_rule rule sp step b = b_begin (SubjectRule rule) sp step b"

definition b_room :: "emit_budget \<Rightarrow> nat" where
  "b_room b = MAX_EMIT_UNITS - (b_written b + b_held b)"

definition b_refusal :: "bool \<Rightarrow> emit_budget \<Rightarrow> emit_error" where
  "b_refusal holding b =
     (let step = b_step b;
          doing = (if holding then StepLookahead else bs_step step);
          room = MAX_EMIT_UNITS - bs_start step
      in \<lparr>e_what = OverBudget (bs_subject step) doing room (bs_start step) holding,
          e_rule = (case bs_subject step of SubjectRule name \<Rightarrow> Some name | _ \<Rightarrow> None),
          e_sp = bs_sp step\<rparr>)"

definition b_charge :: "nat \<Rightarrow> emit_budget \<Rightarrow> (emit_error, emit_budget) result" where
  "b_charge n b =
     (if b_room b < n then Inl (b_refusal False b) else Inr (b\<lparr>b_written := b_written b + n\<rparr>))"

definition b_hold :: "nat \<Rightarrow> emit_budget \<Rightarrow> (emit_error, emit_budget) result" where
  "b_hold n b =
     (if b_room b < n then Inl (b_refusal True b) else Inr (b\<lparr>b_held := b_held b + n\<rparr>))"

definition b_settle :: "nat \<Rightarrow> 't list list \<Rightarrow> emit_budget \<Rightarrow> emit_budget" where
  "b_settle base paths b = b\<lparr>b_held := base + sum_list (map (\<lambda>tokens. 1 + length tokens) paths)\<rparr>"

definition b_keep :: "nat \<Rightarrow> nat \<Rightarrow> emit_budget \<Rightarrow> emit_budget" where
  "b_keep base n b = b\<lparr>b_held := base + n\<rparr>"

definition b_restore :: "nat \<Rightarrow> emit_budget \<Rightarrow> emit_budget" where
  "b_restore base b = b\<lparr>b_held := base\<rparr>"

definition alt_units :: "alt_spec \<Rightarrow> nat" where
  "alt_units o' =
     1 + (case alt_s o' of None \<Rightarrow> 0
          | Some s \<Rightarrow> if s = [] then 0 else 1 + count_list s CHR '' '') +
     (if alt_p o' \<noteq> None then 1 else 0) + (if alt_r o' \<noteq> None then 1 else 0)"

definition rule_units :: "rule_spec \<Rightarrow> nat" where
  "rule_units rs =
     1 + sum_list (map alt_units (rs_open rs)) +
     (case rs_close rs of None \<Rightarrow> 0 | Some close \<Rightarrow> sum_list (map alt_units close))"

definition probe_rule_units :: "nat \<Rightarrow> nat" where
  "probe_rule_units n = 3 * n + 2"

definition MAX_MEMO_ENTRIES :: nat where "MAX_MEMO_ENTRIES = 65536"

section \<open>A metered account\<close>

text \<open>
  What a client relies on: a charge that is accepted is counted in full, and one is refused
  exactly when it would take the account past its limit. A run of charges then succeeds exactly
  when their sum fits, whatever their order.
\<close>

locale metered =
  fixes charge :: "nat \<Rightarrow> 'b \<Rightarrow> ('e, 'b) result"
    and used :: "'b \<Rightarrow> nat"
    and limit :: nat
  assumes accepts: "used b + n \<le> limit \<Longrightarrow> \<exists>b'. charge n b = Inr b' \<and> used b' = used b + n"
    and refuses: "used b \<le> limit \<Longrightarrow> limit < used b + n \<Longrightarrow> \<exists>e. charge n b = Inl e"
begin

lemma charge_iff:
  assumes "used b \<le> limit" shows "(\<exists>b'. charge n b = Inr b') \<longleftrightarrow> used b + n \<le> limit"
  using accepts [of b n] refuses [OF assms, of n] by (cases "used b + n \<le> limit") auto

lemma charge_counts:
  assumes "used b \<le> limit" and "charge n b = Inr b'"
  shows "used b' = used b + n \<and> used b' \<le> limit"
  using accepts [of b n] refuses [OF assms(1), of n] assms by (cases "used b + n \<le> limit") auto

lemma charges_count:
  "used b \<le> limit \<Longrightarrow> res_fold (\<lambda>b n. charge n b) b ns = Inr b' \<Longrightarrow>
   used b' = used b + sum_list ns \<and> used b' \<le> limit"
proof (induction ns arbitrary: b)
  case (Cons n ns)
  then obtain b1 where b1: "charge n b = Inr b1" "res_fold (\<lambda>b n. charge n b) b1 ns = Inr b'"
    by (auto simp: res_bind_Inr_iff)
  with Cons.IH [OF _ b1(2)] charge_counts [OF Cons.prems(1) b1(1)] show ?case by simp
qed simp

lemma charges_accepted:
  "used b + sum_list ns \<le> limit \<Longrightarrow> \<exists>b'. res_fold (\<lambda>b n. charge n b) b ns = Inr b'"
proof (induction ns arbitrary: b)
  case (Cons n ns)
  then obtain b1 where "charge n b = Inr b1" "used b1 = used b + n"
    using accepts [of b n] by auto
  with Cons show ?case by simp
qed simp

end

definition b_total :: "emit_budget \<Rightarrow> nat" where
  "b_total b = b_written b + b_held b"

interpretation written: metered b_charge b_total MAX_EMIT_UNITS
  by unfold_locales (auto simp: b_charge_def b_total_def b_room_def)

interpretation holding: metered b_hold b_total MAX_EMIT_UNITS
  by unfold_locales (auto simp: b_hold_def b_total_def b_room_def)

section \<open>The budget as a state machine\<close>

text \<open>
  The calls a compile makes. Settling, keeping and restoring come with what the callers
  guarantee: what stays held was held already.
\<close>

inductive budget_steps :: "emit_budget \<Rightarrow> emit_budget \<Rightarrow> bool" where
  started: "budget_steps b (b_begin subject sp step b)"
| charge: "b_charge n b = Inr b' \<Longrightarrow> budget_steps b b'"
| hold: "b_hold n b = Inr b' \<Longrightarrow> budget_steps b b'"
| settle: "base + sum_list (map (\<lambda>tokens. 1 + length tokens) (paths :: string list list)) \<le> b_held b \<Longrightarrow>
    budget_steps b (b_settle base paths b)"
| keep: "base + n \<le> b_held b \<Longrightarrow> budget_steps b (b_keep base n b)"
| restore: "base \<le> b_held b \<Longrightarrow> budget_steps b (b_restore base b)"

definition budget_ok :: "emit_budget \<Rightarrow> bool" where
  "budget_ok b \<longleftrightarrow> b_written b + b_held b \<le> MAX_EMIT_UNITS \<and> bs_start (b_step b) \<le> b_written b"

lemma budget_ok_new: "budget_ok budget_new"
  by (simp add: budget_ok_def budget_new_def)

lemma charge_ok: "budget_ok b \<Longrightarrow> b_charge n b = Inr b' \<Longrightarrow> budget_ok b'"
  by (auto simp: budget_ok_def b_charge_def b_room_def split: if_splits)

lemma hold_ok: "budget_ok b \<Longrightarrow> b_hold n b = Inr b' \<Longrightarrow> budget_ok b'"
  by (auto simp: budget_ok_def b_hold_def b_room_def split: if_splits)

lemma begin_ok: "budget_ok b \<Longrightarrow> budget_ok (b_begin subject sp step b)"
  by (auto simp: budget_ok_def b_begin_def)

lemma shrink_ok:
  "budget_ok b \<Longrightarrow> base + sum_list (map (\<lambda>tokens. 1 + length tokens) paths) \<le> b_held b \<Longrightarrow>
   budget_ok (b_settle base paths b)"
  "budget_ok b \<Longrightarrow> base + n \<le> b_held b \<Longrightarrow> budget_ok (b_keep base n b)"
  "budget_ok b \<Longrightarrow> base \<le> b_held b \<Longrightarrow> budget_ok (b_restore base b)"
  by (auto simp: budget_ok_def b_settle_def b_keep_def b_restore_def)

lemma budget_steps_ok: "budget_steps b b' \<Longrightarrow> budget_ok b \<Longrightarrow> budget_ok b'"
  by (induction rule: budget_steps.induct)
     (blast intro: begin_ok charge_ok hold_ok shrink_ok)+



text \<open>
  Charges made one at a time are all accepted exactly when their sum still fits, so the
  order in which a compile writes its units never decides whether it is refused.
\<close>

theorem charges_order_free:
  assumes "b_total b \<le> MAX_EMIT_UNITS"
  shows "(\<exists>b'. res_fold (\<lambda>b n. b_charge n b) b ns = Inr b') \<longleftrightarrow>
         b_total b + sum_list ns \<le> MAX_EMIT_UNITS"
  using written.charges_count [OF assms] written.charges_accepted by metis

lemma charges_order_free_witness:
  "(\<exists>b'. res_fold (\<lambda>b n. b_charge n b) budget_new [1, 3000000, 2] = Inr b') \<longleftrightarrow>
   b_total budget_new + sum_list [1, 3000000, 2] \<le> MAX_EMIT_UNITS"
  by (rule charges_order_free) (simp add: b_total_def budget_new_def)

text \<open>A refusal names the step under way, or the lookahead when it was holding.\<close>

theorem charge_refusal:
  "b_charge n (b_begin subject sp step b) = Inl e \<Longrightarrow>
   e_what e = OverBudget subject step (MAX_EMIT_UNITS - b_written b) (b_written b) False \<and> e_sp e = sp \<and>
   MAX_EMIT_UNITS < b_written b + b_held b + n"
  by (auto simp: b_charge_def b_begin_def b_refusal_def b_room_def Let_def split: if_splits)

lemma charge_refusal_witness:
  "e_what (projl (b_charge 4000000 (b_begin (SubjectRule ''r'') None StepFirst budget_new))) =
     OverBudget (SubjectRule ''r'') StepFirst MAX_EMIT_UNITS 0 False"
  using charge_refusal [of 4000000 "SubjectRule ''r''" None StepFirst budget_new
      "projl (b_charge 4000000 (b_begin (SubjectRule ''r'') None StepFirst budget_new))"]
  by (simp add: b_charge_def b_begin_def b_room_def budget_new_def MAX_EMIT_UNITS_def)

end
