(* ===== verification/Spec_Transforms.thy ===== *)
theory Spec_Transforms
  imports Spec_Data
begin

text \<open>
  What is done to an emitted grammar (second half of \<open>rs/src/spec.rs\<close>): the reduction to a pure
  recognition grammar, the jsonic serialiser, and user actions attached through marks. Binding
  the refs to a running parser is the engine's side and is not modelled.
\<close>

section \<open>The pure and the recognition reductions\<close>

definition REF_FIELDS :: "string list" where
  "REF_FIELDS = [''a'', ''bo'', ''bc'']"

definition TREE_BUILTINS :: "string list" where
  "TREE_BUILTINS = [''@node$'', ''@capture$'', ''@bubble$'', ''@fold$'', ''@object$'', ''@array$'',
     ''@reset$'', ''@key$'', ''@setval$'', ''@push$'', ''@value$'']"

definition TREE_CONFIG_KEYS :: "string list" where
  "TREE_CONFIG_KEYS = [''node$'', ''capture$'', ''fold$'', ''object$'', ''array$'', ''key$'',
     ''setval$'', ''push$'', ''value$'']"

text \<open>
  \<open>Map::remove\<close> on an insertion-ordered object: the last entry takes the place of the removed
  one.
\<close>

fun imap_swap_remove :: "'k \<Rightarrow> ('k \<times> 'v) list \<Rightarrow> ('k \<times> 'v) list" where
  "imap_swap_remove k [] = []"
| "imap_swap_remove k ((k', v) # m) =
     (if k' = k then (if m = [] then [] else last m # butlast m) else (k', v) # imap_swap_remove k m)"

text \<open>A string a ref field must not keep.\<close>

definition dropped_str :: "(string \<Rightarrow> bool) \<Rightarrow> json \<Rightarrow> bool" where
  "dropped_str is_dropped e = (case e of JStr s \<Rightarrow> is_dropped s | _ \<Rightarrow> False)"

text \<open>
  The keys of an object are distinct, so inserting its entries in order into a new object is
  the list of what each entry becomes.
\<close>

fun clone_recognition :: "(string \<Rightarrow> bool) \<Rightarrow> json \<Rightarrow> json" where
  "clone_recognition d (JArr items) = JArr (map (clone_recognition d) items)"
| "clone_recognition d (JObj m) =
     JObj (concat (map (\<lambda>(k, x).
       if k \<in> set REF_FIELDS \<and> dropped_str d x then []
       else if k \<in> set REF_FIELDS \<and> (case x of JArr _ \<Rightarrow> True | _ \<Rightarrow> False) then
         (let kept = filter (\<lambda>e. \<not> dropped_str d e) (case x of JArr list \<Rightarrow> list | _ \<Rightarrow> [])
          in if kept = [] then [] else [(k, if length kept = 1 then hd kept else JArr kept)])
       else if k = ''k'' then
         (case clone_recognition d x of
            JObj kc \<Rightarrow>
              (let kc = foldl (\<lambda>acc tk. imap_swap_remove tk acc) kc TREE_CONFIG_KEYS
               in if kc = [] then [] else [(k, JObj kc)])
          | y \<Rightarrow> [(k, y)])
       else [(k, clone_recognition d x)]) m))"
| "clone_recognition d v = v"

text \<open>Whether a rule's block names a ref from a field that is not one of the tree hooks.\<close>

fun scan_refs :: "(string \<Rightarrow> bool) \<Rightarrow> json \<Rightarrow> bool" where
  "scan_refs named (JArr items) = list_ex (scan_refs named) items"
| "scan_refs named (JObj m) =
     list_ex (\<lambda>(k, x).
       (case x of JStr s \<Rightarrow> k \<notin> set REF_FIELDS \<and> named s | _ \<Rightarrow> False) \<or> scan_refs named x) m"
| "scan_refs named v = False"

definition control_ref_rules :: "(string \<times> json) list \<Rightarrow> (string \<Rightarrow> bool) \<Rightarrow> string list" where
  "control_ref_rules rules named =
     sort_key utf16 (map fst (filter (\<lambda>(name, spec). scan_refs named spec) rules))"

datatype compile_error =
    NeedsControl "string list"
  | StrayClosures "string list"

definition carry_meta :: "'f grammar_spec \<Rightarrow> (string \<times> json) list \<Rightarrow> (string \<times> json) list" where
  "carry_meta spec out = (case gs_meta spec of Some meta \<Rightarrow> imap_insert ''meta'' meta out | None \<Rightarrow> out)"

text \<open>\<open>v\<close> is the engine's schema version, \<open>tabnas::grammar::BUILTIN_SCHEMA_VERSION\<close>.\<close>

definition is_spec_ref :: "'f grammar_spec \<Rightarrow> string \<Rightarrow> bool" where
  "is_spec_ref spec s = (s \<in> set (map fst (gs_refs spec)))"

definition to_recognition_spec :: "int \<Rightarrow> 'f grammar_spec \<Rightarrow> (compile_error, json) result" where
  "to_recognition_spec v spec =
     (let named = is_spec_ref spec;
          rules = rules_value spec;
          offenders = control_ref_rules rules named
      in if offenders \<noteq> [] then Inl (NeedsControl offenders)
         else (case clone_recognition (\<lambda>s. named s \<or> s \<in> set TREE_BUILTINS)
                      (JObj [(''options'', JObj (gs_options spec)), (''rule'', JObj rules)]) of
                 JObj out \<Rightarrow>
                   Inr (JObj (carry_meta spec (imap_insert ''v'' (JNum (NInt v)) out)))
               | _ \<Rightarrow> Inr JNull))"

definition to_pure_spec :: "int \<Rightarrow> 'f grammar_spec \<Rightarrow> (compile_error, json) result" where
  "to_pure_spec v spec =
     (if gs_refs spec \<noteq> [] then Inl (StrayClosures (take 3 (map fst (gs_refs spec))))
      else Inr (JObj (carry_meta spec
             [(''options'', JObj (gs_options spec)), (''rule'', JObj (rules_value spec)),
              (''v'', JNum (NInt v))])))"

subsection \<open>No tree building and no ref is left\<close>

text \<open>Every field that holds a string, anywhere in a value, and every string of a hook's list.\<close>

definition direct_strings :: "string \<Rightarrow> json \<Rightarrow> string set" where
  "direct_strings k x = (case x of JStr s \<Rightarrow> {s}
     | JArr list \<Rightarrow> (if k \<in> set REF_FIELDS then {s. JStr s \<in> set list} else {}) | _ \<Rightarrow> {})"

fun string_fields :: "json \<Rightarrow> (string \<times> string) set" where
  "string_fields (JArr items) = (\<Union>x\<in>set items. string_fields x)"
| "string_fields (JObj m) = (\<Union>(k, x)\<in>set m. {k} \<times> direct_strings k x \<union> string_fields x)"
| "string_fields v = {}"

text \<open>The lists the compiler writes in the hook fields hold strings alone.\<close>

fun hooks_plain :: "json \<Rightarrow> bool" where
  "hooks_plain (JArr items) = list_all hooks_plain items"
| "hooks_plain (JObj m) =
     list_all (\<lambda>(k, x). hooks_plain x \<and>
       (case x of JArr list \<Rightarrow> k \<in> set REF_FIELDS \<longrightarrow> list_all (\<lambda>e. json_str e \<noteq> None) list | _ \<Rightarrow> True)) m"
| "hooks_plain v = True"

lemma set_last_butlast: "m \<noteq> [] \<Longrightarrow> insert (last m) (set (butlast m)) = set m"
  by (metis append_butlast_last_id list.simps(15) set_append set_empty2 Un_insert_right sup_bot.right_neutral)

lemma set_imap_swap_remove: "set (imap_swap_remove k m) \<subseteq> set m"
  by (induction k m rule: imap_swap_remove.induct) (auto simp: set_last_butlast)

lemma set_swap_remove_all: "set (foldl (\<lambda>acc tk. imap_swap_remove tk acc) kc ks) \<subseteq> set kc"
proof (induction ks arbitrary: kc)
  case (Cons t ks)
  show ?case using Cons [of "imap_swap_remove t kc"] set_imap_swap_remove [of t kc] by simp
qed simp

lemma imap_swap_remove_keys:
  "distinct (map fst m) \<Longrightarrow> set (imap_swap_remove k m) = {kv \<in> set m. fst kv \<noteq> k}"
  by (induction k m rule: imap_swap_remove.induct) (auto simp: set_last_butlast rev_image_eqI)

text \<open>What one entry of an object becomes.\<close>

definition clone_entry :: "(string \<Rightarrow> bool) \<Rightarrow> string \<times> json \<Rightarrow> (string \<times> json) list" where
  "clone_entry d = (\<lambda>(k, x).
       if k \<in> set REF_FIELDS \<and> dropped_str d x then []
       else if k \<in> set REF_FIELDS \<and> (case x of JArr _ \<Rightarrow> True | _ \<Rightarrow> False) then
         (let kept = filter (\<lambda>e. \<not> dropped_str d e) (case x of JArr list \<Rightarrow> list | _ \<Rightarrow> [])
          in if kept = [] then [] else [(k, if length kept = 1 then hd kept else JArr kept)])
       else if k = ''k'' then
         (case clone_recognition d x of
            JObj kc \<Rightarrow>
              (let kc = foldl (\<lambda>acc tk. imap_swap_remove tk acc) kc TREE_CONFIG_KEYS
               in if kc = [] then [] else [(k, JObj kc)])
          | y \<Rightarrow> [(k, y)])
       else [(k, clone_recognition d x)])"

lemma clone_JObj: "clone_recognition d (JObj m) = JObj (concat (map (clone_entry d) m))"
  unfolding clone_recognition.simps clone_entry_def ..

declare clone_recognition.simps(2) [simp del]

lemma string_fields_JObj:
  "(k, s) \<in> string_fields (JObj m) \<longleftrightarrow>
   (\<exists>k' x. (k', x) \<in> set m \<and> ((k = k' \<and> s \<in> direct_strings k' x) \<or> (k, s) \<in> string_fields x))"
  by (auto simp only: string_fields.simps)

lemma plain_direct:
  "list_all (\<lambda>e. json_str e \<noteq> None) xs \<Longrightarrow> e \<in> set xs \<Longrightarrow> \<exists>s. e = JStr s"
  by (cases e) (auto simp: list_all_iff json_str_def dest!: bspec)

text \<open>The three things an entry can become.\<close>

lemma clone_entry_cases:
  assumes "(k', y) \<in> set (clone_entry d (k, x))"
  obtains (hook) list where "k' = k" "k \<in> set REF_FIELDS" "x = JArr list"
      "y = JArr (filter (\<lambda>e. \<not> dropped_str d e) list) \<or> y \<in> set (filter (\<lambda>e. \<not> dropped_str d e) list)"
  | (config) kc kc' where "k' = k" "k = ''k''" "clone_recognition d x = JObj kc" "y = JObj kc'" "set kc' \<subseteq> set kc"
  | (copied) "k' = k" "y = clone_recognition d x" "k \<in> set REF_FIELDS \<Longrightarrow> \<not> dropped_str d x \<and> (\<forall>l. x \<noteq> JArr l)"
proof -
  have arr: "(case x of JArr _ \<Rightarrow> True | _ \<Rightarrow> False) \<longleftrightarrow> (\<exists>l. x = JArr l)" by (cases x) auto
  consider (a) "k \<in> set REF_FIELDS \<and> dropped_str d x"
    | (b) list where "k \<in> set REF_FIELDS" "\<not> dropped_str d x" "x = JArr list"
    | (c) "\<not> (k \<in> set REF_FIELDS \<and> (dropped_str d x \<or> (\<exists>l. x = JArr l)))" "k = ''k''"
    | (e) "\<not> (k \<in> set REF_FIELDS \<and> (dropped_str d x \<or> (\<exists>l. x = JArr l)))" "k \<noteq> ''k''" by blast
  then show thesis
  proof cases
    case a
    with assms show thesis by (simp add: clone_entry_def)
  next
    case b
    let ?kept = "filter (\<lambda>e. \<not> dropped_str d e) list"
    have "?kept \<noteq> [] \<and> k' = k \<and> y = (if length ?kept = 1 then hd ?kept else JArr ?kept)"
      using assms b by (simp add: clone_entry_def Let_def split: if_splits)
    moreover from this have "hd ?kept \<in> set ?kept" by (intro hd_in_set) simp
    ultimately have "k' = k \<and> (y = JArr ?kept \<or> y \<in> set ?kept)" by presburger
    with b hook show thesis by blast
  next
    case c
    have ce: "clone_entry d (k, x) = (case clone_recognition d x of
            JObj kc \<Rightarrow>
              (let kc = foldl (\<lambda>acc tk. imap_swap_remove tk acc) kc TREE_CONFIG_KEYS
               in if kc = [] then [] else [(k, JObj kc)])
          | y \<Rightarrow> [(k, y)])"
      unfolding c(2) by (simp add: clone_entry_def REF_FIELDS_def)
    show thesis
    proof (cases "\<exists>kc. clone_recognition d x = JObj kc")
      case True
      then obtain kc where kc: "clone_recognition d x = JObj kc" by blast
      let ?kc = "foldl (\<lambda>acc tk. imap_swap_remove tk acc) kc TREE_CONFIG_KEYS"
      have "k' = k \<and> y = JObj ?kc"
        using assms unfolding ce kc by (simp add: Let_def split: if_splits)
      then show thesis using config [of kc ?kc] c(2) kc set_swap_remove_all by blast
    next
      case False
      then have "clone_entry d (k, x) = [(k, clone_recognition d x)]"
        unfolding ce by (cases "clone_recognition d x") auto
      with assms have "k' = k" "y = clone_recognition d x" by auto
      then show thesis by (rule copied) (use c in blast)
    qed
  next
    case e
    then have "clone_entry d (k, x) = [(k, clone_recognition d x)]"
      unfolding clone_entry_def prod.case arr by (simp only: if_False de_Morgan_conj) argo
    with assms have "k' = k" "y = clone_recognition d x" by auto
    then show thesis by (rule copied) (use e in blast)
  qed
qed

lemma direct_clone:
  "k \<in> set REF_FIELDS \<longrightarrow> \<not> dropped_str d x \<and> (\<forall>l. x \<noteq> JArr l) \<Longrightarrow> s \<in> direct_strings k (clone_recognition d x) \<Longrightarrow>
   s \<in> direct_strings k x \<and> (k \<in> set REF_FIELDS \<longrightarrow> \<not> d s)"
  by (cases x) (auto simp: direct_strings_def dropped_str_def clone_JObj split: if_splits)

lemma clone_clean:
  "hooks_plain v \<Longrightarrow> (k, s) \<in> string_fields (clone_recognition d v) \<Longrightarrow>
   (k, s) \<in> string_fields v \<and> (k \<in> set REF_FIELDS \<longrightarrow> \<not> d s)"
proof (induction v arbitrary: k s rule: json_induct)
  case (Arr xs)
  then show ?case by (auto simp: list_all_iff)
next
  case (Obj m)
  from Obj.prems(2) obtain k' y k0 x where kx: "(k0, x) \<in> set m" "(k', y) \<in> set (clone_entry d (k0, x))"
    and at: "(k = k' \<and> s \<in> direct_strings k' y) \<or> (k, s) \<in> string_fields y"
    unfolding clone_JObj string_fields_JObj by auto
  have px: "hooks_plain x" and pl: "\<And>l. x = JArr l \<Longrightarrow> k0 \<in> set REF_FIELDS \<Longrightarrow> list_all (\<lambda>e. json_str e \<noteq> None) l"
    using Obj.prems(1) kx(1) by (auto simp: list_all_iff)
  note IH = Obj.IH [OF kx(1) px]
  have up: "(k, s) \<in> string_fields x \<Longrightarrow> (k, s) \<in> string_fields (JObj m)"
    and up0: "k = k0 \<Longrightarrow> s \<in> direct_strings k0 x \<Longrightarrow> (k, s) \<in> string_fields (JObj m)"
    using kx(1) unfolding string_fields_JObj by blast+
  show ?case
  using kx(2)
  proof (cases rule: clone_entry_cases)
    case (hook list)
    have strs: "\<exists>t. e = JStr t \<and> \<not> d t" if "e \<in> set list" "\<not> dropped_str d e" for e
      using plain_direct [OF pl [OF hook(3,2)] that(1)] that(2) by (auto simp: dropped_str_def)
    have "string_fields y = {}" using hook(4) strs by (auto simp: string_fields.simps) (use strs in fastforce)+
    moreover have "\<not> d t \<and> JStr t \<in> set list" if "t \<in> direct_strings k0 y" for t
      using hook(4) that strs hook(2) by (fastforce simp: direct_strings_def split: json.splits if_splits)
    ultimately have "k = k0" "\<not> d s" "JStr s \<in> set list" using at hook(1) by auto
    then show ?thesis using up0 hook by (auto simp: direct_strings_def)
  next
    case (config kc kc')
    then have "(k, s) \<in> string_fields (clone_recognition d x)"
      using at unfolding config(3,4) string_fields_JObj by (auto simp: direct_strings_def)
    from IH [OF this] up show ?thesis by blast
  next
    case copied
    show ?thesis using at
    proof
      assume "k = k' \<and> s \<in> direct_strings k' y"
      then have "k = k0" "s \<in> direct_strings k0 (clone_recognition d x)" using copied by auto
      with direct_clone [of k0 d x s] copied(3) up0 show ?thesis by blast
    next
      assume "(k, s) \<in> string_fields y"
      with IH copied(2) up show ?thesis by blast
    qed
  qed
qed auto

lemma scan_clean:
  "\<not> scan_refs named v \<Longrightarrow> hooks_plain v \<Longrightarrow> (k, s) \<in> string_fields v \<Longrightarrow> k \<notin> set REF_FIELDS \<Longrightarrow> \<not> named s"
proof (induction v arbitrary: k s rule: json_induct)
  case (Arr xs)
  then show ?case by (auto simp: list_all_iff list_ex_iff)
next
  case (Obj m)
  from Obj.prems(3) obtain k' x where kx: "(k', x) \<in> set m"
    "(k = k' \<and> s \<in> direct_strings k' x) \<or> (k, s) \<in> string_fields x"
    unfolding string_fields_JObj by auto
  have n: "\<not> scan_refs named x" "hooks_plain x" "x = JStr s \<Longrightarrow> k' \<notin> set REF_FIELDS \<Longrightarrow> \<not> named s"
    using Obj.prems(1,2) kx(1) by (fastforce simp: list_ex_iff list_all_iff)+
  show ?case using kx(2)
  proof
    assume "k = k' \<and> s \<in> direct_strings k' x"
    then show ?thesis using n(3) Obj.prems(4) by (auto simp: direct_strings_def split: json.splits)
  qed (use Obj.IH [OF kx(1) n(1,2)] Obj.prems(4) in blast)
qed auto


lemma map_of_imap_insert_other: "k \<noteq> k' \<Longrightarrow> map_of (imap_insert k' v m) k = map_of m k"
  by simp

lemma recognition_rules:
  assumes "to_recognition_spec v spec = Inr doc"
  obtains out rules where "doc = JObj out" and "map_of out ''rule'' = Some rules"
    and "rules = clone_recognition (\<lambda>s. is_spec_ref spec s \<or> s \<in> set TREE_BUILTINS) (JObj (rules_value spec))"
    and "control_ref_rules (rules_value spec) (is_spec_ref spec) = []"
proof -
  let ?d = "\<lambda>s. is_spec_ref spec s \<or> s \<in> set TREE_BUILTINS"
  have e: "clone_recognition ?d (JObj [(''options'', JObj (gs_options spec)), (''rule'', JObj (rules_value spec))])
    = JObj [(''options'', clone_recognition ?d (JObj (gs_options spec))),
            (''rule'', clone_recognition ?d (JObj (rules_value spec)))]"
    by (subst clone_JObj) (simp add: clone_entry_def REF_FIELDS_def)
  have off: "control_ref_rules (rules_value spec) (is_spec_ref spec) = []"
    using assms by (auto simp: to_recognition_spec_def Let_def split: if_splits)
  let ?out = "carry_meta spec (imap_insert ''v'' (JNum (NInt v))
    [(''options'', clone_recognition ?d (JObj (gs_options spec))),
     (''rule'', clone_recognition ?d (JObj (rules_value spec)))])"
  have "doc = JObj ?out" using assms by (simp add: to_recognition_spec_def Let_def off e)
  moreover have "map_of ?out ''rule'' = Some (clone_recognition ?d (JObj (rules_value spec)))"
    by (cases "gs_meta spec") (simp_all add: carry_meta_def)
  ultimately show thesis by (rule that [OF _ _ refl off])
qed

text \<open>
  C21: A recognition grammar is free of functions and of tree building. Provided the hook lists
  hold only action names, as the compiler writes them, every string field left in its rules is
  one the rules had, names no ref of the spec, and in a hook field names no tree builtin.
\<close>

theorem recognition_function_free:
  assumes "to_recognition_spec v spec = Inr (JObj out)" and "map_of out ''rule'' = Some rules"
    and "hooks_plain (JObj (rules_value spec))" and "(k, s) \<in> string_fields rules"
  shows "(k, s) \<in> string_fields (JObj (rules_value spec)) \<and> s \<notin> set (map fst (gs_refs spec)) \<and>
    (k \<in> set REF_FIELDS \<longrightarrow> s \<notin> set TREE_BUILTINS)"
proof -
  let ?d = "\<lambda>s. is_spec_ref spec s \<or> s \<in> set TREE_BUILTINS"
  obtain out' rules' where r: "JObj out = JObj out'" "map_of out' ''rule'' = Some rules'"
    "rules' = clone_recognition ?d (JObj (rules_value spec))"
    "control_ref_rules (rules_value spec) (is_spec_ref spec) = []"
    by (rule recognition_rules [OF assms(1)])
  have rules: "rules = clone_recognition ?d (JObj (rules_value spec))" using r assms(2) by simp
  have c: "(k, s) \<in> string_fields (JObj (rules_value spec)) \<and> (k \<in> set REF_FIELDS \<longrightarrow> \<not> ?d s)"
    by (rule clone_clean [OF assms(3)]) (use assms(4) rules in simp)
  have "sort_key utf16 xs = [] \<longleftrightarrow> xs = []" for xs by (metis set_empty set_sort)
  then have "filter (\<lambda>(name, x). scan_refs (is_spec_ref spec) x) (rules_value spec) = []"
    using r(4) by (simp add: control_ref_rules_def)
  then have scan: "\<not> scan_refs (is_spec_ref spec) x" if "(name, x) \<in> set (rules_value spec)" for name x
    using that by (fastforce simp: filter_empty_conv)
  have str: "(name, JStr t) \<notin> set (rules_value spec)" for name t
    by (auto simp: rules_value_def rule_to_value_def split: option.splits)
  have "\<not> scan_refs (is_spec_ref spec) (JObj (rules_value spec))"
    unfolding scan_refs.simps list_ex_iff
  proof (intro notI)
    assume "\<exists>x\<in>set (rules_value spec). case x of (k, x) \<Rightarrow>
      (case x of JStr s \<Rightarrow> k \<notin> set REF_FIELDS \<and> is_spec_ref spec s | _ \<Rightarrow> False) \<or> scan_refs (is_spec_ref spec) x"
    then obtain name x where nx: "(name, x) \<in> set (rules_value spec)"
      "(case x of JStr s \<Rightarrow> name \<notin> set REF_FIELDS \<and> is_spec_ref spec s | _ \<Rightarrow> False)"
      using scan by blast
    then show False using str by (cases x) auto
  qed
  from scan_clean [OF this assms(3) conjunct1 [OF c]] c show ?thesis by (auto simp: is_spec_ref_def)
qed

text \<open>Reducing to pure data refuses exactly the specs that still name functions.\<close>

lemma pure_iff_no_closures: "(\<exists>doc. to_pure_spec v spec = Inr doc) \<longleftrightarrow> \<not> has_closures spec"
  by (simp add: to_pure_spec_def has_closures_def)

text \<open>
  The recognition reduction keeps the parse: a field of an object that is not a hook and not
  the builtin config keeps its place in the object and becomes its own reduction.
\<close>

theorem clone_keeps_structure:
  assumes "clone_recognition d (JObj m) = JObj m'" and "k \<notin> set REF_FIELDS" and "k \<noteq> ''k''"
  shows "map_of m' k = map_option (clone_recognition d) (map_of m k)"
proof -
  have one: "map_of (clone_entry d (k', x)) k = (if k' = k then Some (clone_recognition d x) else None)" for k' x
    using assms(2,3) by (auto simp: clone_entry_def Let_def split: json.splits)
  have "map_of (concat (map (clone_entry d) m)) k = map_option (clone_recognition d) (map_of m k)"
    by (induction m) (auto simp: one map_add_def)
  with assms(1) show ?thesis by (simp add: clone_JObj)
qed

text \<open>A rule with a tree hook, a control action and a config bag of both, for the examples.\<close>

definition hooked_alt :: "(string \<times> json) list" where
  "hooked_alt = [(''s'', JStr ''#A''), (''a'', JArr [JStr ''@node$'', JStr ''@probeInit$'']),
     (''k'', JObj [(''node$'', JBool True), (''pd'', JNum (NInt 1))])]"

definition hooked_example :: "unit grammar_spec" where
  "hooked_example =
     \<lparr>gs_refs = [], gs_options = [],
      gs_rule = [(''r'', Some \<lparr>rs_open = [\<lparr>as_fields = hooked_alt, as_m = None\<rparr>], rs_close = None\<rparr>)],
      gs_meta = None, gs_clear = False\<rparr>"

definition recognised_rules :: json where
  "recognised_rules = JObj [(''r'', JObj [(''open'', JArr [JObj [(''s'', JStr ''#A''),
     (''a'', JStr ''@probeInit$''), (''k'', JObj [(''pd'', JNum (NInt 1))])]])])]"

lemma hooked_example_recognition:
  "to_recognition_spec 1 hooked_example =
     Inr (JObj [(''options'', JObj []), (''rule'', recognised_rules), (''v'', JNum (NInt 1))])"
  by code_simp

lemma recognition_function_free_witness:
  "(''a'', ''@probeInit$'') \<in> string_fields (JObj (rules_value hooked_example)) \<and>
   ''@probeInit$'' \<notin> set (map fst (gs_refs hooked_example)) \<and>
   ''@probeInit$'' \<notin> set TREE_BUILTINS"
proof -
  have field: "''a'' \<in> set REF_FIELDS" by (simp add: REF_FIELDS_def)
  have "(''a'', ''@probeInit$'') \<in> string_fields (JObj (rules_value hooked_example)) \<and>
     ''@probeInit$'' \<notin> set (map fst (gs_refs hooked_example)) \<and>
     (''a'' \<in> set REF_FIELDS \<longrightarrow> ''@probeInit$'' \<notin> set TREE_BUILTINS)"
  proof (rule recognition_function_free [OF hooked_example_recognition])
    show "hooks_plain (JObj (rules_value hooked_example))" by code_simp
    show "(''a'', ''@probeInit$'') \<in> string_fields recognised_rules"
      by (simp add: recognised_rules_def direct_strings_def)
  qed simp
  with field show ?thesis by blast
qed

lemma clone_keeps_structure_witness:
  "map_of [(''s'', JStr ''#A''), (''a'', JStr ''@probeInit$''), (''k'', JObj [(''pd'', JNum (NInt 1))])] ''s'' =
   map_option (clone_recognition (\<lambda>s. s = ''@node$'')) (map_of hooked_alt ''s'')"
proof (rule clone_keeps_structure)
  show "clone_recognition (\<lambda>s. s = ''@node$'') (JObj hooked_alt) =
    JObj [(''s'', JStr ''#A''), (''a'', JStr ''@probeInit$''), (''k'', JObj [(''pd'', JNum (NInt 1))])]"
    by code_simp
qed (simp_all add: REF_FIELDS_def)

section \<open>Jsonic text\<close>

definition is_ident :: "string \<Rightarrow> bool" where
  "is_ident k =
     (case k of
        [] \<Rightarrow> False
      | c # cs \<Rightarrow> (is_ascii_alphabetic c \<or> c = CHR ''_'' \<or> c = CHR ''$'') \<and>
          list_all (\<lambda>c. is_ascii_alphanumeric c \<or> c = CHR ''_'' \<or> c = CHR ''$'') cs)"

definition hex_lower :: "nat \<Rightarrow> char" where
  "hex_lower n = ''0123456789abcdef'' ! n"

text \<open>One character of a quoted string. Bytes past ASCII stand for themselves.\<close>

definition quote_char :: "char \<Rightarrow> char \<Rightarrow> string" where
  "quote_char ch c =
     (if c = CHR 0x5C then [CHR 0x5C, CHR 0x5C]
      else if c = ch then [CHR 0x5C, ch]
      else if c = CHR 0x08 then [CHR 0x5C, CHR ''b'']
      else if c = CHR 0x09 then [CHR 0x5C, CHR ''t'']
      else if c = CHR 0x0A then [CHR 0x5C, CHR ''n'']
      else if c = CHR 0x0C then [CHR 0x5C, CHR ''f'']
      else if c = CHR 0x0D then [CHR 0x5C, CHR ''r'']
      else if (of_char c :: nat) < 32 then
        [CHR 0x5C, CHR ''u'', CHR ''0'', CHR ''0'', hex_lower (of_char c div 16), hex_lower (of_char c mod 16)]
      else [c])"

definition quote_str :: "string \<Rightarrow> char \<Rightarrow> string" where
  "quote_str s ch = [ch] @ concat (map (quote_char ch) s) @ [ch]"

text \<open>
  The layout of \<open>js_number\<close>: \<open>digits\<close> are the shortest that read back as the float, and
  \<open>exponent\<close> that of the first digit, both of which the standard library's formatting gives.
\<close>

definition js_number_body :: "string \<Rightarrow> int \<Rightarrow> string" where
  "js_number_body digits exponent =
     (let k = int (length digits); n = exponent + 1
      in if k \<le> n \<and> n \<le> 21 then digits @ replicate (nat (n - k)) CHR ''0''
         else if 0 < n \<and> n \<le> 21 then take (nat n) digits @ ''.'' @ drop (nat n) digits
         else if - 6 < n \<and> n \<le> 0 then ''0.'' @ replicate (nat (- n)) CHR ''0'' @ digits
         else
           (let e = n - 1;
                head = (if k = 1 then digits else take 1 digits @ ''.'' @ drop 1 digits)
            in head @ ''e'' @ (if e < 0 then ''-'' else ''+'') @ nat_str (nat \<bar>e\<bar>)))"

definition js_number :: "jfloat \<Rightarrow> string" where
  "js_number f =
     (case f of
        FNan \<Rightarrow> ''NaN''
      | FInf neg \<Rightarrow> if neg then ''-Infinity'' else ''Infinity''
      | FZero \<Rightarrow> ''0''
      | FNum neg digits exponent \<Rightarrow>
          (if neg then ''-'' else []) @ js_number_body digits exponent)"

definition JS_SAFE_INTEGER :: int where "JS_SAFE_INTEGER = 9007199254740991"

text \<open>\<open>f64\<close> rounds an integer to a float, the cast of the language.\<close>

definition json_number :: "(int \<Rightarrow> jfloat) \<Rightarrow> jnum \<Rightarrow> string" where
  "json_number f64 n =
     (case n of
        NInt i \<Rightarrow> if \<bar>i\<bar> \<le> JS_SAFE_INTEGER then int_str i else js_number (f64 i)
      | NFloat f \<Rightarrow> js_number f)"

definition jsonic_str :: "bool \<Rightarrow> string \<Rightarrow> string" where
  "jsonic_str strict s = quote_str s (if strict then CHR 0x22 else CHR 0x27)"

definition jsonic_key :: "bool \<Rightarrow> string \<Rightarrow> string" where
  "jsonic_key strict k = (if \<not> strict \<and> is_ident k then k else quote_str k CHR 0x22)"

fun jsonic_ser :: "(int \<Rightarrow> jfloat) \<Rightarrow> bool \<Rightarrow> nat \<Rightarrow> nat \<Rightarrow> json \<Rightarrow> string" where
  "jsonic_ser f64 strict ind depth JNull = ''null''"
| "jsonic_ser f64 strict ind depth (JBool b) = (if b then ''true'' else ''false'')"
| "jsonic_ser f64 strict ind depth (JNum n) = json_number f64 n"
| "jsonic_ser f64 strict ind depth (JStr s) = jsonic_str strict s"
| "jsonic_ser f64 strict ind depth (JArr items) =
     (if items = [] then ''[]''
      else
        ''['' @ [CHR 0x0A] @
        join (if strict then [CHR '','', CHR 0x0A] else [CHR 0x0A])
          (map (\<lambda>x. replicate (ind * (depth + 1)) CHR '' '' @ jsonic_ser f64 strict ind (depth + 1) x) items) @
        [CHR 0x0A] @ replicate (ind * depth) CHR '' '' @ '']'')"
| "jsonic_ser f64 strict ind depth (JObj m) =
     (if m = [] then ''{}''
      else
        ''{'' @ [CHR 0x0A] @
        join (if strict then [CHR '','', CHR 0x0A] else [CHR 0x0A])
          (map (\<lambda>(k, x). replicate (ind * (depth + 1)) CHR '' '' @ jsonic_key strict k @ '': '' @
                 jsonic_ser f64 strict ind (depth + 1) x) m) @
        [CHR 0x0A] @ replicate (ind * depth) CHR '' '' @ ''}'')"

definition to_jsonic :: "(int \<Rightarrow> jfloat) \<Rightarrow> json \<Rightarrow> bool \<Rightarrow> nat option \<Rightarrow> string" where
  "to_jsonic f64 v strict indent =
     jsonic_ser f64 strict (case indent of None \<Rightarrow> 2 | Some i \<Rightarrow> i) 0 v"

definition compile_spec ::
  "(int \<Rightarrow> jfloat) \<Rightarrow> int \<Rightarrow> bool \<Rightarrow> bool \<Rightarrow> nat option \<Rightarrow> 'f grammar_spec \<Rightarrow> (compile_error, string) result" where
  "compile_spec f64 v recognition strict indent spec =
     res_bind (if recognition then to_recognition_spec v spec else to_pure_spec v spec)
       (\<lambda>out. Inr (to_jsonic f64 out strict indent))"

subsection \<open>A quoted string reads back\<close>

definition hex_digit_value :: "char \<Rightarrow> nat option" where
  "hex_digit_value c = find (\<lambda>n. hex_lower n = c) [0..<16]"

text \<open>A JSON string body up to its closing quote, as a reader of the text decodes it.\<close>

fun unquote_body :: "char \<Rightarrow> string \<Rightarrow> string option" where
  "unquote_body ch [] = None"
| "unquote_body ch (c # cs) =
     (if c = ch then (if cs = [] then Some [] else None)
      else if c \<noteq> CHR 0x5C then map_option ((#) c) (unquote_body ch cs)
      else
        (case cs of
           [] \<Rightarrow> None
         | e # r \<Rightarrow>
             if e = CHR ''u'' then
               (case r of
                  _ # _ # h # l # r' \<Rightarrow>
                    (case (hex_digit_value h, hex_digit_value l) of
                       (Some a, Some b) \<Rightarrow> map_option ((#) (char_of (16 * a + b))) (unquote_body ch r')
                     | _ \<Rightarrow> None)
                | _ \<Rightarrow> None)
             else
               (case map_of [(CHR 0x5C, CHR 0x5C), (ch, ch), (CHR ''b'', CHR 0x08), (CHR ''t'', CHR 0x09),
                        (CHR ''n'', CHR 0x0A), (CHR ''f'', CHR 0x0C), (CHR ''r'', CHR 0x0D)] e of
                  Some x \<Rightarrow> map_option ((#) x) (unquote_body ch r)
                | None \<Rightarrow> None)))"

definition unquote :: "char \<Rightarrow> string \<Rightarrow> string option" where
  "unquote ch s = (case s of [] \<Rightarrow> None | c # cs \<Rightarrow> if c = ch then unquote_body ch cs else None)"

lemma hex_lower_value: "n < 16 \<Longrightarrow> hex_digit_value (hex_lower n) = Some n"
proof -
  have "list_all (\<lambda>n. hex_digit_value (hex_lower n) = Some n) [0..<16]" by code_simp
  then show "n < 16 \<Longrightarrow> hex_digit_value (hex_lower n) = Some n" by (simp add: list_all_iff)
qed

lemma unquote_quote_char:
  assumes "ch = CHR 0x22 \<or> ch = CHR 0x27"
  shows "unquote_body ch (quote_char ch c @ r) = map_option ((#) c) (unquote_body ch r)"
proof (cases "quote_char ch c = [c]")
  case True
  then have "c \<noteq> ch" "c \<noteq> CHR 0x5C" using assms by (auto simp: quote_char_def split: if_splits)
  then show ?thesis using True by simp
next
  case False
  let ?n = "of_char c :: nat"
  have n: "char_of (16 * (?n div 16) + ?n mod 16) = c" by simp
  have "?n < 32 \<Longrightarrow> ?n div 16 < 16" "?n mod 16 < 16" by auto
  then show ?thesis using False assms n
    by (auto simp: quote_char_def hex_lower_value split: if_splits)
qed



end
