(* ===== verification/Spec_Actions.thy ===== *)
theory Spec_Actions
  imports Spec_Transforms
begin

text \<open>
  User actions attached to an emitted grammar through its marks: \<open>resolve_target\<close>,
  \<open>attach_actions\<close>, \<open>attach_action_slots\<close> and \<open>mark_listing\<close> of \<open>rs/src/spec.rs\<close>. The code
  changes the spec in place and may then fail, so an operation returns the spec as it stands
  together with its outcome.
\<close>

section \<open>Resolving a target\<close>

datatype action_error =
    DollarReserved string
  | MalformedRef string
  | UnknownRuleRef string string
  | MalformedSelector string
  | NoMarkedAlt string string string string
  | SlotIsPhase string

datatype target = TPhase string | TAlts string "nat list"

definition PHASES :: "string list" where
  "PHASES = [''bo'', ''ao'', ''bc'', ''ac'']"

definition marked_indices :: "rule_spec \<Rightarrow> string \<Rightarrow> string \<Rightarrow> nat list" where
  "marked_indices rs phase mark =
     (let alts = rule_alts rs phase
      in filter (\<lambda>i. as_m (alts ! i) = Some mark) [0..<length alts])"

definition resolve_selector ::
  "string \<Rightarrow> string \<Rightarrow> string \<Rightarrow> rule_spec \<Rightarrow> (action_error, string \<times> target) result" where
  "resolve_selector key rule sel rs =
     (if sel \<in> set PHASES then Inr (rule, TPhase sel)
      else
        (case split_once CHR '':'' sel of
           Some (oc, mark) \<Rightarrow>
             if (oc = ''o'' \<or> oc = ''c'') \<and> mark \<noteq> [] then
               (let phase = (if oc = ''o'' then ''open'' else ''close'');
                    indices = marked_indices rs phase mark
                in if indices = [] then Inl (NoMarkedAlt key phase mark rule)
                   else Inr (rule, TAlts phase indices))
             else Inl (MalformedSelector key)
         | None \<Rightarrow> Inl (MalformedSelector key)))"

definition resolve_target ::
  "'f grammar_spec \<Rightarrow> string \<Rightarrow> (action_error, string \<times> target) result" where
  "resolve_target spec key =
     (if CHR ''$'' \<in> set key then Inl (DollarReserved key)
      else
        (case key of
           c # body \<Rightarrow>
             if c \<noteq> CHR ''@'' then Inl (MalformedRef key)
             else
               (case split_once CHR '':'' body of
                  None \<Rightarrow> Inl (MalformedRef key)
                | Some (rule, sel) \<Rightarrow>
                    if rule = [] \<or> sel = [] then Inl (MalformedRef key)
                    else
                      (case map_of (gs_rule spec) rule of
                         Some (Some rs) \<Rightarrow> resolve_selector key rule sel rs
                       | _ \<Rightarrow> Inl (UnknownRuleRef key rule)))
         | [] \<Rightarrow> Inl (MalformedRef key)))"

section \<open>Attaching\<close>

text \<open>\<open>rs.alts_mut(phase)[i].append_action(name)\<close> on a rule that is known to be there.\<close>

definition append_at :: "string \<Rightarrow> string \<Rightarrow> string \<Rightarrow> nat \<Rightarrow> 'f grammar_spec \<Rightarrow> 'f grammar_spec" where
  "append_at name rule phase i spec =
     (case map_of (gs_rule spec) rule of
        Some (Some rs) \<Rightarrow>
          spec\<lparr>gs_rule := imap_insert rule
            (Some (rule_alts_update (\<lambda>alts. alts[i := alt_append_action name (alts ! i)]) phase rs))
            (gs_rule spec)\<rparr>
      | _ \<Rightarrow> spec)"

fun attach_action_slots ::
  "string list \<Rightarrow> 'f grammar_spec \<Rightarrow> 'f grammar_spec \<times> (action_error, unit) result" where
  "attach_action_slots [] spec = (spec, Inr ())"
| "attach_action_slots (name # ns) spec =
     (case resolve_target spec name of
        Inl e \<Rightarrow> (spec, Inl e)
      | Inr (rule, TPhase _) \<Rightarrow> (spec, Inl (SlotIsPhase name))
      | Inr (rule, TAlts phase indices) \<Rightarrow>
          attach_action_slots ns (foldl (\<lambda>acc i. append_at name rule phase i acc) spec indices))"

definition user_ref :: "nat \<Rightarrow> string" where
  "user_ref n = ''@bnf_user'' @ nat_str n"

text \<open>One alternate: a ref of its own for the composed functions, then the action.\<close>

definition attach_one ::
  "'f list \<Rightarrow> string \<Rightarrow> string \<Rightarrow> 'f grammar_spec \<times> nat \<Rightarrow> nat \<Rightarrow> 'f grammar_spec \<times> nat" where
  "attach_one fns rule phase st i =
     (let (spec, counter) = st;
          spec = spec\<lparr>gs_refs := imap_insert (user_ref counter) (RefUser fns) (gs_refs spec)\<rparr>
      in (append_at (user_ref counter) rule phase i spec, Suc counter))"

definition attach_phase :: "string \<Rightarrow> string \<Rightarrow> 'f list \<Rightarrow> 'f grammar_spec \<Rightarrow> 'f grammar_spec" where
  "attach_phase rule phase fns spec =
     (let fkey = ''@'' @ rule @ ''-'' @ phase
      in spec\<lparr>gs_refs := imap_insert fkey
           (case map_of (gs_refs spec) fkey of
              Some (RefPhase existing) \<Rightarrow> RefPhase (existing @ fns)
            | _ \<Rightarrow> RefPhase fns) (gs_refs spec)\<rparr>)"

fun attach_loop ::
  "(string \<times> 'f list) list \<Rightarrow> 'f grammar_spec \<times> nat \<Rightarrow> 'f grammar_spec \<times> (action_error, unit) result" where
  "attach_loop [] st = (fst st, Inr ())"
| "attach_loop ((key, fns) # rest) st =
     (case resolve_target (fst st) key of
        Inl e \<Rightarrow> (fst st, Inl e)
      | Inr (rule, TPhase phase) \<Rightarrow> attach_loop rest (attach_phase rule phase fns (fst st), snd st)
      | Inr (rule, TAlts phase indices) \<Rightarrow>
          attach_loop rest (foldl (attach_one fns rule phase) st indices))"

text \<open>The counter starts at the first user ref the map does not hold.\<close>

definition first_user :: "'f grammar_spec \<Rightarrow> nat" where
  "first_user spec =
     (case find (\<lambda>n. user_ref n \<notin> set (map fst (gs_refs spec))) [0..<Suc (length (gs_refs spec))] of
        Some n \<Rightarrow> n | None \<Rightarrow> 0)"

definition attach_actions ::
  "(string \<times> 'f list) list \<Rightarrow> 'f grammar_spec \<Rightarrow> 'f grammar_spec \<times> (action_error, unit) result" where
  "attach_actions actions spec = attach_loop actions (spec, first_user spec)"

definition mark_listing :: "'f grammar_spec \<Rightarrow> string" where
  "mark_listing spec =
     join [CHR 0x0A]
       (concat (map (\<lambda>(rule, entry). case entry of
           None \<Rightarrow> []
         | Some rs \<Rightarrow>
             concat (map (\<lambda>(phase, sym).
               List.map_filter (\<lambda>a. case as_m a of
                   None \<Rightarrow> None
                 | Some m \<Rightarrow>
                     let what =
                       (case (alt_s a, alt_p a) of
                          (Some (c # s), _) \<Rightarrow> ''s:'' @ c # s
                        | (_, Some (c # p)) \<Rightarrow> ''p:'' @ c # p
                        | _ \<Rightarrow> ''(empty)'')
                     in Some (rule @ ''  '' @ sym @ '':'' @ m @ ''  '' @ what))
                 (rule_alts rs phase))
               [(''open'', ''o''), (''close'', ''c'')])) (gs_rule spec)))"

section \<open>What is attached where\<close>

text \<open>What a resolved target says of the alternates it names.\<close>

lemma resolve_target_alts:
  assumes "resolve_target spec key = Inr (rule, TAlts phase idx)"
  obtains rs mark where "map_of (gs_rule spec) rule = Some (Some rs)" "phase = ''open'' \<or> phase = ''close''"
    "idx = marked_indices rs phase mark" "idx \<noteq> []"
  using assms that
  by (auto simp: resolve_target_def resolve_selector_def Let_def split: if_splits list.splits option.splits prod.splits)

text \<open>A ref that resolves to alternates names at least one, all in range and distinct, and exactly
  those of its rule and phase that carry its mark.\<close>

theorem resolve_target_marks:
  assumes "resolve_target spec key = Inr (rule, TAlts phase idx)"
  shows "\<exists>rs mark. map_of (gs_rule spec) rule = Some (Some rs) \<and> idx \<noteq> [] \<and> distinct idx \<and>
    set idx = {i. i < length (rule_alts rs phase) \<and> as_m (rule_alts rs phase ! i) = Some mark}"
  using assms by (rule resolve_target_alts) (auto simp: marked_indices_def Let_def)

text \<open>What resolution looks at: which rules there are, and the marks of their alternates.\<close>

definition marks_of :: "'f grammar_spec \<Rightarrow> string \<Rightarrow> (string option list \<times> string option list) option option" where
  "marks_of spec rule = map_option (map_option (\<lambda>rs.
     (map as_m (rule_alts rs ''open''), map as_m (rule_alts rs ''close'')))) (map_of (gs_rule spec) rule)"

lemma marked_indices_map:
  "marked_indices rs phase mark =
   filter (\<lambda>i. map as_m (rule_alts rs phase) ! i = Some mark) [0..<length (map as_m (rule_alts rs phase))]"
  unfolding marked_indices_def Let_def by (auto intro: filter_cong)

lemma rule_alts_close: "phase \<noteq> ''open'' \<Longrightarrow> rule_alts rs phase = rule_alts rs ''close''"
  by (simp add: rule_alts_def)

lemma marked_indices_cong:
  assumes "map as_m (rule_alts rs ''open'') = map as_m (rule_alts rs' ''open'')"
    and "map as_m (rule_alts rs ''close'') = map as_m (rule_alts rs' ''close'')"
  shows "marked_indices rs phase mark = marked_indices rs' phase mark"
proof -
  have "map as_m (rule_alts rs phase) = map as_m (rule_alts rs' phase)"
    using assms rule_alts_close [of phase] by (cases "phase = ''open''") simp_all
  then show ?thesis unfolding marked_indices_map by (simp only:)
qed

lemma resolve_selector_cong:
  assumes "map as_m (rule_alts rs ''open'') = map as_m (rule_alts rs' ''open'')"
    and "map as_m (rule_alts rs ''close'') = map as_m (rule_alts rs' ''close'')"
  shows "resolve_selector key rule sel rs = resolve_selector key rule sel rs'"
  unfolding resolve_selector_def by (simp only: marked_indices_cong [OF assms])

lemma resolve_target_cong:
  assumes "\<And>rule. marks_of spec rule = marks_of spec' rule"
  shows "resolve_target spec key = resolve_target spec' key"
proof -
  have "(case map_of (gs_rule spec) rule of Some (Some rs) \<Rightarrow> resolve_selector key rule sel rs | _ \<Rightarrow> e)
      = (case map_of (gs_rule spec') rule of Some (Some rs) \<Rightarrow> resolve_selector key rule sel rs | _ \<Rightarrow> e)"
    for rule sel e
  proof (cases "map_of (gs_rule spec) rule")
    case None
    then show ?thesis using assms [of rule] by (simp add: marks_of_def split: option.splits)
  next
    case (Some r)
    then obtain r' where r': "map_of (gs_rule spec') rule = Some r'" "(r = None) = (r' = None)"
      using assms [of rule]
      by (cases "map_of (gs_rule spec') rule"; cases r) (fastforce simp: marks_of_def)+
    show ?thesis
    proof (cases r)
      case None
      with Some r' show ?thesis by simp
    next
      case (Some rs)
      then obtain rs' where rs': "r' = Some rs'" using r'(2) by auto
      have "resolve_selector key rule sel rs = resolve_selector key rule sel rs'"
        by (rule resolve_selector_cong)
           (use assms [of rule] Some rs' r'(1) \<open>map_of (gs_rule spec) rule = Some r\<close> in \<open>simp_all add: marks_of_def\<close>)
      with Some rs' r'(1) \<open>map_of (gs_rule spec) rule = Some r\<close> show ?thesis by simp
    qed
  qed
  then show ?thesis by (simp add: resolve_target_def split: list.split option.split)
qed

lemma rule_alts_update_alts:
  "rule_alts (rule_alts_update f phase rs) phase' =
     (if (phase = ''open'') = (phase' = ''open'') then f (rule_alts rs phase') else rule_alts rs phase')"
  by (simp add: rule_alts_def rule_alts_update_def split: option.splits)

lemma map_as_m_append: "map as_m (alts[i := alt_append_action name (alts ! i)]) = map as_m alts"
proof (rule nth_equalityI)
  fix j assume "j < length (map as_m (alts[i := alt_append_action name (alts ! i)]))"
  then show "map as_m (alts[i := alt_append_action name (alts ! i)]) ! j = map as_m alts ! j"
    by (cases "j = i") simp_all
qed simp

lemma append_at_marks: "marks_of (append_at name rule phase i spec) r = marks_of spec r"
  by (auto simp: append_at_def marks_of_def rule_alts_update_alts map_as_m_append split: option.splits)

text \<open>The actions of one alternate.\<close>

definition actions_at :: "'f grammar_spec \<Rightarrow> string \<Rightarrow> string \<Rightarrow> nat \<Rightarrow> string list" where
  "actions_at spec rule phase i =
     (case map_of (gs_rule spec) rule of
        Some (Some rs) \<Rightarrow> if i < length (rule_alts rs phase) then alt_actions (rule_alts rs phase ! i) else []
      | _ \<Rightarrow> [])"

definition has_alt :: "'f grammar_spec \<Rightarrow> string \<Rightarrow> string \<Rightarrow> nat \<Rightarrow> bool" where
  "has_alt spec rule phase i =
     (case map_of (gs_rule spec) rule of Some (Some rs) \<Rightarrow> i < length (rule_alts rs phase) | _ \<Rightarrow> False)"

abbreviation oc :: "string \<Rightarrow> bool" where
  "oc phase \<equiv> phase = ''open'' \<or> phase = ''close''"

lemma append_at_actions:
  assumes "oc phase" "oc phase'" "has_alt spec rule' phase' i'"
  shows "actions_at (append_at name rule phase i spec) rule' phase' i' =
     actions_at spec rule' phase' i' @ (if (rule', phase', i') = (rule, phase, i) then [name] else [])"
    and "has_alt (append_at name rule phase i spec) rule' phase' i'"
  using assms
  by (auto simp: actions_at_def has_alt_def append_at_def rule_alts_update_alts alt_append_action_actions
      nth_list_update split: option.splits)

lemma append_all_actions:
  assumes "oc phase" "oc phase'" "distinct idx" "has_alt spec rule' phase' i'"
  shows "actions_at (foldl (\<lambda>acc i. append_at name rule phase i acc) spec idx) rule' phase' i' =
     actions_at spec rule' phase' i' @ (if rule' = rule \<and> phase' = phase \<and> i' \<in> set idx then [name] else [])
     \<and> has_alt (foldl (\<lambda>acc i. append_at name rule phase i acc) spec idx) rule' phase' i'"
  using assms(3,4)
proof (induction idx arbitrary: spec)
  case (Cons i idx)
  show ?case
    using Cons.IH [OF _ append_at_actions(2) [OF assms(1,2) Cons.prems(2)]] Cons.prems(1)
      append_at_actions(1) [OF assms(1,2) Cons.prems(2)] by auto
qed simp

lemma append_all_marks: "marks_of (foldl (\<lambda>acc i. append_at name rule phase i acc) spec idx) r = marks_of spec r"
  by (induction idx arbitrary: spec) (simp_all add: append_at_marks)

definition slot_hits :: "'f grammar_spec \<Rightarrow> string \<Rightarrow> string \<Rightarrow> string \<Rightarrow> nat \<Rightarrow> bool" where
  "slot_hits spec name rule phase i =
     (case resolve_target spec name of
        Inr (r, TAlts ph idx) \<Rightarrow> r = rule \<and> ph = phase \<and> i \<in> set idx | _ \<Rightarrow> False)"

text \<open>
  C23: When attaching slots succeeds, every alternate ends with the actions it had, in order,
  followed by exactly the slots that resolve to it, in the order they were given.
\<close>

theorem attach_slots_actions:
  assumes "attach_action_slots ns spec = (spec', Inr ())" and "has_alt spec rule phase i" and "oc phase"
  shows "actions_at spec' rule phase i =
    actions_at spec rule phase i @ filter (\<lambda>n. slot_hits spec n rule phase i) ns"
  using assms(1,2)
proof (induction ns arbitrary: spec)
  case (Cons name ns)
  obtain r ph idx where t: "resolve_target spec name = Inr (r, TAlts ph idx)"
    using Cons.prems(1) by (auto split: sum.splits prod.splits target.splits)
  let ?s = "foldl (\<lambda>acc i. append_at name r ph i acc) spec idx"
  obtain rs mark where m: "oc ph" "idx = marked_indices rs ph mark"
    using resolve_target_alts [OF t] by metis
  then have "distinct idx" by (simp add: marked_indices_def Let_def)
  note step = append_all_actions [OF m(1) assms(3) this Cons.prems(2), of name r]
  have hits: "slot_hits ?s n rule phase i = slot_hits spec n rule phase i" for n
    unfolding slot_hits_def by (simp only: resolve_target_cong [OF append_all_marks])
  have "attach_action_slots ns ?s = (spec', Inr ())" using Cons.prems(1) t by simp
  from Cons.IH [OF this conjunct2 [OF step]] conjunct1 [OF step] hits t show ?case
    by (auto simp: slot_hits_def)
qed auto

text \<open>C24: Attaching slots fails exactly when a ref does not resolve to marked alternates.\<close>

theorem attach_slots_total:
  "(\<exists>spec'. attach_action_slots ns spec = (spec', Inr ())) \<longleftrightarrow>
   (\<forall>n\<in>set ns. \<exists>rule phase idx. resolve_target spec n = Inr (rule, TAlts phase idx))"
proof (induction ns arbitrary: spec)
  case (Cons name ns)
  show ?case
  proof (cases "\<exists>rule phase idx. resolve_target spec name = Inr (rule, TAlts phase idx)")
    case True
    then obtain r ph idx where t: "resolve_target spec name = Inr (r, TAlts ph idx)" by blast
    let ?s = "foldl (\<lambda>acc i. append_at name r ph i acc) spec idx"
    have "resolve_target ?s n = resolve_target spec n" for n by (rule resolve_target_cong [OF append_all_marks])
    with Cons.IH [of ?s] t show ?thesis by simp
  next
    case False
    then show ?thesis by (auto split: sum.splits prod.splits target.splits)
  qed
qed simp

section \<open>What runs\<close>

text \<open>The user functions an action list runs, in order.\<close>

definition runs_of :: "(string \<times> 'f ref_action) list \<Rightarrow> string list \<Rightarrow> 'f list" where
  "runs_of refs acts = concat (map (\<lambda>a. case map_of refs a of Some (RefUser fns) \<Rightarrow> fns | _ \<Rightarrow> []) acts)"

definition runs_at :: "'f grammar_spec \<Rightarrow> string \<Rightarrow> string \<Rightarrow> nat \<Rightarrow> 'f list" where
  "runs_at spec rule phase i = runs_of (gs_refs spec) (actions_at spec rule phase i)"

text \<open>User refs are numbered below the counter, in the ref map and in the alternates.\<close>

definition numbered_below :: "'f grammar_spec \<times> nat \<Rightarrow> bool" where
  "numbered_below st \<longleftrightarrow>
     (\<forall>k fns. map_of (gs_refs (fst st)) k = Some (RefUser fns) \<longrightarrow> (\<exists>j<snd st. k = user_ref j)) \<and>
     (\<forall>rule phase i j. oc phase \<longrightarrow> has_alt (fst st) rule phase i \<longrightarrow>
        user_ref j \<in> set (actions_at (fst st) rule phase i) \<longrightarrow> j < snd st)"

lemma user_ref_inj [simp]: "user_ref i = user_ref j \<longleftrightarrow> i = j"
  by (simp add: user_ref_def)

lemma user_ref_no_dash: "CHR ''-'' \<notin> set (user_ref n)"
  using nat_str_digits [of "CHR ''-''" n] by (auto simp: user_ref_def is_digit_def)

lemma append_at_refs [simp]: "gs_refs (append_at name rule phase i spec) = gs_refs spec"
  by (simp add: append_at_def split: option.split)

lemma refs_update_marks [simp]: "marks_of (spec\<lparr>gs_refs := refs\<rparr>) = marks_of spec"
  by (simp add: marks_of_def fun_eq_iff)

lemma refs_update_actions [simp]: "actions_at (spec\<lparr>gs_refs := refs\<rparr>) = actions_at spec"
  by (simp add: actions_at_def fun_eq_iff)

lemma refs_update_has_alt [simp]: "has_alt (spec\<lparr>gs_refs := refs\<rparr>) = has_alt spec"
  by (simp add: has_alt_def fun_eq_iff)

lemma has_alt_append_at: "oc phase \<Longrightarrow> oc ph \<Longrightarrow> has_alt (append_at name r ph i spec) rule phase k = has_alt spec rule phase k"
  by (auto simp: has_alt_def append_at_def rule_alts_update_alts split: option.splits)

lemma runs_of_fresh: "k \<notin> set acts \<Longrightarrow> runs_of (imap_insert k v refs) acts = runs_of refs acts"
  unfolding runs_of_def by (intro arg_cong [where f = concat] map_cong refl) auto

lemma runs_of_append: "runs_of refs (a @ b) = runs_of refs a @ runs_of refs b"
  by (simp add: runs_of_def)

lemma attach_one_step:
  assumes "numbered_below (spec, n)" "oc ph" "attach_one fns r ph (spec, n) k = (spec', n')"
  shows "numbered_below (spec', n')" and "marks_of spec' = marks_of spec"
    and "oc phase \<Longrightarrow> has_alt spec' rule phase i = has_alt spec rule phase i"
    and "oc phase \<Longrightarrow> has_alt spec rule phase i \<Longrightarrow>
      runs_at spec' rule phase i =
      runs_at spec rule phase i @ (if (rule, phase, i) = (r, ph, k) then fns else [])"
proof -
  let ?s = "spec\<lparr>gs_refs := imap_insert (user_ref n) (RefUser fns) (gs_refs spec)\<rparr>"
  have s': "spec' = append_at (user_ref n) r ph k ?s" "n' = Suc n"
    using assms(3) by (auto simp: attach_one_def)
  have alt: "has_alt spec' rule phase i = has_alt spec rule phase i" if "oc phase" for rule phase i
    by (simp only: s'(1) has_alt_append_at [OF that assms(2)] refs_update_has_alt)
  have act: "actions_at spec' rule phase i = actions_at spec rule phase i @
      (if (rule, phase, i) = (r, ph, k) then [user_ref n] else [])"
    if "oc phase" "has_alt spec rule phase i" for rule phase i
    unfolding s'(1) using append_at_actions(1) [OF assms(2) that(1), of ?s rule i "user_ref n" r k] that(2) by simp
  show "numbered_below (spec', n')"
    unfolding numbered_below_def fst_conv snd_conv s'(2)
  proof (intro conjI allI impI)
    fix k' fns' assume "map_of (gs_refs spec') k' = Some (RefUser fns')"
    then show "\<exists>j<Suc n. k' = user_ref j"
      using assms(1) by (auto simp: s'(1) numbered_below_def split: if_splits intro: less_SucI)
  next
    fix rule phase i j
    assume a: "oc phase" "has_alt spec' rule phase i" "user_ref j \<in> set (actions_at spec' rule phase i)"
    then have h: "has_alt spec rule phase i" using alt by simp
    have "user_ref j \<in> set (actions_at spec rule phase i) \<or> j = n"
      using a(3) unfolding act [OF a(1) h] by (auto split: if_splits)
    then show "j < Suc n" using assms(1) a(1) h unfolding numbered_below_def by fastforce
  qed
  show "marks_of spec' = marks_of spec" by (simp add: s'(1) fun_eq_iff append_at_marks)
  show "has_alt spec' rule phase i = has_alt spec rule phase i" if "oc phase" by (rule alt [OF that])
  assume h: "oc phase" "has_alt spec rule phase i"
  have "user_ref n \<notin> set (actions_at spec rule phase i)"
    using assms(1) h unfolding numbered_below_def by fastforce
  then have "runs_of (gs_refs spec') (actions_at spec rule phase i) = runs_at spec rule phase i"
    unfolding runs_at_def by (simp add: s'(1) runs_of_fresh)
  then show "runs_at spec' rule phase i =
      runs_at spec rule phase i @ (if (rule, phase, i) = (r, ph, k) then fns else [])"
    unfolding runs_at_def act [OF h] runs_of_append
    by (cases "rule = r \<and> phase = ph \<and> i = k") (auto simp: s'(1) runs_of_def)
qed

lemma attach_one_all:
  assumes "numbered_below (spec, n)" "oc ph" "distinct idx" "foldl (attach_one fns r ph) (spec, n) idx = (spec', n')"
  shows "numbered_below (spec', n') \<and> marks_of spec' = marks_of spec \<and>
    (oc phase \<longrightarrow> has_alt spec' rule phase i = has_alt spec rule phase i) \<and>
    (oc phase \<longrightarrow> has_alt spec rule phase i \<longrightarrow> runs_at spec' rule phase i =
       runs_at spec rule phase i @ (if rule = r \<and> phase = ph \<and> i \<in> set idx then fns else []))"
  using assms(1,3,4)
proof (induction idx arbitrary: spec n)
  case (Cons k idx)
  obtain spec1 n1 where s1: "attach_one fns r ph (spec, n) k = (spec1, n1)" by fastforce
  note step = attach_one_step [OF Cons.prems(1) assms(2) s1]
  have "foldl (attach_one fns r ph) (spec1, n1) idx = (spec', n')" using Cons.prems(3) s1 by simp
  note IH = Cons.IH [OF step(1) _ this]
  have d: "distinct idx" "k \<notin> set idx" using Cons.prems(2) by auto
  show ?case using IH [OF d(1)] step(2) step(3) [of phase rule i] step(4) [of phase rule i] d(2) by auto
qed simp

lemma attach_phase_step:
  assumes "numbered_below (spec, n)"
  shows "numbered_below (attach_phase r p fns spec, n)"
    and "marks_of (attach_phase r p fns spec) = marks_of spec"
    and "has_alt (attach_phase r p fns spec) rule phase i = has_alt spec rule phase i"
    and "runs_at (attach_phase r p fns spec) rule phase i = runs_at spec rule phase i"
proof -
  let ?k = "''@'' @ r @ ''-'' @ p"
  have no: "?k \<noteq> user_ref j" for j
    using user_ref_no_dash [of j] by (metis append_Cons append_assoc in_set_conv_decomp)
  define v where "v = (case map_of (gs_refs spec) ?k of
      Some (RefPhase existing) \<Rightarrow> RefPhase (existing @ fns) | _ \<Rightarrow> RefPhase fns)"
  have v: "attach_phase r p fns spec = spec\<lparr>gs_refs := imap_insert ?k v (gs_refs spec)\<rparr>"
    by (simp add: attach_phase_def v_def Let_def)
  have vp: "\<exists>f. v = RefPhase f" by (simp add: v_def split: option.split ref_action.split)
  have nu: "map_of (gs_refs spec) ?k \<noteq> Some (RefUser f)" for f
  proof
    assume "map_of (gs_refs spec) ?k = Some (RefUser f)"
    then obtain j where "?k = user_ref j" using assms unfolding numbered_below_def by force
    then show False using no by blast
  qed
  show "numbered_below (attach_phase r p fns spec, n)"
    using assms vp unfolding numbered_below_def fst_conv snd_conv v by (auto split: if_splits)
  show "marks_of (attach_phase r p fns spec) = marks_of spec"
    and "has_alt (attach_phase r p fns spec) rule phase i = has_alt spec rule phase i"
    by (simp_all add: v)
  have "(case map_of (imap_insert ?k v (gs_refs spec)) a of Some (RefUser fns) \<Rightarrow> fns | _ \<Rightarrow> []) =
        (case map_of (gs_refs spec) a of Some (RefUser fns) \<Rightarrow> fns | _ \<Rightarrow> [])" for a
    using vp nu by (auto split: option.splits ref_action.splits)
  then show "runs_at (attach_phase r p fns spec) rule phase i = runs_at spec rule phase i"
    by (simp add: runs_at_def runs_of_def v)
qed

lemma attach_loop_runs:
  assumes "attach_loop acts (spec, n) = (spec', Inr ())" and "numbered_below (spec, n)"
    and "oc phase" and "has_alt spec rule phase i"
  shows "runs_at spec' rule phase i = runs_at spec rule phase i @
    concat (map snd (filter (\<lambda>(key, fns). slot_hits spec key rule phase i) acts))"
  using assms(1,2,4)
proof (induction acts arbitrary: spec n)
  case (Cons kf acts)
  obtain key fns where kf: "kf = (key, fns)" by (cases kf)
  have hits: "slot_hits s k rule phase i = slot_hits spec k rule phase i" if "marks_of s = marks_of spec" for s k
    unfolding slot_hits_def using resolve_target_cong [of s spec] that by simp
  consider (ph) r p where "resolve_target spec key = Inr (r, TPhase p)"
    | (al) r p idx where "resolve_target spec key = Inr (r, TAlts p idx)"
    using Cons.prems(1) kf by (auto split: sum.splits prod.splits target.splits)
  then show ?case
  proof cases
    case ph
    let ?s = "attach_phase r p fns spec"
    note st = attach_phase_step [OF Cons.prems(2), of r p fns]
    have "attach_loop acts (?s, n) = (spec', Inr ())" using Cons.prems(1) kf ph by simp
    from Cons.IH [OF this st(1)] Cons.prems(3) st hits [OF st(2)] kf ph
    show ?thesis by (simp add: slot_hits_def)
  next
    case al
    obtain rs mark where m: "oc p" "idx = marked_indices rs p mark" using resolve_target_alts [OF al] by metis
    then have d: "distinct idx" by (simp add: marked_indices_def Let_def)
    obtain s1 n1 where f: "foldl (attach_one fns r p) (spec, n) idx = (s1, n1)" by fastforce
    note st = attach_one_all [OF Cons.prems(2) m(1) d f, of phase rule i]
    have "attach_loop acts (s1, n1) = (spec', Inr ())" using Cons.prems(1) kf al f by simp
    moreover have "has_alt s1 rule phase i" using st assms(3) Cons.prems(3) by blast
    ultimately have "runs_at spec' rule phase i = runs_at s1 rule phase i @
        concat (map snd (filter (\<lambda>(key, fns). slot_hits s1 key rule phase i) acts))"
      using Cons.IH st by blast
    moreover have "runs_at s1 rule phase i = runs_at spec rule phase i @
        (if slot_hits spec key rule phase i then fns else [])"
      using st assms(3) Cons.prems(3) al by (auto simp: slot_hits_def)
    moreover have "slot_hits s1 k rule phase i = slot_hits spec k rule phase i" for k using hits st by blast
    ultimately show ?thesis using kf by simp
  qed
qed simp

text \<open>
  C22: Attaching user actions composes: on success every alternate runs the user functions it ran
  before, then those attached to it, in attachment order, and nothing else is disturbed. The
  hypothesis is that user refs are numbered below the first free one, as this pass numbers them.
\<close>

theorem attach_actions_runs:
  assumes "attach_actions acts spec = (spec', Inr ())" and "numbered_below (spec, first_user spec)"
    and "oc phase" and "has_alt spec rule phase i"
  shows "runs_at spec' rule phase i = runs_at spec rule phase i @
    concat (map snd (filter (\<lambda>(key, fns). slot_hits spec key rule phase i) acts))"
  by (rule attach_loop_runs [OF _ assms(2-4)]) (use assms(1) in \<open>simp add: attach_actions_def\<close>)

text \<open>A rule with a marked alternate, for the examples.\<close>

definition marked_example :: "nat grammar_spec" where
  "marked_example =
     \<lparr>gs_refs = [], gs_options = [],
      gs_rule = [(''r'', Some \<lparr>rs_open =
        [(alt_set ''a'' (JStr ''@node$'') alt_new)\<lparr>as_m := Some ''x''\<rparr>, alt_with_tag ''t''], rs_close = None\<rparr>)],
      gs_meta = None, gs_clear = False\<rparr>"

lemma marked_example_resolves: "resolve_target marked_example ''@r:o:x'' = Inr (''r'', TAlts ''open'' [0])"
  by code_simp

lemma resolve_target_marks_witness:
  "\<exists>rs mark. map_of (gs_rule marked_example) ''r'' = Some (Some rs) \<and> [0::nat] \<noteq> [] \<and> distinct [0::nat] \<and>
    set [0] = {i. i < length (rule_alts rs ''open'') \<and> as_m (rule_alts rs ''open'' ! i) = Some mark}"
  by (rule resolve_target_marks [OF marked_example_resolves])

lemma marked_example_alt: "has_alt marked_example ''r'' ''open'' 0"
  by code_simp

lemma attach_slots_actions_witness:
  "actions_at (fst (attach_action_slots [''@r:o:x''] marked_example)) ''r'' ''open'' 0 = [''@node$'', ''@r:o:x'']"
proof -
  have "attach_action_slots [''@r:o:x''] marked_example =
      (fst (attach_action_slots [''@r:o:x''] marked_example), Inr ())"
    using marked_example_resolves by simp
  from attach_slots_actions [OF this marked_example_alt] marked_example_resolves
  show ?thesis by (simp add: slot_hits_def)
     (simp add: marked_example_def actions_at_def rule_alts_def alt_actions_def alt_get_def alt_set_def alt_new_def)
qed

lemma marked_example_numbered: "numbered_below (marked_example, first_user marked_example)"
  by (auto simp: numbered_below_def marked_example_def actions_at_def has_alt_def rule_alts_def alt_actions_def
      alt_with_tag_def alt_get_def alt_set_def alt_new_def user_ref_def nth_Cons split: if_splits nat.splits)

lemma attach_actions_runs_witness:
  "runs_at (fst (attach_actions [(''@r:o:x'', [7, 8])] marked_example)) ''r'' ''open'' 0 = [7, 8]"
proof -
  have "attach_actions [(''@r:o:x'', [7, 8])] marked_example =
      (fst (attach_actions [(''@r:o:x'', [7, 8])] marked_example), Inr ())"
    using marked_example_resolves by (simp add: attach_actions_def)
  from attach_actions_runs [OF this marked_example_numbered _ marked_example_alt] marked_example_resolves
  show ?thesis by (simp add: slot_hits_def) (simp add: runs_at_def runs_of_def marked_example_def)
qed

lemma attach_slots_total_witness: "\<exists>spec'. attach_action_slots [''@r:o:x''] marked_example = (spec', Inr ())"
proof -
  have "\<forall>n\<in>set [''@r:o:x'']. \<exists>rule phase idx. resolve_target marked_example n = Inr (rule, TAlts phase idx)"
    using marked_example_resolves by simp
  with attach_slots_total [of "[''@r:o:x'']" marked_example] show ?thesis by blast
qed

end
