(* ===== verification/Nullable.thy ===== *)
theory Nullable
  imports Language
begin

text \<open>
  Which elements and rules can match without consuming (\<open>rs/src/prose.rs\<close>). The regular
  expression engine is a crate outside the repository: \<open>rx p ci\<close> is what building pattern \<open>p\<close>,
  ignoring case when \<open>ci\<close>, and matching it against the empty string answers; \<open>None\<close> is a
  pattern it does not accept.
\<close>

type_synonym regex_crate = "string \<Rightarrow> bool \<Rightarrow> bool option"

section \<open>Terminals\<close>

definition regex_derives_empty :: "regex_crate \<Rightarrow> string \<Rightarrow> string \<Rightarrow> bool" where
  "regex_derives_empty rx pattern flags =
     (case rx (''^(?:'' @ pattern @ '')$'') (CHR ''i'' \<in> set flags) of Some b \<Rightarrow> b | None \<Rightarrow> False)"

text \<open>Flags that are valid: each one known, none twice, not both \<open>u\<close> and \<open>v\<close>.\<close>

definition flags_ok :: "string \<Rightarrow> bool" where
  "flags_ok flags =
     (list_all (\<lambda>c. c \<in> set ''dgimsuvy'') flags \<and> distinct flags \<and>
      \<not> (CHR ''u'' \<in> set flags \<and> CHR ''v'' \<in> set flags))"

text \<open>
  The scan that turns assertions into empty groups. \<open>sk_out\<close> is the skeleton so far; what is
  left of the pattern is the argument, so the code's index \<open>i\<close> is what has been consumed.
\<close>

record skeleton =
  sk_out :: string
  sk_class :: bool
  sk_extended :: bool
  sk_stack :: "bool list"
  sk_changed :: bool

definition sk_push :: "string \<Rightarrow> skeleton \<Rightarrow> skeleton" where
  "sk_push bs s = s\<lparr>sk_out := sk_out s @ bs\<rparr>"

definition sk_assert :: "skeleton \<Rightarrow> skeleton" where
  "sk_assert s = (sk_push ''()'' s)\<lparr>sk_changed := True\<rparr>"

definition boundary_suffixes :: "string list" where
  "boundary_suffixes = [''{start}'', ''{end}'', ''{start-half}'', ''{end-half}'']"

definition skip_boundary :: "string \<Rightarrow> string" where
  "skip_boundary rest =
     (case find (\<lambda>suf. prefix suf rest) boundary_suffixes of Some suf \<Rightarrow> drop (length suf) rest | None \<Rightarrow> rest)"

text \<open>
  The flags after \<open>(?\<close>: how many bytes they are, whether a \<open>-\<close> still lets a flag be enabled,
  and the extended mode they leave.
\<close>

fun group_flags :: "string \<Rightarrow> bool \<Rightarrow> bool \<Rightarrow> nat \<times> bool" where
  "group_flags (c # cs) enabled ext =
     (if c = CHR ''-'' then (case group_flags cs False ext of (n, e) \<Rightarrow> (Suc n, e))
      else if c = CHR ''x'' then (case group_flags cs enabled enabled of (n, e) \<Rightarrow> (Suc n, e))
      else if c \<in> set ''imsRUu'' then (case group_flags cs enabled ext of (n, e) \<Rightarrow> (Suc n, e))
      else (0, ext))"
| "group_flags [] enabled ext = (0, ext)"

definition after_comment :: "string \<Rightarrow> string \<times> string" where
  "after_comment rest =
     (let body = takeWhile (\<lambda>c. c \<noteq> CHR 0x0A) rest; tail = dropWhile (\<lambda>c. c \<noteq> CHR 0x0A) rest
      in case tail of [] \<Rightarrow> (body, []) | nl # t \<Rightarrow> (body @ [nl], t))"

text \<open>One turn of the scan on a rest that starts with \<open>ch\<close>: the new rest and state.\<close>

definition sk_plain :: "char \<Rightarrow> string \<Rightarrow> skeleton \<Rightarrow> string \<times> skeleton" where
  "sk_plain ch t s =
     (if ch = CHR ''('' then (t, sk_push [ch] (s\<lparr>sk_stack := sk_extended s # sk_stack s\<rparr>))
      else if ch = CHR '')'' then
        (t, sk_push [ch] (case sk_stack s of [] \<Rightarrow> s | outer # st \<Rightarrow> s\<lparr>sk_extended := outer, sk_stack := st\<rparr>))
      else if ch = CHR ''['' then (t, sk_push [ch] (s\<lparr>sk_class := True\<rparr>))
      else if ch = CHR ''^'' \<or> ch = CHR ''$'' then (t, sk_assert s)
      else (t, sk_push [ch] s))"

definition sk_turn :: "char \<Rightarrow> string \<Rightarrow> skeleton \<Rightarrow> string \<times> skeleton" where
  "sk_turn ch t s =
     (if ch = CHR 0x5C \<and> t \<noteq> [] then
        (let next = hd t
         in if \<not> sk_class s \<and> next \<in> set ''bBAz<>'' then
              (if next = CHR ''b'' then skip_boundary (tl t) else tl t, sk_assert s)
            else (tl t, sk_push [ch, next] s))
      else if \<not> sk_class s \<and> sk_extended s \<and> ch = CHR ''#'' then
        (case after_comment t of (body, rest) \<Rightarrow> (rest, sk_push (ch # body) s))
      else if sk_class s then
        (t, sk_push [ch] (if ch = CHR '']'' then s\<lparr>sk_class := False\<rparr> else s))
      else if ch = CHR ''('' \<and> 2 \<le> length t \<and> hd t = CHR ''?'' then
        (case group_flags (tl t) True (sk_extended s) of
           (n, next_extended) \<Rightarrow>
             (let rest = drop n (tl t)
              in if rest \<noteq> [] \<and> hd rest = CHR '':'' then
                   (tl rest, sk_push (ch # take (n + 2) t)
                      (s\<lparr>sk_stack := sk_extended s # sk_stack s, sk_extended := next_extended\<rparr>))
                 else if 0 < n \<and> rest \<noteq> [] \<and> hd rest = CHR '')'' then
                   (tl rest, sk_push (ch # take (n + 2) t) (s\<lparr>sk_extended := next_extended\<rparr>))
                 else sk_plain ch t s))
      else sk_plain ch t s)"

lemma skip_boundary_length: "length (skip_boundary rest) \<le> length rest"
  by (simp add: skip_boundary_def split: option.split)

lemma after_comment_length: "after_comment rest = (b, r) \<Longrightarrow> length r \<le> length rest"
  using length_dropWhile_le [of "\<lambda>c. c \<noteq> CHR 0x0A" rest]
  by (auto simp: after_comment_def Let_def split: list.splits)

lemma sk_turn_length: "sk_turn ch t s = (rest, s') \<Longrightarrow> length rest \<le> length t"
  using skip_boundary_length [of "tl t"]
  by (auto simp: sk_turn_def sk_plain_def Let_def split: if_splits prod.splits dest!: after_comment_length)

function sk_scan :: "string \<Rightarrow> skeleton \<Rightarrow> skeleton" where
  "sk_scan [] s = s"
| "sk_scan (ch # t) s = (case sk_turn ch t s of (rest, s') \<Rightarrow> sk_scan rest s')"
  by pat_completeness auto
termination
proof (relation "measure (length \<circ> fst)")
  fix ch t s rest s' assume "(rest, s') = sk_turn ch t s"
  from sk_turn_length [OF this [symmetric]]
  show "((rest, s'), ch # t, s) \<in> measure (length \<circ> fst)" by simp
qed simp

definition sk_start :: skeleton where
  "sk_start = \<lparr>sk_out = [], sk_class = False, sk_extended = False, sk_stack = [], sk_changed = False\<rparr>"

definition regex_may_match_without_consuming :: "regex_crate \<Rightarrow> string \<Rightarrow> string \<Rightarrow> bool" where
  "regex_may_match_without_consuming rx pattern flags =
     (flags_ok flags \<and> rx pattern (CHR ''i'' \<in> set flags) \<noteq> None \<and>
      (regex_derives_empty rx pattern flags \<or>
       (let s = sk_scan pattern sk_start in sk_changed s \<and> regex_derives_empty rx (sk_out s) flags)))"

section \<open>Elements\<close>

fun element_derives_empty :: "regex_crate \<Rightarrow> string list \<Rightarrow> element \<Rightarrow> bool" where
  "element_derives_empty rx nullable (Element (Opt _) _) = True"
| "element_derives_empty rx nullable (Element (Star _ _) _) = True"
| "element_derives_empty rx nullable (Element (Plus i) _) = element_derives_empty rx nullable i"
| "element_derives_empty rx nullable (Element (Rep mn _ i) _) = (mn = 0 \<or> element_derives_empty rx nullable i)"
| "element_derives_empty rx nullable (Element (Group alts) _) =
     list_ex (list_all (element_derives_empty rx nullable)) alts"
| "element_derives_empty rx nullable (Element (Ref name _) _) = (name \<in> set nullable)"
| "element_derives_empty rx nullable (Element (Term literal _ _) _) = (literal = [])"
| "element_derives_empty rx nullable (Element (Regex pattern flags) _) = regex_derives_empty rx pattern flags"
| "element_derives_empty rx nullable (Element (Token name) _) = (name = ''#ZZ'' \<or> name = ''#AA'')"
| "element_derives_empty rx nullable (Element (Prose _) _) = False"

definition sequence_derives_empty :: "regex_crate \<Rightarrow> string list \<Rightarrow> seq \<Rightarrow> bool" where
  "sequence_derives_empty rx nullable alt = list_all (element_derives_empty rx nullable) alt"

fun element_may_match_without_consuming :: "regex_crate \<Rightarrow> string list \<Rightarrow> element \<Rightarrow> bool" where
  "element_may_match_without_consuming rx nullable (Element (Opt _) _) = True"
| "element_may_match_without_consuming rx nullable (Element (Star _ _) _) = True"
| "element_may_match_without_consuming rx nullable (Element (Plus i) _) = element_may_match_without_consuming rx nullable i"
| "element_may_match_without_consuming rx nullable (Element (Rep mn _ i) _) =
     (mn = 0 \<or> element_may_match_without_consuming rx nullable i)"
| "element_may_match_without_consuming rx nullable (Element (Group alts) _) =
     list_ex (list_all (element_may_match_without_consuming rx nullable)) alts"
| "element_may_match_without_consuming rx nullable (Element (Ref name _) _) = (name \<in> set nullable)"
| "element_may_match_without_consuming rx nullable (Element (Term literal _ _) _) = (literal = [])"
| "element_may_match_without_consuming rx nullable (Element (Regex pattern flags) _) =
     regex_may_match_without_consuming rx pattern flags"
| "element_may_match_without_consuming rx nullable (Element (Token name) _) = (name = ''#ZZ'' \<or> name = ''#AA'')"
| "element_may_match_without_consuming rx nullable (Element (Prose _) _) = False"

section \<open>Rules\<close>

text \<open>
  The fixed-point loop, once for both tests: a pass over the productions inserts the name of
  each one not in yet that has an alternative the test accepts.
\<close>

definition empty_step :: "(string list \<Rightarrow> seq \<Rightarrow> bool) \<Rightarrow> string list \<times> bool \<Rightarrow> production \<Rightarrow> string list \<times> bool" where
  "empty_step test st p =
     (if p_name p \<in> set (fst st) then st
      else if list_ex (test (fst st)) (p_alts p) then (iset_insert (p_name p) (fst st), True)
      else st)"

definition empty_pass :: "(string list \<Rightarrow> seq \<Rightarrow> bool) \<Rightarrow> production list \<Rightarrow> string list \<Rightarrow> string list \<times> bool" where
  "empty_pass test prods nullable = foldl (empty_step test) (nullable, False) prods"

definition empty_rules :: "(string list \<Rightarrow> seq \<Rightarrow> bool) \<Rightarrow> production list \<Rightarrow> string list" where
  "empty_rules test prods = change_loop (empty_pass test prods) []"

definition nullable_rules :: "regex_crate \<Rightarrow> production list \<Rightarrow> string list" where
  "nullable_rules rx prods = empty_rules (sequence_derives_empty rx) prods"

definition non_consuming_rules :: "regex_crate \<Rightarrow> production list \<Rightarrow> string list" where
  "non_consuming_rules rx prods =
     empty_rules (\<lambda>nullable alt. list_all (element_may_match_without_consuming rx nullable) alt) prods"

subsection \<open>The loop computes the least closed set\<close>

locale emptiness_test =
  fixes test :: "string list \<Rightarrow> seq \<Rightarrow> bool"
  assumes test_mono: "set A \<subseteq> set B \<Longrightarrow> test A alt \<Longrightarrow> test B alt"
begin

definition closed_under :: "production list \<Rightarrow> string list \<Rightarrow> bool" where
  "closed_under prods A \<longleftrightarrow> (\<forall>p\<in>set prods. list_ex (test A) (p_alts p) \<longrightarrow> p_name p \<in> set A)"

lemma step_grows: "set (fst st) \<subseteq> set (fst (empty_step test st p))"
  by (auto simp: empty_step_def)

lemma fold_grows: "set (fst st) \<subseteq> set (fst (foldl (empty_step test) st ps))"
  by (induction ps arbitrary: st) (use step_grows in \<open>fastforce+\<close>)

lemma fold_shape:
  "set (fst (foldl (empty_step test) (A, c) ps)) \<subseteq> set A \<union> set (names ps) \<and>
   (\<not> snd (foldl (empty_step test) (A, c) ps) \<longrightarrow> \<not> c \<and> fst (foldl (empty_step test) (A, c) ps) = A \<and> closed_under ps A) \<and>
   (snd (foldl (empty_step test) (A, c) ps) \<longrightarrow> c \<or> set A \<subset> set (fst (foldl (empty_step test) (A, c) ps)))"
proof (induction ps arbitrary: A c)
  case (Cons p ps)
  show ?case
  proof (cases "p_name p \<notin> set A \<and> list_ex (test A) (p_alts p)")
    case True
    then have "empty_step test (A, c) p = (iset_insert (p_name p) A, True)" by (simp add: empty_step_def)
    with Cons [of "iset_insert (p_name p) A" True] True
      fold_grows [of "(iset_insert (p_name p) A, True)" ps] show ?thesis by auto
  next
    case False
    then have "empty_step test (A, c) p = (A, c)" by (auto simp: empty_step_def)
    with Cons [of A c] False show ?thesis by (auto simp: closed_under_def)
  qed
qed (simp add: closed_under_def)

lemma pass_loop:
  "changing_pass (empty_pass test prods) (\<lambda>A. True) (\<lambda>A. card (set (names prods) - set A))"
proof
  fix A assume "snd (empty_pass test prods A)"
  then have s: "set A \<subset> set (fst (empty_pass test prods A))" "set (fst (empty_pass test prods A)) \<subseteq> set A \<union> set (names prods)"
    using fold_shape [of A False prods] by (auto simp: empty_pass_def)
  then have "set (names prods) - set (fst (empty_pass test prods A)) \<subset> set (names prods) - set A" by auto
  then show "card (set (names prods) - set (fst (empty_pass test prods A))) < card (set (names prods) - set A)"
    by (intro psubset_card_mono) auto
next
  fix A assume "\<not> snd (empty_pass test prods A)"
  then show "fst (empty_pass test prods A) = A" using fold_shape [of A False prods] by (auto simp: empty_pass_def)
qed simp

lemma empty_rules_closed: "closed_under prods (empty_rules test prods)"
proof -
  note changing_pass.loop_fixed [OF pass_loop TrueI, of prods "[]"]
  then show ?thesis
    using fold_shape [of "empty_rules test prods" False prods] by (auto simp: empty_rules_def empty_pass_def)
qed

lemma fold_below:
  "closed_under prods B \<Longrightarrow> set ps \<subseteq> set prods \<Longrightarrow> set A \<subseteq> set B \<Longrightarrow>
   set (fst (foldl (empty_step test) (A, c) ps)) \<subseteq> set B"
proof (induction ps arbitrary: A c)
  case (Cons p ps)
  have "set (fst (empty_step test (A, c) p)) \<subseteq> set B"
  proof (cases "list_ex (test A) (p_alts p)")
    case True
    then have "list_ex (test B) (p_alts p)" using test_mono [OF Cons.prems(3)] by (auto simp: list_ex_iff)
    then show ?thesis using Cons.prems by (auto simp: empty_step_def closed_under_def)
  qed (use Cons.prems in \<open>auto simp: empty_step_def\<close>)
  then show ?case using Cons.IH [OF Cons.prems(1)] Cons.prems(2) by (cases "empty_step test (A, c) p") auto
qed simp

lemma empty_rules_least:
  assumes "closed_under prods B" shows "set (empty_rules test prods) \<subseteq> set B"
proof -
  have "changing_pass (empty_pass test prods) (\<lambda>A. set A \<subseteq> set B) (\<lambda>A. card (set (names prods) - set A))"
    using pass_loop [of prods] fold_below [OF assms order_refl]
    by (auto simp: changing_pass_def empty_pass_def)
  from changing_pass.loop_inv [OF this] show ?thesis by (simp add: empty_rules_def)
qed

end

lemma element_derives_empty_mono:
  "set A \<subseteq> set B \<Longrightarrow> element_derives_empty rx A el \<Longrightarrow> element_derives_empty rx B el"
  by (induction el rule: element_induct) (simp_all add: list_ex_iff list_all_iff, blast+)

lemma may_match_mono:
  "set A \<subseteq> set B \<Longrightarrow> element_may_match_without_consuming rx A el \<Longrightarrow> element_may_match_without_consuming rx B el"
  by (induction el rule: element_induct) (simp_all add: list_ex_iff list_all_iff, blast+)

interpretation derives: emptiness_test "sequence_derives_empty rx" for rx
  by unfold_locales (auto simp: sequence_derives_empty_def list_all_iff intro: element_derives_empty_mono)

interpretation consuming: emptiness_test
  "\<lambda>nullable alt. list_all (element_may_match_without_consuming rx nullable) alt" for rx
  by unfold_locales (auto simp: list_all_iff intro: may_match_mono)

section \<open>Nullable rules are the rules that derive the empty word\<close>

text \<open>
  What the code takes of terminals: an empty literal matches nothing, the two tokens the engine
  satisfies without input do, and for a regular expression the crate's answer is right.
\<close>

definition empty_agrees :: "'a terminals \<Rightarrow> regex_crate \<Rightarrow> bool" where
  "empty_agrees T rx \<longleftrightarrow>
     (\<forall>l c t. [] \<in> T (Term l c t) \<longleftrightarrow> l = []) \<and>
     (\<forall>n. [] \<in> T (Token n) \<longleftrightarrow> n = ''#ZZ'' \<or> n = ''#AA'') \<and>
     (\<forall>p f. [] \<in> T (Regex p f) \<longleftrightarrow> regex_derives_empty rx p f)"

lemma Nil_in_lpow: "[] \<in> lpow k A \<longleftrightarrow> k = 0 \<or> [] \<in> A"
  by (induction k) auto

lemma Nil_in_concs: "[] \<in> concs As \<longleftrightarrow> (\<forall>A\<in>set As. [] \<in> A)"
  by (induction As) auto

lemma Nil_in_elang:
  assumes "empty_agrees T rx" and "\<And>n. [] \<in> L n \<longleftrightarrow> n \<in> set N"
  shows "bounds_ok el \<Longrightarrow> [] \<in> elang T L el \<longleftrightarrow> element_derives_empty rx N el"
proof (induction el rule: element_induct)
  case (Rep mn mx i sp)
  have "\<exists>k. k \<in> rep_counts mn mx \<and> k = mn" using Rep.prems by (auto simp: rep_counts_def split: option.splits)
  moreover have "mn = 0 \<longleftrightarrow> 0 \<in> rep_counts mn mx" by (auto simp: rep_counts_def split: option.splits)
  ultimately show ?case using Rep by (auto simp: Nil_in_lpow)
next
  case (Group alts sp)
  have "[] \<in> slang T L alt \<longleftrightarrow> list_all (element_derives_empty rx N) alt" if "alt \<in> set alts" for alt
    using Group that by (auto simp: slang_def Nil_in_concs list_all_iff)
  then show ?case by (auto simp: alang_def list_ex_iff)
qed (use assms in \<open>auto simp: empty_agrees_def\<close>)

lemma Nil_in_slang:
  assumes "empty_agrees T rx" "\<And>n. [] \<in> L n \<longleftrightarrow> n \<in> set N" "list_all bounds_ok alt"
  shows "[] \<in> slang T L alt \<longleftrightarrow> sequence_derives_empty rx N alt"
  using assms(3) Nil_in_elang [OF assms(1,2)]
  by (auto simp: slang_def Nil_in_concs list_all_iff sequence_derives_empty_def)

lemma nullable_rules_iff:
  assumes "empty_agrees T rx" and "all_elements bounds_ok prods"
  shows "n \<in> set (nullable_rules rx prods) \<longleftrightarrow> [] \<in> glang T prods n"
proof
  let ?G = "glang T prods"
  define B where "B = filter (\<lambda>n. [] \<in> ?G n) (names prods)"
  have B: "[] \<in> ?G n \<longleftrightarrow> n \<in> set B" for n
    using glang_undefined [of n prods T] by (cases "n \<in> set (names prods)") (auto simp: B_def)
  have ok: "list_all bounds_ok alt" if "p \<in> set prods" "alt \<in> set (p_alts p)" for p alt
    using assms(2) that by (auto simp: list_all_iff)
  have "derives.closed_under rx prods B"
    unfolding derives.closed_under_def
  proof (intro ballI impI)
    fix p assume p: "p \<in> set prods" and ex: "list_ex (sequence_derives_empty rx B) (p_alts p)"
    then obtain alt where alt: "alt \<in> set (p_alts p)" "sequence_derives_empty rx B alt"
      by (auto simp: list_ex_iff)
    then have "[] \<in> slang T ?G alt" using Nil_in_slang [OF assms(1) B ok [OF p]] by blast
    then show "p_name p \<in> set B" using glang_alt [OF p alt(1)] B by blast
  qed
  then have "set (nullable_rules rx prods) \<subseteq> set B"
    unfolding nullable_rules_def by (rule derives.empty_rules_least)
  then show "n \<in> set (nullable_rules rx prods) \<Longrightarrow> [] \<in> ?G n" using B by blast
  let ?N = "nullable_rules rx prods"
  define L where "L = (\<lambda>m. {u \<in> ?G m. u = [] \<longrightarrow> m \<in> set ?N})"
  define N' where "N' = filter (\<lambda>m. [] \<in> ?G m) ?N"
  have N': "[] \<in> L m \<longleftrightarrow> m \<in> set N'" for m by (auto simp: L_def N'_def)
  have step: "alang T L (p_alts p) \<subseteq> {u. u = [] \<longrightarrow> p_name p \<in> set ?N}" if p: "p \<in> set prods" for p
  proof (intro subsetI CollectI impI)
    fix u assume u: "u \<in> alang T L (p_alts p)" "u = []"
    then obtain alt where alt: "alt \<in> set (p_alts p)" "[] \<in> slang T L alt" by (auto simp: alang_def)
    then have "sequence_derives_empty rx N' alt" using Nil_in_slang [OF assms(1) N' ok [OF p]] by blast
    then have "sequence_derives_empty rx ?N alt"
      by (rule derives.test_mono [rotated]) (auto simp: N'_def)
    then have "list_ex (sequence_derives_empty rx ?N) (p_alts p)" using alt(1) by (auto simp: list_ex_iff)
    then show "p_name p \<in> set ?N"
      using derives.empty_rules_closed [of rx prods] p
      by (simp add: nullable_rules_def derives.closed_under_def)
  qed
  show "[] \<in> ?G n \<Longrightarrow> n \<in> set ?N"
    using glang_induct [of "[]" T prods n "\<lambda>m u. u = [] \<longrightarrow> m \<in> set ?N"] step unfolding L_def by blast
qed

text \<open>
  C26: The rules the fixed point finds nullable are exactly those that derive the empty word.
\<close>

theorem nullable_rules_correct:
  assumes "empty_agrees T rx" and "all_elements bounds_ok prods"
  shows "n \<in> set (nullable_rules rx prods) \<longleftrightarrow> [] \<in> glang T prods n"
  by (rule nullable_rules_iff [OF assms])

text \<open>
  What is found non-consuming is closed: a rule with an alternative all of whose elements
  may match without consuming is in it. It holds at least the rules that derive the empty word
  when the regular expressions of the grammar are ones the crate accepts with valid flags.
\<close>

theorem non_consuming_rules_cover:
  assumes "empty_agrees T rx" and "all_elements bounds_ok prods"
    and "\<And>p f. regex_derives_empty rx p f \<Longrightarrow> regex_may_match_without_consuming rx p f"
    and "[] \<in> glang T prods n"
  shows "n \<in> set (non_consuming_rules rx prods)"
proof -
  let ?N = "non_consuming_rules rx prods"
  have imp: "element_derives_empty rx ?N el \<Longrightarrow> element_may_match_without_consuming rx ?N el" for el
    by (induction el rule: element_induct) (auto simp: list_ex_iff list_all_iff assms(3))
  have "consuming.closed_under rx prods ?N"
    unfolding non_consuming_rules_def by (rule consuming.empty_rules_closed)
  then have "derives.closed_under rx prods ?N"
    using imp unfolding derives.closed_under_def consuming.closed_under_def
    by (auto simp: list_ex_iff list_all_iff sequence_derives_empty_def)
  then have "set (nullable_rules rx prods) \<subseteq> set ?N"
    unfolding nullable_rules_def by (rule derives.empty_rules_least)
  with nullable_rules_iff [OF assms(1,2)] assms(4) show ?thesis by blast
qed

text \<open>Terminals that match one word each, and a crate that takes no pattern to match nothing.\<close>

definition example_terminals :: "kind \<Rightarrow> kind list set" where
  "example_terminals k =
     (case k of Term l _ _ \<Rightarrow> if l = [] then {[]} else {[k]}
      | Token n \<Rightarrow> if n = ''#ZZ'' \<or> n = ''#AA'' then {[]} else {[k]} | _ \<Rightarrow> {[k]})"

definition example_rx :: regex_crate where "example_rx p ci = Some False"

lemma example_agrees: "empty_agrees example_terminals example_rx"
  by (simp add: empty_agrees_def example_terminals_def regex_derives_empty_def example_rx_def)

definition nullable_example :: "production list" where
  "nullable_example =
     [prod_new ''a'' [[el_reference ''b'', el_opt (el_term ''x'')]], prod_new ''b'' [[el_term ''x''], []]]"

lemma nullable_rules_correct_witness:
  "''a'' \<in> set (nullable_rules example_rx nullable_example) \<longleftrightarrow>
   [] \<in> glang example_terminals nullable_example ''a''"
  by (rule nullable_rules_correct [OF example_agrees])
     (simp add: nullable_example_def prod_new_def default_production_def el_reference_def el_opt_def el_term_def el_of_def)

lemma nullable_example_empty: "[] \<in> glang example_terminals nullable_example ''b''"
proof -
  have "[] \<in> slang example_terminals (glang example_terminals nullable_example) []" by simp
  then show ?thesis
    using glang_alt [of "prod_new ''b'' [[el_term ''x''], []]" nullable_example "[]" example_terminals]
    by (auto simp: nullable_example_def prod_new_def)
qed

lemma non_consuming_rules_cover_witness:
  "''b'' \<in> set (non_consuming_rules example_rx nullable_example)"
  by (rule non_consuming_rules_cover [OF example_agrees _ _ nullable_example_empty])
     (simp_all add: nullable_example_def prod_new_def default_production_def el_reference_def el_opt_def
        el_term_def el_of_def regex_derives_empty_def example_rx_def)

end
