(* ===== verification/Prose.thy ===== *)
theory Prose
  imports Nullable
begin

text \<open>
  The passes that run on the grammar as written (\<open>rs/src/prose.rs\<close>): prose resolution, literal
  lifting and built-in tokens. Lower case is Unicode's, from the standard library's tables: the
  parameter \<open>lower\<close>.
\<close>

section \<open>Prose\<close>

fun find_stray :: "element \<Rightarrow> (string \<times> src_span option) option" where
  "find_stray (Element (Prose text) sp) = Some (text, sp)"
| "find_stray (Element (Opt i) _) = find_stray i"
| "find_stray (Element (Star i _) _) = find_stray i"
| "find_stray (Element (Plus i) _) = find_stray i"
| "find_stray (Element (Rep _ _ i) _) = find_stray i"
| "find_stray (Element (Group alts) _) =
     foldl (\<lambda>acc alt. foldl (\<lambda>acc' e. case acc' of Some x \<Rightarrow> Some x | None \<Rightarrow> find_stray e) acc alt) None alts"
| "find_stray _ = None"

definition first_stray :: "seq list \<Rightarrow> (string \<times> src_span option) option" where
  "first_stray alts =
     foldl (\<lambda>acc alt. foldl (\<lambda>acc' e. case acc' of Some x \<Rightarrow> Some x | None \<Rightarrow> find_stray e) acc alt) None alts"

text \<open>Unicode's white space, which \<open>trim\<close> takes off both ends.\<close>

definition is_white :: "nat \<Rightarrow> bool" where
  "is_white c =
     ((9 \<le> c \<and> c \<le> 13) \<or> c = 32 \<or> c = 133 \<or> c = 160 \<or> c = 5760 \<or> (8192 \<le> c \<and> c \<le> 8202) \<or>
      c = 8232 \<or> c = 8233 \<or> c = 8239 \<or> c = 8287 \<or> c = 12288)"

definition trim :: "string \<Rightarrow> string" where
  "trim s = utf8 (rev (dropWhile is_white (rev (dropWhile is_white (chars s)))))"

text \<open>The text of a production whose whole body is one prose element.\<close>

definition only_prose :: "production \<Rightarrow> string option" where
  "only_prose p = (case p_alts p of [[el]] \<Rightarrow> (case kind_of el of Prose text \<Rightarrow> Some text | _ \<Rightarrow> None) | _ \<Rightarrow> None)"

definition or_span :: "src_span option \<Rightarrow> src_span option \<Rightarrow> src_span option" where
  "or_span a b = (case a of Some sp \<Rightarrow> Some sp | None \<Rightarrow> b)"

definition resolve_prose_prod ::
  "(string \<Rightarrow> string) \<Rightarrow> grammar \<times> production list \<Rightarrow> production \<Rightarrow> (emit_error, grammar \<times> production list) result" where
  "resolve_prose_prod lower st p =
     (let (g, kept) = st in
      case only_prose p of
        None \<Rightarrow>
          if is_prose_name (p_name p) then Inl (err_new (ProseName (p_name p)))
          else
            (case first_stray (p_alts p) of
               Some (text, sp) \<Rightarrow> Inl (err_at (ProseInside (p_name p) text) (p_name p) (or_span sp (p_sp p)))
             | None \<Rightarrow> Inr (g, kept @ [p]))
      | Some text \<Rightarrow>
          if REMOVE_PROSE = lower (trim text) then
            if is_prose_name (p_name p) then
              (let target = lower (trim (take (length (p_name p) - 2) (drop 1 (p_name p))))
               in if REMOVE_ALL \<noteq> target then Inl (err_new (NotRemovalTarget target))
                  else Inr (g\<lparr>clear_all := True\<rparr>, kept))
            else Inr (g\<lparr>removals := removals g @ [p_name p]\<rparr>, kept)
          else if is_prose_name (p_name p) then Inl (err_new (ProseName (p_name p)))
          else if builtin_token (p_name p) \<noteq> None then Inr (g, kept)
          else Inl (err_at (ProseOnly (p_name p) text) (p_name p) (p_sp p)))"

text \<open>The productions are drained first, so that a refusal leaves none behind.\<close>

definition resolve_prose_terminals :: "(string \<Rightarrow> string) \<Rightarrow> grammar \<Rightarrow> (emit_error, grammar) result" where
  "resolve_prose_terminals lower g =
     res_bind (res_fold (resolve_prose_prod lower) (g\<lparr>productions := []\<rparr>, []) (productions g))
       (\<lambda>(g', kept).
         if kept = [] \<and> \<not> clear_all g' \<and> removals g' = [] then Inl (err_new NoRules)
         else Inr (g'\<lparr>productions := kept\<rparr>))"

lemma foldl_find_None:
  "foldl (\<lambda>acc e. case acc of Some x \<Rightarrow> Some x | None \<Rightarrow> f e) a xs = None \<longleftrightarrow>
   a = None \<and> (\<forall>e\<in>set xs. f e = None)"
  by (induction xs arbitrary: a) (auto split: option.splits)

lemma foldl_foldl_find_None:
  "foldl (\<lambda>acc alt. foldl (\<lambda>acc' e. case acc' of Some x \<Rightarrow> Some x | None \<Rightarrow> f e) acc alt) a alts = None \<longleftrightarrow>
   a = None \<and> (\<forall>alt\<in>set alts. \<forall>e\<in>set alt. f e = None)"
  by (induction alts arbitrary: a) (auto simp: foldl_find_None)

lemma find_stray_None: "find_stray el = None \<longleftrightarrow> no_prose el"
  by (induction el rule: element_induct) (simp_all add: foldl_foldl_find_None list_all_iff)

lemma first_stray_None: "first_stray alts = None \<longleftrightarrow> list_all (list_all no_prose) alts"
  by (simp add: first_stray_def foldl_foldl_find_None find_stray_None list_all_iff)

lemma resolve_prose_kept:
  assumes "resolve_prose_terminals lower g = Inr g'"
  shows "all_elements no_prose (productions g') \<and>
    productions g' = filter (\<lambda>p. only_prose p = None) (productions g)"
proof -
  have step: "all_elements no_prose (snd t) \<and> snd t = snd s @ filter (\<lambda>p. only_prose p = None) ps"
    if "res_fold (resolve_prose_prod lower) s ps = Inr t" "all_elements no_prose (snd s)" for s t ps
    using that
  proof (induction ps arbitrary: s)
    case (Cons p ps)
    obtain s1 where s1: "resolve_prose_prod lower s p = Inr s1" "res_fold (resolve_prose_prod lower) s1 ps = Inr t"
      using Cons.prems(1) by (auto simp: res_bind_Inr_iff)
    have "snd s1 = snd s @ (if only_prose p = None then [p] else []) \<and>
        (only_prose p = None \<longrightarrow> list_all (list_all no_prose) (p_alts p))"
      using s1(1) by (cases s)
        (auto simp: resolve_prose_prod_def Let_def first_stray_None split: option.splits if_splits)
    with Cons.IH [OF s1(2)] Cons.prems(2) show ?case by auto
  qed auto
  from assms obtain t where "res_fold (resolve_prose_prod lower) (g\<lparr>productions := []\<rparr>, []) (productions g) = Inr t"
    "productions g' = snd t"
    by (auto simp: resolve_prose_terminals_def res_bind_Inr_iff split: if_splits)
  with step [of "(g\<lparr>productions := []\<rparr>, [])" "productions g" t] show ?thesis by auto
qed

lemmas resolved_no_prose = resolve_prose_kept [THEN conjunct1]

text \<open>
  A grammar prose resolution accepts has no prose left, and what it keeps is, in order, the
  productions without prose; nothing but whole-body prose productions is dropped.
\<close>

theorem resolve_prose_result:
  assumes "resolve_prose_terminals lower g = Inr g'"
  shows "all_elements no_prose (productions g') \<and>
    productions g' = filter (\<lambda>p. only_prose p = None) (productions g)"
  by (rule resolve_prose_kept [OF assms])

definition prose_example :: grammar where
  "prose_example = grammar_new
     [prod_new ''NR'' [[el_prose ''number'']], prod_new ''s'' [[el_reference ''NR'']]]"

lemma resolve_prose_result_witness:
  "productions (projr (resolve_prose_terminals id prose_example)) =
     filter (\<lambda>p. only_prose p = None) (productions prose_example) \<and>
   all_elements no_prose (productions (projr (resolve_prose_terminals id prose_example)))"
proof -
  have "isl (resolve_prose_terminals id prose_example) = False" by code_simp
  then have "resolve_prose_terminals id prose_example = Inr (projr (resolve_prose_terminals id prose_example))"
    by (cases "resolve_prose_terminals id prose_example") auto
  from resolve_prose_result [OF this] show ?thesis by blast
qed

section \<open>Replacing references\<close>

text \<open>
  The walk lifting and normalisation share: a reference the table knows is replaced, sugar keeps
  its span, a group is rebuilt without one.
\<close>

fun replace_refs :: "(string \<Rightarrow> element option) \<Rightarrow> element \<Rightarrow> element" where
  "replace_refs f (Element (Ref name d) sp) = (case f name of Some el \<Rightarrow> el | None \<Rightarrow> Element (Ref name d) sp)"
| "replace_refs f (Element (Opt i) sp) = Element (Opt (replace_refs f i)) sp"
| "replace_refs f (Element (Star i g) sp) = Element (Star (replace_refs f i) g) sp"
| "replace_refs f (Element (Plus i) sp) = Element (Plus (replace_refs f i)) sp"
| "replace_refs f (Element (Rep mn mx i) sp) = Element (Rep mn mx (replace_refs f i)) sp"
| "replace_refs f (Element (Group alts) sp) = el_group (map (map (replace_refs f)) alts)"
| "replace_refs f el = el"

definition replace_prod :: "(string \<Rightarrow> element option) \<Rightarrow> production \<Rightarrow> production" where
  "replace_prod f p = p\<lparr>p_alts := map (map (replace_refs f)) (p_alts p)\<rparr>"

lemma elang_replace_refs:
  "elang T L (replace_refs f el) =
   elang T (\<lambda>n. case f n of Some e \<Rightarrow> elang T L e | None \<Rightarrow> L n) el" (is "_ = elang T ?L el")
proof (induction el rule: element_induct)
  case (Group alts sp)
  have "slang T L (map (replace_refs f) alt) = slang T ?L alt" if "alt \<in> set alts" for alt
    using Group.IH [OF that] by (simp add: slang_def comp_def cong: map_cong)
  then show ?case by (simp add: el_group_def el_of_def alang_def)
qed (auto split: option.split)

lemma alang_replace_refs:
  "alang T L (map (map (replace_refs f)) alts) =
   alang T (\<lambda>n. case f n of Some e \<Rightarrow> elang T L e | None \<Rightarrow> L n) alts"
  by (simp add: alang_def slang_def elang_replace_refs comp_def)

text \<open>
  Replacing references whose meaning is fixed: the grammar with the replacements describes what
  the grammar with one rule per replaced name describes.
\<close>

definition as_rules :: "(string \<times> element) list \<Rightarrow> production list" where
  "as_rules tab = map (\<lambda>(n, e). prod_new n [[e]]) tab"

lemma p_alts_prod_new [simp]: "p_alts (prod_new n alts) = alts" "p_name (prod_new n alts) = n"
  by (simp_all add: prod_new_def)

lemma replaced_language:
  assumes "distinct (map fst tab)" and "fst ` set tab \<inter> set (names ps) = {}"
    and closed_tab: "\<And>n e. (n, e) \<in> set tab \<Longrightarrow> el_refs e = {}"
    and "n \<notin> fst ` set tab"
  shows "glang T (map (replace_prod (map_of tab)) ps) n = glang T (ps @ as_rules tab) n"
proof
  let ?f = "map_of tab"
  let ?ps = "map (replace_prod ?f) ps" and ?qs = "ps @ as_rules tab"
  have const: "elang T L e = elang T L' e" if "?f m = Some e" for m e L L'
    using closed_tab map_of_SomeD [OF that] by (intro elang_cong) auto
  define E where "E L = (\<lambda>m. case ?f m of Some e \<Rightarrow> elang T L e | None \<Rightarrow> L m)" for L :: "'a env"
  have nf: "?f (p_name p) = None" if "p \<in> set ps" for p
    using assms(2) that by (force simp: map_of_eq_None_iff)
  have "models T (E (glang T ?ps)) ?qs"
    unfolding models_def
  proof (intro ballI)
    fix q assume "q \<in> set ?qs"
    then consider "q \<in> set ps" | n e where "q = prod_new n [[e]]" "(n, e) \<in> set tab"
      by (auto simp: as_rules_def)
    then show "alang T (E (glang T ?ps)) (p_alts q) \<subseteq> E (glang T ?ps) (p_name q)"
    proof cases
      case 1
      have "replace_prod ?f q \<in> set ?ps" using 1 by simp
      then have "alang T (glang T ?ps) (p_alts (replace_prod ?f q)) \<subseteq> glang T ?ps (p_name (replace_prod ?f q))"
        using glang_models [of T ?ps] unfolding models_def by blast
      then show ?thesis using nf [OF 1] by (simp add: replace_prod_def alang_replace_refs E_def)
    next
      case 2
      then have fe: "?f n = Some e" using assms(1) by simp
      have "elang T (E (glang T ?ps)) e = elang T (glang T ?ps) e" by (rule const [OF fe])
      then show ?thesis using 2 fe by (simp add: E_def)
    qed
  qed
  then have "glang T ?qs n \<subseteq> E (glang T ?ps) n" by (rule glang_least)
  moreover have "?f n = None" using assms(4) by (simp add: map_of_eq_None_iff)
  ultimately show "glang T ?qs n \<subseteq> glang T ?ps n" by (simp add: E_def)
  have "E (glang T ?qs) m = glang T ?qs m" for m
  proof (cases "?f m")
    case (Some e)
    have me: "(m, e) \<in> set tab" by (rule map_of_SomeD [OF Some])
    have "m \<notin> set (names ps)" using assms(2) me by force
    moreover have "b = e" if "(m, b) \<in> set tab" for b by (rule eq_key_imp_eq_value [OF assms(1) that me])
    ultimately have only: "p = prod_new m [[e]]" if "p \<in> set ?qs" "p_name p = m" for p
      using that by (auto simp: as_rules_def)
    have mem: "prod_new m [[e]] \<in> set ?qs" using me by (force simp: as_rules_def)
    have "{p \<in> set ?qs. p_name p = m} = {prod_new m [[e]]}"
    proof (rule equalityI)
      show "{p \<in> set ?qs. p_name p = m} \<subseteq> {prod_new m [[e]]}" using only by blast
      show "{prod_new m [[e]]} \<subseteq> {p \<in> set ?qs. p_name p = m}" using mem by simp
    qed
    then have "glang T ?qs m = elang T (glang T ?qs) e"
      by (subst glang_unfold) (simp add: alang_def)
    with Some show ?thesis by (simp add: E_def)
  qed (simp add: E_def)
  then have E: "E (glang T ?qs) = glang T ?qs" by blast
  have "models T (glang T ?qs) ?ps"
    unfolding models_def
  proof (intro ballI)
    fix q assume "q \<in> set ?ps"
    then obtain p where p: "p \<in> set ps" "q = replace_prod ?f p" by auto
    have "alang T (glang T ?qs) (p_alts q) = alang T (E (glang T ?qs)) (p_alts p)"
      by (simp add: p(2) replace_prod_def alang_replace_refs E_def)
    also have "\<dots> \<subseteq> glang T ?qs (p_name p)"
      using glang_models [of T ?qs] p(1) by (simp add: E models_def)
    finally show "alang T (glang T ?qs) (p_alts q) \<subseteq> glang T ?qs (p_name q)"
      by (simp add: p(2) replace_prod_def)
  qed
  then show "glang T ?ps n \<subseteq> glang T ?qs n" by (rule glang_least)
qed

section \<open>Built-in tokens\<close>

definition builtin_ref :: "string list \<Rightarrow> string \<Rightarrow> element option" where
  "builtin_ref defined name =
     (case builtin_token name of Some tok \<Rightarrow> if name \<notin> set defined then Some (el_token tok) else None | None \<Rightarrow> None)"

definition normalize_builtin_tokens :: "grammar \<Rightarrow> grammar" where
  "normalize_builtin_tokens g =
     (let defined = iset_extend [] (names (productions g))
      in g\<lparr>productions := map (replace_prod (builtin_ref defined)) (productions g)\<rparr>)"

text \<open>The built-in names the grammar leaves undefined, as a table.\<close>

definition undefined_builtins :: "grammar \<Rightarrow> (string \<times> element) list" where
  "undefined_builtins g =
     map (\<lambda>(bare, tok). (bare, el_token tok))
       (filter (\<lambda>(bare, _). bare \<notin> set (names (productions g))) BUILTIN_TOKENS)"

lemma find_filter_table:
  "map_of (map (\<lambda>(b, t). (b, f t)) (filter (\<lambda>(b, _). b \<notin> D) xs)) n =
   (case map_option snd (find (\<lambda>(b, _). b = n) xs) of Some t \<Rightarrow> if n \<notin> D then Some (f t) else None | None \<Rightarrow> None)"
  by (induction xs) (auto split: option.splits)

lemma builtin_ref_table:
  "builtin_ref (iset_extend [] (names (productions g))) = map_of (undefined_builtins g)"
  unfolding undefined_builtins_def by (rule ext) (simp only: find_filter_table builtin_ref_def builtin_token_def set_iset_extend set_append list.set(1) Un_empty_left)

text \<open>
  C32: Normalising built-in tokens gives every bare reference to a built-in the grammar does not
  define the meaning of the lexer's token, and changes nothing else: the grammar then describes
  what it would with a rule \<open>NR = #NR\<close> for each such name.
\<close>

theorem normalize_builtin_language:
  assumes "n \<in> set (names (productions g))"
  shows "glang T (productions (normalize_builtin_tokens g)) n =
         glang T (productions g @ as_rules (undefined_builtins g)) n"
proof -
  have "productions (normalize_builtin_tokens g) = map (replace_prod (map_of (undefined_builtins g))) (productions g)"
    by (simp add: normalize_builtin_tokens_def Let_def builtin_ref_table)
  moreover have "glang T (map (replace_prod (map_of (undefined_builtins g))) (productions g)) n =
      glang T (productions g @ as_rules (undefined_builtins g)) n"
  proof (rule replaced_language)
    show "distinct (map fst (undefined_builtins g))"
      by (simp add: undefined_builtins_def BUILTIN_TOKENS_def)
    show "fst ` set (undefined_builtins g) \<inter> set (names (productions g)) = {}"
      by (auto simp: undefined_builtins_def)
    show "n \<notin> fst ` set (undefined_builtins g)" using assms by (auto simp: undefined_builtins_def)
    show "el_refs e = {}" if "(m, e) \<in> set (undefined_builtins g)" for m e
      using that by (auto simp: undefined_builtins_def el_token_def el_of_def)
  qed
  ultimately show ?thesis by simp
qed

lemma normalize_builtin_language_witness:
  "glang example_terminals (productions (normalize_builtin_tokens prose_example)) ''s'' =
   glang example_terminals (productions prose_example @ as_rules (undefined_builtins prose_example)) ''s''"
  by (rule normalize_builtin_language) (simp add: prose_example_def grammar_new_def prod_new_def)

section \<open>Literal lifting\<close>

definition is_matcher_token_name :: "string \<Rightarrow> bool" where
  "is_matcher_token_name name =
     (name \<in> set [''BD'', ''ZZ'', ''UK'', ''AA'', ''SP'', ''LN'', ''CM'', ''NR'', ''ST'', ''TX'', ''VL''])"

text \<open>The literal a production lifts to, when it is a lexical definition.\<close>

definition liftable :: "string \<Rightarrow> production \<Rightarrow> (string \<times> bool option) option" where
  "liftable start p =
     (if p_name p = start \<or> is_matcher_token_name (p_name p) \<or> p_node_kind p = CoreNode \<or> p_value p \<noteq> None
      then None
      else
        (case p_alts p of
           [[el]] \<Rightarrow>
             (case kind_of el of
                Term literal cs _ \<Rightarrow> if literal = [] then None else Some (literal, cs)
              | _ \<Rightarrow> None)
         | _ \<Rightarrow> None))"

definition lift_candidates :: "string \<Rightarrow> production list \<Rightarrow> (string \<times> string \<times> bool option) list" where
  "lift_candidates start ps =
     foldl (\<lambda>m p. case liftable start p of Some lit \<Rightarrow> imap_insert (p_name p) lit m | None \<Rightarrow> m) [] ps"

definition by_literal :: "(string \<times> string \<times> bool option) list \<Rightarrow> (string \<times> string list) list" where
  "by_literal lifted =
     foldl (\<lambda>m (name, literal, cs).
       let key = term_key literal cs in imap_insert key (imap_get_or [] m key @ [name]) m) [] lifted"

definition drop_contested :: "(string \<times> string \<times> bool option) list \<Rightarrow> (string \<times> string \<times> bool option) list" where
  "drop_contested lifted =
     foldl (\<lambda>m (key, ns). if 1 < length ns then foldl (\<lambda>m' n. imap_remove n m') m ns else m)
       lifted (by_literal lifted)"

definition lifted_term :: "string \<Rightarrow> string \<times> bool option \<Rightarrow> element" where
  "lifted_term name lit = Element (Term (fst lit) (snd lit) (Some name)) None"

definition lift_ref :: "(string \<times> string \<times> bool option) list \<Rightarrow> string \<Rightarrow> element option" where
  "lift_ref lifted name = map_option (lifted_term name) (map_of lifted name)"

definition lift_literal_tokens :: "string \<Rightarrow> grammar \<Rightarrow> grammar \<times> element list" where
  "lift_literal_tokens start g =
     (let lifted = drop_contested (lift_candidates start (productions g))
      in if lifted = [] then (g, [])
         else
           (g\<lparr>productions := map (replace_prod (lift_ref lifted))
                (filter (\<lambda>p. p_name p \<notin> set (map fst lifted)) (productions g))\<rparr>,
            map (\<lambda>(name, lit). lifted_term name lit) lifted))"

text \<open>What the tables hold.\<close>

lemma distinct_imap_remove: "distinct (map fst m) \<Longrightarrow> distinct (map fst (imap_remove k m))"
  unfolding imap_remove_def by (induction m) (auto simp: case_prod_beta)

definition sub_table :: "('k \<times> 'v) list \<Rightarrow> ('k \<times> 'v) list \<Rightarrow> bool" where
  "sub_table m m' \<longleftrightarrow> set m' \<subseteq> set m \<and> (distinct (map fst m) \<longrightarrow> distinct (map fst m'))"

lemma sub_table_remove: "sub_table m m' \<Longrightarrow> sub_table m (imap_remove k m')"
  by (auto simp: sub_table_def set_imap_remove distinct_imap_remove)

lemma drop_contested_sub: "sub_table m (drop_contested m)"
  unfolding drop_contested_def
proof (rule foldl_invariant)
  show "sub_table m m" by (simp add: sub_table_def)
next
  fix m' and kn :: "string \<times> string list" assume s: "sub_table m m'"
  have "sub_table m (foldl (\<lambda>m' n. imap_remove n m') m' (snd kn))"
    by (rule foldl_invariant [where P = "sub_table m", OF s]) (rule sub_table_remove)
  with s show "sub_table m (case kn of (key, ns) \<Rightarrow> if 1 < length ns then foldl (\<lambda>m' n. imap_remove n m') m' ns else m')"
    by (cases kn) simp
qed

lemma lift_candidates_facts:
  "distinct (map fst (lift_candidates start ps)) \<and>
   (\<forall>(n, lit)\<in>set (lift_candidates start ps). \<exists>p\<in>set ps. p_name p = n \<and> liftable start p = Some lit)"
proof -
  have "distinct (map fst (foldl (\<lambda>m p. case liftable start p of Some lit \<Rightarrow> imap_insert (p_name p) lit m | None \<Rightarrow> m) m qs)) \<and>
    (\<forall>(n, lit)\<in>set (foldl (\<lambda>m p. case liftable start p of Some lit \<Rightarrow> imap_insert (p_name p) lit m | None \<Rightarrow> m) m qs).
       \<exists>p\<in>set ps. p_name p = n \<and> liftable start p = Some lit)"
    if "set qs \<subseteq> set ps" "distinct (map fst m)"
      "\<forall>(n, lit)\<in>set m. \<exists>p\<in>set ps. p_name p = n \<and> liftable start p = Some lit" for qs m
    using that
  proof (induction qs arbitrary: m)
    case (Cons q qs)
    let ?m = "case liftable start q of Some lit \<Rightarrow> imap_insert (p_name q) lit m | None \<Rightarrow> m"
    have "distinct (map fst ?m)" using Cons.prems(2) by (auto simp: distinct_imap_insert split: option.split)
    moreover have "\<forall>(n, lit)\<in>set ?m. \<exists>p\<in>set ps. p_name p = n \<and> liftable start p = Some lit"
    proof (cases "liftable start q")
      case (Some lit)
      have "q \<in> set ps" using Cons.prems(1) by simp
      with Some set_imap_insert [of "p_name q" lit m] Cons.prems(3) show ?thesis by fastforce
    qed (use Cons.prems(3) in simp)
    ultimately show ?case using Cons.IH [of ?m] Cons.prems(1) by simp
  qed simp
  from this [of ps "[]"] show ?thesis by (simp add: lift_candidates_def)
qed

text \<open>
  C31: Lifting keeps the language. When rules are named apart and a literal matches the same text
  whatever token name it carries, every rule that is not lifted describes what it did.
\<close>

theorem lift_language:
  assumes "lift_literal_tokens start g = (g', toks)" and "distinct (names (productions g))"
    and names_free: "\<And>l c t t'. T (Term l c t) = T (Term l c t')"
    and "n \<in> set (names (productions g'))"
  shows "glang T (productions g') n = glang T (productions g) n"
proof -
  let ?ps = "productions g"
  define lifted where "lifted = drop_contested (lift_candidates start ?ps)"
  show ?thesis
  proof (cases "lifted = []")
    case True
    then have "g' = g" using assms(1) by (simp add: lift_literal_tokens_def lifted_def)
    then show ?thesis by simp
  next
    case False
    define tab where "tab = map (\<lambda>(m, lit). (m, lifted_term m lit)) lifted"
    define kept where "kept = filter (\<lambda>p. p_name p \<notin> set (map fst lifted)) ?ps"
    have fst_tab: "map fst tab = map fst lifted" by (auto simp: tab_def)
    have d: "distinct (map fst lifted)"
      using drop_contested_sub lift_candidates_facts unfolding lifted_def sub_table_def by blast
    have ref: "lift_ref lifted = map_of tab"
      by (rule ext) (simp add: lift_ref_def tab_def map_of_map [symmetric] comp_def, induction lifted, auto)
    have g': "productions g' = map (replace_prod (map_of tab)) kept"
      using assms(1) False by (auto simp: lift_literal_tokens_def lifted_def [symmetric] ref kept_def Let_def)
    have nn: "names (productions g') = names kept" by (simp add: g' replace_prod_def)
    have n: "n \<notin> fst ` set tab"
      using assms(4) unfolding nn list.set_map [symmetric] fst_tab by (auto simp: kept_def)
    have "glang T (productions g') n = glang T (kept @ as_rules tab) n"
      unfolding g'
    proof (rule replaced_language)
      show "distinct (map fst tab)" using d fst_tab by simp
      show "fst ` set tab \<inter> set (names kept) = {}"
        unfolding list.set_map [symmetric] fst_tab by (force simp: kept_def)
      show "el_refs e = {}" if "(m, e) \<in> set tab" for m e using that by (auto simp: tab_def lifted_term_def)
    qed (rule n)
    also have "\<dots> = glang T ?ps n"
    proof -
      have lit: "\<exists>p\<in>set ?ps. p_name p = m \<and> liftable start p = Some lit" if "(m, lit) \<in> set lifted" for m lit
        using that drop_contested_sub [of "lift_candidates start ?ps"] lift_candidates_facts [of start ?ps]
        unfolding lifted_def sub_table_def by blast
      have same: "alang T L (p_alts p) = elang T L (lifted_term m lit)"
        if "p \<in> set ?ps" "p_name p = m" "(m, lit) \<in> set lifted" for L p m lit
      proof -
        note at = that
        obtain q where q: "q \<in> set ?ps" "p_name q = m" "liftable start q = Some lit" using lit [OF at(3)] by blast
        then have "q = p" using at(1,2) assms(2) by (auto simp: distinct_map dest: inj_onD)
        with q(3) obtain l cs t sp where "p_alts p = [[Element (Term l cs t) sp]]" "lit = (l, cs)"
          by (auto simp: liftable_def split: if_splits list.splits kind.splits) (metis element.exhaust_sel)+
        then show ?thesis using names_free by (simp add: lifted_term_def)
      qed
      have "models T L (kept @ as_rules tab) \<longleftrightarrow> models T L ?ps" for L
      proof
        assume m: "models T L (kept @ as_rules tab)"
        show "models T L ?ps"
          unfolding models_def
        proof (intro ballI)
          fix p assume p: "p \<in> set ?ps"
          show "alang T L (p_alts p) \<subseteq> L (p_name p)"
          proof (cases "p_name p \<in> set (map fst lifted)")
            case True
            then obtain lt where lt: "(p_name p, lt) \<in> set lifted" by auto
            let ?r = "prod_new (p_name p) [[lifted_term (p_name p) lt]]"
            have "?r \<in> set (as_rules tab)" using lt by (force simp: as_rules_def tab_def)
            then have "?r \<in> set (kept @ as_rules tab)" by simp
            then have "alang T L (p_alts ?r) \<subseteq> L (p_name ?r)" using m unfolding models_def by blast
            then have "alang T L [[lifted_term (p_name p) lt]] \<subseteq> L (p_name p)" by simp
            with same [OF p refl lt, of L] show ?thesis by simp
          next
            case False
            with p m show ?thesis by (simp add: models_def kept_def)
          qed
        qed
      next
        assume m: "models T L ?ps"
        show "models T L (kept @ as_rules tab)"
          unfolding models_def
        proof (intro ballI)
          fix q assume "q \<in> set (kept @ as_rules tab)"
          then consider "q \<in> set ?ps" | k lt where "q = prod_new k [[lifted_term k lt]]" "(k, lt) \<in> set lifted"
            by (auto simp: kept_def as_rules_def tab_def)
          then show "alang T L (p_alts q) \<subseteq> L (p_name q)"
          proof cases
            case 2
            obtain p where p: "p \<in> set ?ps" "p_name p = k" using lit [OF 2(2)] by blast
            with m same [OF p 2(2), of L] 2(1) show ?thesis by (auto simp: models_def)
          qed (use m in \<open>simp add: models_def\<close>)
        qed
      qed
      then show ?thesis by (simp add: glang_def)
    qed
    finally show ?thesis .
  qed
qed

definition lift_example :: grammar where
  "lift_example = grammar_new
     [prod_new ''PL'' [[el_term ''+'']], prod_new ''s'' [[el_reference ''PL''], [el_term ''x'']]]"

lemma lift_language_witness:
  "glang literal_terminals (productions (fst (lift_literal_tokens ''s'' lift_example))) ''s'' =
   glang literal_terminals (productions lift_example) ''s''"
proof (rule lift_language [OF surjective_pairing])
  have "list_ex (\<lambda>p. p_name p = ''s'') (productions (fst (lift_literal_tokens ''s'' lift_example)))" by code_simp
  then show "''s'' \<in> set (names (productions (fst (lift_literal_tokens ''s'' lift_example))))"
    by (auto simp: list_ex_iff intro: rev_image_eqI)
qed (simp_all add: lift_example_def grammar_new_def literal_terminals_def)

text \<open>One literal is one token: the names that share a key are grouped, and a group of two is dropped.\<close>

lemma imap_get_or_insert [simp]:
  "imap_get_or d (imap_insert k v m) k' = (if k' = k then v else imap_get_or d m k')"
  by (simp add: imap_get_or_def)

abbreviation key_of :: "string \<times> string \<times> bool option \<Rightarrow> string" where
  "key_of e \<equiv> term_key (fst (snd e)) (snd (snd e))"

lemma by_literal_group: "imap_get_or [] (by_literal m) key = map fst (filter (\<lambda>e. key_of e = key) m)"
proof (induction m rule: rev_induct)
  case (snoc e m)
  then show ?case by (cases e) (auto simp: by_literal_def Let_def)
qed (simp add: by_literal_def imap_get_or_def)

lemma remove_all_gone: "n \<in> set ns \<Longrightarrow> n \<notin> fst ` set (foldl (\<lambda>m n. imap_remove n m) m ns)"
proof (induction ns arbitrary: m)
  case (Cons k ns)
  have stay: "n \<notin> fst ` set m \<Longrightarrow> n \<notin> fst ` set (foldl (\<lambda>m n. imap_remove n m) m ns)" for m
    by (rule foldl_invariant [where P = "\<lambda>m. n \<notin> fst ` set m"]) (auto simp: set_imap_remove)
  show ?case
  proof (cases "n = k")
    case True
    have "n \<notin> fst ` set (imap_remove k m)" using True by (auto simp: set_imap_remove)
    from stay [OF this] show ?thesis by simp
  qed (use Cons in simp)
qed simp

lemma contested_gone:
  assumes "(key, ns) \<in> set bl" "n \<in> set ns" "1 < length ns"
  shows "n \<notin> fst ` set (foldl (\<lambda>m (key, ns). if 1 < length ns then foldl (\<lambda>m' n. imap_remove n m') m ns else m) m bl)"
  using assms(1)
proof (induction bl arbitrary: m)
  case (Cons kn bl)
  let ?f = "\<lambda>m (key, ns). if 1 < length ns then foldl (\<lambda>m' n. imap_remove n m') m ns else m"
  have stay: "n \<notin> fst ` set (foldl ?f m' bl)" if "n \<notin> fst ` set m'" for m'
  proof (rule foldl_invariant [where P = "\<lambda>m. n \<notin> fst ` set m", OF that])
    fix a x assume a: "n \<notin> fst ` set a"
    have "n \<notin> fst ` set (foldl (\<lambda>m' n. imap_remove n m') a (snd x))"
      by (rule foldl_invariant [where P = "\<lambda>m. n \<notin> fst ` set m", OF a]) (auto simp: set_imap_remove)
    with a show "n \<notin> fst ` set (?f a x)" by (cases x) simp
  qed
  show ?case
  proof (cases "kn = (key, ns)")
    case True
    have "n \<notin> fst ` set (?f m kn)" using True remove_all_gone [OF assms(2), of m] assms(3) by simp
    from stay [OF this] show ?thesis by simp
  qed (use Cons in simp)
qed simp

lemma two_members: "x \<in> set xs \<Longrightarrow> y \<in> set xs \<Longrightarrow> x \<noteq> y \<Longrightarrow> 1 < length xs"
  by (cases xs; cases "tl xs") auto

lemma lifted_key_inj:
  assumes "e1 \<in> set (drop_contested (lift_candidates start ps))"
    and "e2 \<in> set (drop_contested (lift_candidates start ps))" and "key_of e1 = key_of e2"
  shows "e1 = e2"
proof (rule ccontr)
  let ?m = "lift_candidates start ps"
  assume ne: "e1 \<noteq> e2"
  have d: "distinct (map fst ?m)" using lift_candidates_facts by blast
  have in_m: "e1 \<in> set ?m" "e2 \<in> set ?m" using assms(1,2) drop_contested_sub by (auto simp: sub_table_def)
  let ?ns = "map fst (filter (\<lambda>e. key_of e = key_of e1) ?m)"
  have mem: "fst e1 \<in> set ?ns" "fst e2 \<in> set ?ns" using in_m assms(3) by auto
  have "fst e1 \<noteq> fst e2"
    using ne inj_onD [OF conjunct2 [OF d [unfolded distinct_map]] _ in_m] by blast
  then have len: "1 < length ?ns" by (rule two_members [OF mem])
  have "map_of (by_literal ?m) (key_of e1) = Some ?ns"
    using by_literal_group [of ?m "key_of e1"] len
    by (cases "map_of (by_literal ?m) (key_of e1)") (simp_all add: imap_get_or_def)
  then have "(key_of e1, ?ns) \<in> set (by_literal ?m)" by (rule map_of_SomeD)
  from contested_gone [OF this mem(1) len] have "fst e1 \<notin> fst ` set (drop_contested ?m)"
    by (simp add: drop_contested_def)
  with assms(1) show False by blast
qed

text \<open>
  No two lifted names claim the same token: what is lifted is keyed apart, as the engine,
  which keys its fixed tokens by literal, requires.
\<close>

theorem lifted_keys_distinct: "distinct (map key_of (drop_contested (lift_candidates start ps)))"
proof -
  let ?m = "drop_contested (lift_candidates start ps)"
  have "distinct (map fst (lift_candidates start ps))" using lift_candidates_facts by blast
  then have "distinct ?m" using drop_contested_sub by (auto simp: sub_table_def distinct_map)
  moreover have "inj_on key_of (set ?m)" using lifted_key_inj by (auto intro!: inj_onI)
  ultimately show ?thesis by (simp add: distinct_map)
qed

end
