(* ===== verification/Repetitions.thy ===== *)
theory Repetitions
  imports Prose
begin

text \<open>
  \<open>validate_repetitions\<close> of \<open>rs/src/prose.rs\<close>: bounds the right way round, no unbounded loop
  over an item that can succeed without consuming, and a limit on what numeric repetitions
  expand to. The theorems: the walk accepts exactly the elements that keep to both, counting
  exactly what they expand to.
\<close>

section \<open>Refusals and their places\<close>

definition refuse :: "element \<Rightarrow> production \<Rightarrow> emit_failure \<Rightarrow> emit_error" where
  "refuse el p w = err_at w (origin_of p) (or_span (sp_of el) (p_sp p))"

definition vocab_key :: "element \<Rightarrow> string option" where
  "vocab_key el =
     (case kind_of el of
        Term literal cs _ \<Rightarrow> Some (term_key literal cs)
      | Regex pattern flags \<Rightarrow> Some (regex_key pattern flags)
      | Token name \<Rightarrow> Some name
      | _ \<Rightarrow> None)"

text \<open>
  The rule that supplied a terminal of a probe's vocabulary. \<open>visited\<close> holds the rules on the
  way down, which the code puts in before it descends and takes out after.
\<close>

function find_vocab_origin ::
  "grammar \<Rightarrow> string \<Rightarrow> production \<Rightarrow> string list \<Rightarrow> element \<Rightarrow> (string \<times> src_span option) option" where
  "find_vocab_origin g key current visited (Element (Ref name d) sp) =
     (if name \<in> set visited then None
      else
        (case find_prod g name of
           None \<Rightarrow> None
         | Some source \<Rightarrow>
             first_some (find_vocab_origin g key source (name # visited)) (concat (p_alts source))))"
| "find_vocab_origin g key current visited (Element (Opt i) sp) = find_vocab_origin g key current visited i"
| "find_vocab_origin g key current visited (Element (Star i dg) sp) = find_vocab_origin g key current visited i"
| "find_vocab_origin g key current visited (Element (Plus i) sp) = find_vocab_origin g key current visited i"
| "find_vocab_origin g key current visited (Element (Rep mn mx i) sp) = find_vocab_origin g key current visited i"
| "find_vocab_origin g key current visited (Element (Group alts) sp) =
     first_some (find_vocab_origin g key current visited) (concat alts)"
| "find_vocab_origin g key current visited (Element (Prose t) sp) = None"
| "find_vocab_origin g key current visited (Element (Term l c t) sp) =
     (if vocab_key (Element (Term l c t) sp) = Some key then Some (origin_of current, p_sp current) else None)"
| "find_vocab_origin g key current visited (Element (Token n) sp) =
     (if vocab_key (Element (Token n) sp) = Some key then Some (origin_of current, p_sp current) else None)"
| "find_vocab_origin g key current visited (Element (Regex p f) sp) =
     (if vocab_key (Element (Regex p f) sp) = Some key then Some (origin_of current, p_sp current) else None)"
  by pat_completeness auto
termination
proof (relation "measures [\<lambda>(g, _, _, visited, _). card (set (names (productions g)) - set visited),
      \<lambda>(_, _, _, _, el). size el]")
  fix g key current visited name d sp source and x :: element
  assume "name \<notin> set visited" "find_prod g name = Some source"
  then have "name \<in> set (names (productions g)) - set visited" by (auto dest: find_prod_Some)
  then have "set (names (productions g)) - set (name # visited) \<subset> set (names (productions g)) - set visited" by auto
  then have "card (set (names (productions g)) - set (name # visited)) < card (set (names (productions g)) - set visited)"
    by (intro psubset_card_mono) auto
  then show "((g, key, source, name # visited, x), g, key, current, visited, Element (Ref name d) sp)
    \<in> measures [\<lambda>(g, _, _, visited, _). card (set (names (productions g)) - set visited), \<lambda>(_, _, _, _, el). size el]"
    by simp
next
  fix g key current visited alts sp and x :: element
  assume "x \<in> set (concat alts)"
  then have "x \<in> set (children (Element (Group alts) sp))" by (simp add: children_def)
  then have "size x \<le> sum_list (map size (children (Element (Group alts) sp)))"
    by (intro member_le_sum_list) auto
  also have "\<dots> < size (Element (Group alts) sp)" by (rule children_smaller)
  finally show "((g, key, current, visited, x), g, key, current, visited, Element (Group alts) sp)
    \<in> measures [\<lambda>(g, _, _, visited, _). card (set (names (productions g)) - set visited), \<lambda>(_, _, _, _, el). size el]"
    by simp
qed auto

definition probe_vocab_origin :: "grammar \<Rightarrow> production \<Rightarrow> element \<Rightarrow> (string \<times> src_span option) option" where
  "probe_vocab_origin g helper el =
     Option.bind (vocab_key el) (\<lambda>key.
     Option.bind (find (\<lambda>p. case p_probe_dispatch p of Some spec \<Rightarrow> pd_probe_rule spec = p_name helper | None \<Rightarrow> False)
                    (productions g)) (\<lambda>dispatch.
     Option.bind (p_probe_dispatch dispatch) (\<lambda>spec.
     Option.bind (find_prod g (pd_with_branch spec)) (\<lambda>with_prod.
       first_some (find_vocab_origin g key with_prod []) (concat (p_alts with_prod))))))"

section \<open>The checks\<close>

fun validate_bounds :: "production \<Rightarrow> element \<Rightarrow> (emit_error, unit) result" where
  "validate_bounds p (Element (Group alts) _) = res_check (res_check (validate_bounds p)) alts"
| "validate_bounds p (Element (Rep mn mx i) sp) =
     (if (case mx of Some m \<Rightarrow> m < mn | None \<Rightarrow> False)
      then Inl (refuse (Element (Rep mn mx i) sp) p (BadRepBounds (origin_of p) mn (the mx)))
      else validate_bounds p i)"
| "validate_bounds p (Element (Opt i) _) = validate_bounds p i"
| "validate_bounds p (Element (Star i _) _) = validate_bounds p i"
| "validate_bounds p (Element (Plus i) _) = validate_bounds p i"
| "validate_bounds p el = Inr ()"

function non_consuming_witness :: "regex_crate \<Rightarrow> string list \<Rightarrow> element \<Rightarrow> element option" where
  "non_consuming_witness rx nullable el =
     (if \<not> element_may_match_without_consuming rx nullable el then None
      else
        (case kind_of el of
           Group alts \<Rightarrow>
             (case find (list_all (element_may_match_without_consuming rx nullable)) alts of
                None \<Rightarrow> None
              | Some alt \<Rightarrow>
                  (case first_some (non_consuming_witness rx nullable) alt of Some w \<Rightarrow> Some w | None \<Rightarrow> Some el))
         | Plus i \<Rightarrow> (case non_consuming_witness rx nullable i of Some w \<Rightarrow> Some w | None \<Rightarrow> Some el)
         | Rep mn mx i \<Rightarrow>
             if mn = 0 then Some el
             else (case non_consuming_witness rx nullable i of Some w \<Rightarrow> Some w | None \<Rightarrow> Some el)
         | _ \<Rightarrow> Some el))"
  by pat_completeness auto
termination
proof (relation "measure (\<lambda>(_, _, el). size el)")
  fix rx nullable el alts alt and x :: element
  assume k: "kind_of el = Group alts"
    and "find (list_all (element_may_match_without_consuming rx nullable)) alts = Some alt" "x \<in> set alt"
  then have "alt \<in> set alts" by (auto simp: find_Some_iff in_set_conv_nth)
  then have "x \<in> set (children el)" using k \<open>x \<in> set alt\<close> by (auto simp: children_def)
  then have "size x \<le> sum_list (map size (children el))" by (intro member_le_sum_list) auto
  also have "\<dots> < size el" by (rule children_smaller)
  finally show "((rx, nullable, x), rx, nullable, el) \<in> measure (\<lambda>(_, _, el). size el)" by simp
next
  fix rx nullable el i assume "kind_of el = Plus i"
  then show "((rx, nullable, i), rx, nullable, el) \<in> measure (\<lambda>(_, _, el). size el)" by (cases el) simp
next
  fix rx nullable el mn mx i assume "kind_of el = Rep mn mx i"
  then show "((rx, nullable, i), rx, nullable, el) \<in> measure (\<lambda>(_, _, el). size el)" by (cases el) simp
qed simp

declare non_consuming_witness.simps [simp del]

text \<open>
  What one numeric repetition expands to, counted against what is left: itself, its copies, and
  its tail. \<open>None\<close> is too large; every subtraction is guarded, so none saturates.
\<close>

definition rep_expand :: "nat \<Rightarrow> nat \<Rightarrow> nat option \<Rightarrow> nat option" where
  "rep_expand remaining mn mx =
     (if 1 > remaining \<or> mn > remaining - 1 then None
      else
        (case mx of
           None \<Rightarrow> if 1 + mn \<ge> remaining then None else Some (1 + mn + 1)
         | Some m \<Rightarrow>
             if m - mn > (remaining - (1 + mn)) div 2 then None else Some (1 + mn + 2 * (m - mn))))"

definition loop_error :: "regex_crate \<Rightarrow> string list \<Rightarrow> production \<Rightarrow> element \<Rightarrow> element \<Rightarrow> emit_error" where
  "loop_error rx nullable p el i =
     refuse (case non_consuming_witness rx nullable i of Some w \<Rightarrow> w | None \<Rightarrow> el) p (NonConsumingItem (origin_of p))"

fun rep_walk ::
  "regex_crate \<Rightarrow> string list \<Rightarrow> production \<Rightarrow> element \<Rightarrow> nat \<Rightarrow> (emit_error, nat) result" where
  "rep_walk rx nullable p (Element (Group alts) _) expansion =
     res_fold (\<lambda>x alt. res_fold (\<lambda>y e. rep_walk rx nullable p e y) x alt) expansion alts"
| "rep_walk rx nullable p (Element (Opt i) _) expansion = rep_walk rx nullable p i expansion"
| "rep_walk rx nullable p (Element (Star i dg) sp) expansion =
     (if element_may_match_without_consuming rx nullable i
      then Inl (loop_error rx nullable p (Element (Star i dg) sp) i)
      else rep_walk rx nullable p i expansion)"
| "rep_walk rx nullable p (Element (Plus i) sp) expansion =
     (if element_may_match_without_consuming rx nullable i
      then Inl (loop_error rx nullable p (Element (Plus i) sp) i)
      else rep_walk rx nullable p i expansion)"
| "rep_walk rx nullable p (Element (Rep mn mx i) sp) expansion =
     (if mx = None \<and> element_may_match_without_consuming rx nullable i
      then Inl (loop_error rx nullable p (Element (Rep mn mx i) sp) i)
      else
        (case rep_expand (MAX_REPEAT_EXPANSION - expansion) mn mx of
           None \<Rightarrow> Inl (refuse (Element (Rep mn mx i) sp) p (RepTooLarge (origin_of p) mn mx))
         | Some cost \<Rightarrow> rep_walk rx nullable p i (expansion + cost)))"
| "rep_walk rx nullable p el expansion = Inr expansion"

definition check_probe_vocab ::
  "regex_crate \<Rightarrow> string list \<Rightarrow> grammar \<Rightarrow> production \<Rightarrow> element \<Rightarrow> (emit_error, unit) result" where
  "check_probe_vocab rx nullable g p el =
     (if element_may_match_without_consuming rx nullable el then
        (let wit = (case non_consuming_witness rx nullable el of Some w \<Rightarrow> w | None \<Rightarrow> el);
             (rule, source_sp) =
               (case probe_vocab_origin g p el of Some x \<Rightarrow> x | None \<Rightarrow> (origin_of p, p_sp p))
         in Inl (err_at (ProbeNonConsuming rule) rule (or_span (sp_of wit) source_sp)))
      else Inr ())"

text \<open>A production with a tail repetition always has a first alternative.\<close>

definition check_tail :: "regex_crate \<Rightarrow> string list \<Rightarrow> production \<Rightarrow> (emit_error, unit) result" where
  "check_tail rx nullable p =
     (case p_tail_repeat p of
        None \<Rightarrow> Inr ()
      | Some sep \<Rightarrow>
          (let cycle = sep @ (case p_alts p of a # _ \<Rightarrow> a | [] \<Rightarrow> [])
           in if cycle \<noteq> [] \<and> list_all (element_may_match_without_consuming rx nullable) cycle then
                (let fallback = hd cycle;
                     wit = (case first_some (non_consuming_witness rx nullable) cycle of Some w \<Rightarrow> w | None \<Rightarrow> fallback)
                 in Inl (refuse wit p (TailNonConsuming (origin_of p))))
              else Inr ()))"

definition validate_prod ::
  "regex_crate \<Rightarrow> string list \<Rightarrow> grammar \<Rightarrow> nat \<Rightarrow> production \<Rightarrow> (emit_error, nat) result" where
  "validate_prod rx nullable g expansion p =
     res_bind (res_fold (\<lambda>x e. rep_walk rx nullable p e x) expansion (concat (p_alts p))) (\<lambda>x.
     res_bind (res_check (check_probe_vocab rx nullable g p)
                (case p_probe_helper p of None \<Rightarrow> [] | Some vocab \<Rightarrow> vocab)) (\<lambda>_.
     res_bind (check_tail rx nullable p) (\<lambda>_. Inr x)))"

definition validate_repetitions :: "regex_crate \<Rightarrow> grammar \<Rightarrow> (emit_error, unit) result" where
  "validate_repetitions rx g =
     res_bind (res_check (\<lambda>p. res_check (validate_bounds p) (concat (p_alts p))) (productions g)) (\<lambda>_.
       let nullable = non_consuming_rules rx (productions g)
       in res_bind (res_fold (validate_prod rx nullable g) 0 (productions g)) (\<lambda>_. Inr ()))"

section \<open>What the checks accept\<close>

lemma validate_bounds_iff: "validate_bounds p el = Inr () \<longleftrightarrow> bounds_ok el"
  by (induction el rule: element_induct) (auto simp: res_check_Inr list_all_iff not_less split: option.splits)

definition rep_cost :: "nat \<Rightarrow> nat option \<Rightarrow> nat" where
  "rep_cost mn mx = 1 + mn + (case mx of None \<Rightarrow> 1 | Some m \<Rightarrow> 2 * (m - mn))"

fun el_cost :: "element \<Rightarrow> nat" where
  "el_cost (Element (Group alts) _) = sum_list (map (\<lambda>alt. sum_list (map el_cost alt)) alts)"
| "el_cost (Element (Opt i) _) = el_cost i"
| "el_cost (Element (Star i _) _) = el_cost i"
| "el_cost (Element (Plus i) _) = el_cost i"
| "el_cost (Element (Rep mn mx i) _) = rep_cost mn mx + el_cost i"
| "el_cost _ = 0"

fun loops_consume :: "regex_crate \<Rightarrow> string list \<Rightarrow> element \<Rightarrow> bool" where
  "loops_consume rx nullable (Element (Group alts) _) = list_all (list_all (loops_consume rx nullable)) alts"
| "loops_consume rx nullable (Element (Opt i) _) = loops_consume rx nullable i"
| "loops_consume rx nullable (Element (Star i _) _) =
     (\<not> element_may_match_without_consuming rx nullable i \<and> loops_consume rx nullable i)"
| "loops_consume rx nullable (Element (Plus i) _) =
     (\<not> element_may_match_without_consuming rx nullable i \<and> loops_consume rx nullable i)"
| "loops_consume rx nullable (Element (Rep mn mx i) _) =
     ((mx = None \<longrightarrow> \<not> element_may_match_without_consuming rx nullable i) \<and> loops_consume rx nullable i)"
| "loops_consume rx nullable _ = True"

lemma rep_expand_exact:
  "rep_expand remaining mn mx = (if rep_cost mn mx \<le> remaining then Some (rep_cost mn mx) else None)"
  by (auto simp: rep_expand_def rep_cost_def split: option.split)

text \<open>A fold of counters that each accept exactly what fits counts the sum.\<close>

lemma counting_fold:
  fixes c :: "'x \<Rightarrow> nat" and n M :: nat
  assumes "\<And>x n. x \<in> set xs \<Longrightarrow> n \<le> M \<Longrightarrow>
      (\<exists>m. f n x = Inr m) = (ok x \<and> n + c x \<le> M) \<and> (\<forall>m. f n x = Inr m \<longrightarrow> m = n + c x)"
    and "n \<le> M"
  shows "(\<exists>m. res_fold f n xs = Inr m) = (list_all ok xs \<and> n + sum_list (map c xs) \<le> M) \<and>
    (\<forall>m. res_fold f n xs = Inr m \<longrightarrow> m = n + sum_list (map c xs))"
  using assms
proof (induction xs arbitrary: n)
  case (Cons x xs)
  have h: "(\<exists>m. f n x = Inr m) = (ok x \<and> n + c x \<le> M) \<and> (\<forall>m. f n x = Inr m \<longrightarrow> m = n + c x)"
    using Cons.prems by simp
  show ?case
  proof (cases "\<exists>m. f n x = Inr m")
    case True
    then have fx: "f n x = Inr (n + c x)" and le: "ok x" "n + c x \<le> M" using h by auto
    from Cons.IH [OF _ le(2)] Cons.prems(1) fx le(1) show ?thesis by (simp add: add.assoc)
  next
    case False
    then obtain e where "f n x = Inl e" by (metis sum.exhaust)
    moreover have "\<not> (ok x \<and> n + c x \<le> M)" using h False by simp
    then have "\<not> (ok x \<and> n + (c x + sum_list (map c xs)) \<le> M)" by auto
    ultimately show ?thesis by auto
  qed
qed simp

lemma rep_walk_counts:
  assumes "n \<le> MAX_REPEAT_EXPANSION"
  shows "((\<exists>m. rep_walk rx nullable p el n = Inr m) =
           (loops_consume rx nullable el \<and> n + el_cost el \<le> MAX_REPEAT_EXPANSION)) \<and>
         (\<forall>m. rep_walk rx nullable p el n = Inr m \<longrightarrow> m = n + el_cost el)"
  using assms
proof (induction el arbitrary: n rule: element_induct)
  case (Group alts sp)
  have "(\<exists>m. res_fold (\<lambda>y e. rep_walk rx nullable p e y) k alt = Inr m) =
        (list_all (loops_consume rx nullable) alt \<and> k + sum_list (map el_cost alt) \<le> MAX_REPEAT_EXPANSION) \<and>
      (\<forall>m. res_fold (\<lambda>y e. rep_walk rx nullable p e y) k alt = Inr m \<longrightarrow> m = k + sum_list (map el_cost alt))"
    if "alt \<in> set alts" "k \<le> MAX_REPEAT_EXPANSION" for alt k
    by (rule counting_fold) (use Group.IH [OF that(1)] that(2) in auto)
  from counting_fold [OF this Group.prems] show ?case by simp
next
  case (Rep mn mx i sp)
  show ?case
  proof (cases "rep_cost mn mx \<le> MAX_REPEAT_EXPANSION - n")
    case True
    with Rep.IH [of "n + rep_cost mn mx"] Rep.prems show ?thesis by (auto simp: rep_expand_exact)
  next
    case False
    with Rep.prems show ?thesis by (auto simp: rep_expand_exact)
  qed
qed auto

lemma validate_prod_counts:
  assumes "validate_prod rx nullable g n p = Inr m" and "n \<le> MAX_REPEAT_EXPANSION"
  shows "list_all (loops_consume rx nullable) (concat (p_alts p)) \<and>
    m = n + sum_list (map el_cost (concat (p_alts p))) \<and> m \<le> MAX_REPEAT_EXPANSION"
proof -
  have "res_fold (\<lambda>x e. rep_walk rx nullable p e x) n (concat (p_alts p)) = Inr m"
    using assms(1) by (auto simp: validate_prod_def res_bind_Inr_iff)
  with counting_fold [where f = "\<lambda>x e. rep_walk rx nullable p e x", OF rep_walk_counts assms(2)]
  show ?thesis by auto
qed

lemma validate_prods_count:
  assumes "res_fold (validate_prod rx nullable g) n ps = Inr m" and "n \<le> MAX_REPEAT_EXPANSION"
  shows "list_all (\<lambda>p. list_all (loops_consume rx nullable) (concat (p_alts p))) ps \<and>
    m = n + sum_list (map (\<lambda>p. sum_list (map el_cost (concat (p_alts p)))) ps) \<and> m \<le> MAX_REPEAT_EXPANSION"
  using assms
proof (induction ps arbitrary: n)
  case (Cons p ps)
  then obtain k where k: "validate_prod rx nullable g n p = Inr k" "res_fold (validate_prod rx nullable g) k ps = Inr m"
    by (auto simp: res_bind_Inr_iff)
  note h = validate_prod_counts [OF k(1) Cons.prems(2)]
  from Cons.IH [OF k(2)] h show ?case by (auto simp: add.assoc)
qed simp

definition grammar_cost :: "production list \<Rightarrow> nat" where
  "grammar_cost ps = sum_list (map (\<lambda>p. sum_list (map el_cost (concat (p_alts p)))) ps)"

lemma validated_parts:
  assumes "validate_repetitions rx g = Inr ()"
  shows validated_bounds: "all_elements bounds_ok (productions g)"
    and validated_loops: "all_elements (loops_consume rx (non_consuming_rules rx (productions g))) (productions g)"
    and validated_grammar_cost: "grammar_cost (productions g) \<le> MAX_REPEAT_EXPANSION"
proof -
  let ?N = "non_consuming_rules rx (productions g)"
  obtain m where b: "res_check (\<lambda>p. res_check (validate_bounds p) (concat (p_alts p))) (productions g) = Inr ()"
    and f: "res_fold (validate_prod rx ?N g) 0 (productions g) = Inr m"
    using assms by (auto simp: validate_repetitions_def Let_def res_bind_Inr_iff)
  show "all_elements bounds_ok (productions g)"
    using b by (auto simp: res_check_Inr validate_bounds_iff list_all_iff)
  show "all_elements (loops_consume rx ?N) (productions g)"
    and "grammar_cost (productions g) \<le> MAX_REPEAT_EXPANSION"
    using validate_prods_count [OF f] by (auto simp: grammar_cost_def list_all_iff)
qed

text \<open>
  C29: A grammar that passes has its bounds the right way round, no unbounded loop over an item
  that can succeed without consuming, and numeric repetitions that expand to at most the limit.
\<close>

theorem validated_grammar:
  assumes "validate_repetitions rx g = Inr ()"
  shows "all_elements bounds_ok (productions g) \<and>
    all_elements (loops_consume rx (non_consuming_rules rx (productions g))) (productions g) \<and>
    grammar_cost (productions g) \<le> MAX_REPEAT_EXPANSION"
  using validated_parts [OF assms] by blast

definition repetition_example :: grammar where
  "repetition_example = grammar_new
     [prod_new ''s'' [[el_rep 2 (Some 5) (el_term ''a''), el_star (el_reference ''t'')]], prod_new ''t'' [[el_term ''b'']]]"

lemma repetition_example_valid: "validate_repetitions example_rx repetition_example = Inr ()"
proof -
  have "non_consuming_rules example_rx (productions repetition_example) = []"
    by (simp add: non_consuming_rules_def empty_rules_def change_loop_def while_unfold empty_pass_def empty_step_def
        repetition_example_def grammar_new_def prod_new_def default_production_def el_rep_def el_term_def
        el_star_def el_reference_def el_of_def)
  then show ?thesis
    by (simp add: validate_repetitions_def validate_prod_def check_tail_def repetition_example_def grammar_new_def
        prod_new_def default_production_def el_rep_def el_term_def el_star_def el_reference_def el_of_def
        rep_expand_exact rep_cost_def MAX_REPEAT_EXPANSION_def)
qed

lemma validated_grammar_witness:
  "all_elements bounds_ok (productions repetition_example) \<and>
   all_elements (loops_consume example_rx (non_consuming_rules example_rx (productions repetition_example)))
     (productions repetition_example) \<and>
   grammar_cost (productions repetition_example) \<le> MAX_REPEAT_EXPANSION"
  by (rule validated_grammar [OF repetition_example_valid])

text \<open>
  C30: The repetition walk is exact: from a count within the limit it accepts an element exactly
  when every unbounded loop in it consumes and what its repetitions expand to still fits, and
  then it has counted precisely that.
\<close>

theorem rep_walk_exact:
  assumes "n \<le> MAX_REPEAT_EXPANSION"
  shows "rep_walk rx nullable p el n = Inr m \<longleftrightarrow>
    loops_consume rx nullable el \<and> n + el_cost el \<le> MAX_REPEAT_EXPANSION \<and> m = n + el_cost el"
  using rep_walk_counts [OF assms, of rx nullable p el] by blast

lemma rep_walk_exact_witness:
  "rep_walk example_rx [] default_production (el_rep 2 None (el_term ''a'')) 0 = Inr 4 \<longleftrightarrow>
     loops_consume example_rx [] (el_rep 2 None (el_term ''a'')) \<and>
     0 + el_cost (el_rep 2 None (el_term ''a'')) \<le> MAX_REPEAT_EXPANSION \<and>
     4 = 0 + el_cost (el_rep 2 None (el_term ''a''))"
  by (rule rep_walk_exact) simp

end
