(* ===== verification/Ranges.thy ===== *)
theory Ranges
  imports IR "HOL-Library.Product_Lexorder"
begin

text \<open>
  Character coverage: \<open>rs/src/ranges.rs\<close>. A pattern is read as code points (\<open>chars\<close>), a
  coverage is a list of inclusive spans. The code's \<open>u32\<close> code points are natural numbers here:
  every one is read from a \<open>char\<close> or an escape that names a scalar value, so it stays at most
  \<open>MAX_CODE_POINT\<close> (\<open>pattern_char_ranges_bounded\<close>) and no \<open>u32\<close> arithmetic on it can wrap.
\<close>

type_synonym char_range = "nat \<times> nat"

definition MAX_CODE_POINT :: nat where
  "MAX_CODE_POINT = 0x10FFFF"

abbreviation cp :: "char \<Rightarrow> nat" where
  "cp c \<equiv> of_char c"

abbreviation BACKSLASH :: nat where
  "BACKSLASH \<equiv> 0x5C"

definition char_get :: "'a list \<Rightarrow> nat \<Rightarrow> 'a option" where
  "char_get cs i = (if i < length cs then Some (cs ! i) else None)"

lemma char_get_Some: "char_get cs i = Some c \<longleftrightarrow> i < length cs \<and> cs ! i = c"
  by (simp add: char_get_def)

section \<open>Reading a pattern\<close>

text \<open>The three forms of an escape that spell a code point in hexadecimal.\<close>

definition hex_digit :: "nat \<Rightarrow> nat option" where
  "hex_digit c =
     (if cp CHR ''0'' \<le> c \<and> c \<le> cp CHR ''9'' then Some (c - 48)
      else if cp CHR ''A'' \<le> c \<and> c \<le> cp CHR ''F'' then Some (c - 55)
      else if cp CHR ''a'' \<le> c \<and> c \<le> cp CHR ''f'' then Some (c - 87)
      else None)"

definition hex_value :: "nat list \<Rightarrow> nat" where
  "hex_value digits = foldl (\<lambda>acc c. acc * 16 + (case hex_digit c of Some d \<Rightarrow> d | None \<Rightarrow> 0)) 0 digits"

text \<open>\<open>char::from_u32\<close>: a code point that is no surrogate.\<close>

definition is_scalar :: "nat \<Rightarrow> bool" where
  "is_scalar n = (n < 0xD800 \<or> 0xE000 \<le> n \<and> n \<le> MAX_CODE_POINT)"

text \<open>Digits past \<open>u32\<close> are an error of \<open>from_str_radix\<close>, and past every scalar value anyway.\<close>

definition scalar_of :: "nat list \<Rightarrow> nat option" where
  "scalar_of digits =
     (if digits = [] \<or> list_ex (\<lambda>c. hex_digit c = None) digits then None
      else if is_scalar (hex_value digits) then Some (hex_value digits) else None)"

definition is_ascii_alnum :: "nat \<Rightarrow> bool" where
  "is_ascii_alnum c =
     (cp CHR ''0'' \<le> c \<and> c \<le> cp CHR ''9'' \<or> cp CHR ''A'' \<le> c \<and> c \<le> cp CHR ''Z'' \<or>
      cp CHR ''a'' \<le> c \<and> c \<le> cp CHR ''z'')"

fun find_from :: "('a \<Rightarrow> bool) \<Rightarrow> 'a list \<Rightarrow> nat \<Rightarrow> nat option" where
  "find_from P [] i = None"
| "find_from P (x # xs) i = (if P x then Some i else find_from P xs (Suc i))"

definition read_escape :: "nat list \<Rightarrow> nat \<Rightarrow> (nat \<times> nat) option" where
  "read_escape cs at =
     (case char_get cs (at + 1) of
        None \<Rightarrow> None
      | Some m \<Rightarrow>
          if m \<in> {cp CHR ''x'', cp CHR ''u'', cp CHR ''U''} then
            if char_get cs (at + 2) = Some (cp CHR ''{'') then
              (case find_from (\<lambda>c. c = cp CHR ''}'') (drop (at + 3) cs) (at + 3) of
                 None \<Rightarrow> None
               | Some e \<Rightarrow>
                   (let digits = take (e - (at + 3)) (drop (at + 3) cs)
                    in if m = cp CHR ''u'' \<and> 6 < length digits then None
                       else map_option (\<lambda>c. (e + 1 - at, c)) (scalar_of digits)))
            else
              (let n = (if m = cp CHR ''x'' then 2 else if m = cp CHR ''u'' then 4 else 8)
               in if length cs < at + 2 + n then None
                  else map_option (\<lambda>c. (2 + n, c)) (scalar_of (take n (drop (at + 2) cs))))
          else if m = cp CHR ''a'' then Some (2, 7)
          else if m < 128 \<and> \<not> is_ascii_alnum m \<and> m \<noteq> cp CHR ''<'' \<and> m \<noteq> cp CHR ''>'' then Some (2, m)
          else None)"

text \<open>Where the class that opens at 0 closes, from position \<open>i\<close>, a backslash taking the next character.\<close>

function class_close :: "nat list \<Rightarrow> nat \<Rightarrow> nat" where
  "class_close cs i =
     (if i < length cs \<and> cs ! i \<noteq> cp CHR '']''
      then class_close cs (i + (if cs ! i = BACKSLASH then 2 else 1)) else i)"
  by pat_completeness auto
termination by (relation "measure (\<lambda>(cs, i). length cs - i)") auto

declare class_close.simps [simp del]

definition regex_head_atom_end :: "string \<Rightarrow> nat option" where
  "regex_head_atom_end src =
     (let cs = chars src
      in case cs of
           [] \<Rightarrow> None
         | c # _ \<Rightarrow>
             if c = cp CHR ''['' then
               (let i = (if char_get cs 1 = Some (cp CHR ''^'') then 2 else 1);
                    i = (if char_get cs i = Some (cp CHR '']'') then i + 1 else i);
                    i = class_close cs i
                in if i < length cs then Some (i + 1) else None)
             else if c = BACKSLASH then map_option fst (read_escape cs 0)
             else if c \<in> set (map cp ''(.|)?*+{'') then None
             else Some 1)"

text \<open>One code point, and where the next one begins.\<close>

definition one :: "nat list \<Rightarrow> nat \<Rightarrow> (nat \<times> nat) option" where
  "one cs i =
     (case char_get cs i of
        None \<Rightarrow> None
      | Some c \<Rightarrow>
          if c \<noteq> BACKSLASH then Some (c, i + 1)
          else map_option (\<lambda>(n, c). (c, i + n)) (read_escape cs i))"

definition code_units :: "string \<Rightarrow> bool" where
  "code_units flags = (\<not> (CHR ''u'' \<in> set flags \<or> CHR ''v'' \<in> set flags))"

definition split_units :: "bool \<Rightarrow> bool \<Rightarrow> nat \<Rightarrow> char_range list" where
  "split_units units raw c =
     (if raw \<and> units \<and> 0xFFFF < c then
        (let lead = 0xD800 + (c - 0x10000) div 2 ^ 10;
             trail = 0xDC00 + (c - 0x10000) mod 0x400
         in [(lead, lead), (trail, trail)])
      else [])"

lemma find_from_Some:
  "find_from P xs i = Some e \<Longrightarrow> i \<le> e \<and> e < i + length xs \<and> P (xs ! (e - i)) \<and> (\<forall>k < e - i. \<not> P (xs ! k))"
proof (induction xs arbitrary: i)
  case (Cons x xs)
  show ?case
  proof (cases "P x")
    case False
    then have r: "Suc i \<le> e" "e < Suc i + length xs" "P (xs ! (e - Suc i))" "\<forall>k < e - Suc i. \<not> P (xs ! k)"
      using Cons.IH [of "Suc i"] Cons.prems by simp_all
    then have e: "e - i = Suc (e - Suc i)" by simp
    have "\<not> P ((x # xs) ! k)" if "k < e - i" for k
      using that r(4) False by (cases k) (auto simp: e)
    then show ?thesis using r by (simp add: e)
  qed (use Cons.prems in simp)
qed simp

lemma scalar_of_scalar: "scalar_of digits = Some c \<Longrightarrow> is_scalar c"
  by (auto simp: scalar_of_def split: if_splits)

lemma read_escape_Some:
  assumes "read_escape cs at = Some (n, c)"
  shows "2 \<le> n \<and> at + n \<le> length cs \<and> c \<le> MAX_CODE_POINT"
  using assms
  by (auto simp: read_escape_def Let_def char_get_def MAX_CODE_POINT_def is_scalar_def
      split: option.splits if_splits dest!: find_from_Some scalar_of_scalar)

lemma one_Some: "one cs i = Some (c, j) \<Longrightarrow> i < j \<and> j \<le> length cs"
  by (auto simp: one_def char_get_def split: option.splits if_splits dest!: read_escape_Some)

text \<open>The members of a class up to its closing bracket, and where that is.\<close>

function class_members ::
  "bool \<Rightarrow> nat list \<Rightarrow> nat \<Rightarrow> char_range list \<Rightarrow> (char_range list \<times> nat) option" where
  "class_members units cs i ranges =
     (if i < length cs \<and> cs ! i \<noteq> cp CHR '']'' then
        (case one cs i of
           None \<Rightarrow> None
         | Some (lo, i1) \<Rightarrow>
             (let ranges = ranges @ split_units units (cs ! i \<noteq> BACKSLASH) lo
              in if char_get cs i1 = Some (cp CHR ''-'') \<and> char_get cs (i1 + 1) \<notin> {None, Some (cp CHR '']'')} then
                   (case one cs (i1 + 1) of
                      None \<Rightarrow> None
                    | Some (hi, i2) \<Rightarrow>
                        class_members units cs i2
                          (ranges @ split_units units (char_get cs (i1 + 1) \<noteq> Some BACKSLASH) hi @ [(lo, hi)]))
                 else class_members units cs i1 (ranges @ [(lo, lo)])))
      else Some (ranges, i))"
  by pat_completeness auto
termination
  by (relation "measure (\<lambda>(u, cs, i, r). length cs - i)") (auto dest!: one_Some)

declare class_members.simps [simp del]

text \<open>The complement over the code points, of spans sorted by their low end.\<close>

definition complement_step :: "char_range list \<times> nat \<Rightarrow> char_range \<Rightarrow> char_range list \<times> nat" where
  "complement_step acc r =
     (case (acc, r) of ((out, next), (lo, hi)) \<Rightarrow>
        (if next < lo then out @ [(next, lo - 1)] else out, if next < hi + 1 then hi + 1 else next))"

definition complement :: "char_range list \<Rightarrow> char_range list" where
  "complement ranges =
     (let (out, next) = foldl complement_step ([], 0) (sort_key fst ranges)
      in if next \<le> MAX_CODE_POINT then out @ [(next, MAX_CODE_POINT)] else out)"

definition any_character :: string where
  "any_character = [CHR ''['', CHR 0x5C, CHR ''s'', CHR 0x5C, CHR ''S'', CHR '']'']"

definition pattern_char_ranges :: "string \<Rightarrow> string \<Rightarrow> char_range list option" where
  "pattern_char_ranges pattern flags =
     (if pattern = any_character then Some [(0, MAX_CODE_POINT)]
      else
        (let cs = chars pattern
         in if char_get cs 0 \<noteq> Some (cp CHR ''['') then map_option (\<lambda>(c, _). [(c, c)]) (one cs 0)
            else
              (let neg = (char_get cs 1 = Some (cp CHR ''^''))
               in case class_members (code_units flags) cs (if neg then 2 else 1) [] of
                    None \<Rightarrow> None
                  | Some (ranges, i) \<Rightarrow>
                      if char_get cs i \<noteq> Some (cp CHR '']'') then None
                      else Some (if neg then complement ranges else ranges))))"

section \<open>Operations on coverages\<close>

text \<open>A lead surrogate read in code units is the first half of the astral characters it begins.\<close>

definition code_unit_reach :: "char_range list \<Rightarrow> string \<Rightarrow> char_range list" where
  "code_unit_reach r flags =
     (if \<not> code_units flags then r
      else r @ List.map_filter (\<lambda>(lo, hi).
        let a = max lo 0xD800; b = min hi 0xDBFF
        in if a \<le> b then Some (0x10000 + (a - 0xD800) * 2 ^ 10, 0x10000 + (b - 0xD800) * 2 ^ 10 + 0x3FF) else None) r)"

definition lead_surrogates :: "char_range list \<Rightarrow> char_range list" where
  "lead_surrogates r =
     map (\<lambda>(lo, hi). (max lo 0xD800, min hi 0xDBFF)) (filter (\<lambda>(lo, hi). lo \<le> 0xDBFF \<and> 0xD800 \<le> hi) r)"

definition fold_case_span :: "char_range \<Rightarrow> char_range list" where
  "fold_case_span r =
     (case r of (lo, hi) \<Rightarrow>
        (let u_lo = max lo 0x41; u_hi = min hi 0x5A; l_lo = max lo 0x61; l_hi = min hi 0x7A
         in (if u_lo \<le> u_hi then [(u_lo + 0x20, u_hi + 0x20)] else []) @
            (if l_lo \<le> l_hi then [(l_lo - 0x20, l_hi - 0x20)] else [])))"

definition fold_case_ranges :: "char_range list \<Rightarrow> char_range list" where
  "fold_case_ranges ranges = ranges @ concat (map fold_case_span ranges)"

text \<open>Touching or overlapping spans join, \<open>sp\<close> being the one still open.\<close>

fun merge_ranges :: "char_range \<Rightarrow> char_range list \<Rightarrow> char_range list" where
  "merge_ranges sp [] = [sp]"
| "merge_ranges sp (cur # rest) =
     (if fst cur \<le> snd sp + 1
      then merge_ranges (fst sp, if snd sp < snd cur then snd cur else snd sp) rest
      else sp # merge_ranges cur rest)"

definition normalize_ranges :: "char_range list \<Rightarrow> char_range list" where
  "normalize_ranges r =
     (if length r < 2 then r else (case sort r of [] \<Rightarrow> [] | first # rest \<Rightarrow> merge_ranges first rest))"

fun char_ranges_overlap :: "char_range list \<Rightarrow> char_range list \<Rightarrow> bool" where
  "char_ranges_overlap (ai # a) (bj # b) =
     (if fst ai \<le> snd bj \<and> fst bj \<le> snd ai then True
      else if snd ai < snd bj then char_ranges_overlap a (bj # b)
      else char_ranges_overlap (ai # a) b)"
| "char_ranges_overlap a b = False"

text \<open>One unescaped BMP character that is no regex syntax, or one whole escape.\<close>

definition is_single_code_point_pattern :: "nat list \<Rightarrow> bool" where
  "is_single_code_point_pattern cs =
     (case cs of
        [] \<Rightarrow> False
      | c # rest \<Rightarrow>
          if rest = [] then c \<le> 0xFFFF \<and> c \<notin> set (BACKSLASH # map cp ''[]()|*+?{}^$.'')
          else c = BACKSLASH \<and> (case read_escape cs 0 of Some (n, _) \<Rightarrow> n = length cs | None \<Rightarrow> False))"

definition single_code_point_coverage :: "string \<Rightarrow> string \<Rightarrow> char_range list option" where
  "single_code_point_coverage pattern flags =
     (if CHR ''i'' \<in> set flags then None
      else if pattern = any_character then pattern_char_ranges pattern flags
      else
        (let cs = chars pattern
         in if char_get cs 0 = Some (cp CHR ''['') then
              (let i = class_close cs (if char_get cs 1 = Some (cp CHR ''^'') then 2 else 1)
               in if i \<noteq> length cs - 1 then None else pattern_char_ranges pattern flags)
            else if \<not> is_single_code_point_pattern cs then None
            else pattern_char_ranges pattern flags))"

definition code_unit_matcher_past_bmp :: "char_range list \<Rightarrow> string \<Rightarrow> bool" where
  "code_unit_matcher_past_bmp r flags = (code_units flags \<and> list_ex (\<lambda>(_, hi). 0xFFFF < hi) r)"

definition single_code_point_ranges :: "string \<Rightarrow> string \<Rightarrow> char_range list option" where
  "single_code_point_ranges pattern flags =
     (case single_code_point_coverage pattern flags of
        Some r \<Rightarrow> if code_unit_matcher_past_bmp r flags then None else Some r
      | None \<Rightarrow> None)"

section \<open>The partition into atoms\<close>

definition cut_points :: "char_range list list \<Rightarrow> nat list" where
  "cut_points coverages =
     sort (foldl (\<lambda>cuts (lo, hi). iset_insert (hi + 1) (iset_insert lo cuts)) [] (concat coverages))"

text \<open>Each two neighbouring cuts bound one span; those no coverage contains are gaps.\<close>

fun windows :: "'a list \<Rightarrow> ('a \<times> 'a) list" where
  "windows (x # y # xs) = (x, y) # windows (y # xs)"
| "windows xs = []"

definition partition_ranges :: "char_range list list \<Rightarrow> char_range list" where
  "partition_ranges coverages =
     List.map_filter (\<lambda>(w0, w1).
         let lo = w0; hi = w1 - 1
         in if hi < lo then None
            else if list_ex (list_ex (\<lambda>(a, b). a \<le> lo \<and> hi \<le> b)) coverages then Some (lo, hi) else None)
       (windows (cut_points coverages))"

fun hex_str :: "nat \<Rightarrow> string" where
  "hex_str n = (if n < 16 then [digit_char n] else hex_str (n div 16) @ [digit_char (n mod 16)])"

declare hex_str.simps [simp del]

lemma hex_str_code [code]:
  "hex_str n = (case n < 16 of True \<Rightarrow> [digit_char n] | False \<Rightarrow> hex_str (n div 16) @ [digit_char (n mod 16)])"
  by (subst hex_str.simps) simp

definition pad4 :: "string \<Rightarrow> string" where
  "pad4 s = replicate (4 - length s) (CHR ''0'') @ s"

definition class_escape :: "bool \<Rightarrow> nat \<Rightarrow> string" where
  "class_escape unicode c =
     [CHR 0x5C, CHR ''u''] @ (if unicode then ''{'' @ hex_str c @ ''}'' else pad4 (hex_str c))"

definition class_pattern :: "nat \<Rightarrow> nat \<Rightarrow> bool \<Rightarrow> string \<times> bool" where
  "class_pattern lo hi code_points =
     (let unicode = (0xFFFF < hi \<or> code_points \<and> lo \<le> 0xDBFF \<and> 0xD800 \<le> hi)
      in (''['' @ class_escape unicode lo @ ''-'' @ class_escape unicode hi @ '']'', unicode))"

section \<open>The classes of a grammar\<close>

record class_analysis =
  ca_coverage :: "(string \<times> char_range list) list"
  ca_contested :: "string list"
  ca_atoms :: "char_range list"
  ca_atom_tokens :: "(string \<times> string) list"

definition class_coverage_step ::
  "(string \<times> char_range list) list \<times> string list \<Rightarrow> element \<Rightarrow> (string \<times> char_range list) list \<times> string list" where
  "class_coverage_step acc el =
     (case acc of (coverage, units) \<Rightarrow>
        (case kind_of el of
           Regex pattern flags \<Rightarrow>
             (let key = regex_key pattern flags
              in if map_of coverage key \<noteq> None then (coverage, units)
                 else
                   (case single_code_point_ranges pattern flags of
                      None \<Rightarrow> (coverage, units)
                    | Some r \<Rightarrow>
                        (imap_insert key (normalize_ranges r) coverage,
                         if code_units flags then iset_insert key units else units)))
         | _ \<Rightarrow> (coverage, units)))"

definition class_coverage :: "element list \<Rightarrow> (string \<times> char_range list) list" where
  "class_coverage terminals =
     (let (coverage, units) = foldl class_coverage_step ([], []) terminals;
          point_leads = normalize_ranges
            (concat (map (\<lambda>(_, r). lead_surrogates r) (filter (\<lambda>(key, _). key \<notin> set units) coverage)))
      in filter (\<lambda>(key, r). \<not> (key \<in> set units \<and> char_ranges_overlap (lead_surrogates r) point_leads)) coverage)"

definition contested_classes :: "(string \<times> char_range list) list \<Rightarrow> string list" where
  "contested_classes coverage =
     map fst (filter (\<lambda>(key, mine).
       list_ex (\<lambda>(other, theirs). other \<noteq> key \<and> char_ranges_overlap mine theirs) coverage) coverage)"

definition class_analysis_of :: "element list \<Rightarrow> class_analysis" where
  "class_analysis_of terminals =
     (let coverage = class_coverage terminals;
          contested = contested_classes coverage
      in \<lparr>ca_coverage = coverage, ca_contested = contested,
          ca_atoms = (if contested = [] then []
            else partition_ranges (map (imap_get_or [] coverage) contested)),
          ca_atom_tokens = []\<rparr>)"

end
