(* ===== verification/Coverage.thy ===== *)
theory Coverage
  imports Ranges
begin

text \<open>
  What the functions of \<open>Ranges\<close> mean: a coverage as the set of its characters, the sweep and the
  normal form of spans, the partition into atoms behind the interface \<open>atom_cover\<close>, the round trip
  of a written span, and the analysis of a grammar's classes.
\<close>

section \<open>What a coverage covers\<close>

definition spans :: "char_range list \<Rightarrow> nat set" where
  "spans r = (\<Union>x\<in>set r. {fst x..snd x})"

named_theorems span_simps \<open>coverages as sets\<close>

lemma spans_simps [simp, span_simps]:
  "spans [] = {}"
  "spans (x # r) = {fst x..snd x} \<union> spans r"
  "spans (r @ r') = spans r \<union> spans r'"
  by (auto simp: spans_def)

lemma in_spans: "c \<in> spans r \<longleftrightarrow> (\<exists>x\<in>set r. fst x \<le> c \<and> c \<le> snd x)"
  by (auto simp: spans_def)

abbreviation proper :: "char_range list \<Rightarrow> bool" where
  "proper r \<equiv> list_all (\<lambda>x. fst x \<le> snd x) r"

abbreviation apart :: "char_range list \<Rightarrow> bool" where
  "apart r \<equiv> sorted_wrt (\<lambda>x y. snd x < fst y) r"

lemma spans_set: "set r = set r' \<Longrightarrow> spans r = spans r'"
  by (simp add: spans_def)

lemma spans_merge: "sorted (map fst (x # r)) \<Longrightarrow> spans (merge_ranges x r) = spans (x # r)"
proof (induction x r rule: merge_ranges.induct)
  case (2 sp cur rest)
  show ?case
  proof (cases "fst cur \<le> snd sp + 1")
    case True
    let ?hi = "if snd sp < snd cur then snd cur else snd sp"
    have "sorted (map fst ((fst sp, ?hi) # rest))" using "2.prems" by simp
    from "2.IH"(1) [OF True this] have "spans (merge_ranges sp (cur # rest)) = {fst sp..?hi} \<union> spans rest"
      using True by simp
    moreover have "{fst sp..?hi} = {fst sp..snd sp} \<union> {fst cur..snd cur}"
      using True "2.prems" by auto
    ultimately show ?thesis by (simp add: Un_assoc)
  next
    case False
    then show ?thesis using "2.IH"(2) "2.prems" by simp
  qed
qed simp

lemma merge_apart:
  "proper (x # r) \<Longrightarrow> sorted (map fst (x # r)) \<Longrightarrow>
   proper (merge_ranges x r) \<and> sorted_wrt (\<lambda>x y. snd x + 1 < fst y) (merge_ranges x r) \<and>
   (\<forall>y\<in>set (merge_ranges x r). fst x \<le> fst y)"
proof (induction x r rule: merge_ranges.induct)
  case (2 sp cur rest)
  show ?case
  proof (cases "fst cur \<le> snd sp + 1")
    case True
    have s: "sorted (map fst ((fst sp, if snd sp < snd cur then snd cur else snd sp) # rest))"
      and p: "proper ((fst sp, if snd sp < snd cur then snd cur else snd sp) # rest)"
      using "2.prems" by auto
    from "2.IH"(1) [OF True p s] True show ?thesis by simp
  next
    case False
    have "proper (cur # rest)" "sorted (map fst (cur # rest))" using "2.prems" by auto
    note ih = "2.IH"(2) [OF False this]
    have "snd sp + 1 < fst y" if "y \<in> set (merge_ranges cur rest)" for y
      using ih that False by fastforce
    moreover have "fst sp \<le> fst y" if "y \<in> set (merge_ranges cur rest)" for y
    proof -
      have "fst cur \<le> fst y" using ih that by blast
      then show ?thesis using "2.prems" by simp
    qed
    ultimately show ?thesis using ih False "2.prems" by simp
  qed
qed simp

lemma sorted_fst: "sorted (r :: char_range list) \<Longrightarrow> sorted (map fst r)"
  by (simp add: sorted_wrt_map) (erule sorted_wrt_mono_rel [rotated], auto)

lemma normalize_cases:
  obtains "normalize_ranges r = r" and "length r < 2"
  | x rest where "sort r = x # rest" and "normalize_ranges r = merge_ranges x rest"
proof (cases "length r < 2")
  case False
  then obtain x rest where "sort r = x # rest" by (cases "sort r") (auto dest: arg_cong [where f = length])
  then show ?thesis using that(2) False by (simp add: normalize_ranges_def)
qed (use that(1) in \<open>simp add: normalize_ranges_def\<close>)

lemma spans_normalize [simp]: "spans (normalize_ranges r) = spans r"
proof (cases r rule: normalize_cases)
  case (2 x rest)
  have "sorted (map fst (x # rest))" by (rule sorted_fst) (metis 2(1) sorted_sort)
  from spans_merge [OF this] have "spans (normalize_ranges r) = spans (sort r)" using 2 by simp
  also have "\<dots> = spans r" by (rule spans_set) simp
  finally show ?thesis .
qed simp

lemma normalize_shape:
  assumes "proper r"
  shows "proper (normalize_ranges r) \<and> sorted_wrt (\<lambda>x y. snd x + 1 < fst y) (normalize_ranges r)"
proof (cases r rule: normalize_cases)
  case 1
  then show ?thesis using assms by (cases r) auto
next
  case (2 x rest)
  have "sorted (map fst (x # rest))" by (rule sorted_fst) (metis 2(1) sorted_sort)
  moreover have "proper (x # rest)" using assms 2(1) by (metis list_all_iff set_sort)
  ultimately show ?thesis using merge_apart [of x rest] 2 by simp
qed

lemma normalize_apart: "proper r \<Longrightarrow> apart (normalize_ranges r)"
  by (rule sorted_wrt_mono_rel [OF _ conjunct2 [OF normalize_shape]]) auto

section \<open>The overlap sweep\<close>

lemma overlap_sound: "char_ranges_overlap a b \<Longrightarrow> proper a \<Longrightarrow> proper b \<Longrightarrow> spans a \<inter> spans b \<noteq> {}"
proof (induction a b rule: char_ranges_overlap.induct)
  case (1 ai a bj b)
  show ?case
  proof (cases "fst ai \<le> snd bj \<and> fst bj \<le> snd ai")
    case True
    then have "max (fst ai) (fst bj) \<in> spans (ai # a) \<inter> spans (bj # b)" using "1.prems"(2,3) by auto
    then show ?thesis by blast
  next
    case False
    then show ?thesis using 1 by (auto split: if_splits)
  qed
qed auto

lemma overlap_complete:
  "apart a \<Longrightarrow> apart b \<Longrightarrow> spans a \<inter> spans b \<noteq> {} \<Longrightarrow> char_ranges_overlap a b"
proof (induction a b rule: char_ranges_overlap.induct)
  case (1 ai a bj b)
  show ?case
  proof (cases "fst ai \<le> snd bj \<and> fst bj \<le> snd ai")
    case False
    obtain c where c: "c \<in> spans (ai # a)" "c \<in> spans (bj # b)" using "1.prems"(3) by blast
    have la: "snd ai < d" if "d \<in> spans a" for d using "1.prems"(1) that by (fastforce simp: in_spans)
    have lb: "snd bj < d" if "d \<in> spans b" for d using "1.prems"(2) that by (fastforce simp: in_spans)
    show ?thesis
    proof (cases "snd ai < snd bj")
      case True
      have "c \<notin> {fst ai..snd ai}" using c(2) False True lb by fastforce
      then have "spans a \<inter> spans (bj # b) \<noteq> {}" using c by auto
      then show ?thesis using "1.IH"(1) False True "1.prems" by simp
    next
      case ge: False
      have "c \<notin> {fst bj..snd bj}" using c(1) False ge la by fastforce
      then have "spans (ai # a) \<inter> spans b \<noteq> {}" using c by auto
      then show ?thesis using "1.IH"(2) False ge "1.prems" by simp
    qed
  qed simp
qed auto

section \<open>Derived coverages\<close>

lemma complement_fold:
  "sorted (map fst xs) \<Longrightarrow> foldl complement_step (out, next) xs = (out', next') \<Longrightarrow>
   spans out' \<union> {next'..} = spans out \<union> ({next..} - spans xs)"
proof (induction xs arbitrary: out "next")
  case (Cons x xs)
  obtain lo hi where x: "x = (lo, hi)" by (cases x)
  obtain out1 next1 where s: "complement_step (out, next) x = (out1, next1)" by fastforce
  have o: "spans out1 = spans out \<union> (if next < lo then {next..lo - 1} else {})"
    and n: "next1 = (if next < hi + 1 then hi + 1 else next)"
    using s by (auto simp: complement_step_def x)
  have below: "lo \<le> c" if "c \<in> spans xs" for c
    using Cons.prems(1) that by (force simp: x in_spans)
  have "spans out' \<union> {next'..} = spans out1 \<union> ({next1..} - spans xs)"
    using Cons.IH [of out1 next1] Cons.prems s by simp
  also have "\<dots> = spans out \<union> ({next..} - spans (x # xs))"
    using below by (force simp: o n x not_le split: if_splits)
  finally show ?case .
qed simp

text \<open>A negated class covers exactly what the class does not.\<close>

lemma spans_complement: "spans (complement r) \<inter> {..MAX_CODE_POINT} = {..MAX_CODE_POINT} - spans r"
proof -
  obtain out nxt where f: "foldl complement_step ([], 0) (sort_key fst r) = (out, nxt)" by fastforce
  have "spans out \<union> {nxt..} = {0..} - spans (sort_key fst r)"
    using complement_fold [OF _ f] by simp
  moreover have "spans (sort_key fst r) = spans r" by (rule spans_set) simp
  ultimately have e: "spans out \<union> {nxt..} = - spans r" by auto
  have "spans (complement r) \<inter> {..MAX_CODE_POINT} = (spans out \<union> {nxt..}) \<inter> {..MAX_CODE_POINT}"
    by (auto simp: complement_def f)
  then show ?thesis using e by auto
qed

lemma fold_case_span_covers:
  "c \<in> spans (fold_case_span x) \<longleftrightarrow>
   0x61 \<le> c \<and> c \<le> 0x7A \<and> c - 0x20 \<in> {fst x..snd x} \<or> 0x41 \<le> c \<and> c \<le> 0x5A \<and> c + 0x20 \<in> {fst x..snd x}"
proof -
  obtain lo hi where x: "x = (lo, hi)" by (cases x)
  have "c \<in> spans (fold_case_span x) \<longleftrightarrow>
     max lo 0x41 + 0x20 \<le> c \<and> c \<le> min hi 0x5A + 0x20 \<or> max lo 0x61 - 0x20 \<le> c \<and> c \<le> min hi 0x7A - 0x20 \<and> max lo 0x61 \<le> min hi 0x7A"
    by (auto simp: fold_case_span_def x Let_def)
  also have "\<dots> \<longleftrightarrow> 0x61 \<le> c \<and> c \<le> 0x7A \<and> lo \<le> c - 0x20 \<and> c - 0x20 \<le> hi \<or>
      0x41 \<le> c \<and> c \<le> 0x5A \<and> lo \<le> c + 0x20 \<and> c + 0x20 \<le> hi"
    by (simp add: max_def min_def) linarith
  finally show ?thesis by (simp add: x)
qed

lemma spans_fold_case:
  "c \<in> spans (fold_case_ranges r) \<longleftrightarrow>
   c \<in> spans r \<or> 0x61 \<le> c \<and> c \<le> 0x7A \<and> c - 0x20 \<in> spans r \<or> 0x41 \<le> c \<and> c \<le> 0x5A \<and> c + 0x20 \<in> spans r"
proof -
  have "c \<in> spans (concat (map fold_case_span r)) \<longleftrightarrow>
     0x61 \<le> c \<and> c \<le> 0x7A \<and> c - 0x20 \<in> spans r \<or> 0x41 \<le> c \<and> c \<le> 0x5A \<and> c + 0x20 \<in> spans r"
    by (induction r) (simp, simp only: list.map concat.simps spans_simps Un_iff fold_case_span_covers, blast)
  then show ?thesis by (simp add: fold_case_ranges_def)
qed

definition reach_span :: "char_range \<Rightarrow> char_range option" where
  "reach_span = (\<lambda>(lo, hi). let a = max lo 0xD800; b = min hi 0xDBFF
     in if a \<le> b then Some (0x10000 + (a - 0xD800) * 2 ^ 10, 0x10000 + (b - 0xD800) * 2 ^ 10 + 0x3FF) else None)"

lemma reach_span_covers:
  "(\<exists>y. reach_span x = Some y \<and> fst y \<le> c \<and> c \<le> snd y) \<longleftrightarrow>
   0x10000 \<le> c \<and> c < 0x110000 \<and> 0xD800 + (c - 0x10000) div 2 ^ 10 \<in> {fst x..snd x}"
proof -
  obtain lo hi where x: "x = (lo, hi)" by (cases x)
  let ?a = "max lo 0xD800" and ?b = "min hi 0xDBFF" and ?d = "(c - 0x10000) div 1024"
  have "(\<exists>y. reach_span x = Some y \<and> fst y \<le> c \<and> c \<le> snd y) \<longleftrightarrow>
      ?a \<le> ?b \<and> 0x10000 + (?a - 0xD800) * 1024 \<le> c \<and> c \<le> 0x10000 + (?b - 0xD800) * 1024 + 0x3FF"
    by (auto simp: reach_span_def x Let_def)
  also have "\<dots> \<longleftrightarrow> ?a \<le> ?b \<and> 0x10000 \<le> c \<and> (?a - 0xD800) * 1024 \<le> c - 0x10000 \<and> c - 0x10000 < (?b - 0xD800 + 1) * 1024"
    by (simp only: add_mult_distrib) linarith
  also have "\<dots> \<longleftrightarrow> ?a \<le> ?b \<and> 0x10000 \<le> c \<and> ?a - 0xD800 \<le> ?d \<and> ?d < ?b - 0xD800 + 1"
    by (simp only: less_eq_div_iff_mult_less_eq div_less_iff_less_mult zero_less_numeral)
  also have "\<dots> \<longleftrightarrow> 0x10000 \<le> c \<and> ?d < 1024 \<and> lo \<le> 0xD800 + ?d \<and> 0xD800 + ?d \<le> hi"
    by (simp add: max_def min_def) linarith
  also have "?d < 1024 \<longleftrightarrow> c - 0x10000 < 1024 * 1024" by (simp only: div_less_iff_less_mult zero_less_numeral)
  finally show ?thesis by (auto simp: x)
qed

lemma spans_code_unit_reach:
  "c \<in> spans (code_unit_reach r flags) \<longleftrightarrow>
   c \<in> spans r \<or> code_units flags \<and> 0x10000 \<le> c \<and> c < 0x110000 \<and> 0xD800 + (c - 0x10000) div 2 ^ 10 \<in> spans r"
proof (cases "code_units flags")
  case True
  have "c \<in> spans (List.map_filter reach_span r) \<longleftrightarrow>
      (\<exists>x\<in>set r. \<exists>y. reach_span x = Some y \<and> fst y \<le> c \<and> c \<le> snd y)"
    by (force simp: in_spans List.map_filter_def)
  also have "\<dots> \<longleftrightarrow> 0x10000 \<le> c \<and> c < 0x110000 \<and> 0xD800 + (c - 0x10000) div 2 ^ 10 \<in> spans r"
    unfolding reach_span_covers by (auto simp: in_spans)
  finally show ?thesis using True by (simp add: code_unit_reach_def reach_span_def)
qed (simp add: code_unit_reach_def)

section \<open>The partition\<close>

lemma set_cut_points: "set (cut_points cs) = (\<Union>r\<in>set cs. \<Union>x\<in>set r. {fst x, snd x + 1})"
proof -
  have "set (foldl (\<lambda>cuts (lo, hi). iset_insert (hi + 1) (iset_insert lo cuts)) cuts xs) =
      set cuts \<union> (\<Union>x\<in>set xs. {fst x, snd x + 1})" for cuts :: "nat list" and xs
    by (induction xs arbitrary: cuts) auto
  then show ?thesis by (simp add: cut_points_def)
qed

lemma cut_points_strict: "sorted_wrt (<) (cut_points cs)"
proof -
  have "distinct (foldl (\<lambda>cuts (lo, hi). iset_insert (hi + 1) (iset_insert lo cuts)) [] xs)" for xs :: "char_range list"
    by (rule foldl_invariant [where P = distinct]) (simp_all add: split_def)
  then show ?thesis by (simp add: cut_points_def strict_sorted_iff)
qed

text \<open>Neighbours in an ascending list, and what lies between them.\<close>

lemma windows_between:
  "sorted_wrt (<) xs \<Longrightarrow> (x, y) \<in> set (windows xs) \<Longrightarrow>
   x \<in> set xs \<and> y \<in> set xs \<and> x < y \<and> (\<forall>z\<in>set xs. z \<le> x \<or> y \<le> (z::nat))"
proof (induction xs rule: windows.induct)
  case (1 a b xs)
  have lt: "a < b" "sorted_wrt (<) (b # xs)" "\<And>z. z \<in> set (b # xs) \<Longrightarrow> b \<le> z"
    using "1.prems"(1) by auto
  show ?case
  proof (cases "(x, y) = (a, b)")
    case True
    then show ?thesis using lt by auto
  next
    case False
    then have "(x, y) \<in> set (windows (b # xs))" using "1.prems"(2) by auto
    note ih = "1.IH" [OF lt(2) this]
    then have "a \<le> x" using lt(1,3) by fastforce
    then show ?thesis using ih by auto
  qed
qed auto

lemma windows_cover:
  "sorted_wrt (<) xs \<Longrightarrow> a \<in> set xs \<Longrightarrow> b \<in> set xs \<Longrightarrow> a \<le> c \<Longrightarrow> c < (b::nat) \<Longrightarrow>
   \<exists>(x, y)\<in>set (windows xs). x \<le> c \<and> c < y"
proof (induction xs arbitrary: a rule: windows.induct)
  case (1 x y xs)
  show ?case
  proof (cases "c < y")
    case True
    have "x \<le> c" using "1.prems" by auto
    then show ?thesis using True by auto
  next
    case False
    have "b \<in> set (y # xs)" using "1.prems" False by auto
    then show ?thesis using "1.IH" [of y] "1.prems" False by auto
  qed
qed auto

lemma windows_ascending: "sorted_wrt (<) xs \<Longrightarrow> sorted_wrt (\<lambda>p q. snd p \<le> (fst q :: nat)) (windows xs)"
proof (induction xs rule: windows.induct)
  case (1 x y xs)
  have "y \<le> fst q" if "q \<in> set (windows (y # xs))" for q
  proof -
    have "fst q \<in> set (y # xs)" using windows_between [of "y # xs" "fst q" "snd q"] "1.prems" that by simp
    then show ?thesis using "1.prems" by auto
  qed
  then show ?case using 1 by simp
qed auto

lemma set_partition:
  "z \<in> set (partition_ranges cs) \<longleftrightarrow>
   (\<exists>w0 w1. (w0, w1) \<in> set (windows (cut_points cs)) \<and> z = (w0, w1 - 1) \<and>
     (\<exists>r\<in>set cs. \<exists>x\<in>set r. fst x \<le> w0 \<and> w1 - 1 \<le> snd x))"
proof
  assume "z \<in> set (partition_ranges cs)"
  then show "\<exists>w0 w1. (w0, w1) \<in> set (windows (cut_points cs)) \<and> z = (w0, w1 - 1) \<and>
     (\<exists>r\<in>set cs. \<exists>x\<in>set r. fst x \<le> w0 \<and> w1 - 1 \<le> snd x)"
    by (force simp: partition_ranges_def List.map_filter_def Let_def list_ex_iff split: if_splits)
next
  assume "\<exists>w0 w1. (w0, w1) \<in> set (windows (cut_points cs)) \<and> z = (w0, w1 - 1) \<and>
     (\<exists>r\<in>set cs. \<exists>x\<in>set r. fst x \<le> w0 \<and> w1 - 1 \<le> snd x)"
  then obtain w0 w1 where w: "(w0, w1) \<in> set (windows (cut_points cs))" "z = (w0, w1 - 1)"
    "\<exists>r\<in>set cs. \<exists>x\<in>set r. fst x \<le> w0 \<and> w1 - 1 \<le> snd x" by blast
  have "w0 < w1" using windows_between [OF cut_points_strict w(1)] by blast
  then show "z \<in> set (partition_ranges cs)"
    using w by (force simp: partition_ranges_def List.map_filter_def Let_def list_ex_iff)
qed

lemma partition_apart: "apart (partition_ranges cs) \<and> proper (partition_ranges cs)"
proof -
  let ?f = "\<lambda>(w0, w1). let lo = w0; hi = w1 - 1
     in if hi < lo then None
        else if list_ex (list_ex (\<lambda>(a, b). a \<le> lo \<and> hi \<le> b)) cs then Some (lo, hi) else None"
  have "sorted_wrt (\<lambda>x y. snd x < fst y) (List.map_filter ?f ws)"
    if "sorted_wrt (\<lambda>p q. snd p \<le> fst q) ws" "\<forall>w\<in>set ws. fst w < snd w" for ws :: "(nat \<times> nat) list"
    using that
  proof (induction ws)
    case (Cons w ws)
    have "snd w - 1 < fst y" if y: "y \<in> set (List.map_filter ?f ws)" for y
    proof -
      obtain v where "v \<in> set ws" "?f v = Some y" using y by (auto simp: List.map_filter_def)
      then have "v \<in> set ws" "fst y = fst v" by (auto simp: Let_def split: prod.splits if_splits)
      then have "snd w \<le> fst y" "fst w < snd w" using Cons.prems by auto
      then show ?thesis by simp
    qed
    then show ?case using Cons by (auto simp: List.map_filter_simps Let_def split: prod.splits option.splits if_splits)
  qed (simp add: List.map_filter_simps)
  moreover have "\<forall>w\<in>set (windows (cut_points cs)). fst w < snd w"
    using windows_between [OF cut_points_strict] by fastforce
  ultimately have "apart (partition_ranges cs)"
    using windows_ascending [OF cut_points_strict] by (simp add: partition_ranges_def)
  moreover have "proper (partition_ranges cs)"
    unfolding list_all_iff
  proof
    fix z assume "z \<in> set (partition_ranges cs)"
    then obtain w0 w1 where "(w0, w1) \<in> set (windows (cut_points cs))" "z = (w0, w1 - 1)"
      using set_partition by blast
    then show "fst z \<le> snd z" using windows_between [OF cut_points_strict] by fastforce
  qed
  ultimately show ?thesis by blast
qed

text \<open>No atom straddles the boundary of a coverage.\<close>

lemma partition_inside:
  assumes "z \<in> set (partition_ranges cs)" and "r \<in> set cs" and "x \<in> set r"
    and "{fst z..snd z} \<inter> {fst x..snd x} \<noteq> {}"
  shows "{fst z..snd z} \<subseteq> {fst x..snd x}"
proof -
  obtain w0 w1 where z: "(w0, w1) \<in> set (windows (cut_points cs))" "z = (w0, w1 - 1)"
    using assms(1) set_partition by blast
  note w = windows_between [OF cut_points_strict z(1)]
  obtain c where "c \<in> {fst z..snd z} \<inter> {fst x..snd x}" using assms(4) by blast
  then have c: "w0 \<le> c" "c \<le> w1 - 1" "fst x \<le> c" "c \<le> snd x" using z(2) by auto
  have "fst x \<in> set (cut_points cs)" "snd x + 1 \<in> set (cut_points cs)"
    using assms(2,3) set_cut_points by fastforce+
  then have "fst x \<le> w0 \<or> w1 \<le> fst x" "snd x + 1 \<le> w0 \<or> w1 \<le> snd x + 1" using w by blast+
  then show ?thesis using c w z(2) by auto
qed

lemma partition_covers:
  assumes "r \<in> set cs" and "c \<in> spans r"
  shows "\<exists>z\<in>set (partition_ranges cs). fst z \<le> c \<and> c \<le> snd z"
proof -
  obtain x where x: "x \<in> set r" "fst x \<le> c" "c \<le> snd x" using assms(2) by (auto simp: in_spans)
  have cuts: "fst x \<in> set (cut_points cs)" "snd x + 1 \<in> set (cut_points cs)"
    using assms(1) x(1) set_cut_points by fastforce+
  obtain w0 w1 where w: "(w0, w1) \<in> set (windows (cut_points cs))" "w0 \<le> c" "c < w1"
    using windows_cover [OF cut_points_strict cuts x(2)] x(3) by fastforce
  note between = windows_between [OF cut_points_strict w(1)]
  have "fst x \<le> w0 \<or> w1 \<le> fst x" "snd x + 1 \<le> w0 \<or> w1 \<le> snd x + 1" using between cuts by blast+
  then have "fst x \<le> w0" "w1 \<le> snd x + 1" using x(2,3) w(2,3) by linarith+
  then have "(w0, w1 - 1) \<in> set (partition_ranges cs)" using w(1) assms(1) x(1) by (auto simp: set_partition intro!: bexI)
  then show ?thesis by (rule bexI [rotated]) (use w in simp)
qed

lemma partition_within: "z \<in> set (partition_ranges cs) \<Longrightarrow> \<exists>r\<in>set cs. \<exists>x\<in>set r. {fst z..snd z} \<subseteq> {fst x..snd x}"
  by (auto simp: set_partition) force

section \<open>Writing a span and reading it back\<close>

lemma chars_ascii: "list_all (\<lambda>c. of_char c < (128::nat)) s \<Longrightarrow> chars s = map of_char s"
proof (induction s)
  case (Cons c s)
  then have c: "of_char c < (128::nat)" by simp
  have "chars (c # s) = of_char c # chars s"
    using c by (simp add: utf8_next_def utf8_width_def utf8_head_def)
  then show ?case using Cons by simp
qed simp

lemma find_from_shift: "find_from P xs (i + k) = map_option (\<lambda>e. e + k) (find_from P xs i)"
  by (induction xs arbitrary: i) (simp_all flip: add_Suc)

lemma char_get_drop: "at \<le> length cs \<Longrightarrow> char_get (drop at cs) i = char_get cs (at + i)"
  by (auto simp: char_get_def)

text \<open>An escape is read from the text at it alone.\<close>

lemma read_escape_local:
  assumes "at \<le> length cs"
  shows "read_escape cs at = read_escape (drop at cs) 0"
proof -
  let ?ds = "drop at cs"
  have g: "char_get cs (at + i) = char_get ?ds (0 + i)" for i
    using char_get_drop [OF assms] by simp
  have dr: "drop (at + i) cs = drop (0 + i) ?ds" for i
    by (simp add: add.commute)
  have len: "length cs < at + 2 + n \<longleftrightarrow> length ?ds < 0 + 2 + n" for n
    using assms by auto
  have ff: "find_from P (drop (0 + 3) ?ds) (at + 3) = map_option (\<lambda>e. e + at) (find_from P (drop (0 + 3) ?ds) (0 + 3))" for P
    using find_from_shift [of P "drop (at + 3) cs" 3 at] by (simp add: add.commute)
  note eqs = g len dr ff
  have shift: "e + at - (at + 3) = e - (0 + 3)" "e + at + 1 - at = e + 1 - 0" for e
    by simp_all
  show ?thesis
    unfolding read_escape_def eqs
    by (cases "find_from (\<lambda>c. c = cp CHR ''}'') (drop (0 + 3) ?ds) (0 + 3)")
       (simp_all only: option.map option.case shift)
qed

lemma less_16: "d < 16 \<Longrightarrow> d \<in> {0,1,2,3,4,5,6,7,8,9,10,11,12,13,14,15::nat}"
  by (auto simp: numeral_eq_Suc less_Suc_eq)

lemma hex_digit_close [simp]: "hex_digit 125 = None" "hex_digit 123 = None"
  by (simp_all add: hex_digit_def)

lemma hex_digit_digit: "d < 16 \<Longrightarrow> hex_digit (of_char (digit_char d)) = Some d"
  by (drule less_16) (auto simp: digit_char_def hex_digit_def)

lemma digit_char_ascii: "d < 16 \<Longrightarrow> of_char (digit_char d) < (128::nat) \<and> digit_char d \<noteq> CHR ''}''"
  by (drule less_16) (auto simp: digit_char_def)

definition is_hex :: "char \<Rightarrow> bool" where
  "is_hex c = (hex_digit (of_char c) \<noteq> None \<and> of_char c < (128::nat) \<and> c \<noteq> CHR ''}'')"

lemma is_hex_digit: "d < 16 \<Longrightarrow> is_hex (digit_char d)"
  by (simp add: is_hex_def hex_digit_digit digit_char_ascii)

lemma is_hex_zero: "is_hex CHR ''0''"
  by (simp add: is_hex_def hex_digit_def)

lemma hex_value_snoc:
  "hex_value (ds @ [d]) = hex_value ds * 16 + (case hex_digit d of Some v \<Rightarrow> v | None \<Rightarrow> 0)"
  by (simp add: hex_value_def)

lemma hex_str_shape: "list_all is_hex (hex_str n) \<and> hex_value (map of_char (hex_str n)) = n"
proof (induction n rule: hex_str.induct)
  case (1 n)
  show ?case
  proof (cases "n < 16")
    case True
    then show ?thesis by (subst (1 2) hex_str.simps) (simp add: is_hex_digit hex_value_def hex_digit_digit)
  next
    case False
    have "n mod 16 < 16" by simp
    then show ?thesis using 1 [OF False] False
      by (subst (1 2) hex_str.simps) (simp add: is_hex_digit hex_value_snoc hex_digit_digit del: mod_less_divisor)
  qed
qed

lemma hex_str_length: "n < 16 ^ Suc k \<Longrightarrow> length (hex_str n) \<le> Suc k"
proof (induction k arbitrary: n)
  case (Suc k)
  show ?case
  proof (cases "n < 16")
    case False
    have "n div 16 < 16 ^ Suc k" using Suc.prems by (simp add: div_less_iff_less_mult algebra_simps)
    then show ?thesis using Suc.IH False by (subst hex_str.simps) simp
  qed (subst hex_str.simps, simp)
qed (subst hex_str.simps, simp)

lemma hex_value_zeros: "hex_value (replicate k (of_char CHR ''0'') @ ds) = hex_value ds"
proof -
  have "foldl (\<lambda>acc c. acc * 16 + (case hex_digit c of Some d \<Rightarrow> d | None \<Rightarrow> 0)) (0::nat)
      (replicate k (of_char CHR ''0'')) = 0"
    by (induction k) (auto simp: hex_digit_def)
  then show ?thesis by (simp add: hex_value_def)
qed

lemma scalar_of_hex:
  assumes "list_all is_hex s" "s \<noteq> []" "is_scalar (hex_value (map of_char s))"
  shows "scalar_of (map of_char s) = Some (hex_value (map of_char s))"
  using assms by (auto simp: scalar_of_def list_ex_iff list_all_iff is_hex_def)

lemma hex_str_nonempty [simp]: "hex_str n \<noteq> []"
  by (subst hex_str.simps) simp

text \<open>The escapes the writer emits are read for the code point they spell.\<close>

lemma find_brace:
  "list_all is_hex s \<Longrightarrow> find_from (\<lambda>c. c = cp CHR ''}'') (map of_char s @ cp CHR ''}'' # t) i = Some (i + length s)"
  by (induction s arbitrary: i) (auto simp: is_hex_def)

lemma read_class_escape:
  assumes "is_scalar c" and "unicode \<or> c < 0x10000"
  shows "read_escape (map of_char (class_escape unicode c) @ t) 0 = Some (length (class_escape unicode c), c)"
proof -
  note h = hex_str_shape [of c]
  have sc: "scalar_of (map of_char (hex_str c)) = Some c"
    using scalar_of_hex [of "hex_str c"] h assms(1) by simp
  show ?thesis
  proof (cases unicode)
    case True
    have "c < 16 ^ Suc 5" using assms(1) by (auto simp: is_scalar_def MAX_CODE_POINT_def)
    then have len: "length (hex_str c) \<le> 6" using hex_str_length [of c 5] by simp
    have shape: "map of_char (class_escape unicode c) @ t = 92 # 117 # 123 # map of_char (hex_str c) @ 125 # t"
      using True by (simp add: class_escape_def)
    have close: "find_from (\<lambda>c. c = 125) (map of_char (hex_str c) @ 125 # t) 3 = Some (3 + length (hex_str c))"
      using find_brace [OF conjunct1 [OF h]] by simp
    have "read_escape (92 # 117 # 123 # map of_char (hex_str c) @ 125 # t) 0 = Some (length (hex_str c) + 4, c)"
      using len sc close by (simp add: read_escape_def char_get_def)
    then show ?thesis using True by (simp only: shape) (simp add: class_escape_def)
  next
    case False
    then have "c < 16 ^ Suc 3" using assms(2) by simp
    then have len: "length (hex_str c) \<le> 4" using hex_str_length [of c 3] by simp
    then have l4: "length (pad4 (hex_str c)) = 4" by (simp add: pad4_def)
    have ph: "list_all is_hex (pad4 (hex_str c))"
      using h is_hex_zero by (auto simp: pad4_def list_all_iff)
    have "hex_value (map of_char (pad4 (hex_str c))) = c"
      using h hex_value_zeros by (simp add: pad4_def)
    then have sc4: "scalar_of (map of_char (pad4 (hex_str c))) = Some c"
      using scalar_of_hex [OF ph] assms(1) l4 by (cases "pad4 (hex_str c)") auto
    obtain a1 a2 a3 a4 where p4: "pad4 (hex_str c) = [a1, a2, a3, a4]"
      using l4 by (auto simp: numeral_eq_Suc length_Suc_conv)
    have "of_char a1 \<noteq> (123::nat)" using ph by (auto simp: p4 is_hex_def)
    then show ?thesis
      using False sc4 by (simp add: class_escape_def read_escape_def char_get_def Let_def p4)
  qed
qed


definition escaped_span :: "bool \<Rightarrow> nat \<Rightarrow> nat \<Rightarrow> nat list" where
  "escaped_span unicode lo hi =
     91 # map of_char (class_escape unicode lo) @ 45 # map of_char (class_escape unicode hi) @ [93]"

lemma class_escape_ascii: "list_all (\<lambda>c. of_char c < (128::nat)) (class_escape unicode c)"
proof -
  have "list_all is_hex (hex_str c)" using hex_str_shape by blast
  then have "list_all (\<lambda>c. of_char c < (128::nat)) (hex_str c)" by (auto simp: list_all_iff is_hex_def)
  then show ?thesis by (auto simp: class_escape_def pad4_def list_all_iff)
qed

lemma class_escape_head: "\<exists>e. map of_char (class_escape unicode c) = BACKSLASH # e"
  by (simp add: class_escape_def)

lemma one_escape:
  assumes "is_scalar c" "unicode \<or> c < 0x10000" "drop i cs = map of_char (class_escape unicode c) @ t" "i \<le> length cs"
  shows "one cs i = Some (c, i + length (class_escape unicode c)) \<and> char_get cs i = Some BACKSLASH"
proof -
  obtain e where e: "map of_char (class_escape unicode c) = BACKSLASH # e" using class_escape_head [THEN exE] .
  have g: "char_get cs i = Some BACKSLASH"
    using char_get_drop [OF assms(4), of 0] by (simp add: assms(3) e char_get_def)
  have "read_escape cs i = Some (length (class_escape unicode c), c)"
    by (simp only: read_escape_local [OF assms(4)] assms(3) read_class_escape [OF assms(1,2)])
  then show ?thesis using g by (simp add: one_def)
qed

lemma class_members_span:
  assumes "is_scalar lo" "is_scalar hi" "unicode \<or> lo < 0x10000 \<and> hi < 0x10000"
  shows "class_members units (escaped_span unicode lo hi) 1 [] = Some ([(lo, hi)], length (escaped_span unicode lo hi) - 1)"
proof -
  let ?cs = "escaped_span unicode lo hi" and ?l = "length (class_escape unicode lo)" and ?h = "length (class_escape unicode hi)"
  have len: "length ?cs = ?l + ?h + 3" by (simp add: escaped_span_def)
  have d1: "drop 1 ?cs = map of_char (class_escape unicode lo) @ 45 # map of_char (class_escape unicode hi) @ [93]"
    by (simp add: escaped_span_def)
  have d2: "drop (?l + 2) ?cs = map of_char (class_escape unicode hi) @ [93]"
    by (simp add: escaped_span_def)
  note o1 = one_escape [OF assms(1) _ d1] and o2 = one_escape [OF assms(2) _ d2]
  have u: "unicode \<or> lo < 0x10000" "unicode \<or> hi < 0x10000" using assms(3) by blast+
  have o1: "one ?cs 1 = Some (lo, 1 + ?l)" "char_get ?cs 1 = Some BACKSLASH" using o1 [OF u(1)] len by auto
  have o2: "one ?cs (?l + 2) = Some (hi, ?l + 2 + ?h)" "char_get ?cs (?l + 2) = Some BACKSLASH"
    using o2 [OF u(2)] len by auto
  have dash: "char_get ?cs (1 + ?l) = Some 45"
    by (simp add: char_get_def escaped_span_def nth_append)
  have close: "char_get ?cs (?l + 2 + ?h) = Some 93"
    by (simp add: char_get_def escaped_span_def nth_append nth_Cons')
  have r2: "class_members units ?cs (?l + 2 + ?h) r = Some (r, ?l + 2 + ?h)" for r
    using close by (subst class_members.simps) (simp add: char_get_Some)
  have "class_members units ?cs 1 [] = class_members units ?cs (?l + 2 + ?h) [(lo, hi)]"
    using o1 o2 dash
    by (subst class_members.simps) (simp add: char_get_Some Let_def split_units_def)
  then show ?thesis using r2 len by simp
qed

text \<open>
  The pattern written for a span reads back as that span, in either reading of the surrogates.
\<close>

lemma class_pattern_reads_back:
  assumes "is_scalar lo" and "is_scalar hi" and "lo \<le> hi"
  shows "pattern_char_ranges (fst (class_pattern lo hi points)) flags = Some [(lo, hi)]"
proof -
  let ?u = "0xFFFF < hi \<or> points \<and> lo \<le> 0xDBFF \<and> 0xD800 \<le> hi"
  let ?s = "''['' @ class_escape ?u lo @ ''-'' @ class_escape ?u hi @ '']''"
  have s: "fst (class_pattern lo hi points) = ?s" by (simp add: class_pattern_def Let_def)
  have cs: "chars ?s = escaped_span ?u lo hi"
    using class_escape_ascii [of ?u lo] class_escape_ascii [of ?u hi]
    by (subst chars_ascii) (simp_all add: escaped_span_def list_all_append)
  have nany: "?s \<noteq> any_character" by (simp add: any_character_def class_escape_def)
  have u: "?u \<or> lo < 0x10000 \<and> hi < 0x10000" using assms(3) by auto
  obtain e where e: "map of_char (class_escape ?u lo) = BACKSLASH # e" using class_escape_head [THEN exE] .
  have g: "char_get (escaped_span ?u lo hi) 0 = Some 91" "char_get (escaped_span ?u lo hi) 1 = Some BACKSLASH"
    "char_get (escaped_span ?u lo hi) (length (escaped_span ?u lo hi) - 1) = Some 93"
    by (simp_all add: escaped_span_def char_get_def e nth_append)
  show ?thesis
    unfolding s pattern_char_ranges_def Let_def cs
    using nany g class_members_span [OF assms(1,2) u] by simp
qed

section \<open>What a partition promises\<close>

abbreviation span_of :: "char_range \<Rightarrow> nat set" where
  "span_of z \<equiv> {fst z..snd z}"

lemma span_member: "c \<in> spans r \<longleftrightarrow> (\<exists>x\<in>set r. c \<in> span_of x)"
  by (simp add: spans_def)

text \<open>
  What the classes laid over a partition rely on: the atoms are disjoint and ascending, every
  covered character is in one, and no atom reaches past a coverage it touches.
\<close>

locale atom_cover =
  fixes part :: "char_range list list \<Rightarrow> char_range list"
  assumes part_apart: "apart (part cs) \<and> proper (part cs)"
    and part_covers: "r \<in> set cs \<Longrightarrow> c \<in> spans r \<Longrightarrow> \<exists>z\<in>set (part cs). c \<in> span_of z"
    and part_within: "z \<in> set (part cs) \<Longrightarrow> \<exists>r\<in>set cs. \<exists>x\<in>set r. span_of z \<subseteq> span_of x"
    and part_inside: "z \<in> set (part cs) \<Longrightarrow> r \<in> set cs \<Longrightarrow> x \<in> set r \<Longrightarrow>
      span_of z \<inter> span_of x \<noteq> {} \<Longrightarrow> span_of z \<subseteq> span_of x"
begin

lemma atom_split: "z \<in> set (part cs) \<Longrightarrow> r \<in> set cs \<Longrightarrow> span_of z \<subseteq> spans r \<or> span_of z \<inter> spans r = {}"
proof (rule disjCI)
  assume z: "z \<in> set (part cs)" "r \<in> set cs" and "\<not> span_of z \<inter> spans r = {}"
  then obtain c where "c \<in> span_of z" "c \<in> spans r" by blast
  then obtain x where x: "x \<in> set r" "span_of z \<inter> span_of x \<noteq> {}" unfolding span_member by blast
  have "span_of z \<subseteq> span_of x" by (rule part_inside [OF z x])
  then show "span_of z \<subseteq> spans r" using x(1) unfolding spans_def by blast
qed

lemma atoms_of_coverage:
  assumes "r \<in> set cs"
  shows "spans r = spans (filter (\<lambda>z. span_of z \<subseteq> spans r) (part cs))"
proof
  show "spans r \<subseteq> spans (filter (\<lambda>z. span_of z \<subseteq> spans r) (part cs))"
  proof
    fix c assume c: "c \<in> spans r"
    obtain z where z: "z \<in> set (part cs)" "c \<in> span_of z" using part_covers [OF assms c] by blast
    have "span_of z \<subseteq> spans r" using atom_split [OF z(1) assms] c z(2) by blast
    with z have "z \<in> set (filter (\<lambda>z. span_of z \<subseteq> spans r) (part cs))" by simp
    with z(2) show "c \<in> spans (filter (\<lambda>z. span_of z \<subseteq> spans r) (part cs))" unfolding span_member by blast
  qed
  show "spans (filter (\<lambda>z. span_of z \<subseteq> spans r) (part cs)) \<subseteq> spans r"
    unfolding spans_def [of "filter _ _"] by (simp only: set_filter) blast
qed

lemma spans_part: "spans (part cs) = (\<Union>r\<in>set cs. spans r)"
proof
  show "spans (part cs) \<subseteq> (\<Union>r\<in>set cs. spans r)"
  proof
    fix c assume "c \<in> spans (part cs)"
    then obtain z where z: "z \<in> set (part cs)" "c \<in> span_of z" unfolding span_member by blast
    from part_within [OF z(1)] z(2) show "c \<in> (\<Union>r\<in>set cs. spans r)" unfolding spans_def by blast
  qed
  show "(\<Union>r\<in>set cs. spans r) \<subseteq> spans (part cs)"
  proof
    fix c assume "c \<in> (\<Union>r\<in>set cs. spans r)"
    then obtain r where "r \<in> set cs" "c \<in> spans r" by blast
    from part_covers [OF this] show "c \<in> spans (part cs)" unfolding span_member .
  qed
qed

lemma atom_unique:
  assumes "z \<in> set (part cs)" "z' \<in> set (part cs)" "c \<in> span_of z" "c \<in> span_of z'"
  shows "z = z'"
proof -
  have "apart xs \<Longrightarrow> z \<in> set xs \<Longrightarrow> z' \<in> set xs \<Longrightarrow> z = z'" for xs
    using assms(3,4) by (induction xs) fastforce+
  then show ?thesis using part_apart assms(1,2) by blast
qed

end

interpretation atoms: atom_cover partition_ranges
proof unfold_locales
  fix cs r c z x
  show "apart (partition_ranges cs) \<and> proper (partition_ranges cs)" by (rule partition_apart)
  show "r \<in> set cs \<Longrightarrow> c \<in> spans r \<Longrightarrow> \<exists>z\<in>set (partition_ranges cs). c \<in> span_of z"
    using partition_covers by auto
  show "z \<in> set (partition_ranges cs) \<Longrightarrow> \<exists>r\<in>set cs. \<exists>x\<in>set r. span_of z \<subseteq> span_of x"
    by (rule partition_within)
  show "z \<in> set (partition_ranges cs) \<Longrightarrow> r \<in> set cs \<Longrightarrow> x \<in> set r \<Longrightarrow>
      span_of z \<inter> span_of x \<noteq> {} \<Longrightarrow> span_of z \<subseteq> span_of x"
    by (rule partition_inside)
qed

text \<open>Of merged coverages the partition is the coarsest: it cuts only where some coverage begins or ends.\<close>

abbreviation merged :: "char_range list \<Rightarrow> bool" where
  "merged r \<equiv> proper r \<and> sorted_wrt (\<lambda>x y. snd x + 1 < fst y) r"

lemma merged_edges:
  assumes "merged r" and "x \<in> set r"
  shows "fst x \<in> spans r \<and> snd x \<in> spans r \<and> snd x + 1 \<notin> spans r \<and> (\<forall>c. c + 1 = fst x \<longrightarrow> c \<notin> spans r)"
  using assms
proof (induction r)
  case (Cons y r)
  have far: "snd y + 1 < fst z" if "z \<in> set r" for z using Cons.prems(1) that by simp
  have pr: "fst z \<le> snd z" if "z \<in> set (y # r)" for z using Cons.prems(1) that by (auto simp: list_all_iff)
  show ?case
  proof (cases "x = y")
    case True
    have "snd x + 1 \<notin> spans r" "\<forall>c. c + 1 = fst x \<longrightarrow> c \<notin> spans r"
      using far pr [of y] True by (fastforce simp: in_spans)+
    then show ?thesis using True pr [of y] by auto
  next
    case False
    then have x: "x \<in> set r" using Cons.prems by simp
    have "merged r" using Cons.prems by simp
    from Cons.IH [OF this x] show ?thesis using far [OF x] pr [of x] x by auto
  qed
qed simp

lemma partition_coarsest_span:
  assumes "\<And>r. r \<in> set cs \<Longrightarrow> merged r"
    and "\<And>r. r \<in> set cs \<Longrightarrow> {a..b} \<subseteq> spans r \<or> {a..b} \<inter> spans r = {}"
    and "a \<le> b" and "r0 \<in> set cs" and "a \<in> spans r0"
  shows "\<exists>z\<in>set (partition_ranges cs). {a..b} \<subseteq> span_of z"
proof -
  obtain z where z: "z \<in> set (partition_ranges cs)" "a \<in> span_of z"
    using atoms.part_covers [OF assms(4,5)] by blast
  then obtain w0 w1 where w: "(w0, w1) \<in> set (windows (cut_points cs))" "z = (w0, w1 - 1)"
    using set_partition by blast
  have w01: "w0 < w1" and cut: "w1 \<in> set (cut_points cs)" using windows_between [OF cut_points_strict w(1)] by auto
  have "b < w1"
  proof (rule ccontr)
    assume "\<not> b < w1"
    then have in_ab: "w1 \<in> {a..b}" "w1 - 1 \<in> {a..b}" using z(2) w(2) w01 by auto
    obtain r x where r: "r \<in> set cs" "x \<in> set r" "w1 = fst x \<or> w1 = snd x + 1"
      using cut set_cut_points by auto
    note e = merged_edges [OF assms(1) [OF r(1)] r(2)]
    have "w1 \<in> spans r \<longleftrightarrow> w1 - 1 \<in> spans r" using assms(2) [OF r(1)] in_ab by blast
    then show False using r(3) e w01 by (metis add_diff_cancel_right' gr_implies_not0 le_add_diff_inverse2 less_one not_le)
  qed
  then show ?thesis using z w(2) by (intro bexI [OF _ z(1)]) auto
qed

section \<open>Bounds\<close>

lemma one_bounded: "list_all (\<lambda>c. c \<le> MAX_CODE_POINT) cs \<Longrightarrow> one cs i = Some (c, j) \<Longrightarrow> c \<le> MAX_CODE_POINT"
  by (auto simp: one_def char_get_Some list_all_length split: option.splits if_splits dest!: read_escape_Some)

abbreviation bounded :: "char_range list \<Rightarrow> bool" where
  "bounded r \<equiv> list_all (\<lambda>x. fst x \<le> MAX_CODE_POINT \<and> snd x \<le> MAX_CODE_POINT) r"

lemma split_units_bounded: "c \<le> MAX_CODE_POINT \<Longrightarrow> bounded (split_units units raw c)"
proof -
  assume c: "c \<le> MAX_CODE_POINT"
  have l: "0xD800 + (c - 0x10000) div 2 ^ 10 \<le> MAX_CODE_POINT" using c by (simp add: MAX_CODE_POINT_def)
  have "(c - 0x10000) mod 0x400 < 0x400" by (rule mod_less_divisor) simp
  then have t: "0xDC00 + (c - 0x10000) mod 0x400 \<le> MAX_CODE_POINT" unfolding MAX_CODE_POINT_def by linarith
  show ?thesis unfolding split_units_def Let_def using l t by (simp del: power_numeral)
qed

lemma class_members_bounded:
  "list_all (\<lambda>c. c \<le> MAX_CODE_POINT) cs \<Longrightarrow> bounded ranges \<Longrightarrow>
   class_members units cs i ranges = Some (r, j) \<Longrightarrow> bounded r"
proof (induction units cs i ranges rule: class_members.induct)
  case (1 units cs i ranges)
  show ?case
  proof (cases "i < length cs \<and> cs ! i \<noteq> cp CHR '']''")
    case True
    obtain lo i1 where o: "one cs i = Some (lo, i1)"
      using "1.prems"(3) True by (subst (asm) class_members.simps) (auto split: option.splits)
    have lo: "lo \<le> MAX_CODE_POINT" by (rule one_bounded [OF "1.prems"(1) o])
    let ?r = "ranges @ split_units units (cs ! i \<noteq> BACKSLASH) lo"
    have br: "bounded ?r" using "1.prems"(2) split_units_bounded [OF lo] by simp
    show ?thesis
    proof (cases "char_get cs i1 = Some (cp CHR ''-'') \<and> char_get cs (i1 + 1) \<notin> {None, Some (cp CHR '']'')}")
      case dash: True
      obtain hi i2 where o2: "one cs (i1 + 1) = Some (hi, i2)"
        using "1.prems"(3) True o dash by (subst (asm) class_members.simps) (auto split: option.splits)
      have hi: "hi \<le> MAX_CODE_POINT" by (rule one_bounded [OF "1.prems"(1) o2])
      have "class_members units cs i2 (?r @ split_units units (char_get cs (i1 + 1) \<noteq> Some BACKSLASH) hi @ [(lo, hi)]) = Some (r, j)"
        using "1.prems"(3) True o dash o2 by (subst (asm) class_members.simps) (simp add: Let_def)
      from "1.IH"(1) [OF True o refl refl dash o2 refl "1.prems"(1) _ this] br lo hi split_units_bounded [OF hi]
      show ?thesis by simp
    next
      case False
      have "class_members units cs i1 (?r @ [(lo, lo)]) = Some (r, j)"
        using "1.prems"(3) True o False by (subst (asm) class_members.simps) (auto simp: Let_def)
      from "1.IH"(2) [OF True o refl refl False "1.prems"(1) _ this] br lo show ?thesis by simp
    qed
  next
    case False
    then have "class_members units cs i ranges = Some (ranges, i)" by (subst class_members.simps) auto
    then show ?thesis using "1.prems" by simp
  qed
qed

lemma complement_bounded: "bounded r \<Longrightarrow> bounded (complement r)"
proof -
  assume r: "bounded r"
  have "bounded (fst (foldl complement_step ([], 0) (sort_key fst r)))"
  proof (rule foldl_invariant [where P = "\<lambda>acc. bounded (fst acc)"])
    fix a :: "char_range list \<times> nat" and x assume x: "x \<in> set (sort_key fst r)" and a: "bounded (fst a)"
    have "fst x \<le> MAX_CODE_POINT" using r x by (simp add: list_all_iff)
    then show "bounded (fst (complement_step a x))" using a by (auto simp: complement_step_def split: prod.splits)
  qed simp
  then show ?thesis by (auto simp: complement_def split: prod.splits)
qed

lemma pattern_char_ranges_bounded:
  assumes "list_all (\<lambda>c. c \<le> MAX_CODE_POINT) (chars pattern)" and "pattern_char_ranges pattern flags = Some r"
  shows "bounded r"
proof -
  have nil: "bounded []" by simp
  show ?thesis
    using assms(2)
    by (auto simp: pattern_char_ranges_def Let_def split: if_splits option.splits
        dest: one_bounded [OF assms(1)] class_members_bounded [OF assms(1) nil] intro!: complement_bounded)
       (simp add: MAX_CODE_POINT_def)?
qed

text \<open>A negated class covers what the class covers not.\<close>

lemma negated_class:
  assumes "chars pattern = 91 # 94 # body" and "class_members (code_units flags) (91 # 94 # body) 2 [] = Some (r, i)"
    and "char_get (91 # 94 # body) i = Some 93" and "pattern_char_ranges pattern flags = Some out"
  shows "spans out \<inter> {..MAX_CODE_POINT} = {..MAX_CODE_POINT} - spans r"
proof -
  have "chars any_character = [91, 92, 115, 92, 83, 93]" by code_simp
  then have "pattern \<noteq> any_character" using assms(1) by auto
  then have "out = complement r" using assms by (simp add: pattern_char_ranges_def char_get_def)
  then show ?thesis using spans_complement by simp
qed

section \<open>The analysis of a grammar's classes\<close>

definition terminal_classes :: "element list \<Rightarrow> char_range list list" where
  "terminal_classes terminals =
     List.map_filter (\<lambda>el. case kind_of el of Regex pattern flags \<Rightarrow> single_code_point_ranges pattern flags | _ \<Rightarrow> None) terminals"

lemma class_coverage_fold:
  assumes "foldl class_coverage_step (cov, units) terminals = (cov', units')"
    and "distinct (map fst cov)" and "\<forall>(k, r)\<in>set cov. merged r"
    and "list_all proper (terminal_classes terminals)"
  shows "distinct (map fst cov') \<and> (\<forall>(k, r)\<in>set cov'. merged r)"
  using assms
proof (induction terminals arbitrary: cov units)
  case (Cons el terminals)
  obtain cov1 units1 where s: "class_coverage_step (cov, units) el = (cov1, units1)" by fastforce
  have rest: "list_all proper (terminal_classes terminals)"
    using Cons.prems(4) by (auto simp: terminal_classes_def List.map_filter_simps split: option.splits)
  have "distinct (map fst cov1) \<and> (\<forall>(k, r)\<in>set cov1. merged r)"
  proof (cases "cov1 = cov")
    case False
    then obtain pattern flags r where k: "kind_of el = Regex pattern flags"
      "single_code_point_ranges pattern flags = Some r"
      "cov1 = imap_insert (regex_key pattern flags) (normalize_ranges r) cov"
      using s by (auto simp: class_coverage_step_def Let_def split: kind.splits option.splits if_splits)
    have "proper r" using Cons.prems(4) k by (simp add: terminal_classes_def List.map_filter_simps)
    then have m: "merged (normalize_ranges r)" using normalize_shape by blast
    have "set cov1 \<subseteq> insert (regex_key pattern flags, normalize_ranges r) (set cov)"
      unfolding k(3) by (rule set_imap_insert)
    then have "\<forall>e\<in>set cov1. merged (snd e)" using Cons.prems(3) m by fastforce
    then show ?thesis using Cons.prems(2) k(3) by (auto simp: distinct_imap_insert)
  qed (use Cons.prems in simp)
  then show ?case using Cons.IH [of cov1 units1] Cons.prems(1) s rest by simp
qed simp

lemma class_coverage_shape:
  assumes "list_all proper (terminal_classes terminals)"
  shows "distinct (map fst (class_coverage terminals)) \<and> (\<forall>(k, r)\<in>set (class_coverage terminals). merged r)"
proof -
  obtain cov units where f: "foldl class_coverage_step ([], []) terminals = (cov, units)" by fastforce
  have c: "distinct (map fst cov) \<and> (\<forall>(k, r)\<in>set cov. merged r)"
    using class_coverage_fold [OF f _ _ assms] by simp
  have "set (class_coverage terminals) \<subseteq> set cov" by (auto simp: class_coverage_def f Let_def)
  moreover have "distinct (map fst (class_coverage terminals))"
    using c by (simp add: class_coverage_def f Let_def distinct_map_filter)
  ultimately show ?thesis using c by blast
qed

lemma merged_apart: "merged r \<Longrightarrow> apart r"
  by (rule sorted_wrt_mono_rel [of r "\<lambda>x y. snd x + 1 < fst y"]) auto

lemma merged_overlap: "merged a \<Longrightarrow> merged b \<Longrightarrow> char_ranges_overlap a b \<longleftrightarrow> spans a \<inter> spans b \<noteq> {}"
  using overlap_sound overlap_complete merged_apart by blast

lemma contested_iff:
  assumes "list_all proper (terminal_classes terminals)"
    and "map_of (ca_coverage (class_analysis_of terminals)) key = Some r"
  shows "key \<in> set (ca_contested (class_analysis_of terminals)) \<longleftrightarrow>
    (\<exists>other r'. other \<noteq> key \<and> map_of (ca_coverage (class_analysis_of terminals)) other = Some r' \<and> spans r \<inter> spans r' \<noteq> {})"
proof -
  let ?cov = "class_coverage terminals"
  note shape = class_coverage_shape [OF assms(1)]
  have d: "distinct (map fst ?cov)" using shape by blast
  have mem: "map_of ?cov k = Some v \<longleftrightarrow> (k, v) \<in> set ?cov" for k v by (rule map_of_eq_Some_iff [OF d])
  have key: "(key, r) \<in> set ?cov" using assms(2) mem by (simp add: class_analysis_of_def Let_def)
  have ov: "char_ranges_overlap r r' \<longleftrightarrow> spans r \<inter> spans r' \<noteq> {}" if "(k, r') \<in> set ?cov" for k r'
    by (rule merged_overlap) (use shape key that in auto)
  have "key \<in> set (contested_classes ?cov) \<longleftrightarrow>
      (\<exists>mine. (key, mine) \<in> set ?cov \<and> (\<exists>(other, r')\<in>set ?cov. other \<noteq> key \<and> char_ranges_overlap mine r'))"
    by (simp add: contested_classes_def list_ex_iff image_iff Bex_def split_def)
  also have "\<dots> \<longleftrightarrow> (\<exists>other r'. other \<noteq> key \<and> (other, r') \<in> set ?cov \<and> char_ranges_overlap r r')"
  proof -
    have "mine = r" if "(key, mine) \<in> set ?cov" for mine by (rule eq_key_imp_eq_value [OF d that key])
    then show ?thesis using key by blast
  qed
  also have "\<dots> \<longleftrightarrow> (\<exists>other r'. other \<noteq> key \<and> (other, r') \<in> set ?cov \<and> spans r \<inter> spans r' \<noteq> {})"
    by (intro iff_exI conj_cong refl ov)
  finally show ?thesis by (simp add: class_analysis_of_def Let_def mem)
qed

lemma contested_atoms:
  assumes "key \<in> set (ca_contested (class_analysis_of terminals))"
    and "map_of (ca_coverage (class_analysis_of terminals)) key = Some r"
  shows "spans r = spans (filter (\<lambda>z. span_of z \<subseteq> spans r) (ca_atoms (class_analysis_of terminals)))"
proof -
  let ?cov = "class_coverage terminals" and ?con = "contested_classes (class_coverage terminals)"
  have a: "ca_atoms (class_analysis_of terminals) = partition_ranges (map (imap_get_or [] ?cov) ?con)"
    using assms(1) by (auto simp: class_analysis_of_def Let_def)
  have "r = imap_get_or [] ?cov key" using assms(2) by (simp add: class_analysis_of_def Let_def imap_get_or_def)
  then have "r \<in> set (map (imap_get_or [] ?cov) ?con)" using assms(1) by (simp add: class_analysis_of_def Let_def)
  from atoms.atoms_of_coverage [OF this] show ?thesis by (simp add: a)
qed

section \<open>The properties\<close>

text \<open>
  C33: The partition is exact: its atoms are disjoint and ascending, they cover what the coverages
  cover, and each lies wholly inside or wholly outside each coverage.
\<close>

theorem partition_exact:
  "apart (partition_ranges cs) \<and> spans (partition_ranges cs) = (\<Union>r\<in>set cs. spans r) \<and>
   (z \<in> set (partition_ranges cs) \<longrightarrow> r \<in> set cs \<longrightarrow> span_of z \<subseteq> spans r \<or> span_of z \<inter> spans r = {})"
  by (intro conjI impI partition_apart [THEN conjunct1] atoms.spans_part atoms.atom_split)

lemma partition_exact_witness:
  "span_of (48, 49) \<subseteq> spans [(48, 57)] \<or> span_of (48, 49) \<inter> spans [(48, 57)] = {}"
proof (rule partition_exact [THEN conjunct2, THEN conjunct2, rule_format])
  show "(48, 49) \<in> set (partition_ranges [[(48, 57)], [(50, 57)]])"
    by (simp add: partition_ranges_def cut_points_def iset_insert_def List.map_filter_simps)
qed simp

text \<open>
  The partition of merged coverages is the coarsest: a run of characters that every coverage
  has as a whole or not at all, and some coverage has, lies in one atom.
\<close>

theorem partition_coarsest:
  assumes "\<And>r. r \<in> set cs \<Longrightarrow> merged r"
    and "\<And>r. r \<in> set cs \<Longrightarrow> {a..b} \<subseteq> spans r \<or> {a..b} \<inter> spans r = {}"
    and "a \<le> b" and "r0 \<in> set cs" and "a \<in> spans r0"
  shows "\<exists>z\<in>set (partition_ranges cs). {a..b} \<subseteq> span_of z"
  by (rule partition_coarsest_span [OF assms])

lemma partition_coarsest_witness:
  "\<exists>z\<in>set (partition_ranges [[(48, 57)], [(50, 57)]]). {50..57} \<subseteq> span_of z"
proof (rule partition_coarsest)
  show "[(50, 57)] \<in> set [[(48, 57)], [(50, 57::nat)]]" by simp
qed auto

text \<open>
  C35: The sweep decides overlap: on normalised coverages it answers exactly whether they share a
  character, and a positive answer can be trusted without normalising.
\<close>

theorem overlap_exact:
  assumes "proper a" and "proper b"
  shows "(char_ranges_overlap (normalize_ranges a) (normalize_ranges b) \<longleftrightarrow> spans a \<inter> spans b \<noteq> {}) \<and>
    (char_ranges_overlap a b \<longrightarrow> spans a \<inter> spans b \<noteq> {})"
  using merged_overlap [OF normalize_shape [OF assms(1)] normalize_shape [OF assms(2)]]
    overlap_sound [OF _ assms] by simp

lemma overlap_exact_witness:
  "char_ranges_overlap (normalize_ranges [(97, 97), (65, 65)]) (normalize_ranges [(65, 65)]) \<longleftrightarrow>
   spans [(97, 97), (65, 65)] \<inter> spans [(65, 65)] \<noteq> {}"
  by (rule overlap_exact [THEN conjunct1]) simp_all

text \<open>Without normalising, the sweep misses a shared character when the spans are out of order.\<close>

lemma overlap_needs_order:
  "\<not> char_ranges_overlap [(97, 97), (65, 65)] [(65, 65)] \<and> spans [(97, 97), (65, 65)] \<inter> spans [(65, 65)] \<noteq> {}"
  by simp

text \<open>
  A span written as an atom's pattern reads back as that span, whatever reading of the
  surrogates it is written for.
\<close>

theorem class_pattern_roundtrip:
  assumes "is_scalar lo" and "is_scalar hi" and "lo \<le> hi"
  shows "pattern_char_ranges (fst (class_pattern lo hi points)) flags = Some [(lo, hi)]"
  by (rule class_pattern_reads_back [OF assms])

lemma class_pattern_roundtrip_witness:
  "pattern_char_ranges (fst (class_pattern 0x1F600 0x1F64F False)) ''u'' = Some [(0x1F600, 0x1F64F)]"
  by (rule class_pattern_roundtrip) (simp_all add: is_scalar_def MAX_CODE_POINT_def)

text \<open>
  C34: The analysis is right about contest: of classes that spell no reversed span, one is
  contested exactly when another shares a character with it, and then the atoms inside it cover
  exactly what it covers.
\<close>

theorem class_analysis_exact:
  assumes "list_all proper (terminal_classes terminals)"
    and "map_of (ca_coverage (class_analysis_of terminals)) key = Some r"
  shows "(key \<in> set (ca_contested (class_analysis_of terminals)) \<longleftrightarrow>
      (\<exists>other r'. other \<noteq> key \<and> map_of (ca_coverage (class_analysis_of terminals)) other = Some r' \<and> spans r \<inter> spans r' \<noteq> {})) \<and>
    (key \<in> set (ca_contested (class_analysis_of terminals)) \<longrightarrow>
      spans r = spans (filter (\<lambda>z. span_of z \<subseteq> spans r) (ca_atoms (class_analysis_of terminals))))"
  by (intro conjI impI contested_iff [OF assms] contested_atoms [OF _ assms(2)])

lemma digits_chars: "chars ''[0-9]'' = [91, 48, 45, 57, 93]" "chars ''[1-9]'' = [91, 49, 45, 57, 93]"
  by (simp_all add: chars_ascii del: chars.simps)

lemmas read_class = single_code_point_ranges_def single_code_point_coverage_def pattern_char_ranges_def
  any_character_def class_close.simps class_members.simps one_def char_get_def split_units_def
  code_unit_matcher_past_bmp_def

lemma digit_classes:
  "single_code_point_ranges ''[0-9]'' [] = Some [(48, 57)]" "single_code_point_ranges ''[1-9]'' [] = Some [(49, 57)]"
  by (simp_all add: read_class digits_chars del: chars.simps)

definition class_example :: "element list" where
  "class_example = [el_regex ''[0-9]'' [], el_regex ''[1-9]'' []]"

lemma class_example_coverage:
  "ca_coverage (class_analysis_of class_example) = [(''/[0-9]/'', [(48, 57)]), (''/[1-9]/'', [(49, 57)])]"
  by (simp add: class_analysis_of_def class_coverage_def class_example_def class_coverage_step_def el_regex_def el_of_def
      digit_classes regex_key_def code_units_def iset_insert_def normalize_ranges_def lead_surrogates_def Let_def)

lemma class_analysis_exact_witness:
  "''/[0-9]/'' \<in> set (ca_contested (class_analysis_of class_example)) \<longleftrightarrow>
    (\<exists>other r'. other \<noteq> ''/[0-9]/'' \<and> map_of (ca_coverage (class_analysis_of class_example)) other = Some r' \<and>
      spans [(48, 57)] \<inter> spans r' \<noteq> {})"
proof (rule class_analysis_exact [THEN conjunct1])
  show "list_all proper (terminal_classes class_example)"
    by (simp add: terminal_classes_def class_example_def el_regex_def el_of_def digit_classes List.map_filter_simps)
qed (simp add: class_example_coverage)

text \<open>
  A \<open>]\<close> that opens a class is a member of it for the head scanner and for the \<open>regex\<close> crate, and
  closes it for the coverage reader, which finds such a class empty.
\<close>

lemma leading_bracket_read_twice:
  "regex_head_atom_end ''[]a]'' = Some 4 \<and> pattern_char_ranges ''[]a]'' [] = Some []"
proof -
  have "chars ''[]a]'' = [91, 93, 97, 93]" by (simp add: chars_ascii del: chars.simps)
  then show ?thesis by (simp add: regex_head_atom_end_def read_class del: chars.simps)
qed

end
