(* ===== verification/Token_Span.thy ===== *)
theory Token_Span
  imports Language
begin

text \<open>
  \<open>seq_token_span\<close> of \<open>rs/src/factor.rs\<close>: the most tokens a sequence can span, as the stack
  machine the code runs, and the recursion it replaces. The machine stops early and keeps a room
  for every frame; the recursion does neither. The two agree, so the early exits lose nothing.
\<close>

definition LOOKAHEAD_K :: nat where
  "LOOKAHEAD_K = 4"

text \<open>\<open>usize\<close> arithmetic, at 64 bits.\<close>

definition USIZE_MAX :: nat where
  "USIZE_MAX = 2 ^ 64 - 1"

definition saturating_add :: "nat \<Rightarrow> nat \<Rightarrow> nat" where
  "saturating_add a b = min (a + b) USIZE_MAX"

definition checked_mul :: "nat \<Rightarrow> nat \<Rightarrow> nat option" where
  "checked_mul a b = (if a * b \<le> USIZE_MAX then Some (a * b) else None)"

section \<open>The machine\<close>

datatype span_frame =
    SeqFrame (sf_elements: seq) (sf_at: nat) (sf_total: nat) (sf_room: nat)
  | AltsFrame (af_alternatives: "seq list") (af_at: nat) (af_most: nat) (af_room: nat) (af_rule: "string option")
  | RepFrame (rf_times: nat)

text \<open>The stack, its top first; what the top was waiting for; the rules on the way.\<close>

record span_state =
  st_stack :: "span_frame list"
  st_back :: "nat option option"
  st_on_way :: "string list"

datatype span_next = Begin element nat | Push span_frame | Finish "nat option"

fun begin_span :: "grammar \<Rightarrow> element \<Rightarrow> nat \<Rightarrow> span_state \<Rightarrow> span_state" where
  "begin_span g (Element (Term _ _ _) _) room s = s\<lparr>st_back := Some (Some 1)\<rparr>"
| "begin_span g (Element (Regex _ _) _) room s = s\<lparr>st_back := Some (Some 1)\<rparr>"
| "begin_span g (Element (Token _) _) room s = s\<lparr>st_back := Some (Some 1)\<rparr>"
| "begin_span g (Element (Prose _) _) room s = s\<lparr>st_back := Some None\<rparr>"
| "begin_span g (Element (Star _ _) _) room s = s\<lparr>st_back := Some None\<rparr>"
| "begin_span g (Element (Plus _) _) room s = s\<lparr>st_back := Some None\<rparr>"
| "begin_span g (Element (Opt i) _) room s = begin_span g i room s"
| "begin_span g (Element (Rep _ mx i) _) room s =
     (case mx of
        None \<Rightarrow> s\<lparr>st_back := Some None\<rparr>
      | Some reps \<Rightarrow>
          if reps = 0 then s\<lparr>st_back := Some (Some 0)\<rparr>
          else begin_span g i (room div reps) (s\<lparr>st_stack := RepFrame reps # st_stack s\<rparr>))"
| "begin_span g (Element (Group alts) _) room s =
     s\<lparr>st_stack := AltsFrame alts 0 0 room None # st_stack s, st_back := None\<rparr>"
| "begin_span g (Element (Ref name _) _) room s =
     (if name \<in> set (st_on_way s) then s\<lparr>st_back := Some None\<rparr>
      else
        (case find_prod g name of
           None \<Rightarrow> s\<lparr>st_back := Some None\<rparr>
         | Some target \<Rightarrow>
             if p_alts target = [] then s\<lparr>st_back := Some None\<rparr>
             else
               s\<lparr>st_stack := AltsFrame (p_alts target) 0 0 room (Some name) # st_stack s,
                 st_back := None, st_on_way := name # st_on_way s\<rparr>))"

text \<open>What the frame on top does next, and the frame as it then stands.\<close>

definition frame_next :: "span_frame \<Rightarrow> nat option option \<Rightarrow> span_frame \<times> span_next" where
  "frame_next f back =
     (case f of
        SeqFrame els at acc room \<Rightarrow>
          (case back of
             Some None \<Rightarrow> (f, Finish None)
           | waited \<Rightarrow>
               (let acc = (case waited of Some (Some n) \<Rightarrow> saturating_add acc n | _ \<Rightarrow> acc)
                in if room < acc then (SeqFrame els at acc room, Finish None)
                   else if at < length els then (SeqFrame els (at + 1) acc room, Begin (els ! at) (room - acc))
                   else (SeqFrame els at acc room, Finish (Some acc))))
      | AltsFrame alts at most room rule \<Rightarrow>
          (case back of
             Some None \<Rightarrow> (f, Finish None)
           | waited \<Rightarrow>
               (let most = (case waited of Some (Some n) \<Rightarrow> max most n | _ \<Rightarrow> most)
                in if at < length alts
                   then (AltsFrame alts (at + 1) most room rule, Push (SeqFrame (alts ! at) 0 0 room))
                   else (AltsFrame alts at most room rule, Finish (Some most))))
      | RepFrame reps \<Rightarrow>
          (f, Finish (case back of Some (Some n) \<Rightarrow> checked_mul reps n | _ \<Rightarrow> None)))"

text \<open>
  One turn of the loop. A finished frame leaves the stack, its rule the way; the answer stands in
  \<open>st_back\<close> once the stack is empty.
\<close>

definition span_step :: "grammar \<Rightarrow> span_state \<Rightarrow> span_state" where
  "span_step g s =
     (case st_stack s of
        [] \<Rightarrow> s
      | f # rest \<Rightarrow>
          (case frame_next f (st_back s) of
             (f', Begin el room) \<Rightarrow> begin_span g el room (s\<lparr>st_stack := f' # rest\<rparr>)
           | (f', Push frame) \<Rightarrow> s\<lparr>st_stack := frame # f' # rest, st_back := None\<rparr>
           | (f', Finish span) \<Rightarrow>
               \<lparr>st_stack = rest, st_back = Some span,
                st_on_way = (case f' of AltsFrame _ _ _ _ (Some rule) \<Rightarrow> removeAll rule (st_on_way s) | _ \<Rightarrow> st_on_way s)\<rparr>))"

definition span_loop :: "grammar \<Rightarrow> span_state \<Rightarrow> span_state option" where
  "span_loop g = while_option (\<lambda>s. st_stack s \<noteq> []) (span_step g)"

definition seq_token_span :: "seq \<Rightarrow> grammar \<Rightarrow> nat option" where
  "seq_token_span sq g =
     (case span_loop g \<lparr>st_stack = [SeqFrame sq 0 0 LOOKAHEAD_K], st_back = None, st_on_way = []\<rparr> of
        Some s \<Rightarrow> Option.bind (st_back s) id
      | None \<Rightarrow> None)"

section \<open>The recursion\<close>

fun opt_sum :: "('a \<Rightarrow> nat option) \<Rightarrow> 'a list \<Rightarrow> nat option" where
  "opt_sum f [] = Some 0"
| "opt_sum f (x # xs) = (case f x of None \<Rightarrow> None | Some n \<Rightarrow> map_option (\<lambda>m. n + m) (opt_sum f xs))"

fun opt_max :: "('a \<Rightarrow> nat option) \<Rightarrow> 'a list \<Rightarrow> nat option" where
  "opt_max f [] = Some 0"
| "opt_max f (x # xs) = (case f x of None \<Rightarrow> None | Some n \<Rightarrow> map_option (\<lambda>m. max n m) (opt_max f xs))"

lemma opt_sum_cong [fundef_cong]:
  "xs = ys \<Longrightarrow> (\<And>x. x \<in> set ys \<Longrightarrow> f x = g x) \<Longrightarrow> opt_sum f xs = opt_sum g ys"
  by (induction ys arbitrary: xs) (auto split: option.split)

lemma opt_max_cong [fundef_cong]:
  "xs = ys \<Longrightarrow> (\<And>x. x \<in> set ys \<Longrightarrow> f x = g x) \<Longrightarrow> opt_max f xs = opt_max g ys"
  by (induction ys arbitrary: xs) (auto split: option.split)

text \<open>The rules of the grammar that are not on the way yet.\<close>

definition ways_left :: "grammar \<Rightarrow> string list \<Rightarrow> nat" where
  "ways_left g way = card (set (names (productions g)) - set way)"

lemma ways_left_less:
  assumes "find_prod g name = Some p" and "name \<notin> set way"
  shows "ways_left g (name # way) < ways_left g way"
proof -
  have "name \<in> set (names (productions g)) - set way"
    using find_prod_Some [OF assms(1)] assms(2) by force
  then have "set (names (productions g)) - set (name # way) \<subset> set (names (productions g)) - set way" by auto
  then show ?thesis unfolding ways_left_def by (rule psubset_card_mono [rotated]) simp
qed

function el_span :: "grammar \<Rightarrow> string list \<Rightarrow> element \<Rightarrow> nat option" where
  "el_span g way (Element (Term _ _ _) sp) = Some 1"
| "el_span g way (Element (Regex _ _) sp) = Some 1"
| "el_span g way (Element (Token _) sp) = Some 1"
| "el_span g way (Element (Prose _) sp) = None"
| "el_span g way (Element (Star _ _) sp) = None"
| "el_span g way (Element (Plus _) sp) = None"
| "el_span g way (Element (Opt i) sp) = el_span g way i"
| "el_span g way (Element (Rep _ mx i) sp) =
     (case mx of None \<Rightarrow> None | Some reps \<Rightarrow> if reps = 0 then Some 0 else map_option (\<lambda>n. reps * n) (el_span g way i))"
| "el_span g way (Element (Group alts) sp) = opt_max (opt_sum (el_span g way)) alts"
| "el_span g way (Element (Ref name d) sp) =
     (if name \<in> set way then None
      else
        (case find_prod g name of
           None \<Rightarrow> None
         | Some target \<Rightarrow>
             if p_alts target = [] then None else opt_max (opt_sum (el_span g (name # way))) (p_alts target)))"
  by pat_completeness auto
termination
  by (relation "measures [\<lambda>(g, way, el). ways_left g way, \<lambda>(g, way, el). size el]")
     (auto simp: ways_left_less termination_simp)

section \<open>The machine computes the recursion\<close>

text \<open>What is left of an answer when more than the room counts as unbounded.\<close>

definition within :: "nat \<Rightarrow> nat option \<Rightarrow> nat option" where
  "within room v = (case v of Some n \<Rightarrow> if n \<le> room then Some n else None | None \<Rightarrow> None)"

lemma map_option_zero [simp]:
  "map_option (\<lambda>n. (0::nat) + n) v = v" "map_option (\<lambda>n. max (0::nat) n) v = v"
  by (cases v; simp)+

abbreviation runs :: "grammar \<Rightarrow> span_state \<Rightarrow> span_state \<Rightarrow> bool" where
  "runs g \<equiv> (\<lambda>s t. st_stack s \<noteq> [] \<and> t = span_step g s)\<^sup>*\<^sup>*"

lemma runs_step: "st_stack s \<noteq> [] \<Longrightarrow> runs g (span_step g s) t \<Longrightarrow> runs g s t"
  by (rule converse_rtranclp_into_rtranclp) auto

lemma eq_rtranclp: "s = t \<Longrightarrow> R\<^sup>*\<^sup>* s t"
  by simp

lemma span_loop_runs: "runs g s t \<Longrightarrow> st_stack t = [] \<Longrightarrow> span_loop g s = Some t"
proof (induction rule: converse_rtranclp_induct)
  case base
  then show ?case by (simp add: span_loop_def while_option_unfold)
next
  case (step s u)
  then show ?case by (simp add: span_loop_def while_option_unfold [of _ _ s])
qed

text \<open>An element that, once begun, is answered as \<open>f\<close> answers it, up to the room.\<close>

definition answers :: "grammar \<Rightarrow> string list \<Rightarrow> (element \<Rightarrow> nat option) \<Rightarrow> element \<Rightarrow> bool" where
  "answers g way f el \<longleftrightarrow>
     (\<forall>room s. room < USIZE_MAX \<longrightarrow> st_on_way s = way \<longrightarrow>
       (\<exists>r. runs g (begin_span g el room s) (s\<lparr>st_back := Some r\<rparr>) \<and> within room r = within room (f el)))"

lemma answers_now:
  assumes "\<And>room s. st_on_way s = way \<Longrightarrow> begin_span g el room s = s\<lparr>st_back := Some (f el)\<rparr>"
  shows "answers g way f el"
  unfolding answers_def by (intro allI impI exI [of _ "f el"]) (simp add: assms)

lemma answersE:
  assumes "answers g way f el" and "room < USIZE_MAX" and "st_on_way s = way"
  obtains r where "runs g (begin_span g el room s) (s\<lparr>st_back := Some r\<rparr>)" and "within room r = within room (f el)"
  using assms unfolding answers_def by blast

definition waited :: "nat \<Rightarrow> nat option option \<Rightarrow> nat option" where
  "waited acc back = (case back of None \<Rightarrow> Some acc | Some None \<Rightarrow> None | Some (Some n) \<Rightarrow> Some (saturating_add acc n))"

lemma seq_frame_runs:
  assumes "\<And>el. el \<in> set els \<Longrightarrow> answers g way f el" and "room < USIZE_MAX"
  shows "runs g \<lparr>st_stack = SeqFrame els ix acc room # rest, st_back = bk, st_on_way = way\<rparr>
    \<lparr>st_stack = rest,
     st_back = Some (within room (Option.bind (waited acc bk) (\<lambda>t. map_option (\<lambda>n. t + n) (opt_sum f (drop ix els))))),
     st_on_way = way\<rparr>"
proof (induction "length els - ix" arbitrary: ix acc bk)
  case 0
  then have "span_step g \<lparr>st_stack = SeqFrame els ix acc room # rest, st_back = bk, st_on_way = way\<rparr> =
    \<lparr>st_stack = rest, st_back = Some (within room (waited acc bk)), st_on_way = way\<rparr>"
    by (auto simp: span_step_def frame_next_def waited_def within_def Let_def split: option.splits)
  then show ?case
    using 0 by (intro runs_step [OF _ eq_rtranclp]) (auto simp: option.map_ident)
next
  case (Suc k)
  let ?s = "\<lparr>st_stack = SeqFrame els ix acc room # rest, st_back = bk, st_on_way = way\<rparr>"
  have ix: "ix < length els" using Suc.hyps(2) by simp
  define el where "el = els ! ix"
  have dr: "drop ix els = el # drop (Suc ix) els" using ix by (simp add: el_def Cons_nth_drop_Suc)
  show ?case
  proof (cases "\<exists>t. waited acc bk = Some t \<and> t \<le> room")
    case False
    then have "span_step g ?s = \<lparr>st_stack = rest, st_back = Some None, st_on_way = way\<rparr>"
      by (auto simp: span_step_def frame_next_def waited_def Let_def split: option.splits)
    moreover have "within room (Option.bind (waited acc bk) (\<lambda>t. map_option (\<lambda>n. t + n) (opt_sum f (drop ix els)))) = None"
      using False by (cases "waited acc bk") (auto simp: within_def split: option.splits)
    ultimately show ?thesis by - (rule runs_step, simp_all)
  next
    case True
    then obtain t where t: "waited acc bk = Some t" "t \<le> room" by blast
    let ?u = "\<lparr>st_stack = SeqFrame els (Suc ix) t room # rest, st_back = bk, st_on_way = way\<rparr>"
    have step: "span_step g ?s = begin_span g el (room - t) ?u"
      using t ix by (auto simp: span_step_def frame_next_def waited_def Let_def el_def split: option.splits)
    have "answers g way f el" using assms(1) ix by (simp add: el_def)
    then obtain r where r: "runs g (begin_span g el (room - t) ?u) (?u\<lparr>st_back := Some r\<rparr>)"
      "within (room - t) r = within (room - t) (f el)"
      by (rule answersE [where room = "room - t" and s = ?u]) (use assms(2) in simp_all)
    let ?v = "\<lparr>st_stack = SeqFrame els (Suc ix) t room # rest, st_back = Some r, st_on_way = way\<rparr>"
    have ih: "runs g ?v \<lparr>st_stack = rest,
       st_back = Some (within room (Option.bind (waited t (Some r)) (\<lambda>t. map_option (\<lambda>n. t + n) (opt_sum f (drop (Suc ix) els))))),
       st_on_way = way\<rparr>"
      by (rule Suc.hyps(1)) (use Suc.hyps(2) in simp)
    have "within room (Option.bind (waited t (Some r)) (\<lambda>t. map_option (\<lambda>n. t + n) (opt_sum f (drop (Suc ix) els)))) =
        within room (Option.bind (waited acc bk) (\<lambda>t. map_option (\<lambda>n. t + n) (opt_sum f (drop ix els))))"
      using r(2) t assms(2)
      by (auto simp: dr within_def waited_def saturating_add_def split: option.splits if_splits)
    with ih have "runs g ?v \<lparr>st_stack = rest,
       st_back = Some (within room (Option.bind (waited acc bk) (\<lambda>t. map_option (\<lambda>n. t + n) (opt_sum f (drop ix els))))),
       st_on_way = way\<rparr>" by simp
    with r(1) have "runs g (begin_span g el (room - t) ?u) \<lparr>st_stack = rest,
       st_back = Some (within room (Option.bind (waited acc bk) (\<lambda>t. map_option (\<lambda>n. t + n) (opt_sum f (drop ix els))))),
       st_on_way = way\<rparr>" by (simp add: rtranclp_trans)
    then show ?thesis using step by - (rule runs_step, simp_all)
  qed
qed

definition waited_max :: "nat \<Rightarrow> nat option option \<Rightarrow> nat option" where
  "waited_max most back = (case back of None \<Rightarrow> Some most | Some None \<Rightarrow> None | Some (Some n) \<Rightarrow> Some (max most n))"

lemma alts_frame_runs:
  assumes "\<And>alt el. alt \<in> set alts \<Longrightarrow> el \<in> set alt \<Longrightarrow> answers g way f el" and "room < USIZE_MAX"
    and "\<And>m. waited_max most bk = Some m \<Longrightarrow> m \<le> room"
  shows "runs g \<lparr>st_stack = AltsFrame alts ix most room rule # rest, st_back = bk, st_on_way = way\<rparr>
    \<lparr>st_stack = rest,
     st_back = Some (within room (Option.bind (waited_max most bk) (\<lambda>m. map_option (max m) (opt_max (opt_sum f) (drop ix alts))))),
     st_on_way = (case rule of Some n \<Rightarrow> removeAll n way | None \<Rightarrow> way)\<rparr>"
  using assms(3)
proof (induction "length alts - ix" arbitrary: ix most bk)
  case 0
  let ?way = "case rule of Some n \<Rightarrow> removeAll n way | None \<Rightarrow> way"
  have "span_step g \<lparr>st_stack = AltsFrame alts ix most room rule # rest, st_back = bk, st_on_way = way\<rparr> =
    \<lparr>st_stack = rest, st_back = Some (within room (waited_max most bk)), st_on_way = ?way\<rparr>"
    using 0 by (auto simp: span_step_def frame_next_def waited_max_def within_def Let_def split: option.splits)
  then show ?case
    using 0 by (intro runs_step [OF _ eq_rtranclp]) (auto simp: option.map_ident)
next
  case (Suc k)
  let ?s = "\<lparr>st_stack = AltsFrame alts ix most room rule # rest, st_back = bk, st_on_way = way\<rparr>"
  have ix: "ix < length alts" using Suc.hyps(2) by simp
  define alt where "alt = alts ! ix"
  have dr: "drop ix alts = alt # drop (Suc ix) alts" using ix by (simp add: alt_def Cons_nth_drop_Suc)
  show ?case
  proof (cases "waited_max most bk")
    case None
    then have "span_step g ?s = \<lparr>st_stack = rest, st_back = Some None,
        st_on_way = (case rule of Some n \<Rightarrow> removeAll n way | None \<Rightarrow> way)\<rparr>"
      by (auto simp: span_step_def frame_next_def waited_max_def Let_def split: option.splits)
    then show ?thesis using None by - (rule runs_step, simp_all add: within_def)
  next
    case (Some m)
    let ?f = "AltsFrame alts (Suc ix) m room rule"
    have step: "span_step g ?s = \<lparr>st_stack = SeqFrame alt 0 0 room # ?f # rest, st_back = None, st_on_way = way\<rparr>"
      using Some ix by (auto simp: span_step_def frame_next_def waited_max_def Let_def alt_def split: option.splits)
    have "runs g \<lparr>st_stack = SeqFrame alt 0 0 room # ?f # rest, st_back = None, st_on_way = way\<rparr>
       \<lparr>st_stack = ?f # rest,
        st_back = Some (within room (Option.bind (waited 0 None) (\<lambda>t. map_option (\<lambda>n. t + n) (opt_sum f (drop 0 alt))))),
        st_on_way = way\<rparr>"
      by (rule seq_frame_runs) (use assms(1) [of alt] assms(2) ix in \<open>simp_all add: alt_def\<close>)
    then have one: "runs g \<lparr>st_stack = SeqFrame alt 0 0 room # ?f # rest, st_back = None, st_on_way = way\<rparr>
       \<lparr>st_stack = ?f # rest, st_back = Some (within room (opt_sum f alt)), st_on_way = way\<rparr>"
      by (simp add: waited_def)
    have m: "m \<le> room" using Suc.prems Some by simp
    have "runs g \<lparr>st_stack = ?f # rest, st_back = Some (within room (opt_sum f alt)), st_on_way = way\<rparr>
      \<lparr>st_stack = rest,
       st_back = Some (within room (Option.bind (waited_max m (Some (within room (opt_sum f alt))))
         (\<lambda>m. map_option (max m) (opt_max (opt_sum f) (drop (Suc ix) alts))))),
       st_on_way = (case rule of Some n \<Rightarrow> removeAll n way | None \<Rightarrow> way)\<rparr>"
    proof (rule Suc.hyps(1))
      show "k = length alts - Suc ix" using Suc.hyps(2) by simp
      show "m' \<le> room" if "waited_max m (Some (within room (opt_sum f alt))) = Some m'" for m'
        using that m by (auto simp: waited_max_def within_def split: option.splits if_splits)
    qed
    moreover have "within room (Option.bind (waited_max m (Some (within room (opt_sum f alt))))
         (\<lambda>m. map_option (max m) (opt_max (opt_sum f) (drop (Suc ix) alts)))) =
       within room (Option.bind (waited_max most bk) (\<lambda>m. map_option (max m) (opt_max (opt_sum f) (drop ix alts))))"
      unfolding Some bind.bind_lunit dr
      using m by (auto simp: within_def waited_max_def max.assoc split: option.splits if_splits)
    ultimately have "runs g \<lparr>st_stack = ?f # rest, st_back = Some (within room (opt_sum f alt)), st_on_way = way\<rparr>
      \<lparr>st_stack = rest,
       st_back = Some (within room (Option.bind (waited_max most bk) (\<lambda>m. map_option (max m) (opt_max (opt_sum f) (drop ix alts))))),
       st_on_way = (case rule of Some n \<Rightarrow> removeAll n way | None \<Rightarrow> way)\<rparr>" by simp
    with one have "runs g \<lparr>st_stack = SeqFrame alt 0 0 room # ?f # rest, st_back = None, st_on_way = way\<rparr>
      \<lparr>st_stack = rest,
       st_back = Some (within room (Option.bind (waited_max most bk) (\<lambda>m. map_option (max m) (opt_max (opt_sum f) (drop ix alts))))),
       st_on_way = (case rule of Some n \<Rightarrow> removeAll n way | None \<Rightarrow> way)\<rparr>" by (rule rtranclp_trans)
    then show ?thesis using step by - (rule runs_step, simp_all)
  qed
qed

lemma within_idem [simp]: "within room (within room v) = within room v"
  by (auto simp: within_def split: option.split)

lemma el_span_answers: "answers g way (el_span g way) el"
proof (induction g way el rule: el_span.induct)
  case (8 g way mn mx i sp)
  show ?case
  proof (cases mx)
    case None
    then show ?thesis by (intro answers_now) simp
  next
    case (Some k)
    show ?thesis
    proof (cases "k = 0")
      case True
      then show ?thesis using Some by (intro answers_now) simp
    next
      case False
      show ?thesis
        unfolding answers_def
      proof (intro allI impI)
        fix room and s :: span_state assume a: "room < USIZE_MAX" "st_on_way s = way"
        let ?u = "s\<lparr>st_stack := RepFrame k # st_stack s\<rparr>"
        obtain r where r: "runs g (begin_span g i (room div k) ?u) (?u\<lparr>st_back := Some r\<rparr>)"
          "within (room div k) r = within (room div k) (el_span g way i)"
          by (rule answersE [OF "8.IH" [OF Some False], where room = "room div k" and s = ?u])
             (use a le_less_trans [OF div_le_dividend] in simp_all)
        let ?v = "case r of Some n \<Rightarrow> checked_mul k n | None \<Rightarrow> None"
        have "span_step g (?u\<lparr>st_back := Some r\<rparr>) = s\<lparr>st_back := Some ?v\<rparr>"
          by (simp add: span_step_def frame_next_def split: option.split)
        then have "runs g (?u\<lparr>st_back := Some r\<rparr>) (s\<lparr>st_back := Some ?v\<rparr>)"
          by - (rule runs_step, simp_all)
        with r(1) have "runs g (begin_span g i (room div k) ?u) (s\<lparr>st_back := Some ?v\<rparr>)" by (rule rtranclp_trans)
        moreover have "within room ?v = within room (map_option (\<lambda>n. k * n) (el_span g way i))"
        proof -
          have fits: "n \<le> room div k \<longleftrightarrow> k * n \<le> room" for n
            using False by (simp add: less_eq_div_iff_mult_less_eq mult.commute)
          show ?thesis using r(2) a(1)
            by (auto simp: within_def checked_mul_def fits split: option.splits if_splits)
        qed
        ultimately show "\<exists>r. runs g (begin_span g (Element (Rep mn mx i) sp) room s) (s\<lparr>st_back := Some r\<rparr>) \<and>
            within room r = within room (el_span g way (Element (Rep mn mx i) sp))"
          using Some False by (intro exI [of _ ?v]) simp
      qed
    qed
  qed
next
  case (9 g way alts sp)
  show ?case
    unfolding answers_def
  proof (intro allI impI)
    fix room and s :: span_state assume a: "room < USIZE_MAX" "st_on_way s = way"
    have "runs g \<lparr>st_stack = AltsFrame alts 0 0 room None # st_stack s, st_back = None, st_on_way = way\<rparr>
      \<lparr>st_stack = st_stack s,
       st_back = Some (within room (Option.bind (waited_max 0 None) (\<lambda>m. map_option (max m) (opt_max (opt_sum (el_span g way)) (drop 0 alts))))),
       st_on_way = (case None of Some n \<Rightarrow> removeAll n way | None \<Rightarrow> way)\<rparr>"
      by (rule alts_frame_runs [OF _ a(1)]) (use 9 in \<open>auto simp: waited_max_def\<close>)
    then show "\<exists>r. runs g (begin_span g (Element (Group alts) sp) room s) (s\<lparr>st_back := Some r\<rparr>) \<and>
          within room r = within room (el_span g way (Element (Group alts) sp))"
      using a(2)
      by (intro exI [of _ "within room (opt_max (opt_sum (el_span g way)) alts)"])
         (cases s; simp add: waited_max_def)
  qed
next
  case (10 g way name d sp)
  show ?case
  proof (cases "name \<in> set way \<or> find_prod g name = None \<or> (\<exists>p. find_prod g name = Some p \<and> p_alts p = [])")
    case True
    then have "el_span g way (Element (Ref name d) sp) = None"
      "st_on_way s = way \<Longrightarrow> begin_span g (Element (Ref name d) sp) room s = s\<lparr>st_back := Some None\<rparr>" for room s
      by (auto split: option.split)
    then show ?thesis by (intro answers_now) simp
  next
    case False
    then obtain p where p: "name \<notin> set way" "find_prod g name = Some p" "p_alts p \<noteq> []" by auto
    show ?thesis
      unfolding answers_def
    proof (intro allI impI)
      fix room and s :: span_state assume a: "room < USIZE_MAX" "st_on_way s = way"
      have "runs g \<lparr>st_stack = AltsFrame (p_alts p) 0 0 room (Some name) # st_stack s, st_back = None, st_on_way = name # way\<rparr>
        \<lparr>st_stack = st_stack s,
         st_back = Some (within room (Option.bind (waited_max 0 None)
           (\<lambda>m. map_option (max m) (opt_max (opt_sum (el_span g (name # way))) (drop 0 (p_alts p)))))),
         st_on_way = (case Some name of Some n \<Rightarrow> removeAll n (name # way) | None \<Rightarrow> name # way)\<rparr>"
        by (rule alts_frame_runs [OF _ a(1)]) (use 10 p in \<open>auto simp: waited_max_def\<close>)
      then show "\<exists>r. runs g (begin_span g (Element (Ref name d) sp) room s) (s\<lparr>st_back := Some r\<rparr>) \<and>
            within room r = within room (el_span g way (Element (Ref name d) sp))"
        using a(2) p
        by (intro exI [of _ "within room (opt_max (opt_sum (el_span g (name # way))) (p_alts p))"])
           (cases s; simp add: waited_max_def)
    qed
  qed
next
  case (7 g way i sp)
  then show ?case by (simp add: answers_def)
qed (rule answers_now, simp)+

lemma seq_token_span_eq: "seq_token_span sq g = within LOOKAHEAD_K (opt_sum (el_span g []) sq)"
proof -
  have "runs g \<lparr>st_stack = SeqFrame sq 0 0 LOOKAHEAD_K # [], st_back = None, st_on_way = []\<rparr>
    \<lparr>st_stack = [],
     st_back = Some (within LOOKAHEAD_K (Option.bind (waited 0 None) (\<lambda>t. map_option (\<lambda>n. t + n) (opt_sum (el_span g []) (drop 0 sq))))),
     st_on_way = []\<rparr>"
    by (rule seq_frame_runs) (simp_all add: el_span_answers LOOKAHEAD_K_def USIZE_MAX_def)
  from span_loop_runs [OF this] show ?thesis
    by (simp add: seq_token_span_def waited_def option.map_ident)
qed

text \<open>
  The stack machine ends, and answers as the plain recursion does: the most tokens a sequence
  can span when that is at most the dispatcher's lookahead, unbounded otherwise.
\<close>

theorem seq_token_span_exact:
  "(\<exists>t. span_loop g \<lparr>st_stack = [SeqFrame sq 0 0 LOOKAHEAD_K], st_back = None, st_on_way = []\<rparr> = Some t \<and> st_stack t = []) \<and>
   seq_token_span sq g =
     (case opt_sum (el_span g []) sq of
        Some n \<Rightarrow> if n \<le> LOOKAHEAD_K then Some n else None
      | None \<Rightarrow> None)"
proof
  have "runs g \<lparr>st_stack = SeqFrame sq 0 0 LOOKAHEAD_K # [], st_back = None, st_on_way = []\<rparr>
    \<lparr>st_stack = [],
     st_back = Some (within LOOKAHEAD_K (Option.bind (waited 0 None) (\<lambda>t. map_option (\<lambda>n. t + n) (opt_sum (el_span g []) (drop 0 sq))))),
     st_on_way = []\<rparr>"
    by (rule seq_frame_runs) (simp_all add: el_span_answers LOOKAHEAD_K_def USIZE_MAX_def)
  from span_loop_runs [OF this]
  show "\<exists>t. span_loop g \<lparr>st_stack = [SeqFrame sq 0 0 LOOKAHEAD_K], st_back = None, st_on_way = []\<rparr> = Some t \<and> st_stack t = []"
    by simp
qed (simp add: seq_token_span_eq within_def)

end
