(* ===== verification/Factor.thy ===== *)
theory Factor
  imports Token_Span Ranges "HOL-Library.Multiset"
begin

text \<open>
  Left factoring, \<open>rs/src/factor.rs\<close>: the comparison of elements, the first characters of an
  element, and the loop that factors a run of alternatives with a common head. The loop keeps a
  queue of productions, the minted helpers among them; \<open>left_factor\<close> is total because every
  helper is smaller than the production it comes from (\<open>factor_smaller\<close>).
  Upper- and lower-casing of a character outside ASCII is Unicode data of the standard library
  and enters as the parameter \<open>uc\<close>.
\<close>

section \<open>Equal elements\<close>

definition debt_key :: "debts option \<Rightarrow> string" where
  "debt_key debt =
     (case debt of
        None \<Rightarrow> []
      | Some d \<Rightarrow>
          join '','' (map (\<lambda>k. k @ ''='' @ int_str (imap_get_or 0 d k)) (sort_key utf16 (map fst d))))"

function elem_equal :: "element \<Rightarrow> element \<Rightarrow> bool" where
  "elem_equal (Element (Term l c _) _) b = (case kind_of b of Term l' c' _ \<Rightarrow> term_key l c = term_key l' c' | _ \<Rightarrow> False)"
| "elem_equal (Element (Token x) _) b = (case kind_of b of Token y \<Rightarrow> x = y | _ \<Rightarrow> False)"
| "elem_equal (Element (Ref x dx) _) b = (case kind_of b of Ref y dy \<Rightarrow> x = y \<and> debt_key dx = debt_key dy | _ \<Rightarrow> False)"
| "elem_equal (Element (Regex px fx) _) b = (case kind_of b of Regex py fy \<Rightarrow> px = py \<and> fx = fy | _ \<Rightarrow> False)"
| "elem_equal (Element (Prose _) _) b = False"
| "elem_equal (Element (Star ix gx) _) b = (case kind_of b of Star iy gy \<Rightarrow> gx = gy \<and> elem_equal ix iy | _ \<Rightarrow> False)"
| "elem_equal (Element (Opt ix) _) b = (case kind_of b of Opt iy \<Rightarrow> elem_equal ix iy | _ \<Rightarrow> False)"
| "elem_equal (Element (Plus ix) _) b = (case kind_of b of Plus iy \<Rightarrow> elem_equal ix iy | _ \<Rightarrow> False)"
| "elem_equal (Element (Rep mx nx ix) _) b =
     (case kind_of b of Rep my ny iy \<Rightarrow> mx = my \<and> nx = ny \<and> elem_equal ix iy | _ \<Rightarrow> False)"
| "elem_equal (Element (Group ax) _) b =
     (case kind_of b of
        Group ay \<Rightarrow>
          length ax = length ay \<and>
          list_all (\<lambda>(x, y). length x = length y \<and> list_all (\<lambda>(a, b). elem_equal a b) (zip x y)) (zip ax ay)
      | _ \<Rightarrow> False)"
  by pat_completeness auto
termination
  by (relation "measure (\<lambda>(a, b). size a)") (auto dest!: set_zip_leftD simp: termination_simp)

definition seq_equal :: "seq \<Rightarrow> seq \<Rightarrow> bool" where
  "seq_equal a b = (length a = length b \<and> list_all (\<lambda>(x, y). elem_equal x y) (zip a b))"

section \<open>First characters\<close>

fun opt_concat :: "('a \<Rightarrow> 'b list option) \<Rightarrow> 'a list \<Rightarrow> 'b list option" where
  "opt_concat f [] = Some []"
| "opt_concat f (x # xs) = (case f x of None \<Rightarrow> None | Some ys \<Rightarrow> map_option (\<lambda>zs. ys @ zs) (opt_concat f xs))"

lemma opt_concat_cong [fundef_cong]:
  "xs = ys \<Longrightarrow> (\<And>x. x \<in> set ys \<Longrightarrow> f x = g x) \<Longrightarrow> opt_concat f xs = opt_concat g ys"
  by (induction ys arbitrary: xs) (auto split: option.split)

definition term_first :: "(nat \<Rightarrow> nat \<times> nat) \<Rightarrow> string \<Rightarrow> bool option \<Rightarrow> char_range list option" where
  "term_first uc literal cs =
     (case chars literal of
        [] \<Rightarrow> None
      | c # _ \<Rightarrow>
          if \<not> is_effectively_case_sensitive literal cs then
            (let (lo, up) = uc c
             in Some (code_unit_reach (if lo = up then [(c, c)] else [(lo, lo), (up, up)]) []))
          else Some (code_unit_reach [(c, c)] []))"

function first_char_ranges_of_element ::
  "(nat \<Rightarrow> nat \<times> nat) \<Rightarrow> grammar \<Rightarrow> string list \<Rightarrow> element \<Rightarrow> char_range list option" where
  "first_char_ranges_of_element uc g visited (Element (Term literal cs _) sp) = term_first uc literal cs"
| "first_char_ranges_of_element uc g visited (Element (Regex pattern flags) sp) =
     map_option (\<lambda>r. code_unit_reach r flags) (pattern_char_ranges pattern flags)"
| "first_char_ranges_of_element uc g visited (Element (Ref name d) sp) =
     (if name \<in> set visited then None
      else
        (case find_prod g name of
           None \<Rightarrow> None
         | Some target \<Rightarrow>
             if p_alts target = [] then None
             else
               opt_concat (\<lambda>alt. case alt of
                   [] \<Rightarrow> None
                 | first # _ \<Rightarrow> first_char_ranges_of_element uc g (name # visited) first) (p_alts target)))"
| "first_char_ranges_of_element uc g visited (Element (Group alts) sp) =
     opt_concat (\<lambda>alt. case alt of
         [] \<Rightarrow> None
       | first # _ \<Rightarrow> first_char_ranges_of_element uc g visited first) alts"
| "first_char_ranges_of_element uc g visited (Element (Plus i) sp) = first_char_ranges_of_element uc g visited i"
| "first_char_ranges_of_element uc g visited (Element (Rep mn mx i) sp) =
     (if 0 < mn then first_char_ranges_of_element uc g visited i else None)"
| "first_char_ranges_of_element uc g visited (Element (Opt i) sp) = None"
| "first_char_ranges_of_element uc g visited (Element (Star i dg) sp) = None"
| "first_char_ranges_of_element uc g visited (Element (Token name) sp) = None"
| "first_char_ranges_of_element uc g visited (Element (Prose text) sp) = None"
  by pat_completeness auto
termination
  by (relation "measures [\<lambda>(uc, g, v, el). ways_left g v, \<lambda>(uc, g, v, el). size el]")
     (auto simp: ways_left_less termination_simp)

section \<open>One factoring step\<close>

function unwrap_alt :: "seq \<Rightarrow> seq" where
  "unwrap_alt a =
     (case a of
        [el] \<Rightarrow> (case kind_of el of Group [body] \<Rightarrow> unwrap_alt body | _ \<Rightarrow> a)
      | _ \<Rightarrow> a)"
  by pat_completeness auto
termination
proof (relation "measure (size_list size)")
  fix a :: seq and el :: element and els :: seq and alts body and tl :: "seq list"
  assume "a = el # els" "els = []" "kind_of el = Group alts" "alts = body # tl" "tl = []"
  then show "(body, a) \<in> measure (size_list size)" by (cases el) simp
qed simp

declare unwrap_alt.simps [simp del]

text \<open>A view whose leading reference to a rule of one alternative opens with the wanted element.\<close>

definition inline_head_ref :: "seq \<Rightarrow> element \<Rightarrow> grammar \<Rightarrow> (seq \<times> string option) option" where
  "inline_head_ref v head_el g =
     Option.bind (ref_name (hd v)) (\<lambda>name.
     Option.bind (find_prod g name) (\<lambda>target.
       if length (p_alts target) \<noteq> 1 then None
       else if p_probe_dispatch target \<noteq> None \<or> p_probe_helper target \<noteq> None \<or> p_tail_repeat target \<noteq> None then None
       else
         (let body = unwrap_alt (hd (p_alts target))
          in if body = [] \<or> \<not> elem_equal (hd body) head_el then None
             else Some (body @ tl v, if p_value target \<noteq> None then Some (p_name target) else None))))"

text \<open>
  The members of the run that alternative \<open>i\<close> heads: the index of each, its elements, and the
  rule that builds a value when it was inlined. What is not a member is passed over only when its
  first characters are known and apart from the head's.
\<close>

fun gather_members ::
  "(nat \<Rightarrow> nat \<times> nat) \<Rightarrow> grammar \<Rightarrow> element \<Rightarrow> nat \<Rightarrow> seq list \<Rightarrow> (nat \<times> seq \<times> string option) list" where
  "gather_members uc g head_el j [] = []"
| "gather_members uc g head_el j (v # vs) =
     (if v \<noteq> [] \<and> elem_equal head_el (hd v) then (j, v, None) # gather_members uc g head_el (Suc j) vs
      else
        (case (if v = [] then None else inline_head_ref v head_el g) of
           Some (sq, annotated) \<Rightarrow> (j, sq, annotated) # gather_members uc g head_el (Suc j) vs
         | None \<Rightarrow>
             (case first_char_ranges_of_element uc g [] head_el of
                None \<Rightarrow> []
              | Some hr \<Rightarrow>
                  if v = [] then []
                  else
                    (case first_char_ranges_of_element uc g [] (hd v) of
                       None \<Rightarrow> []
                     | Some r \<Rightarrow>
                         if char_ranges_overlap hr r then [] else gather_members uc g head_el (Suc j) vs))))"

text \<open>The length of the common prefix of a run, found from \<open>plen\<close> on; a run has members.\<close>

function prefix_length :: "seq list \<Rightarrow> nat \<Rightarrow> nat" where
  "prefix_length run plen =
     (if run \<noteq> [] \<and> list_all (\<lambda>v. plen < length v \<and> elem_equal (hd run ! plen) (v ! plen)) run
      then prefix_length run (Suc plen) else plen)"
  by pat_completeness auto
termination
  by (relation "measure (\<lambda>(run, plen). length (hd run) - plen)") (auto simp: list_all_iff neq_Nil_conv)

declare prefix_length.simps [simp del]

definition prefix_beyond_lookahead :: "seq \<Rightarrow> grammar \<Rightarrow> bool" where
  "prefix_beyond_lookahead shared g =
     (case seq_token_span shared g of None \<Rightarrow> True | Some n \<Rightarrow> LOOKAHEAD_K < n)"

definition collapse_tails :: "nat \<Rightarrow> seq list \<Rightarrow> seq list" where
  "collapse_tails plen run =
     foldl (\<lambda>tails v. if list_ex (\<lambda>t. seq_equal t (drop plen v)) tails then tails else tails @ [drop plen v]) [] run"

definition order_tails :: "seq list \<Rightarrow> seq list" where
  "order_tails tails = filter (\<lambda>t. t \<noteq> []) tails @ (if list_ex (\<lambda>t. t = []) tails then [[]] else [])"

definition fact_name :: "string \<Rightarrow> nat \<Rightarrow> string" where
  "fact_name base i = base @ ''$fact'' @ nat_str i"

definition fresh_fact_name :: "string \<Rightarrow> string list \<Rightarrow> string" where
  "fresh_fact_name base used = fresh_from (fact_name base) used 0"

text \<open>The production that holds the tails of a run, and the alternative that names it.\<close>

definition tails_helper :: "string \<Rightarrow> string \<Rightarrow> seq list \<Rightarrow> bool \<Rightarrow> production" where
  "tails_helper helper prod_origin tails has_empty =
     (prod_helper helper tails prod_origin)\<lparr>p_repeat_helper := has_empty\<rparr>"

definition is_wrapped :: "seq \<Rightarrow> bool" where
  "is_wrapped alt = (length alt = 1 \<and> (case kind_of (hd alt) of Group _ \<Rightarrow> True | _ \<Rightarrow> False))"

text \<open>The alternatives with the run's head replaced and its other members gone.\<close>

definition replace_run :: "nat \<Rightarrow> nat list \<Rightarrow> seq \<Rightarrow> seq list \<Rightarrow> seq list" where
  "replace_run i removed replacement alts =
     map (\<lambda>k. if k = i then replacement else alts ! k) (filter (\<lambda>k. k \<notin> set removed) [0..<length alts])"

text \<open>
  What one step gives: the alternatives, the names taken, and the helper it queues, if it needs
  one.
\<close>

type_synonym factored = "seq list \<times> string list \<times> production option"

definition factor_run ::
  "grammar \<Rightarrow> string \<Rightarrow> string \<Rightarrow> seq list \<Rightarrow> string list \<Rightarrow> nat \<Rightarrow> (nat \<times> seq \<times> string option) list \<Rightarrow>
   (emit_error, factored option) result" where
  "factor_run g prod_name prod_origin alts used i members =
     (if length members < 2 then Inr None
      else
        (let run = map (\<lambda>(_, v, _). v) members;
             plen = prefix_length run 1;
             shared = take plen (hd run)
         in if \<not> prefix_beyond_lookahead shared g then Inr None
            else
              (case first_some (\<lambda>(_, _, annotated). annotated) members of
                 Some name \<Rightarrow>
                   Inl (err_at (FactorsValue name prod_name) name (Option.bind (find_prod g name) p_sp))
               | None \<Rightarrow>
                   (let found = collapse_tails plen run;
                        has_empty = list_ex (\<lambda>t. t = []) found;
                        tails = order_tails found;
                        helper = fresh_fact_name prod_name used;
                        (factored, used, helper_prod) =
                          (if length tails = 1 then (shared @ hd tails, used, None)
                           else
                             (shared @ [el_reference helper], iset_insert helper used,
                              Some (tails_helper helper prod_origin tails has_empty)));
                        replacement =
                          (if list_all (\<lambda>(m, _, _). is_wrapped (alts ! m)) members then [el_group [factored]] else factored)
                    in Inr (Some (replace_run i (map fst (tl members)) replacement alts, used, helper_prod))))))"

text \<open>The first alternative that heads a run worth factoring; the last one heads none.\<close>

fun factor_from ::
  "(nat \<Rightarrow> nat \<times> nat) \<Rightarrow> grammar \<Rightarrow> string \<Rightarrow> string \<Rightarrow> seq list \<Rightarrow> string list \<Rightarrow> nat \<Rightarrow> seq list \<Rightarrow>
   (emit_error, factored option) result" where
  "factor_from uc g prod_name prod_origin alts used i (view # next # views) =
     (if view = [] then factor_from uc g prod_name prod_origin alts used (Suc i) (next # views)
      else
        res_bind
          (factor_run g prod_name prod_origin alts used i
            ((i, view, None) # gather_members uc g (hd view) (Suc i) (next # views)))
          (\<lambda>r. case r of
             Some f \<Rightarrow> Inr (Some f)
           | None \<Rightarrow> factor_from uc g prod_name prod_origin alts used (Suc i) (next # views)))"
| "factor_from uc g prod_name prod_origin alts used i views = Inr None"

definition factor_once ::
  "(nat \<Rightarrow> nat \<times> nat) \<Rightarrow> grammar \<Rightarrow> string \<Rightarrow> string \<Rightarrow> seq list \<Rightarrow> string list \<Rightarrow> (emit_error, factored option) result" where
  "factor_once uc g prod_name prod_origin alts used =
     factor_from uc g prod_name prod_origin alts used 0 (map unwrap_alt alts)"

text \<open>A step leaves fewer alternatives, so a production is factored in finitely many.\<close>

lemma gather_members_cases:
  obtains "gather_members uc g h k (v # vs) = []"
  | "gather_members uc g h k (v # vs) = gather_members uc g h (Suc k) vs"
  | sq a where "v \<noteq> []"
    and "gather_members uc g h k (v # vs) = (k, sq, a) # gather_members uc g h (Suc k) vs"
    and "elem_equal h (hd v) \<and> sq = v \<and> a = None \<or> inline_head_ref v h g = Some (sq, a)"
  by (cases "v \<noteq> [] \<and> elem_equal h (hd v)"; cases "if v = [] then None else inline_head_ref v h g";
      cases "first_char_ranges_of_element uc g [] h"; cases "first_char_ranges_of_element uc g [] (hd v)";
      cases "char_ranges_overlap (the (first_char_ranges_of_element uc g [] h)) (the (first_char_ranges_of_element uc g [] (hd v)))")
     (auto split: if_splits)

lemma gather_members_range:
  "(j, v, a) \<in> set (gather_members uc g h k vs) \<Longrightarrow> k \<le> j \<and> j < k + length vs \<and> vs ! (j - k) \<noteq> []"
proof (induction vs arbitrary: k)
  case (Cons w vs)
  have later: ?case if "(j, v, a) \<in> set (gather_members uc g h (Suc k) vs)"
  proof -
    have "Suc k \<le> j \<and> j < Suc k + length vs \<and> vs ! (j - Suc k) \<noteq> []" by (rule Cons.IH [OF that])
    moreover from this have "j - k = Suc (j - Suc k)" by linarith
    ultimately show ?thesis by simp
  qed
  show ?case by (cases rule: gather_members_cases [of uc g h k w vs]) (use Cons.prems later in auto)
qed simp

lemma gather_members_length: "length (gather_members uc g h k vs) \<le> length (filter (\<lambda>v. v \<noteq> []) vs)"
proof (induction vs arbitrary: k)
  case (Cons w vs)
  show ?case
    by (cases rule: gather_members_cases [of uc g h k w vs]) (use Cons.IH [of "Suc k"] in \<open>auto simp: le_SucI\<close>)
qed simp

lemma replace_run_shorter:
  "r \<in> set removed \<Longrightarrow> r < length alts \<Longrightarrow> length (replace_run i removed x alts) < length alts"
proof -
  assume r: "r \<in> set removed" "r < length alts"
  have "length (filter (\<lambda>k. k \<notin> set removed) [0..<length alts]) < length [0..<length alts]"
    by (rule length_filter_less [of r]) (use r in auto)
  then show ?thesis by (simp add: replace_run_def)
qed

lemma factor_run_Some:
  assumes "factor_run g pn po alts used i members = Inr (Some f)"
  obtains plen found tails factored replacement
  where "2 \<le> length members" and "plen = prefix_length (map (\<lambda>(_, v, _). v) members) 1"
    and "found = collapse_tails plen (map (\<lambda>(_, v, _). v) members)" and "tails = order_tails found"
    and "f = (replace_run i (map fst (tl members)) replacement alts,
           if length tails = 1 then used else iset_insert (fresh_fact_name pn used) used,
           if length tails = 1 then None
           else Some (tails_helper (fresh_fact_name pn used) po tails (list_ex (\<lambda>t. t = []) found)))"
    and "factored = take plen (hd (map (\<lambda>(_, v, _). v) members)) @
           (if length tails = 1 then hd tails else [el_reference (fresh_fact_name pn used)])"
    and "replacement = factored \<or> replacement = [el_group [factored]]"
  using assms
  by (cases "length (order_tails (collapse_tails (prefix_length (map (\<lambda>(_, v, _). v) members) 1) (map (\<lambda>(_, v, _). v) members))) = 1")
     (auto simp: factor_run_def Let_def split: if_splits option.splits)

lemma factor_from_Some:
  "factor_from uc g pn po alts used i views = Inr (Some f) \<Longrightarrow>
   \<exists>k. i \<le> k \<and> Suc k < i + length views \<and> views ! (k - i) \<noteq> [] \<and>
     factor_run g pn po alts used k
       ((k, views ! (k - i), None) # gather_members uc g (hd (views ! (k - i))) (Suc k) (drop (Suc (k - i)) views)) = Inr (Some f)"
proof (induction uc g pn po alts used i views rule: factor_from.induct)
  case (1 uc g pn po alts used i view nxt views)
  let ?r = "factor_run g pn po alts used i ((i, view, None) # gather_members uc g (hd view) (Suc i) (nxt # views))"
  show ?case
  proof (cases "view \<noteq> [] \<and> ?r = Inr (Some f)")
    case True
    then show ?thesis by (intro exI [of _ i]) auto
  next
    case False
    then have rest: "factor_from uc g pn po alts used (Suc i) (nxt # views) = Inr (Some f)"
      and cond: "view = [] \<or> view \<noteq> [] \<and> ?r = Inr None"
      using "1.prems" by (auto simp: res_bind_def split: if_splits sum.splits option.splits)
    have "\<exists>k. Suc i \<le> k \<and> Suc k < Suc i + length (nxt # views) \<and> (nxt # views) ! (k - Suc i) \<noteq> [] \<and>
        factor_run g pn po alts used k
          ((k, (nxt # views) ! (k - Suc i), None) #
           gather_members uc g (hd ((nxt # views) ! (k - Suc i))) (Suc k) (drop (Suc (k - Suc i)) (nxt # views))) = Inr (Some f)"
      using cond
    proof
      assume "view = []"
      from "1.IH"(1) [OF this rest] show ?thesis .
    next
      assume c: "view \<noteq> [] \<and> ?r = Inr None"
      show ?thesis by (rule "1.IH"(2) [OF _ _ refl rest]) (use c in auto)
    qed
    then obtain k where k: "Suc i \<le> k" "Suc k < Suc i + length (nxt # views)" "(nxt # views) ! (k - Suc i) \<noteq> []"
        "factor_run g pn po alts used k
          ((k, (nxt # views) ! (k - Suc i), None) #
           gather_members uc g (hd ((nxt # views) ! (k - Suc i))) (Suc k) (drop (Suc (k - Suc i)) (nxt # views))) = Inr (Some f)"
      by blast
    have "k - i = Suc (k - Suc i)" using k(1) by simp
    then show ?thesis using k by (intro exI [of _ k]) auto
  qed
qed auto

lemma factor_once_Some:
  assumes "factor_once uc g pn po alts used = Inr (Some f)"
  obtains k where "Suc k < length alts" and "unwrap_alt (alts ! k) \<noteq> []"
    and "factor_run g pn po alts used k
      ((k, unwrap_alt (alts ! k), None) #
       gather_members uc g (hd (unwrap_alt (alts ! k))) (Suc k) (drop (Suc k) (map unwrap_alt alts))) = Inr (Some f)"
proof -
  obtain k where "Suc k < length (map unwrap_alt alts)" "map unwrap_alt alts ! k \<noteq> []"
    "factor_run g pn po alts used k
      ((k, map unwrap_alt alts ! k, None) #
       gather_members uc g (hd (map unwrap_alt alts ! k)) (Suc k) (drop (Suc k) (map unwrap_alt alts))) = Inr (Some f)"
    using factor_from_Some [OF assms [unfolded factor_once_def]] by auto
  then show ?thesis by (intro that [of k]) auto
qed

lemma factor_once_shorter:
  assumes "factor_once uc g pn po alts used = Inr (Some (out, used', helper))"
  shows "length out < length alts"
proof -
  obtain k where k: "Suc k < length alts"
    "factor_run g pn po alts used k
      ((k, unwrap_alt (alts ! k), None) #
       gather_members uc g (hd (unwrap_alt (alts ! k))) (Suc k) (drop (Suc k) (map unwrap_alt alts))) =
     Inr (Some (out, used', helper))" (is "factor_run _ _ _ _ _ _ (?m # ?ms) = _")
    by (rule factor_once_Some [OF assms])
  obtain x where out: "2 \<le> length (?m # ?ms)" "out = replace_run k (map fst (tl (?m # ?ms))) x alts"
    by (rule factor_run_Some [OF k(2)]) auto
  then obtain j v a ms where ms: "?ms = (j, v, a) # ms" by (cases ?ms) auto
  then have "(j, v, a) \<in> set ?ms" by simp
  from gather_members_range [OF this] k(1) have "j < length alts" by auto
  then show ?thesis unfolding out(2) by (intro replace_run_shorter [of j]) (simp_all add: ms)
qed

function factor_alts ::
  "(nat \<Rightarrow> nat \<times> nat) \<Rightarrow> grammar \<Rightarrow> string \<Rightarrow> string \<Rightarrow> seq list \<Rightarrow> string list \<Rightarrow> production list \<Rightarrow> bool \<Rightarrow>
   (emit_error, seq list \<times> string list \<times> production list \<times> bool) result" where
  "factor_alts uc g prod_name prod_origin alts used queue changed =
     (case factor_once uc g prod_name prod_origin alts used of
        Inl e \<Rightarrow> Inl e
      | Inr None \<Rightarrow> Inr (alts, used, queue, changed)
      | Inr (Some (a, used', helper)) \<Rightarrow>
          factor_alts uc g prod_name prod_origin a used'
            (queue @ (case helper of Some h \<Rightarrow> [h] | None \<Rightarrow> [])) True)"
  by pat_completeness auto
termination
  by (relation "measure (\<lambda>(uc, g, pn, po, alts, used, queue, changed). length alts)") (auto dest: factor_once_shorter)

declare factor_alts.simps [simp del]

text \<open>
  What a helper is smaller in: the alternatives that are not empty, and of as many, the size of
  the first of them.
\<close>

definition open_views :: "seq list \<Rightarrow> seq list" where
  "open_views alts = filter (\<lambda>v. v \<noteq> []) (map unwrap_alt alts)"

definition run_size :: "seq list \<Rightarrow> nat \<times> nat" where
  "run_size alts =
     (length (open_views alts), case open_views alts of [] \<Rightarrow> 0 | v # _ \<Rightarrow> size_list size v)"

abbreviation smaller :: "((nat \<times> nat) \<times> (nat \<times> nat)) set" where
  "smaller \<equiv> less_than <*lex*> less_than"

lemma size_unwrap: "size_list size (unwrap_alt a) \<le> size_list size a"
proof (induction a rule: unwrap_alt.induct)
  case (1 a)
  show ?case
  proof (cases "\<exists>el body. a = [el] \<and> kind_of el = Group [body]")
    case True
    then obtain el body where a: "a = [el]" "kind_of el = Group [body]" by blast
    have "size_list size body < size_list size a" using a by (cases el) simp
    moreover have "size_list size (unwrap_alt body) \<le> size_list size body" by (rule 1) (use a in auto)
    ultimately show ?thesis using a by (subst unwrap_alt.simps) simp
  next
    case False
    then have "unwrap_alt a = a" by (subst unwrap_alt.simps) (auto split: list.splits kind.splits)
    then show ?thesis by simp
  qed
qed

definition add_tail :: "nat \<Rightarrow> seq list \<Rightarrow> seq \<Rightarrow> seq list" where
  "add_tail plen tails v =
     (if list_ex (\<lambda>t. seq_equal t (drop plen v)) tails then tails else tails @ [drop plen v])"

lemma collapse_tails_add: "collapse_tails plen run = foldl (add_tail plen) [] run"
  unfolding collapse_tails_def by (rule arg_cong [where f = "\<lambda>f. foldl f [] run"]) (simp add: add_tail_def fun_eq_iff)

lemma add_tails_extend: "\<exists>rest. foldl (add_tail plen) acc ws = acc @ rest \<and> length rest \<le> length ws"
proof (induction ws arbitrary: acc)
  case (Cons w ws)
  obtain rest where r: "foldl (add_tail plen) (add_tail plen acc w) ws = add_tail plen acc w @ rest" "length rest \<le> length ws"
    using Cons.IH by blast
  show ?case
  proof (cases "list_ex (\<lambda>t. seq_equal t (drop plen w)) acc")
    case True
    then have "add_tail plen acc w = acc" by (simp add: add_tail_def)
    then show ?thesis using r by (intro exI [of _ rest]) simp
  next
    case False
    then have "add_tail plen acc w = acc @ [drop plen w]" by (simp add: add_tail_def)
    then show ?thesis using r by (intro exI [of _ "drop plen w # rest"]) simp
  qed
qed simp

lemma collapse_tails_Cons:
  "\<exists>rest. collapse_tails plen (v # vs) = drop plen v # rest \<and> length rest \<le> length vs"
  using add_tails_extend [of plen "[drop plen v]" vs] by (simp add: collapse_tails_add add_tail_def)

lemma filter_full: "length (filter P xs) = length xs \<Longrightarrow> x \<in> set xs \<Longrightarrow> P x"
  using length_filter_less [of x xs P] by fastforce

lemma order_tails_length: "length (filter (\<lambda>t. t \<noteq> []) (order_tails ts)) \<le> length ts"
  by (auto simp: order_tails_def)

lemma open_views_tails: "length (open_views ts) \<le> length (filter (\<lambda>t. t \<noteq> []) ts)"
proof -
  have "unwrap_alt [] = []" by (subst unwrap_alt.simps) simp
  then have "length (filter (\<lambda>v. v \<noteq> []) (map unwrap_alt ts)) \<le> length (filter (\<lambda>t. t \<noteq> []) ts)"
    by (induction ts) auto
  then show ?thesis by (simp add: open_views_def)
qed

lemma prefix_length_ge: "plen \<le> prefix_length run plen"
proof (induction run plen rule: prefix_length.induct)
  case (1 run plen)
  then show ?case by (subst prefix_length.simps) auto
qed

lemma size_drop_less:
  assumes "1 \<le> n" and "v \<noteq> []" shows "size_list size (drop n v) < size_list size (v :: seq)"
proof -
  obtain m w v' where "n = Suc m" "v = w # v'" using assms by (cases n; cases v) auto
  moreover have "size_list size (drop m v') \<le> size_list size (v' :: seq)"
  proof (induction v' arbitrary: m)
    case (Cons a v')
    then show ?case by (cases m) (auto simp: le_SucI trans_le_add2)
  qed simp
  ultimately show ?thesis by simp
qed

lemma tails_smaller:
  assumes "run = view # vs" and "view \<noteq> []" and "length run \<le> n"
    and "length run = n \<Longrightarrow> open_views alts = view # others" and "n = length (open_views alts)" and "1 \<le> plen"
  shows "(run_size (order_tails (collapse_tails plen run)), run_size alts) \<in> smaller"
proof -
  let ?found = "collapse_tails plen run"
  obtain rest where f: "?found = drop plen view # rest" "length rest \<le> length vs"
    using collapse_tails_Cons assms(1) by blast
  have le: "length (open_views (order_tails ?found)) \<le> length (filter (\<lambda>t. t \<noteq> []) ?found)"
    using open_views_tails [of "order_tails ?found"] by (auto simp: order_tails_def)
  show ?thesis
  proof (cases "length (open_views (order_tails ?found)) < n")
    case True
    then show ?thesis using assms(5) by (simp add: run_size_def)
  next
    case False
    have "length ?found \<le> length run" using f assms(1) by simp
    moreover have "length (filter (\<lambda>t. t \<noteq> []) ?found) \<le> length ?found" by simp
    ultimately have eq: "length run = n" "length (filter (\<lambda>t. t \<noteq> []) ?found) = length ?found"
      "length (open_views (order_tails ?found)) = n" "length ?found = n"
      using le False assms(3) by linarith+
    have all: "\<forall>t\<in>set ?found. t \<noteq> []" using filter_full [OF eq(2)] by blast
    then have "order_tails ?found = ?found" by (simp add: order_tails_def list_ex_iff)
    then have o: "length (open_views ?found) = length ?found" using eq by simp
    then have "length (filter (\<lambda>v. v \<noteq> []) (map unwrap_alt ?found)) = length (map unwrap_alt ?found)"
      by (simp add: open_views_def)
    from filter_full [OF this] have "\<forall>v\<in>set (map unwrap_alt ?found). v \<noteq> []" by blast
    then have "open_views ?found = map unwrap_alt ?found" by (simp add: open_views_def)
    moreover have "size_list size (unwrap_alt (drop plen view)) < size_list size view"
      using size_unwrap size_drop_less [OF assms(6,2)] le_less_trans by blast
    ultimately show ?thesis
      using assms(4) [OF eq(1)] assms(5) eq(4) \<open>order_tails ?found = ?found\<close> by (simp add: run_size_def f(1))
  qed
qed

lemma members_views:
  assumes "Suc k < length alts" and "unwrap_alt (alts ! k) \<noteq> []"
    and "ms = gather_members uc g h (Suc k) (drop (Suc k) (map unwrap_alt alts))"
  shows "Suc (length ms) \<le> length (open_views alts) \<and>
    (Suc (length ms) = length (open_views alts) \<longrightarrow> (\<exists>others. open_views alts = unwrap_alt (alts ! k) # others))"
proof -
  let ?vs = "map unwrap_alt alts"
  have "?vs = take k ?vs @ unwrap_alt (alts ! k) # drop (Suc k) ?vs"
    using assms(1) id_take_nth_drop [of k ?vs] by simp
  then have "open_views alts = filter (\<lambda>v. v \<noteq> []) (take k ?vs @ unwrap_alt (alts ! k) # drop (Suc k) ?vs)"
    unfolding open_views_def by (rule arg_cong)
  then have o: "open_views alts = filter (\<lambda>v. v \<noteq> []) (take k ?vs) @ unwrap_alt (alts ! k) # filter (\<lambda>v. v \<noteq> []) (drop (Suc k) ?vs)"
    using assms(2) by simp
  have "length ms \<le> length (filter (\<lambda>v. v \<noteq> []) (drop (Suc k) ?vs))"
    using gather_members_length assms(3) by blast
  then show ?thesis using o by (cases "filter (\<lambda>v. v \<noteq> []) (take k ?vs)") auto
qed

lemma replace_run_open:
  assumes "r \<in> set removed" and "r < length alts" and "unwrap_alt (alts ! r) \<noteq> []" and "unwrap_alt (alts ! k) \<noteq> []"
  shows "length (open_views (replace_run k removed x alts)) < length (open_views alts)"
proof -
  let ?P = "\<lambda>j. unwrap_alt (alts ! j) \<noteq> []" and ?Q = "\<lambda>j. unwrap_alt (if j = k then x else alts ! j) \<noteq> []"
  let ?n = "[0..<length alts]"
  have all: "length (open_views alts) = length (filter ?P ?n)"
  proof -
    have "map unwrap_alt alts = map (\<lambda>j. unwrap_alt (alts ! j)) ?n" by (rule nth_equalityI) simp_all
    then show ?thesis by (simp add: open_views_def filter_map comp_def)
  qed
  have "open_views (replace_run k removed x alts) = map (\<lambda>j. unwrap_alt (if j = k then x else alts ! j)) (filter (\<lambda>j. j \<notin> set removed \<and> ?Q j) ?n)"
    by (simp add: open_views_def replace_run_def filter_map comp_def conj_commute)
  then have "length (open_views (replace_run k removed x alts)) = length (filter (\<lambda>j. j \<notin> set removed \<and> ?Q j) ?n)" by simp
  also have "filter (\<lambda>j. j \<notin> set removed \<and> ?Q j) ?n = filter (\<lambda>j. j \<notin> set removed \<and> ?Q j) (filter ?P ?n)"
    using assms(4) by (simp add: filter_filter) (rule filter_cong, auto)
  also have "length \<dots> < length (filter ?P ?n)"
    by (rule length_filter_less [of r]) (use assms in auto)
  finally show ?thesis using all by simp
qed

lemma factor_once_smaller:
  assumes "factor_once uc g pn po alts used = Inr (Some (out, used', helper))"
  shows "fst (run_size out) < fst (run_size alts) \<and>
    (case helper of Some h \<Rightarrow> (run_size (p_alts h), run_size alts) \<in> smaller | None \<Rightarrow> True)"
proof -
  obtain k where k: "Suc k < length alts" "unwrap_alt (alts ! k) \<noteq> []"
    "factor_run g pn po alts used k
      ((k, unwrap_alt (alts ! k), None) #
       gather_members uc g (hd (unwrap_alt (alts ! k))) (Suc k) (drop (Suc k) (map unwrap_alt alts))) =
     Inr (Some (out, used', helper))" (is "factor_run _ _ _ _ _ _ (?m # ?ms) = _")
    by (rule factor_once_Some [OF assms])
  let ?run = "map (\<lambda>(_, v, _). v) (?m # ?ms)"
  obtain plen tails x where f: "2 \<le> length (?m # ?ms)" "plen = prefix_length ?run 1"
    "tails = order_tails (collapse_tails plen ?run)" "out = replace_run k (map fst (tl (?m # ?ms))) x alts"
    "helper = (if length tails = 1 then None
       else Some (tails_helper (fresh_fact_name pn used) po tails (list_ex (\<lambda>t. t = []) (collapse_tails plen ?run))))"
    by (rule factor_run_Some [OF k(3)]) auto
  obtain j v a ms where ms: "?ms = (j, v, a) # ms" using f(1) by (cases ?ms) auto
  then have mem: "(j, v, a) \<in> set ?ms" by simp
  have j: "j < length alts" "unwrap_alt (alts ! j) \<noteq> []"
    using gather_members_range [OF mem] k(1) by auto
  have "fst (run_size out) < fst (run_size alts)"
    unfolding f(4) using replace_run_open [OF _ j k(2)] by (simp add: run_size_def ms)
  moreover have "(run_size tails, run_size alts) \<in> smaller"
  proof -
    note mv = members_views [OF k(1,2) refl, of uc g "hd (unwrap_alt (alts ! k))"]
    have len: "length ?run = Suc (length ?ms)" by simp
    obtain others where others: "length ?run = length (open_views alts) \<Longrightarrow> open_views alts = unwrap_alt (alts ! k) # others"
      using mv len by (metis list.sel(3))
    show ?thesis
      unfolding f(3)
      by (rule tails_smaller [OF _ k(2) _ others refl]) (use mv len f(2) prefix_length_ge [of 1] in auto)
  qed
  ultimately show ?thesis by (simp add: f(5) tails_helper_def)
qed

lemma factor_alts_smaller:
  "factor_alts uc g pn po alts used queue changed = Inr (alts', used', queue', changed') \<Longrightarrow>
   \<exists>hs. queue' = queue @ hs \<and> (\<forall>h\<in>set hs. (run_size (p_alts h), run_size alts) \<in> smaller)"
proof (induction uc g pn po alts used queue changed rule: factor_alts.induct)
  case (1 uc g pn po alts used queue changed)
  show ?case
  proof (cases "factor_once uc g pn po alts used")
    case (Inl e)
    then show ?thesis using "1.prems" by (simp add: factor_alts.simps [of uc g pn po alts])
  next
    case (Inr r)
    show ?thesis
    proof (cases r)
      case None
      then show ?thesis using "1.prems" Inr by (simp add: factor_alts.simps [of uc g pn po alts])
    next
      case (Some f)
      obtain a u helper where f: "f = (a, u, helper)" by (cases f)
      let ?hs = "case helper of Some h \<Rightarrow> [h] | None \<Rightarrow> []"
      have once: "factor_once uc g pn po alts used = Inr (Some (a, u, helper))" using Inr Some f by simp
      note sm = factor_once_smaller [OF once]
      have "factor_alts uc g pn po a u (queue @ ?hs) True = Inr (alts', used', queue', changed')"
        using "1.prems" once by (simp add: factor_alts.simps [of uc g pn po alts])
      from "1.IH" [OF Inr Some f [symmetric] refl this] obtain hs where hs: "queue' = (queue @ ?hs) @ hs"
        "\<forall>h\<in>set hs. (run_size (p_alts h), run_size a) \<in> smaller" by blast
      have "(run_size (p_alts h), run_size alts) \<in> smaller" if "h \<in> set (?hs @ hs)" for h
        using that hs(2) sm by (cases "run_size a"; cases "run_size alts"; cases "run_size (p_alts h)")
          (auto split: option.splits)
      then show ?thesis using hs(1) by (intro exI [of _ "?hs @ hs"]) simp
    qed
  qed
qed

section \<open>The queue\<close>

text \<open>Productions a rewrite has given a meaning of their own are passed through.\<close>

definition is_special :: "production \<Rightarrow> bool" where
  "is_special p = (p_probe_dispatch p \<noteq> None \<or> p_probe_helper p \<noteq> None \<or> p_tail_repeat p \<noteq> None)"

definition queue_size :: "production list \<Rightarrow> (nat \<times> nat) multiset" where
  "queue_size queue = image_mset (\<lambda>p. run_size (p_alts p)) (mset queue)"

lemma queue_size_step:
  assumes "\<And>h. h \<in> set hs \<Longrightarrow> (run_size (p_alts h), run_size (p_alts p)) \<in> smaller"
  shows "(queue_size (rest @ hs), queue_size (p # rest)) \<in> mult smaller"
proof -
  have "(queue_size rest + queue_size hs, queue_size rest + {#run_size (p_alts p)#}) \<in> mult smaller"
    by (rule one_step_implies_mult) (use assms in \<open>auto simp: queue_size_def\<close>)
  then show ?thesis by (simp add: queue_size_def add.commute)
qed

function factor_queue ::
  "(nat \<Rightarrow> nat \<times> nat) \<Rightarrow> grammar \<Rightarrow> production list \<Rightarrow> string list \<Rightarrow> production list \<Rightarrow>
   (emit_error, production list) result" where
  "factor_queue uc g [] used out = Inr out"
| "factor_queue uc g (p # queue) used out =
     (if is_special p then factor_queue uc g queue used (out @ [p])
      else
        (case factor_alts uc g (p_name p) (origin_of p) (p_alts p) used queue False of
           Inl e \<Rightarrow> Inl e
         | Inr (alts, used', queue', changed) \<Rightarrow>
             factor_queue uc g queue' used' (out @ [if changed then p\<lparr>p_alts := alts\<rparr> else p])))"
  by pat_completeness auto
termination
proof (relation "inv_image (mult smaller) (\<lambda>(uc, g, queue, used, out). queue_size queue)")
  show "wf (inv_image (mult smaller) (\<lambda>(uc :: nat \<Rightarrow> nat \<times> nat, g :: grammar, queue, used :: string list, out :: production list). queue_size queue))"
    by (intro wf_inv_image wf_mult wf_lex_prod wf_less_than)
next
  fix uc :: "nat \<Rightarrow> nat \<times> nat" and g :: grammar and p queue and used :: "string list" and out :: "production list"
  show "((uc, g, queue, used, out @ [p]), uc, g, p # queue, used, out)
      \<in> inv_image (mult smaller) (\<lambda>(uc, g, queue, used, out). queue_size queue)"
    using queue_size_step [of "[]" p queue] by simp
next
  fix uc :: "nat \<Rightarrow> nat \<times> nat" and g :: grammar and p queue and used :: "string list" and out :: "production list"
    and r x alts y used' z queue' changed
  assume "factor_alts uc g (p_name p) (origin_of p) (p_alts p) used queue False = Inr x"
    "(alts, y) = x" "(used', z) = y" "(queue', changed) = z"
  then have "factor_alts uc g (p_name p) (origin_of p) (p_alts p) used queue False = Inr (alts, used', queue', changed)"
    by simp
  from factor_alts_smaller [OF this] obtain hs where "queue' = queue @ hs"
    "\<forall>h\<in>set hs. (run_size (p_alts h), run_size (p_alts p)) \<in> smaller" by blast
  then show "((uc, g, queue', used', out @ [if changed then p\<lparr>p_alts := alts\<rparr> else p]), uc, g, p # queue, used, out)
      \<in> inv_image (mult smaller) (\<lambda>(uc, g, queue, used, out). queue_size queue)"
    using queue_size_step [of hs p queue] by simp
qed

definition left_factor :: "(nat \<Rightarrow> nat \<times> nat) \<Rightarrow> grammar \<Rightarrow> (emit_error, grammar) result" where
  "left_factor uc g =
     res_bind (factor_queue uc g (productions g) (iset_extend [] (names (productions g))) [])
       (\<lambda>out. Inr (grammar_new out))"

end
