(* ===== verification/Factor_Language.thy ===== *)
theory Factor_Language
  imports Factor
begin

text \<open>
  Left factoring keeps every language. A step is read over any assignment \<open>L\<close> that gives the
  helper it queues its tails' language and that gives each rule of one alternative that
  alternative's language (\<open>resolved\<close>), which is what inlining a head needs; the loop is then
  followed forwards, building such an assignment name by name, and backwards.
\<close>

named_theorems factor_lang \<open>what the parts of a factoring step keep\<close>

section \<open>Equal elements describe the same words\<close>

definition keyed :: "'a terminals \<Rightarrow> bool" where
  "keyed T \<longleftrightarrow> (\<forall>l c n l' c' n'. term_key l c = term_key l' c' \<longrightarrow> T (Term l c n) = T (Term l' c' n'))"

lemma map_zip_cong:
  "length x = length y \<Longrightarrow> (\<And>a b. (a, b) \<in> set (zip x y) \<Longrightarrow> f a = f b) \<Longrightarrow> map f x = map f y"
  by (induction x y rule: list_induct2) auto

lemma elem_equal_lang: "keyed T \<Longrightarrow> elem_equal a b \<Longrightarrow> elang T L a = elang T L b"
proof (induction a b rule: elem_equal.induct)
  case (1 l c n sp b)
  then obtain l' c' n' sp' where "b = Element (Term l' c' n') sp'" "term_key l c = term_key l' c'"
    by (cases b) (auto split: kind.splits)
  then show ?case using 1(1) by (auto simp: keyed_def)
next
  case (10 ax sp b)
  then obtain ay sp' where b: "b = Element (Group ay) sp'" "length ax = length ay"
    "list_all (\<lambda>(x, y). length x = length y \<and> list_all (\<lambda>(a, b). elem_equal a b) (zip x y)) (zip ax ay)"
    by (cases b) (auto split: kind.splits)
  have inner: "elang T L a = elang T L b'"
    if "(x, y) \<in> set (zip ax ay)" "(a, b') \<in> set (zip x y)" for x y a b'
  proof (rule 10(1) [of ay "(x, y)" x y "(a, b')" a b'])
    have "\<forall>p\<in>set (zip x y). elem_equal (fst p) (snd p)"
      using b(3) that(1) by (force simp: list_all_iff)
    then show "elem_equal a b'" using that(2) by fastforce
  qed (use b that 10(2) in \<open>auto simp: list_all_iff\<close>)
  have "slang T L x = slang T L y" if "(x, y) \<in> set (zip ax ay)" for x y
  proof -
    have "length x = length y" using b(3) that by (auto simp: list_all_iff)
    from map_zip_cong [OF this inner [OF that]] show ?thesis by (simp add: slang_def)
  qed
  then have "map (slang T L) ax = map (slang T L) ay" by (rule map_zip_cong [OF b(2)])
  then have "set (map (slang T L) ax) = set (map (slang T L) ay)" by simp
  then show ?case using b(1) by (simp add: alang_def)
qed (auto split: kind.splits element.splits simp: kind_of_def)

lemma seq_equal_lang: "keyed T \<Longrightarrow> seq_equal a b \<Longrightarrow> slang T L a = slang T L b"
proof -
  assume k: "keyed T" and e: "seq_equal a b"
  have "elang T L x = elang T L y" if "(x, y) \<in> set (zip a b)" for x y
  proof -
    have "\<forall>p\<in>set (zip a b). elem_equal (fst p) (snd p)" using e by (force simp: seq_equal_def list_all_iff)
    with that show ?thesis by (intro elem_equal_lang [OF k]) fastforce
  qed
  moreover have "length a = length b" using e by (simp add: seq_equal_def)
  ultimately have "map (elang T L) a = map (elang T L) b" by (intro map_zip_cong)
  then show ?thesis by (simp add: slang_def)
qed

lemma slang_unwrap [simp, factor_lang]: "slang T L (unwrap_alt a) = slang T L a"
proof (induction a rule: unwrap_alt.induct)
  case (1 a)
  show ?case
  proof (cases "\<exists>el body. a = [el] \<and> kind_of el = Group [body]")
    case True
    then obtain el body where a: "a = [el]" "kind_of el = Group [body]" by blast
    then have "slang T L a = slang T L body" by (cases el) simp
    moreover have "slang T L (unwrap_alt body) = slang T L body" by (rule 1) (use a in auto)
    ultimately show ?thesis using a by (subst unwrap_alt.simps) simp
  next
    case False
    then have "unwrap_alt a = a" by (subst unwrap_alt.simps) (auto split: list.splits kind.splits)
    then show ?thesis by simp
  qed
qed

lemma refs_unwrap: "seq_refs (unwrap_alt a) = seq_refs a"
proof (induction a rule: unwrap_alt.induct)
  case (1 a)
  show ?case
  proof (cases "\<exists>el body. a = [el] \<and> kind_of el = Group [body]")
    case True
    then obtain el body where a: "a = [el]" "kind_of el = Group [body]" by blast
    then have "seq_refs a = seq_refs body" by (cases el) simp
    moreover have "seq_refs (unwrap_alt body) = seq_refs body" by (rule 1) (use a in auto)
    ultimately show ?thesis using a by (subst unwrap_alt.simps) simp
  next
    case False
    then have "unwrap_alt a = a" by (subst unwrap_alt.simps) (auto split: list.splits kind.splits)
    then show ?thesis by simp
  qed
qed

interpretation fact_names: name_supply "fact_name base" for base :: string
  by unfold_locales (auto simp: inj_def fact_name_def)

section \<open>A run and its head\<close>

definition resolved :: "'a terminals \<Rightarrow> 'a env \<Rightarrow> grammar \<Rightarrow> bool" where
  "resolved T L g \<longleftrightarrow>
     (\<forall>name p. find_prod g name = Some p \<longrightarrow> length (p_alts p) = 1 \<longrightarrow> \<not> is_special p \<longrightarrow> L name = alang T L (p_alts p))"

abbreviation grammar_refs :: "grammar \<Rightarrow> string set" where
  "grammar_refs g \<equiv> (\<Union>p\<in>set (productions g). alts_refs (p_alts p))"

lemma inline_head_cases:
  assumes "inline_head_ref v h g = Some (sq, a)" and "v \<noteq> []"
  obtains name d sp p body where "hd v = Element (Ref name d) sp" and "find_prod g name = Some p"
    and "\<not> is_special p" and "p_alts p = [body]" and "unwrap_alt body \<noteq> []"
    and "elem_equal (hd (unwrap_alt body)) h" and "sq = unwrap_alt body @ tl v"
proof -
  obtain name where n: "ref_name (hd v) = Some name"
    using assms(1) by (cases "ref_name (hd v)") (auto simp: inline_head_ref_def)
  then obtain d sp where h: "hd v = Element (Ref name d) sp"
    by (cases "hd v") (auto simp: ref_name_def split: kind.splits)
  obtain p where p: "find_prod g name = Some p"
    using assms(1) n by (cases "find_prod g name") (auto simp: inline_head_ref_def)
  have "length (p_alts p) = 1" "\<not> is_special p"
    using assms(1) n p by (auto simp: inline_head_ref_def is_special_def split: if_splits)
  moreover from this obtain body where "p_alts p = [body]" by (auto simp: length_Suc_conv)
  ultimately show ?thesis
    using assms(1) n p h that by (auto simp: inline_head_ref_def Let_def split: if_splits)
qed

lemma inline_head_lang:
  assumes "resolved T L g" and "inline_head_ref v h g = Some (sq, a)" and "v \<noteq> []"
  shows "slang T L sq = slang T L v \<and> sq \<noteq> [] \<and> elem_equal (hd sq) h \<and> seq_refs sq \<subseteq> seq_refs v \<union> grammar_refs g"
proof (cases rule: inline_head_cases [OF assms(2,3)])
  case (1 name d sp p body)
  have v: "v = Element (Ref name d) sp # tl v" using 1(1) assms(3) by (cases v) auto
  have "L name = slang T L body" using assms(1) 1(2,3,4) by (auto simp: resolved_def)
  then have "slang T L v = conc (slang T L body) (slang T L (tl v))" by (subst v) simp
  moreover have "seq_refs body \<subseteq> grammar_refs g" using find_prod_Some [OF 1(2)] 1(4) by fastforce
  moreover have "seq_refs (tl v) \<subseteq> seq_refs v" by (subst (2) v) auto
  ultimately show ?thesis using 1 by (auto simp: refs_unwrap)
qed

lemma gather_lang:
  assumes "resolved T L g"
  shows "(j, sq, a) \<in> set (gather_members uc g h k vs) \<Longrightarrow>
    slang T L sq = slang T L (vs ! (j - k)) \<and> sq \<noteq> [] \<and> (elem_equal h (hd sq) \<or> elem_equal (hd sq) h) \<and>
    seq_refs sq \<subseteq> alts_refs vs \<union> grammar_refs g"
proof (induction vs arbitrary: k)
  case (Cons w vs)
  have later: ?case if "(j, sq, a) \<in> set (gather_members uc g h (Suc k) vs)"
  proof -
    have "j - k = Suc (j - Suc k)" using gather_members_range [OF that] by linarith
    then show ?thesis using Cons.IH [OF that] by auto
  qed
  show ?case
  proof (cases rule: gather_members_cases [of uc g h k w vs])
    case (3 sq' a')
    show ?thesis
    proof (cases "(j, sq, a) = (k, sq', a')")
      case True
      from 3(3) show ?thesis
      proof
        assume "inline_head_ref w h g = Some (sq', a')"
        from inline_head_lang [OF assms this 3(1)] show ?thesis using True by auto
      qed (use True 3(1) in auto)
    next
      case False
      then show ?thesis using Cons.prems 3(2) later by auto
    qed
  qed (use Cons.prems later in auto)
qed simp

lemma gather_refs:
  "(j, sq, a) \<in> set (gather_members uc g h k vs) \<Longrightarrow> seq_refs sq \<subseteq> alts_refs vs \<union> grammar_refs g"
proof (induction vs arbitrary: k)
  case (Cons w vs)
  show ?case
  proof (cases rule: gather_members_cases [of uc g h k w vs])
    case (3 sq' a')
    show ?thesis
    proof (cases "(j, sq, a) = (k, sq', a')")
      case True
      from 3(3) show ?thesis
      proof
        assume i: "inline_head_ref w h g = Some (sq', a')"
        show ?thesis
        proof (cases rule: inline_head_cases [OF i 3(1)])
          case (1 name d sp p body)
          have "seq_refs body \<subseteq> grammar_refs g" using find_prod_Some [OF 1(2)] 1(4) by fastforce
          moreover have "seq_refs (tl w) \<subseteq> seq_refs w" by (cases w) auto
          ultimately show ?thesis using True 1 by (auto simp: refs_unwrap)
        qed
      qed (use True in auto)
    next
      case False
      then show ?thesis using Cons 3(2) by auto
    qed
  qed (use Cons in auto)
qed simp

lemma prefix_length_shared:
  "v \<in> set run \<Longrightarrow> (\<And>v. v \<in> set run \<Longrightarrow> m \<le> length v) \<Longrightarrow>
   prefix_length run m \<le> length v \<and> (\<forall>i. m \<le> i \<and> i < prefix_length run m \<longrightarrow> elem_equal (hd run ! i) (v ! i))"
proof (induction run m rule: prefix_length.induct)
  case (1 run m)
  let ?c = "run \<noteq> [] \<and> list_all (\<lambda>v. m < length v \<and> elem_equal (hd run ! m) (v ! m)) run"
  show ?case
  proof (cases ?c)
    case True
    have all: "m < length u \<and> elem_equal (hd run ! m) (u ! m)" if "u \<in> set run" for u
      using True that by (auto simp: list_all_iff)
    have len: "Suc m \<le> length u" if "u \<in> set run" for u using all [OF that] by simp
    have ih: "prefix_length run (Suc m) \<le> length v \<and>
        (\<forall>i. Suc m \<le> i \<and> i < prefix_length run (Suc m) \<longrightarrow> elem_equal (hd run ! i) (v ! i))"
      by (rule "1.IH" [OF True "1.prems"(1)]) (rule len)
    have "prefix_length run m = prefix_length run (Suc m)" using True by (subst prefix_length.simps) simp
    then show ?thesis using ih all [OF "1.prems"(1)] by (metis le_neq_implies_less Suc_leI)
  next
    case False
    then have "prefix_length run m = m" by (subst prefix_length.simps) (simp only: if_not_P if_False)
    then show ?thesis using 1 by auto
  qed
qed

lemma slang_nth_cong:
  "length x = length y \<Longrightarrow> (\<And>i. i < length y \<Longrightarrow> elang T L (x ! i) = elang T L (y ! i)) \<Longrightarrow> slang T L x = slang T L y"
  unfolding slang_def by (rule arg_cong [where f = concs]) (rule nth_equalityI, simp_all only: length_map nth_map)

text \<open>Every member of a run is the shared prefix and its own tail.\<close>

lemma run_split:
  assumes "keyed T" and "run = view # vs" and "view \<noteq> []"
    and "\<And>v. v \<in> set vs \<Longrightarrow> v \<noteq> [] \<and> (elem_equal (hd view) (hd v) \<or> elem_equal (hd v) (hd view))"
    and "plen = prefix_length run 1" and "v \<in> set run"
  shows "slang T L v = conc (slang T L (take plen view)) (slang T L (drop plen v))"
proof -
  have ne: "1 \<le> length u" if "u \<in> set run" for u proof -
    have "u \<noteq> []" using that assms(2,3,4) by auto
    then show ?thesis by (cases u) simp_all
  qed
  note sh = prefix_length_shared [OF assms(6) ne, folded assms(5)]
  have p: "plen \<le> length view" "plen \<le> length v" "1 \<le> plen"
    using sh prefix_length_shared [of view run 1] ne assms(2,5) prefix_length_ge by auto
  have head: "elang T L (view ! 0) = elang T L (v ! 0)"
  proof (cases "v = view")
    case False
    then have "v \<in> set vs" using assms(2,6) by simp
    from assms(4) [OF this] assms(3) show ?thesis
      using elem_equal_lang [OF assms(1)] by (auto simp: hd_conv_nth)
  qed simp
  have "slang T L (take plen view) = slang T L (take plen v)"
  proof (rule slang_nth_cong)
    fix i assume i: "i < length (take plen v)"
    show "elang T L (take plen view ! i) = elang T L (take plen v ! i)"
    proof (cases i)
      case 0
      then show ?thesis using head p by simp
    next
      case (Suc k)
      have "elem_equal (hd run ! i) (v ! i)" using sh i Suc by auto
      then show ?thesis using elem_equal_lang [OF assms(1)] i p assms(2) by auto
    qed
  qed (use p in simp)
  moreover have "slang T L v = conc (slang T L (take plen v)) (slang T L (drop plen v))"
    by (metis append_take_drop_id slang_append)
  ultimately show ?thesis by simp
qed

lemma add_tails_lang:
  "keyed T \<Longrightarrow> alang T L (foldl (add_tail plen) acc run) = alang T L acc \<union> (\<Union>v\<in>set run. slang T L (drop plen v))"
proof (induction run arbitrary: acc)
  case (Cons v run)
  have "alang T L (add_tail plen acc v) = alang T L acc \<union> slang T L (drop plen v)"
  proof (cases "list_ex (\<lambda>t. seq_equal t (drop plen v)) acc")
    case True
    then obtain t where "t \<in> set acc" "slang T L t = slang T L (drop plen v)"
      using seq_equal_lang [OF Cons.prems] by (auto simp: list_ex_iff)
    then show ?thesis using True by (auto simp: add_tail_def alang_def)
  next
    case False
    then show ?thesis by (simp add: add_tail_def)
  qed
  then show ?case using Cons by (simp add: Un_assoc)
qed simp

lemma collapse_lang: "keyed T \<Longrightarrow> alang T L (collapse_tails plen run) = (\<Union>v\<in>set run. slang T L (drop plen v))"
  by (simp add: collapse_tails_add add_tails_lang)

lemma alang_set: "set a = set b \<Longrightarrow> alang T L a = alang T L b"
  by (simp add: alang_def)

lemma set_order_tails: "set (order_tails ts) = set ts"
  by (auto simp: order_tails_def list_ex_iff)

lemma order_lang [simp, factor_lang]: "alang T L (order_tails ts) = alang T L ts"
  by (rule alang_set) (rule set_order_tails)

lemma set_add_tails: "set (foldl (add_tail plen) acc run) \<subseteq> set acc \<union> drop plen ` set run"
proof (induction run arbitrary: acc)
  case (Cons v run)
  have "set (add_tail plen acc v) \<subseteq> set acc \<union> {drop plen v}" by (auto simp: add_tail_def)
  then show ?case using Cons.IH [of "add_tail plen acc v"] by auto
qed simp

lemma collapse_set: "set (collapse_tails plen run) \<subseteq> drop plen ` set run"
  using set_add_tails [of plen "[]" run] by (simp add: collapse_tails_add)

lemma replace_run_lang:
  assumes "k < length alts" and "k \<notin> set removed" and "\<And>r. r \<in> set removed \<Longrightarrow> r < length alts"
    and "slang T L x = (\<Union>m\<in>insert k (set removed). slang T L (alts ! m))"
  shows "alang T L (replace_run k removed x alts) = alang T L alts"
proof -
  have all: "alang T L alts = (\<Union>j\<in>{0..<length alts}. slang T L (alts ! j))"
  proof -
    have "set alts = (\<lambda>j. alts ! j) ` {0..<length alts}" by (auto simp: set_conv_nth)
    then show ?thesis by (simp only: alang_def image_image UN_simps)
  qed
  have "alang T L (replace_run k removed x alts) =
      (\<Union>j\<in>{0..<length alts} - set removed. slang T L (if j = k then x else alts ! j))"
  proof -
    have "set (replace_run k removed x alts) = (\<lambda>j. if j = k then x else alts ! j) ` ({0..<length alts} - set removed)"
      by (auto simp: replace_run_def)
    then show ?thesis by (simp only: alang_def image_image UN_simps)
  qed
  also have "\<dots> = slang T L x \<union> (\<Union>j\<in>{0..<length alts} - set removed - {k}. slang T L (alts ! j))"
  proof -
    define D where "D = {0..<length alts} - set removed - {k}"
    have "{0..<length alts} - set removed = insert k D" "k \<notin> D" using assms(1,2) by (auto simp: D_def)
    then show ?thesis unfolding D_def [symmetric] by (auto split: if_splits)
  qed
  also have "\<dots> = (\<Union>j\<in>{0..<length alts}. slang T L (alts ! j))"
    unfolding assms(4) using assms(1,3) by fastforce
  finally show ?thesis using all by simp
qed

section \<open>One step\<close>

text \<open>What a successful step is made of.\<close>

lemma factor_once_parts:
  assumes "factor_once uc g pn po alts used = Inr (Some (out, used', helper))"
  obtains k run plen tails x removed
  where "Suc k < length alts" and "hd run = unwrap_alt (alts ! k)" and "unwrap_alt (alts ! k) \<noteq> []"
    and "run = map (\<lambda>(_, v, _). v) ((k, unwrap_alt (alts ! k), None) #
          gather_members uc g (hd (unwrap_alt (alts ! k))) (Suc k) (drop (Suc k) (map unwrap_alt alts)))"
    and "removed = map fst (gather_members uc g (hd (unwrap_alt (alts ! k))) (Suc k) (drop (Suc k) (map unwrap_alt alts)))"
    and "plen = prefix_length run 1" and "tails = order_tails (collapse_tails plen run)"
    and "out = replace_run k removed x alts"
    and "x = take plen (hd run) @ (if length tails = 1 then hd tails else [el_reference (fresh_fact_name pn used)]) \<or>
      x = [el_group [take plen (hd run) @ (if length tails = 1 then hd tails else [el_reference (fresh_fact_name pn used)])]]"
    and "used' = (if length tails = 1 then used else iset_insert (fresh_fact_name pn used) used)"
    and "if length tails = 1 then helper = None
      else \<exists>e. helper = Some (tails_helper (fresh_fact_name pn used) po tails e)"
proof -
  obtain k where k: "Suc k < length alts" "unwrap_alt (alts ! k) \<noteq> []"
    "factor_run g pn po alts used k
      ((k, unwrap_alt (alts ! k), None) #
       gather_members uc g (hd (unwrap_alt (alts ! k))) (Suc k) (drop (Suc k) (map unwrap_alt alts))) =
     Inr (Some (out, used', helper))"
    by (rule factor_once_Some [OF assms])
  show ?thesis
    by (rule factor_run_Some [OF k(3)]) (rule that [OF k(1) _ k(2) refl refl], auto)
qed

lemma elang_el_group [simp, factor_lang]: "elang T L (el_group alts) = alang T L alts"
  by (simp add: el_group_def el_of_def)

lemma p_alts_tails_helper [simp]: "p_alts (tails_helper h po tails e) = tails"
  and p_name_tails_helper [simp]: "p_name (tails_helper h po tails e) = h"
  by (simp_all add: tails_helper_def)

lemma factor_once_lang:
  assumes "factor_once uc g pn po alts used = Inr (Some (out, used', helper))"
    and "keyed T" and "resolved T L g"
    and "\<And>h. helper = Some h \<Longrightarrow> L (p_name h) = alang T L (p_alts h)"
  shows "alang T L out = alang T L alts"
proof (rule factor_once_parts [OF assms(1)])
  fix k run plen tails x removed
  assume k: "Suc k < length alts" and hd: "hd run = unwrap_alt (alts ! k)" and ne: "unwrap_alt (alts ! k) \<noteq> []"
    and run: "run = map (\<lambda>(_, v, _). v) ((k, unwrap_alt (alts ! k), None) #
          gather_members uc g (hd (unwrap_alt (alts ! k))) (Suc k) (drop (Suc k) (map unwrap_alt alts)))"
    and removed: "removed = map fst (gather_members uc g (hd (unwrap_alt (alts ! k))) (Suc k) (drop (Suc k) (map unwrap_alt alts)))"
    and plen: "plen = prefix_length run 1" and tails: "tails = order_tails (collapse_tails plen run)"
    and out: "out = replace_run k removed x alts"
    and x: "x = take plen (hd run) @ (if length tails = 1 then hd tails else [el_reference (fresh_fact_name pn used)]) \<or>
      x = [el_group [take plen (hd run) @ (if length tails = 1 then hd tails else [el_reference (fresh_fact_name pn used)])]]"
    and helper: "if length tails = 1 then helper = None
      else \<exists>e. helper = Some (tails_helper (fresh_fact_name pn used) po tails e)"
  let ?view = "unwrap_alt (alts ! k)"
  let ?ms = "gather_members uc g (hd ?view) (Suc k) (drop (Suc k) (map unwrap_alt alts))"
  have member: "slang T L sq = slang T L (alts ! j) \<and> sq \<noteq> [] \<and> (elem_equal (hd ?view) (hd sq) \<or> elem_equal (hd sq) (hd ?view)) \<and>
      Suc k \<le> j \<and> j < length alts" if "(j, sq, a) \<in> set ?ms" for j sq a
    using gather_lang [OF assms(3) that] gather_members_range [OF that] k by auto
  have vs: "v \<noteq> [] \<and> (elem_equal (hd ?view) (hd v) \<or> elem_equal (hd v) (hd ?view))"
    if "v \<in> set (map (\<lambda>(_, v, _). v) ?ms)" for v using that member by auto
  have run': "run = ?view # map (\<lambda>(_, v, _). v) ?ms" using run by simp
  let ?P = "slang T L (take plen ?view)"
  have split: "slang T L v = conc ?P (slang T L (drop plen v))" if "v \<in> set run" for v
    by (rule run_split [OF assms(2) run' ne vs plen that])
  have tl: "alang T L tails = (\<Union>v\<in>set run. slang T L (drop plen v))"
    by (simp add: tails collapse_lang [OF assms(2)])
  have "slang T L (if length tails = 1 then hd tails else [el_reference (fresh_fact_name pn used)]) = alang T L tails"
  proof (cases "length tails = 1")
    case True
    then show ?thesis by (cases tails) auto
  next
    case False
    then show ?thesis using helper assms(4) by auto
  qed
  then have "slang T L x = conc ?P (alang T L tails)" using x hd by auto
  also have "\<dots> = (\<Union>v\<in>set run. slang T L v)" unfolding tl conc_UN using split by simp
  also have "\<dots> = slang T L ?view \<union> (\<Union>(j, v, a)\<in>set ?ms. slang T L v)" unfolding run' by auto
  also have "\<dots> = slang T L (alts ! k) \<union> (\<Union>(j, v, a)\<in>set ?ms. slang T L (alts ! j))" using member by fastforce
  also have "\<dots> = (\<Union>m\<in>insert k (set removed). slang T L (alts ! m))" unfolding removed by auto
  finally show ?thesis
    unfolding out by (intro replace_run_lang) (use k member in \<open>force simp: removed\<close>)+
qed

lemma factor_once_refs:
  assumes "factor_once uc g pn po alts used = Inr (Some (out, used', helper))"
    and "alts_refs alts \<subseteq> set used" and "grammar_refs g \<subseteq> set used"
  shows "alts_refs out \<subseteq> set used' \<and> set used \<subseteq> set used' \<and>
    (case helper of
       None \<Rightarrow> used' = used
     | Some h \<Rightarrow> alts_refs (p_alts h) \<subseteq> set used \<and> p_name h \<notin> set used \<and> set used' = insert (p_name h) (set used))"
proof (rule factor_once_parts [OF assms(1)])
  fix k run plen tails x removed
  assume k: "Suc k < length alts" and hd: "hd run = unwrap_alt (alts ! k)"
    and run: "run = map (\<lambda>(_, v, _). v) ((k, unwrap_alt (alts ! k), None) #
          gather_members uc g (hd (unwrap_alt (alts ! k))) (Suc k) (drop (Suc k) (map unwrap_alt alts)))"
    and tails: "tails = order_tails (collapse_tails plen run)" and out: "out = replace_run k removed x alts"
    and x: "x = take plen (hd run) @ (if length tails = 1 then hd tails else [el_reference (fresh_fact_name pn used)]) \<or>
      x = [el_group [take plen (hd run) @ (if length tails = 1 then hd tails else [el_reference (fresh_fact_name pn used)])]]"
    and used': "used' = (if length tails = 1 then used else iset_insert (fresh_fact_name pn used) used)"
    and helper: "if length tails = 1 then helper = None
      else \<exists>e. helper = Some (tails_helper (fresh_fact_name pn used) po tails e)"
  let ?h = "fresh_fact_name pn used"
  have views: "alts_refs (drop n (map unwrap_alt alts)) \<subseteq> set used" for n
  proof -
    have "alts_refs (drop n (map unwrap_alt alts)) \<subseteq> alts_refs (map unwrap_alt alts)"
      by (rule UN_mono [OF set_drop_subset order_refl])
    also have "\<dots> = alts_refs alts" by (simp add: refs_unwrap)
    finally show ?thesis using assms(2) by simp
  qed
  have runs: "seq_refs v \<subseteq> set used" if v: "v \<in> set run" for v
  proof (cases "v = unwrap_alt (alts ! k)")
    case True
    have "alts ! k \<in> set alts" using k by simp
    then have "seq_refs (alts ! k) \<subseteq> alts_refs alts" by (rule UN_upper)
    then show ?thesis unfolding True refs_unwrap using assms(2) by (rule subset_trans)
  next
    case False
    then obtain j a where "(j, v, a) \<in> set (gather_members uc g (hd (unwrap_alt (alts ! k))) (Suc k) (drop (Suc k) (map unwrap_alt alts)))"
      using v run by auto
    note sub = gather_refs [OF this]
    show ?thesis by (rule subset_trans [OF sub Un_least [OF views assms(3)]])
  qed
  have tl: "alts_refs tails \<subseteq> set used"
  proof -
    have "set tails \<subseteq> drop plen ` set run" using collapse_set tails set_order_tails by metis
    moreover have "seq_refs (drop plen v) \<subseteq> seq_refs v" for v :: seq by (rule UN_mono [OF set_drop_subset order_refl])
    ultimately show ?thesis using runs by blast
  qed
  have new: "?h \<notin> set used" unfolding fresh_fact_name_def by (rule fact_names.fresh_from_notin)
  have "hd run \<in> set run" using run by simp
  from runs [OF this] have "seq_refs (take plen (hd run)) \<subseteq> set used"
    using UN_mono [OF set_take_subset order_refl] by (rule subset_trans [rotated])
  moreover have "seq_refs (hd tails) \<subseteq> set used" if "length tails = 1" using tl that by (cases tails) auto
  moreover have "seq_refs x = seq_refs (take plen (hd run)) \<union> seq_refs (if length tails = 1 then hd tails else [el_reference ?h])"
    using x by (elim disjE) (simp_all add: el_group_def el_of_def UN_Un)
  ultimately have "seq_refs x \<subseteq> set used'"
    using used' by (cases "length tails = 1") (simp_all add: el_reference_def el_of_def subset_insertI2)
  then have "alts_refs out \<subseteq> set used'"
    using assms(2) used' unfolding out by (force simp: replace_run_def)
  then show ?thesis using helper used' new tl by (auto split: if_splits)
qed

section \<open>The alternatives of one production\<close>

text \<open>Induction over the steps that factor a production.\<close>

lemma factor_alts_cases:
  assumes "factor_alts uc g pn po alts used queue changed = Inr (alts', used', queue', changed')"
  obtains "alts' = alts" and "used' = used" and "queue' = queue" and "changed' = changed"
      and "factor_once uc g pn po alts used = Inr None"
  | a u helper where "factor_once uc g pn po alts used = Inr (Some (a, u, helper))"
      and "factor_alts uc g pn po a u (queue @ (case helper of Some h \<Rightarrow> [h] | None \<Rightarrow> [])) True = Inr (alts', used', queue', changed')"
  using assms
  by (subst (asm) factor_alts.simps) (auto split: sum.splits option.splits prod.splits)

lemma factor_alts_queue:
  "factor_alts uc g pn po alts used queue changed = Inr (alts', used', queue', changed') \<Longrightarrow> \<exists>hs. queue' = queue @ hs"
  using factor_alts_smaller by blast

lemma factor_alts_lang:
  "factor_alts uc g pn po alts used queue changed = Inr (alts', used', queue', changed') \<Longrightarrow>
   keyed T \<Longrightarrow> resolved T L g \<Longrightarrow> solves T L queue' \<Longrightarrow> alang T L alts' = alang T L alts"
proof (induction uc g pn po alts used queue changed rule: factor_alts.induct)
  case (1 uc g pn po alts used queue changed)
  show ?case
  proof (cases rule: factor_alts_cases [OF "1.prems"(1)])
    case (2 a u helper)
    have "alang T L alts' = alang T L a"
      by (rule "1.IH" [OF 2(1) refl refl refl 2(2) "1.prems"(2,3,4)])
    moreover have "alang T L a = alang T L alts"
    proof (rule factor_once_lang [OF 2(1) "1.prems"(2,3)])
      fix h assume "helper = Some h"
      then have "h \<in> set queue'" using factor_alts_queue [OF 2(2)] by auto
      then show "L (p_name h) = alang T L (p_alts h)" using "1.prems"(4) by (simp add: solves_def)
    qed
    ultimately show ?thesis by simp
  qed simp
qed

lemma factor_alts_single:
  assumes "factor_alts uc g pn po alts used queue changed = Inr (alts', used', queue', changed')" and "length alts = 1"
  shows "alts' = alts \<and> changed' = changed"
proof -
  obtain a where "alts = [a]" using assms(2) by (auto simp: length_Suc_conv)
  then have "factor_once uc g pn po alts used = Inr None" by (simp add: factor_once_def)
  then show ?thesis using factor_alts_cases [OF assms(1)] by auto
qed

lemma factor_alts_done:
  "factor_alts uc g pn po alts used queue changed = Inr (alts', used', queue', changed') \<Longrightarrow>
   factor_once uc g pn po alts' used' = Inr None \<and> (\<not> changed' \<longrightarrow> alts' = alts)"
proof (induction uc g pn po alts used queue changed rule: factor_alts.induct)
  case (1 uc g pn po alts used queue changed)
  show ?case
  proof (cases rule: factor_alts_cases [OF "1.prems"])
    case 1
    then show ?thesis by simp
  next
    case (2 a u helper)
    have "changed'" using 2(2)
    proof (induction uc g pn po a u "queue @ (case helper of Some h \<Rightarrow> [h] | None \<Rightarrow> [])" True arbitrary: helper queue rule: factor_alts.induct)
      case (1 uc g pn po a u)
      show ?case
      proof (cases rule: factor_alts_cases [OF 1(2)])
        case (2 b v helper')
        show ?thesis by (rule 1(1) [OF 2(1) refl refl refl refl 2(2)])
      qed simp
    qed
    then show ?thesis using "1.IH" [OF 2(1) refl refl refl 2(2)] by simp
  qed
qed

text \<open>Forwards: an assignment that solves what there is extends to one that solves the helpers too.\<close>

lemma alang_agree:
  assumes "\<And>n. n \<in> S \<Longrightarrow> L n = L' n" and "alts_refs alts \<subseteq> S"
  shows "alang T L alts = alang T L' alts"
  by (rule alang_cong, rule assms(1)) (use assms(2) in blast)

lemma resolved_cong:
  assumes "resolved T L g" and "\<And>n. n \<in> set (names (productions g)) \<union> grammar_refs g \<Longrightarrow> M n = L n"
  shows "resolved T M g"
  unfolding resolved_def
proof (intro allI impI)
  fix name p assume p: "find_prod g name = Some p" "length (p_alts p) = 1" "\<not> is_special p"
  note f = find_prod_Some [OF p(1)]
  have "alts_refs (p_alts p) \<subseteq> grammar_refs g" using f by (intro UN_upper [of p]) simp
  then have "alang T M (p_alts p) = alang T L (p_alts p)" using assms(2) by (intro alang_cong) blast
  moreover have "M name = L name" using f assms(2) by force
  ultimately show "M name = alang T M (p_alts p)" using assms(1) p by (simp add: resolved_def)
qed

abbreviation grammar_names :: "grammar \<Rightarrow> string set" where
  "grammar_names g \<equiv> set (names (productions g)) \<union> grammar_refs g"

lemma factor_alts_extends:
  "factor_alts uc g pn po alts used queue changed = Inr (alts', used', queue', changed') \<Longrightarrow>
   keyed T \<Longrightarrow> resolved T M g \<Longrightarrow> grammar_names g \<subseteq> set used \<Longrightarrow> alts_refs alts \<subseteq> set used \<Longrightarrow>
   \<exists>hs M'. queue' = queue @ hs \<and> (\<forall>n\<in>set used. M' n = M n) \<and> solves T M' hs \<and>
     alang T M' alts' = alang T M alts \<and> alts_refs alts' \<subseteq> set used' \<and> set used \<subseteq> set used' \<and>
     (\<forall>h\<in>set hs. p_name h \<in> set used' - set used \<and> alts_refs (p_alts h) \<subseteq> set used') \<and> distinct (names hs)"
proof (induction uc g pn po alts used queue changed arbitrary: M rule: factor_alts.induct)
  case (1 uc g pn po alts used queue changed)
  show ?case
  proof (cases rule: factor_alts_cases [OF "1.prems"(1)])
    case 1
    then show ?thesis using "1.prems" by (intro exI [of _ "[]"] exI [of _ M]) simp
  next
    case (2 a u helper)
    let ?hs = "case helper of Some h \<Rightarrow> [h] | None \<Rightarrow> []"
    note r = factor_once_refs [OF 2(1) "1.prems"(5)] 
    have gr: "grammar_refs g \<subseteq> set used" using "1.prems"(4) by simp
    note r = r [OF gr]
    define N where "N = (case helper of Some h \<Rightarrow> M(p_name h := alang T M (p_alts h)) | None \<Rightarrow> M)"
    have agree: "N n = M n" if "n \<in> set used" for n using that r by (auto simp: N_def split: option.splits)
    have resN: "resolved T N g" by (rule resolved_cong [OF "1.prems"(3)]) (use agree "1.prems"(4) in blast)
    have hN: "N (p_name h) = alang T N (p_alts h)" if "helper = Some h" for h
    proof -
      have "alts_refs (p_alts h) \<subseteq> set used" using r that by simp
      from alang_agree [OF agree this] have "alang T N (p_alts h) = alang T M (p_alts h)" by simp
      then show ?thesis using that by (simp add: N_def)
    qed
    have aN: "alang T N a = alang T M alts"
    proof -
      have "alang T N a = alang T N alts" by (rule factor_once_lang [OF 2(1) "1.prems"(2) resN hN])
      also have "\<dots> = alang T M alts" by (rule alang_cong) (use agree "1.prems"(5) in blast)
      finally show ?thesis .
    qed
    have gu: "grammar_names g \<subseteq> set u" using "1.prems"(4) r by blast
    have au: "alts_refs a \<subseteq> set u" using r by blast
    obtain hs M' where ih: "queue' = (queue @ ?hs) @ hs" "\<forall>n\<in>set u. M' n = N n" "solves T M' hs"
      "alang T M' alts' = alang T N a" "alts_refs alts' \<subseteq> set used'" "set u \<subseteq> set used'"
      "\<forall>h\<in>set hs. p_name h \<in> set used' - set u \<and> alts_refs (p_alts h) \<subseteq> set used'" "distinct (names hs)"
      using "1.IH" [OF 2(1) refl refl refl 2(2) "1.prems"(2) resN gu au]
      by (elim exE conjE) (rule that; assumption)
    have "solves T M' ?hs"
    proof (cases helper)
      case (Some h)
      have sub: "alts_refs (p_alts h) \<subseteq> set used" "set used \<subseteq> set u" using r Some by (simp, blast)
      have hu: "p_name h \<in> set u" "alts_refs (p_alts h) \<subseteq> set u"
        using r Some subset_trans [OF sub] by simp_all
      have "alang T M' (p_alts h) = alang T N (p_alts h)" by (rule alang_cong) (use hu ih(2) in blast)
      then show ?thesis using Some hN ih(2) hu(1) by simp
    qed simp
    moreover have "\<forall>h\<in>set ?hs. p_name h \<in> set used' - set used \<and> alts_refs (p_alts h) \<subseteq> set used'"
    proof (cases helper)
      case (Some h)
      have "alts_refs (p_alts h) \<subseteq> set used" "set used \<subseteq> set u" "p_name h \<in> set u" "p_name h \<notin> set used"
        using r Some by auto
      then have "alts_refs (p_alts h) \<subseteq> set used'" "p_name h \<in> set used' - set used"
        using ih(6) subset_trans by (blast, blast)
      then show ?thesis using Some by simp
    qed simp
    moreover have "distinct (names (?hs @ hs))"
      using ih(7,8) r by (auto split: option.splits)
    ultimately show ?thesis
      using ih aN agree r by (intro exI [of _ "?hs @ hs"] exI [of _ M']) (auto split: option.splits)
  qed
qed

section \<open>The queue\<close>

definition passed_on :: "production \<Rightarrow> seq list \<Rightarrow> bool \<Rightarrow> production" where
  "passed_on p alts changed = (if changed then p\<lparr>p_alts := alts\<rparr> else p)"

lemma p_name_passed_on [simp]: "p_name (passed_on p alts changed) = p_name p"
  by (simp add: passed_on_def)

lemma factor_queue_out:
  "factor_queue uc g queue used out = Inr res \<Longrightarrow> set out \<subseteq> set res"
proof (induction uc g queue used out rule: factor_queue.induct)
  case (2 uc g p queue used out)
  show ?case
  proof (cases "is_special p")
    case True
    then show ?thesis using 2 by auto
  next
    case False
    then obtain alts u q ch where f: "factor_alts uc g (p_name p) (origin_of p) (p_alts p) used queue False = Inr (alts, u, q, ch)"
      "factor_queue uc g q u (out @ [if ch then p\<lparr>p_alts := alts\<rparr> else p]) = Inr res"
      using "2.prems" by (auto split: sum.splits)
    from "2.IH"(2) [OF False f(1) refl refl refl f(2)] show ?thesis by auto
  qed
qed simp

lemma factor_queue_single:
  "factor_queue uc g queue used out = Inr res \<Longrightarrow> p \<in> set queue \<Longrightarrow> length (p_alts p) = 1 \<Longrightarrow> p \<in> set res"
proof (induction uc g queue used out rule: factor_queue.induct)
  case (2 uc g q queue used out)
  show ?case
  proof (cases "is_special q")
    case True
    have rest: "factor_queue uc g queue used (out @ [q]) = Inr res" using "2.prems"(1) True by simp
    show ?thesis
    proof (cases "p = q")
      case True
      then show ?thesis using factor_queue_out [OF rest] by simp
    next
      case False
      then show ?thesis using "2.IH"(1) [OF True rest] "2.prems" by simp
    qed
  next
    case False
    then obtain alts u qs ch where f: "factor_alts uc g (p_name q) (origin_of q) (p_alts q) used queue False = Inr (alts, u, qs, ch)"
      "factor_queue uc g qs u (out @ [if ch then q\<lparr>p_alts := alts\<rparr> else q]) = Inr res"
      using "2.prems"(1) by (auto split: sum.splits)
    show ?thesis
    proof (cases "p = q")
      case True
      then have "\<not> ch" using factor_alts_single [OF f(1)] "2.prems"(3) by simp
      then show ?thesis using factor_queue_out [OF f(2)] True by simp
    next
      case ne: False
      have "p \<in> set qs" using factor_alts_queue [OF f(1)] "2.prems"(2) ne by auto
      from "2.IH"(2) [OF False f(1) refl refl refl f(2) this "2.prems"(3)] show ?thesis .
    qed
  qed
qed simp

text \<open>Backwards: what solves the result solves what went in.\<close>

lemma factor_queue_solved:
  "factor_queue uc g queue used out = Inr res \<Longrightarrow> keyed T \<Longrightarrow> resolved T L g \<Longrightarrow> solves T L res \<Longrightarrow> solves T L queue"
proof (induction uc g queue used out rule: factor_queue.induct)
  case (2 uc g p queue used out)
  show ?case
  proof (cases "is_special p")
    case True
    have rest: "factor_queue uc g queue used (out @ [p]) = Inr res" using "2.prems"(1) True by simp
    have "p \<in> set res" using factor_queue_out [OF rest] by simp
    then show ?thesis using "2.IH"(1) [OF True rest "2.prems"(2,3,4)] "2.prems"(4) by (simp add: solves_def)
  next
    case False
    then obtain alts u q ch where f: "factor_alts uc g (p_name p) (origin_of p) (p_alts p) used queue False = Inr (alts, u, q, ch)"
      "factor_queue uc g q u (out @ [passed_on p alts ch]) = Inr res"
      using "2.prems"(1) by (auto simp: passed_on_def split: sum.splits)
    have q: "solves T L q"
      by (rule "2.IH"(2) [OF False f(1) refl refl refl _ "2.prems"(2,3,4)]) (use f(2) in \<open>simp add: passed_on_def\<close>)
    have "passed_on p alts ch \<in> set res" using factor_queue_out [OF f(2)] by simp
    then have "L (p_name p) = alang T L (p_alts (passed_on p alts ch))" using "2.prems"(4) by (force simp: solves_def)
    also have "p_alts (passed_on p alts ch) = alts" using factor_alts_done [OF f(1)] by (auto simp: passed_on_def)
    also have "alang T L alts = alang T L (p_alts p)" by (rule factor_alts_lang [OF f(1) "2.prems"(2,3) q])
    finally show ?thesis using q factor_alts_queue [OF f(1)] by auto
  qed
qed simp

text \<open>Forwards, with the names: every name stays in use and no two productions share one.\<close>

definition tidy :: "production list \<Rightarrow> string list \<Rightarrow> bool" where
  "tidy ps used \<longleftrightarrow> distinct (names ps) \<and> (\<forall>p\<in>set ps. p_name p \<in> set used \<and> alts_refs (p_alts p) \<subseteq> set used)"

lemma factor_queue_extends:
  "factor_queue uc g queue used out = Inr res \<Longrightarrow> keyed T \<Longrightarrow> resolved T M g \<Longrightarrow> grammar_names g \<subseteq> set used \<Longrightarrow>
   tidy (out @ queue) used \<Longrightarrow> solves T M (out @ queue) \<Longrightarrow>
   \<exists>M'. (\<forall>n\<in>set used. M' n = M n) \<and> solves T M' res \<and> distinct (names res)"
proof (induction uc g queue used out arbitrary: M rule: factor_queue.induct)
  case (1 uc g used out)
  then show ?case by (intro exI [of _ M]) (simp add: tidy_def)
next
  case (2 uc g p queue used out)
  show ?case
  proof (cases "is_special p")
    case True
    have rest: "factor_queue uc g queue used (out @ [p]) = Inr res" using "2.prems"(1) True by simp
    show ?thesis by (rule "2.IH"(1) [OF True rest "2.prems"(2,3,4)]) (use "2.prems"(5,6) in simp_all)
  next
    case False
    then obtain alts u q ch where f: "factor_alts uc g (p_name p) (origin_of p) (p_alts p) used queue False = Inr (alts, u, q, ch)"
      "factor_queue uc g q u (out @ [passed_on p alts ch]) = Inr res"
      using "2.prems"(1) by (auto simp: passed_on_def split: sum.splits)
    let ?p = "passed_on p alts ch"
    have pa: "p_alts ?p = alts" using factor_alts_done [OF f(1)] by (auto simp: passed_on_def)
    have refs: "alts_refs (p_alts p) \<subseteq> set used" using "2.prems"(5) by (simp add: tidy_def)
    obtain hs M1 where h: "q = queue @ hs" "\<forall>n\<in>set used. M1 n = M n" "solves T M1 hs"
      "alang T M1 alts = alang T M (p_alts p)" "alts_refs alts \<subseteq> set u" "set used \<subseteq> set u"
      "\<forall>h\<in>set hs. p_name h \<in> set u - set used \<and> alts_refs (p_alts h) \<subseteq> set u" "distinct (names hs)"
      using factor_alts_extends [OF f(1) "2.prems"(2,3,4) refs]
      by (elim exE conjE) (rule that; assumption)
    have keep: "M1 n = M n" if "n \<in> set used" for n using h(2) that by blast
    have res1: "resolved T M1 g" by (rule resolved_cong [OF "2.prems"(3)]) (use keep "2.prems"(4) in blast)
    have old: "solves T M1 (out @ queue)"
      unfolding solves_def
    proof
      fix r assume r: "r \<in> set (out @ queue)"
      have u: "p_name r \<in> set used" "alts_refs (p_alts r) \<subseteq> set used" using "2.prems"(5) r by (auto simp: tidy_def)
      have "alang T M1 (p_alts r) = alang T M (p_alts r)" by (rule alang_agree [OF keep u(2)])
      then show "M1 (p_name r) = alang T M1 (p_alts r)" using "2.prems"(6) r keep [OF u(1)] by (auto simp: solves_def)
    qed
    have pname: "p_name p \<in> set used" using "2.prems"(5) by (simp add: tidy_def)
    have "M1 (p_name p) = alang T M1 alts" using keep [OF pname] "2.prems"(6) h(4) by simp
    then have s: "solves T M1 ((out @ [?p]) @ q)" using old h(1,3) pa by simp
    have t: "tidy ((out @ [?p]) @ q) u"
    proof -
      have "distinct (names (out @ p # queue))" "set (names (out @ p # queue)) \<subseteq> set used"
        using "2.prems"(5) by (auto simp: tidy_def)
      moreover have "set (names hs) \<inter> set used = {}" using h(7) by auto
      ultimately have "distinct (names (out @ p # queue) @ names hs)"
        using h(8) unfolding distinct_append by blast
      moreover have "names ((out @ [?p]) @ q) = names (out @ p # queue) @ names hs" using h(1) by simp
      ultimately have d: "distinct (names ((out @ [?p]) @ q))" by simp
      have "p_name r \<in> set u \<and> alts_refs (p_alts r) \<subseteq> set u" if r: "r \<in> set ((out @ [?p]) @ q)" for r
      proof (cases "r \<in> set (out @ queue)")
        case True
        then have "p_name r \<in> set used \<and> alts_refs (p_alts r) \<subseteq> set used" using "2.prems"(5) by (simp add: tidy_def)
        then show ?thesis using h(6) by (meson subsetD subset_trans)
      next
        case False
        then have "r = ?p \<or> r \<in> set hs" using r h(1) by auto
        then show ?thesis
        proof
          assume "r = ?p"
          then show ?thesis using h(5) subsetD [OF h(6) pname] pa by simp
        next
          assume "r \<in> set hs"
          from bspec [OF h(7) this] show ?thesis by simp
        qed
      qed
      then show ?thesis using d unfolding tidy_def by blast
    qed
    have gu: "grammar_names g \<subseteq> set u" by (rule subset_trans [OF "2.prems"(4) h(6)])
    obtain M' where "\<forall>n\<in>set u. M' n = M1 n" "solves T M' res" "distinct (names res)"
      using "2.IH"(2) [OF False f(1) refl refl refl f(2) [unfolded passed_on_def] "2.prems"(2) res1 gu
          t [unfolded passed_on_def] s [unfolded passed_on_def]] by (elim exE conjE) (rule that; assumption)
    moreover from this have "\<forall>n\<in>set used. M' n = M n" using h(2,6) by (metis subsetD)
    ultimately show ?thesis by blast
  qed
qed

section \<open>The whole pass\<close>

lemma solves_resolved: "solves T L (productions g) \<Longrightarrow> resolved T L g"
  by (auto simp: resolved_def solves_def dest!: find_prod_Some)

lemma left_factor_keeps:
  assumes "left_factor uc g = Inr g'" and "keyed T" and "distinct (names (productions g))" and "closed (productions g)"
    and "n \<in> set (names (productions g))"
  shows "glang T (productions g') n = glang T (productions g) n"
proof -
  let ?ps = "productions g" and ?used = "iset_extend [] (names (productions g))"
  obtain res where res: "factor_queue uc g ?ps ?used [] = Inr res" "productions g' = res"
    using assms(1) by (auto simp: left_factor_def res_bind_Inr_iff grammar_new_def)
  have used: "set ?used = set (names ?ps)" by simp
  have closed: "alts_refs (p_alts p) \<subseteq> set (names ?ps)" if "p \<in> set ?ps" for p
    using assms(4) that by (simp add: closed_def)
  have gn: "grammar_names g \<subseteq> set ?used" unfolding used using closed by blast
  have s: "solves T (glang T ?ps) ?ps" by (rule glang_solves [OF assms(3)])
  have t: "tidy ([] @ ?ps) ?used" using assms(3) closed by (auto simp: tidy_def)
  obtain M where M: "\<forall>m\<in>set ?used. M m = glang T ?ps m" "solves T M res" "distinct (names res)"
    using factor_queue_extends [OF res(1) assms(2) solves_resolved [OF s] gn t] s by auto
  have "glang T res n \<subseteq> M n" by (rule glang_least [OF solves_models [OF M(2)]])
  moreover have "M n = glang T ?ps n" using M(1) assms(5) unfolding used by blast
  ultimately have le: "glang T res n \<subseteq> glang T ?ps n" by simp
  let ?L = "glang T res"
  have sr: "solves T ?L res" by (rule glang_solves [OF M(3)])
  have "resolved T ?L g"
    unfolding resolved_def
  proof (intro allI impI)
    fix name p assume p: "find_prod g name = Some p" "length (p_alts p) = 1" "\<not> is_special p"
    note f = find_prod_Some [OF p(1)]
    have "p \<in> set res" by (rule factor_queue_single [OF res(1) conjunct1 [OF f] p(2)])
    then show "?L name = alang T ?L (p_alts p)" using sr f by (auto simp: solves_def)
  qed
  from factor_queue_solved [OF res(1) assms(2) this sr] have "models T ?L ?ps" by (rule solves_models)
  then have "glang T ?ps n \<subseteq> ?L n" by (rule glang_least)
  with le show ?thesis using res(2) by simp
qed

text \<open>What a step can refuse, and that nothing is left to factor.\<close>

lemma factor_run_error:
  assumes "factor_run g pn po alts used i members = Inl e"
  shows "\<exists>j v name. (j, v, Some name) \<in> set members \<and>
    e = err_at (FactorsValue name pn) name (Option.bind (find_prod g name) p_sp)"
proof -
  obtain name where "first_some (\<lambda>(_, _, annotated). annotated) members = Some name"
    "e = err_at (FactorsValue name pn) name (Option.bind (find_prod g name) p_sp)"
    using assms by (auto simp: factor_run_def Let_def split: if_splits option.splits)
  then show ?thesis using first_some_Some by fastforce
qed

lemma gather_annotated:
  "(j, sq, Some name) \<in> set (gather_members uc g h k vs) \<Longrightarrow> \<exists>p. find_prod g name = Some p \<and> p_value p \<noteq> None"
proof (induction vs arbitrary: k)
  case (Cons w vs)
  show ?case
  proof (cases rule: gather_members_cases [of uc g h k w vs])
    case (3 sq' a')
    show ?thesis
    proof (cases "(j, sq, Some name) = (k, sq', a')")
      case True
      then have i: "inline_head_ref w h g = Some (sq', Some name)" using 3(3) by auto
      obtain n' p where p: "find_prod g n' = Some p" "p_value p \<noteq> None" "name = p_name p"
        using i by (auto simp: inline_head_ref_def Let_def bind_eq_Some_conv split: if_splits)
      then show ?thesis using find_prod_Some [OF p(1)] by auto
    next
      case False
      then show ?thesis using Cons 3(2) by auto
    qed
  qed (use Cons in auto)
qed simp

lemma factor_from_error:
  "factor_from uc g pn po alts used i views = Inl e \<Longrightarrow>
   \<exists>name p. find_prod g name = Some p \<and> p_value p \<noteq> None \<and> e = err_at (FactorsValue name pn) name (p_sp p)"
proof (induction uc g pn po alts used i views rule: factor_from.induct)
  case (1 uc g pn po alts used i view nxt views)
  let ?ms = "(i, view, None) # gather_members uc g (hd view) (Suc i) (nxt # views)"
  show ?case
  proof (cases "view \<noteq> [] \<and> factor_run g pn po alts used i ?ms = Inl e")
    case True
    then obtain j v name where m: "(j, v, Some name) \<in> set ?ms"
      "e = err_at (FactorsValue name pn) name (Option.bind (find_prod g name) p_sp)"
      using factor_run_error by blast
    then have "(j, v, Some name) \<in> set (gather_members uc g (hd view) (Suc i) (nxt # views))" by simp
    from gather_annotated [OF this] obtain p where p: "find_prod g name = Some p" "p_value p \<noteq> None" by blast
    show ?thesis by (rule exI [of _ name], rule exI [of _ p]) (simp add: p m(2))
  next
    case False
    then have rest: "factor_from uc g pn po alts used (Suc i) (nxt # views) = Inl e"
      and cond: "view = [] \<or> view \<noteq> [] \<and> factor_run g pn po alts used i ?ms = Inr None"
      using "1.prems" by (auto simp: res_bind_def split: if_splits sum.splits option.splits)
    from cond show ?thesis
    proof
      assume "view = []"
      from "1.IH"(1) [OF this rest] show ?thesis .
    next
      assume c: "view \<noteq> [] \<and> factor_run g pn po alts used i ?ms = Inr None"
      show ?thesis by (rule "1.IH"(2) [OF _ _ refl rest]) (use c in auto)
    qed
  qed
qed auto

lemma factor_alts_error:
  "factor_alts uc g pn po alts used queue changed = Inl e \<Longrightarrow>
   \<exists>name p. find_prod g name = Some p \<and> p_value p \<noteq> None \<and> e = err_at (FactorsValue name pn) name (p_sp p)"
proof (induction uc g pn po alts used queue changed rule: factor_alts.induct)
  case (1 uc g pn po alts used queue changed)
  show ?case
  proof (cases "factor_once uc g pn po alts used")
    case (Inl e')
    then have "e' = e" using "1.prems" by (simp add: factor_alts.simps [of uc g pn po alts])
    then show ?thesis using Inl factor_from_error unfolding factor_once_def by blast
  next
    case (Inr r)
    show ?thesis
    proof (cases r)
      case None
      then show ?thesis using "1.prems" Inr by (simp add: factor_alts.simps [of uc g pn po alts])
    next
      case (Some f)
      obtain a u helper where f: "f = (a, u, helper)" by (cases f)
      show ?thesis
        by (rule "1.IH" [OF Inr Some f [symmetric] refl])
           (use "1.prems" Inr Some f in \<open>simp add: factor_alts.simps [of uc g pn po alts]\<close>)
    qed
  qed
qed

lemma factor_queue_error:
  "factor_queue uc g queue used out = Inl e \<Longrightarrow>
   \<exists>pn name p. find_prod g name = Some p \<and> p_value p \<noteq> None \<and> e = err_at (FactorsValue name pn) name (p_sp p)"
proof (induction uc g queue used out rule: factor_queue.induct)
  case (2 uc g p queue used out)
  show ?case
  proof (cases "is_special p")
    case True
    then show ?thesis using 2 by simp
  next
    case False
    show ?thesis
    proof (cases "factor_alts uc g (p_name p) (origin_of p) (p_alts p) used queue False")
      case (Inl e')
      then have "e' = e" using "2.prems" False by simp
      then show ?thesis using factor_alts_error [OF Inl] by blast
    next
      case (Inr r)
      obtain alts u q ch where r: "r = (alts, u, q, ch)" by (cases r)
      show ?thesis by (rule "2.IH"(2) [OF False Inr r [symmetric] refl refl]) (use "2.prems" False Inr r in simp)
    qed
  qed
qed simp

definition fully_factored :: "(nat \<Rightarrow> nat \<times> nat) \<Rightarrow> grammar \<Rightarrow> production \<Rightarrow> bool" where
  "fully_factored uc g p \<longleftrightarrow>
     is_special p \<or> (\<exists>used. factor_once uc g (p_name p) (origin_of p) (p_alts p) used = Inr None)"

lemma factor_queue_full:
  "factor_queue uc g queue used out = Inr res \<Longrightarrow> \<forall>p\<in>set out. fully_factored uc g p \<Longrightarrow> \<forall>p\<in>set res. fully_factored uc g p"
proof (induction uc g queue used out rule: factor_queue.induct)
  case (2 uc g p queue used out)
  show ?case
  proof (cases "is_special p")
    case True
    then show ?thesis using 2 by (simp add: fully_factored_def)
  next
    case False
    then obtain alts u q ch where f: "factor_alts uc g (p_name p) (origin_of p) (p_alts p) used queue False = Inr (alts, u, q, ch)"
      "factor_queue uc g q u (out @ [if ch then p\<lparr>p_alts := alts\<rparr> else p]) = Inr res"
      using "2.prems"(1) by (auto split: sum.splits)
    let ?p = "if ch then p\<lparr>p_alts := alts\<rparr> else p"
    have c: "ch \<or> p_alts p = alts" using factor_alts_done [OF f(1)] by blast
    have d1: "p_alts ?p = alts" using c by (cases ch) auto
    have d2: "origin_of ?p = origin_of p" by (cases "p_origin p") (simp_all add: origin_of_def)
    have d3: "p_name ?p = p_name p" by (simp split: if_split)
    have "fully_factored uc g ?p"
      unfolding fully_factored_def d1 d2 d3 by (intro disjI2 exI [of _ u]) (rule factor_alts_done [OF f(1), THEN conjunct1])
    then have "\<forall>p\<in>set (out @ [?p]). fully_factored uc g p"
      unfolding set_append list.set ball_Un using "2.prems"(2) by blast
    then show ?thesis by (rule "2.IH"(2) [OF False f(1) refl refl refl f(2)])
  qed
qed simp

lemma left_factor_returns:
  assumes "list_all (\<lambda>p. p_value p = None) (productions g)"
  shows "\<exists>g'. left_factor uc g = Inr g'"
proof (cases "factor_queue uc g (productions g) (iset_extend [] (names (productions g))) []")
  case (Inl e)
  then obtain name p where "find_prod g name = Some p" "p_value p \<noteq> None" using factor_queue_error by blast
  then show ?thesis using assms find_prod_Some by (fastforce simp: list_all_iff)
qed (simp add: left_factor_def)

section \<open>The properties\<close>

text \<open>
  C36: Left factoring keeps the language of every rule of a closed grammar whose rules have
  different names, for every lexer that reads two terms of one token key alike.
\<close>

theorem left_factor_language:
  assumes "left_factor uc g = Inr g'" and "keyed T" and "distinct (names (productions g))" and "closed (productions g)"
    and "n \<in> set (names (productions g))"
  shows "glang T (productions g') n = glang T (productions g) n"
  by (rule left_factor_keeps [OF assms])

text \<open>
  C37: The queue of left factoring empties whatever the grammar: the pass refuses only to dissolve a
  rule that builds a value, and what it returns has no production left to factor.
\<close>

theorem left_factor_complete:
  "case left_factor uc g of
     Inl e \<Rightarrow> \<exists>pn name p. find_prod g name = Some p \<and> p_value p \<noteq> None \<and> e = err_at (FactorsValue name pn) name (p_sp p)
   | Inr g' \<Rightarrow> list_all (fully_factored uc g) (productions g')"
proof (cases "factor_queue uc g (productions g) (iset_extend [] (names (productions g))) []")
  case (Inl e)
  then show ?thesis using factor_queue_error [OF Inl] by (simp add: left_factor_def)
next
  case (Inr res)
  then show ?thesis using factor_queue_full [OF Inr] by (simp add: left_factor_def grammar_new_def list_all_iff)
qed

definition factor_example :: grammar where
  "factor_example = grammar_new
     [prod_new ''s'' [[el_star (el_term ''x''), el_term ''a''], [el_star (el_term ''x''), el_term ''b'']]]"

lemma keyed_literal: "keyed literal_terminals"
  by (auto simp: keyed_def literal_terminals_def term_key_eq)

lemma left_factor_language_witness:
  "\<exists>g'. left_factor (\<lambda>c. (c, c)) factor_example = Inr g' \<and>
     glang literal_terminals (productions g') ''s'' = glang literal_terminals (productions factor_example) ''s''"
proof -
  have "list_all (\<lambda>p. p_value p = None) (productions factor_example)"
    by (simp add: factor_example_def grammar_new_def prod_new_def default_production_def)
  then obtain g' where g': "left_factor (\<lambda>c. (c, c)) factor_example = Inr g'" using left_factor_returns by blast
  have "glang literal_terminals (productions g') ''s'' = glang literal_terminals (productions factor_example) ''s''"
    by (rule left_factor_language [OF g' keyed_literal])
       (simp_all add: factor_example_def grammar_new_def closed_def prod_new_def default_production_def el_star_def el_term_def el_of_def)
  with g' show ?thesis by blast
qed

end
