(* ===== verification/Left_Recursion.thy ===== *)
theory Left_Recursion
  imports Repetitions Token_Span
begin

text \<open>
  Left-recursion elimination, \<open>rs/src/leftrec.rs\<close>: the split of nullable prefixes, the two walks
  of the leading-reference graph (an order for Paull's pass, and the members of its cycles), the
  substitution with its two budgets, the rewrite of direct left recursion to a loop, and the
  source tree every rewrite carries along. An \<open>expect\<close> on the source metadata of a production
  is a lookup with a default here; \<open>sources_mirror\<close> of the language theory shows that it is never
  missed.
\<close>

section \<open>Where a rewritten element came from\<close>

datatype source = Source (src_rule: string) (src_sp: "src_span option") (src_children: source_children)
and source_children = NoSource | InnerSource source | GroupSources "source list list"

type_synonym alt_sources = "source list"
type_synonym rewrite_sources = "(string \<times> alt_sources list) list"

fun authored_source :: "production \<Rightarrow> element \<Rightarrow> source" where
  "authored_source p (Element (Opt i) sp) = Source (origin_of p) (or_span sp (p_sp p)) (InnerSource (authored_source p i))"
| "authored_source p (Element (Star i _) sp) = Source (origin_of p) (or_span sp (p_sp p)) (InnerSource (authored_source p i))"
| "authored_source p (Element (Plus i) sp) = Source (origin_of p) (or_span sp (p_sp p)) (InnerSource (authored_source p i))"
| "authored_source p (Element (Rep _ _ i) sp) = Source (origin_of p) (or_span sp (p_sp p)) (InnerSource (authored_source p i))"
| "authored_source p (Element (Group alts) sp) =
     Source (origin_of p) (or_span sp (p_sp p)) (GroupSources (map (map (authored_source p)) alts))"
| "authored_source p (Element _ sp) = Source (origin_of p) (or_span sp (p_sp p)) NoSource"

definition with_children :: "source \<Rightarrow> source_children \<Rightarrow> source" where
  "with_children s c = Source (src_rule s) (src_sp s) c"

definition generated_group_source :: "alt_sources list \<Rightarrow> source \<Rightarrow> source" where
  "generated_group_source alts fallback =
     with_children (case concat alts of [] \<Rightarrow> fallback | first # _ \<Rightarrow> first) (GroupSources alts)"

definition nullable_sugar_sources :: "element \<Rightarrow> source \<Rightarrow> alt_sources option" where
  "nullable_sugar_sources el source =
     (case src_children source of
        InnerSource inner \<Rightarrow>
          (case kind_of el of
             Opt _ \<Rightarrow> Some [inner]
           | Star _ _ \<Rightarrow> Some [inner, source]
           | Rep mn mx _ \<Rightarrow>
               if mn \<noteq> 0 then None
               else (case mx of
                       None \<Rightarrow> Some [inner, source]
                     | Some m \<Rightarrow> if m = 0 then None else if m = 1 then Some [inner] else Some [inner, source])
           | _ \<Rightarrow> None)
      | _ \<Rightarrow> None)"

text \<open>The sources of a production, which always has them.\<close>

definition sources_of :: "rewrite_sources \<Rightarrow> string \<Rightarrow> alt_sources list" where
  "sources_of srcs name = imap_get_or [] srcs name"

lemma child_smaller: "c \<in> set (children el) \<Longrightarrow> size c < size el"
  using children_smaller [of el] member_le_sum_list [of "size c" "map size (children el)"] by auto

lemma zip_child_smaller:
  assumes "kind_of el = Group alts" and "(alt, ss) \<in> set (zip alts sas)" and "(c, s) \<in> set (zip alt ss)"
  shows "size c < size el"
  by (rule child_smaller) (use assms in \<open>auto simp: children_def dest!: set_zip_leftD\<close>)

section \<open>Repetitions checked against the sources\<close>

function non_consuming_source :: "regex_crate \<Rightarrow> string list \<Rightarrow> element \<Rightarrow> source \<Rightarrow> source option" where
  "non_consuming_source rx nullable el source =
     (if \<not> element_may_match_without_consuming rx nullable el then None
      else
        (case (kind_of el, src_children source) of
           (Group alts, GroupSources alt_sources) \<Rightarrow>
             (case find (\<lambda>(alt, _). list_all (element_may_match_without_consuming rx nullable) alt) (zip alts alt_sources) of
                None \<Rightarrow> None
              | Some (alt, sources) \<Rightarrow>
                  (case first_some (\<lambda>(c, s). non_consuming_source rx nullable c s) (zip alt sources) of
                     Some w \<Rightarrow> Some w | None \<Rightarrow> Some source))
         | (Plus i, InnerSource s) \<Rightarrow>
             (case non_consuming_source rx nullable i s of Some w \<Rightarrow> Some w | None \<Rightarrow> Some source)
         | (Rep mn mx i, InnerSource s) \<Rightarrow>
             if mn = 0 then Some source
             else (case non_consuming_source rx nullable i s of Some w \<Rightarrow> Some w | None \<Rightarrow> Some source)
         | _ \<Rightarrow> Some source))"
  by pat_completeness auto
termination
proof (relation "measure (\<lambda>(_, _, el, _). size el)")
  fix rx nullable el source alts sas alt ss and x :: "element \<times> source" and p :: "seq \<times> source list" and c s xk yk
  assume k: "(xk, yk) = (kind_of el, src_children source)" "xk = Group alts" "yk = GroupSources sas"
    and f: "find (\<lambda>(alt, _). list_all (element_may_match_without_consuming rx nullable) alt) (zip alts sas) = Some p" "(alt, ss) = p"
    and x: "x \<in> set (zip alt ss)" "(c, s) = x"
  from f have "(alt, ss) \<in> set (zip alts sas)" by (auto simp: find_Some_iff in_set_conv_nth)
  then show "((rx, nullable, c, s), rx, nullable, el, source) \<in> measure (\<lambda>(_, _, el, _). size el)"
    using zip_child_smaller [of el alts alt ss sas c s] k x by auto
qed (auto intro!: child_smaller simp: children_def split: kind.splits)

declare non_consuming_source.simps [simp del]

definition refuse_source :: "source \<Rightarrow> emit_failure \<Rightarrow> emit_error" where
  "refuse_source source w = err_at w (src_rule source) (src_sp source)"

function source_bounds :: "element \<Rightarrow> source \<Rightarrow> (emit_error, unit) result" where
  "source_bounds el source =
     (case kind_of el of
        Group alts \<Rightarrow>
          (case src_children source of
             GroupSources sas \<Rightarrow>
               res_check (\<lambda>(alt, ss). res_check (\<lambda>(c, s). source_bounds c s) (zip alt ss)) (zip alts sas)
           | _ \<Rightarrow> Inr ())
      | Rep mn mx i \<Rightarrow>
          if (case mx of Some m \<Rightarrow> m < mn | None \<Rightarrow> False)
          then Inl (refuse_source source (BadRepBounds (src_rule source) mn (the mx)))
          else (case src_children source of InnerSource s \<Rightarrow> source_bounds i s | _ \<Rightarrow> Inr ())
      | Opt i \<Rightarrow> (case src_children source of InnerSource s \<Rightarrow> source_bounds i s | _ \<Rightarrow> Inr ())
      | Star i _ \<Rightarrow> (case src_children source of InnerSource s \<Rightarrow> source_bounds i s | _ \<Rightarrow> Inr ())
      | Plus i \<Rightarrow> (case src_children source of InnerSource s \<Rightarrow> source_bounds i s | _ \<Rightarrow> Inr ())
      | _ \<Rightarrow> Inr ())"
  by pat_completeness auto
termination
proof (relation "measure (\<lambda>(el, _). size el)")
  fix el source alts sas alt ss c s and x :: "seq \<times> source list" and y :: "element \<times> source"
  assume "kind_of el = Group alts" "x \<in> set (zip alts sas)" "(alt, ss) = x" "y \<in> set (zip alt ss)" "(c, s) = y"
  then show "((c, s), el, source) \<in> measure (\<lambda>(el, _). size el)"
    using zip_child_smaller [of el alts alt ss sas c s] by auto
qed (auto intro!: child_smaller simp: children_def split: kind.splits)

declare source_bounds.simps [simp del]

definition unbounded :: "element \<Rightarrow> bool" where
  "unbounded el = (case kind_of el of Star _ _ \<Rightarrow> True | Plus _ \<Rightarrow> True | Rep _ mx _ \<Rightarrow> mx = None | _ \<Rightarrow> False)"

function source_walk :: "regex_crate \<Rightarrow> string list \<Rightarrow> element \<Rightarrow> source \<Rightarrow> (emit_error, unit) result" where
  "source_walk rx nullable el source =
     (case kind_of el of
        Group alts \<Rightarrow>
          (case src_children source of
             GroupSources sas \<Rightarrow>
               res_check (\<lambda>(alt, ss). res_check (\<lambda>(c, s). source_walk rx nullable c s) (zip alt ss)) (zip alts sas)
           | _ \<Rightarrow> Inr ())
      | _ \<Rightarrow>
          (case el_inner el of
             None \<Rightarrow> Inr ()
           | Some i \<Rightarrow>
               (let inner_source = (case src_children source of InnerSource s \<Rightarrow> s | _ \<Rightarrow> source)
                in if unbounded el \<and> element_may_match_without_consuming rx nullable i then
                     (let witness = (case non_consuming_source rx nullable i inner_source of Some w \<Rightarrow> w | None \<Rightarrow> inner_source)
                      in Inl (refuse_source witness (NonConsumingItem (src_rule witness))))
                   else source_walk rx nullable i inner_source)))"
  by pat_completeness auto
termination
proof (relation "measure (\<lambda>(_, _, el, _). size el)")
  fix rx nullable el source alts sas alt ss c s and x :: "seq \<times> source list" and y :: "element \<times> source"
  assume "kind_of el = Group alts" "x \<in> set (zip alts sas)" "(alt, ss) = x" "y \<in> set (zip alt ss)" "(c, s) = y"
  then show "((rx, nullable, c, s), rx, nullable, el, source) \<in> measure (\<lambda>(_, _, el, _). size el)"
    using zip_child_smaller [of el alts alt ss sas c s] by auto
qed (auto intro!: child_smaller simp: children_def el_inner_def split: kind.splits)

declare source_walk.simps [simp del]

text \<open>Every element of every production with its source, in order.\<close>

definition check_sources :: "(element \<Rightarrow> source \<Rightarrow> (emit_error, unit) result) \<Rightarrow> production list \<Rightarrow> rewrite_sources \<Rightarrow> (emit_error, unit) result" where
  "check_sources f ps srcs =
     res_check (\<lambda>p. res_check (\<lambda>(alt, ss). res_check (\<lambda>(el, s). f el s) (zip alt ss))
       (zip (p_alts p) (sources_of srcs (p_name p)))) ps"

definition validate_rewrite_repetitions :: "regex_crate \<Rightarrow> grammar \<Rightarrow> rewrite_sources \<Rightarrow> (emit_error, unit) result" where
  "validate_rewrite_repetitions rx g srcs =
     res_bind (check_sources source_bounds (productions g) srcs)
       (\<lambda>_. check_sources (source_walk rx (non_consuming_rules rx (productions g))) (productions g) srcs)"

section \<open>What a rewrite may add\<close>

definition saturating_mul :: "nat \<Rightarrow> nat \<Rightarrow> nat" where
  "saturating_mul a b = min (a * b) USIZE_MAX"

text \<open>An element counts 1, a group one more for each alternative.\<close>

definition own_size :: "element \<Rightarrow> nat" where
  "own_size el = (case kind_of el of Group alts \<Rightarrow> 1 + length alts | _ \<Rightarrow> 1)"

text \<open>The walk keeps a stack, its top the head of the list, and gives up at the cap.\<close>

function size_walk :: "element list \<Rightarrow> nat \<Rightarrow> nat \<Rightarrow> nat" where
  "size_walk [] n cap = n"
| "size_walk (el # stack) n cap =
     (let n = saturating_add n (own_size el)
      in if cap \<le> n then cap else size_walk (rev (children el) @ stack) n cap)"
  by pat_completeness auto
termination
  by (relation "measure (\<lambda>(st, _, _). sum_list (map size st))")
    (use children_smaller in \<open>auto simp: rev_map [symmetric] sum_list_rev\<close>)

definition deep_size :: "element list \<Rightarrow> nat \<Rightarrow> nat" where
  "deep_size els cap = size_walk (rev els) 0 cap"

definition led_by :: "production \<Rightarrow> seq \<Rightarrow> bool" where
  "led_by source alt = (case alt of el # _ \<Rightarrow> is_ref_to el (p_name source) | [] \<Rightarrow> False)"

definition has_leading_ref_to :: "production \<Rightarrow> string \<Rightarrow> bool" where
  "has_leading_ref_to p name = list_ex (\<lambda>alt. case alt of el # _ \<Rightarrow> is_ref_to el name | [] \<Rightarrow> False) (p_alts p)"

definition charge_substitution :: "production \<Rightarrow> production \<Rightarrow> nat \<Rightarrow> (emit_error, nat) result" where
  "charge_substitution target source gained =
     (let led = length (filter (led_by source) (p_alts target))
      in case checked_mul led (length (p_alts source) - 1) of
           Some gain \<Rightarrow>
             if gain \<le> MAX_LEFT_RECURSION_EXPANSION - gained then Inr (gained + gain)
             else Inl (err_at (LeftRecAlternatives (p_name target) (p_name source) led (length (p_alts source)))
                    (p_name target) (p_sp target))
         | None \<Rightarrow>
             Inl (err_at (LeftRecAlternatives (p_name target) (p_name source) led (length (p_alts source)))
               (p_name target) (p_sp target)))"

text \<open>One alternative that the source leads: its gain, or the refusal.\<close>

definition charge_alt :: "emit_error \<Rightarrow> nat \<Rightarrow> nat \<Rightarrow> nat \<Rightarrow> nat \<Rightarrow> seq \<Rightarrow> (emit_error, nat) result" where
  "charge_alt refusal m held remaining gain alt =
     (let rest = (if m > 1 then deep_size (tl alt) (remaining - gain + 2) else 0);
          written = saturating_add (saturating_mul m (1 + rest)) held;
          gain = saturating_add gain (written - (2 + rest))
      in if remaining < gain then Inl refusal else Inr gain)"

definition charge_elements :: "production \<Rightarrow> production \<Rightarrow> nat \<Rightarrow> (emit_error, nat) result" where
  "charge_elements target source added =
     (let remaining = MAX_LEFT_RECURSION_ELEMENTS - added;
          led_alts = filter (led_by source) (p_alts target);
          refusal = err_at (LeftRecElements (p_name target) (p_name source) (length led_alts) remaining added)
            (p_name target) (p_sp target);
          m = length (p_alts source);
          held = deep_size (concat (p_alts source)) (remaining + 2)
      in if led_alts \<noteq> [] \<and> remaining + 1 < held then Inl refusal
         else res_bind (res_fold (charge_alt refusal m held remaining) 0 led_alts) (\<lambda>gain. Inr (added + gain)))"

definition charge_expansion :: "production \<Rightarrow> seq \<Rightarrow> seq \<Rightarrow> nat \<Rightarrow> (emit_error, nat) result" where
  "charge_expansion p alt present added =
     (let remaining = MAX_LEFT_RECURSION_ELEMENTS - added;
          lead = deep_size [hd alt] USIZE_MAX;
          cap = saturating_add (saturating_add remaining lead) 2;
          written = deep_size (present @ tl alt) cap;
          gain = (written + 1) - lead
      in if remaining < gain
         then Inl (err_at (LeftRecSplit (p_name p) remaining added) (p_name p) (p_sp p))
         else Inr (added + gain))"

section \<open>Nullable prefixes made explicit\<close>

definition nullable_sugar_present :: "element \<Rightarrow> seq option" where
  "nullable_sugar_present el =
     (case kind_of el of
        Opt inner \<Rightarrow> Some [inner]
      | Star inner _ \<Rightarrow> Some [inner, el]
      | Rep mn mx inner \<Rightarrow>
          if mn \<noteq> 0 then None
          else (case mx of
                  None \<Rightarrow> Some [inner, el]
                | Some m \<Rightarrow>
                    if m = 0 then None
                    else if m = 1 then Some [inner]
                    else Some [inner, el_rep 0 (Some (m - 1)) inner])
      | _ \<Rightarrow> None)"

fun hidden_from :: "bool \<Rightarrow> seq \<Rightarrow> string \<Rightarrow> bool" where
  "hidden_from saw_sugar [] name = False"
| "hidden_from saw_sugar (el # rest) name =
     (case ref_name el of
        Some n \<Rightarrow> saw_sugar \<and> n = name
      | None \<Rightarrow> if nullable_sugar_present el = None then False else hidden_from True rest name)"

definition is_hidden_left_recursive :: "seq \<Rightarrow> string \<Rightarrow> bool" where
  "is_hidden_left_recursive alt name = hidden_from False alt name"

definition splice :: "nat \<Rightarrow> 'a list \<Rightarrow> 'a list \<Rightarrow> 'a list" where
  "splice idx new xs = take idx xs @ new @ drop (Suc idx) xs"

definition split_hidden ::
  "production \<Rightarrow> nat \<Rightarrow> seq list \<Rightarrow> alt_sources list \<Rightarrow> nat \<Rightarrow>
   (emit_error, seq list \<times> alt_sources list \<times> nat) result" where
  "split_hidden p idx alts srcs added =
     (let alt = alts ! idx;
          present = the (nullable_sugar_present (hd alt))
      in res_bind (charge_expansion p alt present added)
           (\<lambda>added.
              let original = srcs ! idx;
                  with_sources = the (nullable_sugar_sources (hd alt) (hd original))
              in Inr (splice idx [present @ tl alt, tl alt] alts,
                      splice idx [with_sources @ tl original, tl original] srcs, added)))"

fun expand_alts ::
  "nat \<Rightarrow> production \<Rightarrow> seq list \<Rightarrow> alt_sources list \<Rightarrow> nat \<Rightarrow>
   (emit_error, seq list \<times> alt_sources list \<times> nat) result" where
  "expand_alts 0 p alts srcs added = Inr (alts, srcs, added)"
| "expand_alts (Suc guard) p alts srcs added =
     (case find (\<lambda>i. is_hidden_left_recursive (alts ! i) (p_name p)) [0..<length alts] of
        None \<Rightarrow> Inr (alts, srcs, added)
      | Some idx \<Rightarrow>
          res_bind (split_hidden p idx alts srcs added)
            (\<lambda>(alts, srcs, added). expand_alts guard p alts srcs added))"

definition expand_prod ::
  "production list \<times> rewrite_sources \<times> nat \<Rightarrow> production \<Rightarrow>
   (emit_error, production list \<times> rewrite_sources \<times> nat) result" where
  "expand_prod s p =
     (case s of
        (out, srcs, added) \<Rightarrow>
          res_bind (expand_alts (sum_list (map length (p_alts p)) + 1) p (p_alts p) (sources_of srcs (p_name p)) added)
            (\<lambda>(alts, alt_srcs, added).
               Inr (out @ [p\<lparr>p_alts := alts\<rparr>], imap_insert (p_name p) alt_srcs srcs, added)))"

definition expand_nullable_left_prefixes ::
  "production list \<Rightarrow> rewrite_sources \<Rightarrow> nat \<Rightarrow>
   (emit_error, production list \<times> rewrite_sources \<times> nat) result" where
  "expand_nullable_left_prefixes ps srcs added = res_fold expand_prod ([], srcs, added) ps"

section \<open>The leading-reference graph\<close>

type_synonym prod_index = "(string \<times> production) list"

definition index_prods :: "production list \<Rightarrow> prod_index" where
  "index_prods ps = foldl (\<lambda>m p. imap_insert (p_name p) p m) [] ps"

definition indexed :: "prod_index \<Rightarrow> string \<Rightarrow> bool" where
  "indexed by_name n = (map_of by_name n \<noteq> None)"

text \<open>The rules that some alternative begins with, of those the grammar has.\<close>

definition leading_refs :: "prod_index \<Rightarrow> production \<Rightarrow> string list" where
  "leading_refs by_name p =
     filter (indexed by_name)
       (List.map_filter (\<lambda>alt. case alt of first # _ \<Rightarrow> ref_name first | [] \<Rightarrow> None) (p_alts p))"

definition targets_of :: "prod_index \<Rightarrow> string \<Rightarrow> string list" where
  "targets_of by_name n = (case map_of by_name n of Some p \<Rightarrow> leading_refs by_name p | None \<Rightarrow> [])"

subsection \<open>The order Paull's pass needs\<close>

datatype topo_step = Enter string | Exit string

definition unseen :: "prod_index \<Rightarrow> (string \<times> 'a) list \<Rightarrow> string set" where
  "unseen by_name m = {n \<in> fst ` set by_name. map_of m n = None}"

lemma unseen_insert: "unseen by_name (imap_insert n v m) = unseen by_name m - {n}"
  by (auto simp: unseen_def split: if_splits)

lemma finite_unseen [simp]: "finite (unseen by_name m)"
  by (simp add: unseen_def)

lemma card_unseen_insert:
  "card (unseen by_name (imap_insert n v m)) \<le> card (unseen by_name m)"
  "map_of m n = None \<Longrightarrow> indexed by_name n \<Longrightarrow>
   card (unseen by_name (imap_insert n v m)) < card (unseen by_name m)"
proof -
  show "card (unseen by_name (imap_insert n v m)) \<le> card (unseen by_name m)"
    unfolding unseen_insert by (rule card_mono) auto
  assume "map_of m n = None" "indexed by_name n"
  then have "n \<in> unseen by_name m"
    by (auto simp: unseen_def indexed_def dest!: map_of_SomeD intro: rev_image_eqI)
  then show "card (unseen by_name (imap_insert n v m)) < card (unseen by_name m)"
    unfolding unseen_insert by (intro psubset_card_mono) auto
qed

function topo_visit ::
  "prod_index \<Rightarrow> topo_step list \<Rightarrow> (string \<times> nat) list \<Rightarrow> production list \<Rightarrow>
   (string \<times> nat) list \<times> production list" where
  "topo_visit by_name [] colour order = (colour, order)"
| "topo_visit by_name (Enter name # steps) colour order =
     (if imap_get_or 0 colour name \<noteq> 0 then topo_visit by_name steps colour order
      else
        (let colour = imap_insert name 1 colour
         in case map_of by_name name of
              Some p \<Rightarrow> topo_visit by_name (map Enter (leading_refs by_name p) @ Exit name # steps) colour order
            | None \<Rightarrow> topo_visit by_name steps (imap_insert name 2 colour) order))"
| "topo_visit by_name (Exit name # steps) colour order =
     topo_visit by_name steps (imap_insert name 2 colour)
       (case map_of by_name name of Some p \<Rightarrow> order @ [p] | None \<Rightarrow> order)"
  by pat_completeness auto
termination
proof (relation "measures [\<lambda>(by_name, _, colour, _). card {n \<in> fst ` set by_name. imap_get_or 0 colour n = 0},
    \<lambda>(_, steps, _, _). length steps]", goal_cases)
  case (4 by_name name steps colour order colour' p)
  let ?unseen = "\<lambda>c. {n \<in> fst ` set by_name. imap_get_or 0 c n = 0}"
  have "name \<in> ?unseen colour" "name \<notin> ?unseen colour'" "?unseen colour' \<subseteq> ?unseen colour"
    using 4 map_of_SomeD [of by_name name p] by (auto simp: imap_get_or_def intro: rev_image_eqI split: if_splits)
  then have "?unseen colour' \<subset> ?unseen colour" by blast
  then have "card (?unseen colour') < card (?unseen colour)" by (rule psubset_card_mono [rotated]) simp
  then show ?case by simp
next
  case (3 by_name name steps colour order colour')
  have "card {n \<in> fst ` set by_name. imap_get_or 0 (imap_insert name 2 colour') n = 0} \<le>
      card {n \<in> fst ` set by_name. imap_get_or 0 colour n = 0}"
    by (rule card_mono) (auto simp: imap_get_or_def 3 split: if_splits)
  then show ?case by (simp add: le_imp_less_or_eq)
next
  case (5 by_name name steps colour order)
  have "card {n \<in> fst ` set by_name. imap_get_or 0 (imap_insert name 2 colour) n = 0} \<le>
      card {n \<in> fst ` set by_name. imap_get_or 0 colour n = 0}"
    by (rule card_mono) (auto simp: imap_get_or_def split: if_splits)
  then show ?case by (simp add: le_imp_less_or_eq)
qed simp_all

declare topo_visit.simps(2) [simp del]

definition topo_order_for_paull :: "production list \<Rightarrow> production list" where
  "topo_order_for_paull ps =
     snd (foldl (\<lambda>(colour, order) name. topo_visit (index_prods ps) [Enter name] colour order) ([], []) (names ps))"

subsection \<open>The members of its cycles\<close>

record tarjan_frame =
  fr_name :: string
  fr_targets :: "string list"
  fr_next :: nat

text \<open>The top of the stack is the head of the list.\<close>

record tarjan =
  tj_index :: nat
  tj_stack :: "string list"
  tj_on_stack :: "string list"
  tj_indices :: "(string \<times> nat) list"
  tj_lowlinks :: "(string \<times> nat) list"
  tj_cyclic :: "string list"

definition open_frame :: "prod_index \<Rightarrow> string \<Rightarrow> tarjan \<Rightarrow> tarjan_frame \<times> tarjan" where
  "open_frame by_name name st =
     (\<lparr>fr_name = name, fr_targets = targets_of by_name name, fr_next = 0\<rparr>,
      st\<lparr>tj_indices := imap_insert name (tj_index st) (tj_indices st),
         tj_lowlinks := imap_insert name (tj_index st) (tj_lowlinks st),
         tj_index := tj_index st + 1,
         tj_stack := name # tj_stack st,
         tj_on_stack := iset_insert name (tj_on_stack st)\<rparr>)"

abbreviation low_of :: "tarjan \<Rightarrow> string \<Rightarrow> nat" where
  "low_of st n \<equiv> imap_get_or 0 (tj_lowlinks st) n"

abbreviation index_of :: "tarjan \<Rightarrow> string \<Rightarrow> nat" where
  "index_of st n \<equiv> imap_get_or 0 (tj_indices st) n"

definition lower_link :: "string \<Rightarrow> nat \<Rightarrow> tarjan \<Rightarrow> tarjan" where
  "lower_link n x st = st\<lparr>tj_lowlinks := imap_insert n (min (low_of st n) x) (tj_lowlinks st)\<rparr>"

text \<open>The component a root closes: the stack down to it. One rule is a cycle if it leads itself.\<close>

definition pop_component :: "string \<Rightarrow> tarjan \<Rightarrow> string list \<times> tarjan" where
  "pop_component name st =
     (let scc = takeWhile (\<lambda>w. w \<noteq> name) (tj_stack st) @ [name]
      in (scc, st\<lparr>tj_stack := drop (length scc) (tj_stack st),
                  tj_on_stack := filter (\<lambda>w. w \<notin> set scc) (tj_on_stack st)\<rparr>))"

definition is_cycle :: "prod_index \<Rightarrow> string list \<Rightarrow> bool" where
  "is_cycle by_name scc =
     (length scc > 1 \<or> length scc = 1 \<and> indexed by_name (hd scc) \<and> hd scc \<in> set (targets_of by_name (hd scc)))"

definition close_root :: "prod_index \<Rightarrow> string \<Rightarrow> tarjan \<Rightarrow> tarjan" where
  "close_root by_name name st =
     (if low_of st name = index_of st name then
        (case pop_component name st of
           (scc, st) \<Rightarrow>
             if is_cycle by_name scc then st\<lparr>tj_cyclic := iset_extend (tj_cyclic st) scc\<rparr> else st)
      else st)"

definition carry_up :: "tarjan_frame list \<Rightarrow> string \<Rightarrow> tarjan \<Rightarrow> tarjan" where
  "carry_up frames name st = (case frames of parent # _ \<Rightarrow> lower_link (fr_name parent) (low_of st name) st | [] \<Rightarrow> st)"

lemma indices_lower [simp]: "tj_indices (lower_link n x st) = tj_indices st"
  by (simp add: lower_link_def)

lemma indices_close_root [simp]: "tj_indices (close_root by_name n st) = tj_indices st"
  by (simp add: close_root_def pop_component_def Let_def)

lemma indices_carry_up [simp]: "tj_indices (carry_up frames n st) = tj_indices st"
  by (simp add: carry_up_def split: list.split)

definition frame_work :: "tarjan_frame list \<Rightarrow> nat" where
  "frame_work frames = sum_list (map (\<lambda>f. Suc (2 * (length (fr_targets f) - fr_next f))) frames)"

function strong_connect :: "prod_index \<Rightarrow> tarjan_frame list \<Rightarrow> tarjan \<Rightarrow> tarjan" where
  "strong_connect by_name [] st = st"
| "strong_connect by_name (f # frames) st =
     (if fr_next f < length (fr_targets f) then
        (let target = fr_targets f ! fr_next f;
             f = f\<lparr>fr_next := Suc (fr_next f)\<rparr>
         in if map_of (tj_indices st) target = None then
              (case open_frame by_name target st of
                 (child, st) \<Rightarrow> strong_connect by_name (child # f # frames) st)
            else if target \<in> set (tj_on_stack st) then
              strong_connect by_name (f # frames) (lower_link (fr_name f) (index_of st target) st)
            else strong_connect by_name (f # frames) st)
      else
        strong_connect by_name frames (carry_up frames (fr_name f) (close_root by_name (fr_name f) st)))"
  by pat_completeness auto
termination
proof (relation "measures [\<lambda>(by_name, _, st). card (unseen by_name (tj_indices st)), \<lambda>(_, frames, _). frame_work frames]", goal_cases)
  case (2 by_name f frames st target f' child st')
  have i: "tj_indices st' = imap_insert target (tj_index st) (tj_indices st)" and t: "fr_targets child = targets_of by_name target"
    using 2 by (auto simp: open_frame_def)
  show ?case
  proof (cases "indexed by_name target")
    case True
    then show ?thesis using card_unseen_insert(2) [of "tj_indices st" target] 2 i by simp
  next
    case False
    then have "fr_targets child = []" by (simp add: t targets_of_def indexed_def split: option.splits)
    moreover have "card (unseen by_name (tj_indices st')) \<le> card (unseen by_name (tj_indices st))"
      unfolding i by (rule card_unseen_insert)
    ultimately show ?thesis using 2 by (auto simp: frame_work_def le_imp_less_or_eq)
  qed
qed (auto simp: frame_work_def)

declare strong_connect.simps(2) [simp del]

definition find_leading_ref_cycle_members :: "production list \<Rightarrow> string list" where
  "find_leading_ref_cycle_members ps =
     (let by_name = index_prods ps
      in tj_cyclic
           (foldl
             (\<lambda>st p.
                if map_of (tj_indices st) (p_name p) = None then
                  (case open_frame by_name (p_name p) st of (f, st) \<Rightarrow> strong_connect by_name [f] st)
                else st)
             \<lparr>tj_index = 0, tj_stack = [], tj_on_stack = [], tj_indices = [], tj_lowlinks = [], tj_cyclic = []\<rparr> ps))"

text \<open>\<open>exempt_alias\<close> of \<open>rs/src/annotate.rs\<close>.\<close>

definition exempt_alias :: "production \<Rightarrow> string list \<Rightarrow> bool" where
  "exempt_alias p cyclic =
     (case p_alts p of
        [[el]] \<Rightarrow> (case ref_name el of Some n \<Rightarrow> p_name p \<notin> set cyclic \<and> n \<notin> set cyclic | None \<Rightarrow> False)
      | _ \<Rightarrow> False)"

section \<open>Substitution\<close>

definition substitute_alt :: "production \<Rightarrow> alt_sources list \<Rightarrow> seq \<times> alt_sources \<Rightarrow> (seq \<times> alt_sources) list" where
  "substitute_alt source source_sources x =
     (case x of
        (alt, ss) \<Rightarrow>
          if led_by source alt
          then map (\<lambda>(a, s). (a @ tl alt, s @ tl ss)) (zip (p_alts source) source_sources)
          else [(alt, ss)])"

definition substitute_leading_ref ::
  "production \<Rightarrow> alt_sources list \<Rightarrow> production \<Rightarrow> alt_sources list \<Rightarrow> production \<times> alt_sources list" where
  "substitute_leading_ref target target_sources source source_sources =
     (let new = concat (map (substitute_alt source source_sources) (zip (p_alts target) target_sources))
      in (rebuilt target (map fst new), map snd new))"

definition token_alt :: "string \<Rightarrow> seq \<Rightarrow> seq" where
  "token_alt class_name alt =
     (case alt of el # rest \<Rightarrow> if is_ref_to el class_name then el_token (''#'' @ class_name) # rest else alt | [] \<Rightarrow> alt)"

definition substitute_leading_ref_by_token ::
  "production \<Rightarrow> alt_sources list \<Rightarrow> string \<Rightarrow> production \<times> alt_sources list" where
  "substitute_leading_ref_by_token target target_sources class_name =
     (let pairs = zip (p_alts target) target_sources
      in (rebuilt target (map (\<lambda>(alt, _). token_alt class_name alt) pairs), map snd pairs))"

section \<open>Direct left recursion\<close>

definition debt_char :: "nat \<Rightarrow> char" where
  "debt_char n = (if n < 128 \<and> (is_ascii_alphanumeric (char_of n) \<or> char_of n = CHR ''_'') then char_of n else CHR ''_'')"

definition fresh_debt_counter :: "string \<Rightarrow> string list \<Rightarrow> string \<times> string list" where
  "fresh_debt_counter rule_name used =
     (let name = fresh_from (hinted (''debt_'' @ map debt_char (chars rule_name)) ''_'') used 0
      in (name, iset_insert name used))"

definition seeds_reference_self :: "seq list \<Rightarrow> string \<Rightarrow> bool" where
  "seeds_reference_self seeds name = (name \<in> set (foldl (\<lambda>refs alt. refs_in alt refs) [] seeds))"

text \<open>One element for several alternatives: a group, unless there is one alternative of one element.\<close>

definition merged :: "seq list \<Rightarrow> element" where
  "merged alts = (if length alts = 1 \<and> length (hd alts) = 1 then hd (hd alts) else el_group alts)"

definition merged_source :: "alt_sources list \<Rightarrow> source \<Rightarrow> source" where
  "merged_source sas fallback =
     (if length sas = 1 \<and> length (hd sas) = 1 then hd (hd sas) else generated_group_source sas fallback)"

definition eliminate_direct_left_rec ::
  "production \<Rightarrow> alt_sources list \<Rightarrow> string list \<Rightarrow>
   (emit_error, (production \<times> alt_sources list) \<times> string list) result" where
  "eliminate_direct_left_rec p p_sources debts =
     (let pairs = zip (p_alts p) p_sources;
          recursive = map (\<lambda>(alt, ss). (tl alt, tl ss)) (filter (\<lambda>(alt, _). led_by p alt) pairs);
          seeds = filter (\<lambda>(alt, _). \<not> led_by p alt) pairs;
          non_trivial = filter (\<lambda>(rest, _). rest \<noteq> []) recursive
      in if non_trivial = [] then Inr ((rebuilt p (map fst seeds), map snd seeds), debts)
         else if seeds = [] then Inl (err_at (PurelyLeftRecursive (p_name p)) (p_name p) (p_sp p))
         else
           (let seed_alts = map fst seeds;
                seed_sources = map snd seeds;
                tails = map fst non_trivial;
                tail_sources = map snd non_trivial;
                (debt_guard, debts) =
                  (if seeds_reference_self seed_alts (p_name p)
                   then (case fresh_debt_counter (p_name p) debts of (name, debts) \<Rightarrow> (Some name, debts))
                   else (None, debts));
                star = Element (Star (merged tails) debt_guard) None;
                fallback = Source (origin_of p) (p_sp p) NoSource;
                tail_inner_source = merged_source tail_sources fallback;
                tail_source = with_children tail_inner_source (InnerSource tail_inner_source)
            in Inr ((rebuilt p [[merged seed_alts, star]], [[merged_source seed_sources fallback, tail_source]]), debts)))"

section \<open>Paull's pass\<close>

record paull =
  pl_prods :: "production list"
  pl_sources :: rewrite_sources
  pl_debts :: "string list"
  pl_added :: nat
  pl_gained :: nat
  pl_changed :: bool

text \<open>Rule \<open>i\<close> against the earlier rule \<open>j\<close>.\<close>

definition paull_step :: "string list \<Rightarrow> nat \<Rightarrow> paull \<Rightarrow> nat \<Rightarrow> (emit_error, paull) result" where
  "paull_step keep i st j =
     (let target = pl_prods st ! i;
          source = pl_prods st ! j;
          target_sources = sources_of (pl_sources st) (p_name target)
      in if \<not> has_leading_ref_to target (p_name source) then Inr st
         else
           (let write = (\<lambda>next st.
                  st\<lparr>pl_prods := (pl_prods st)[i := fst next],
                     pl_sources := imap_insert (p_name target) (snd next) (pl_sources st), pl_changed := True\<rparr>)
            in if p_name source \<in> set keep
               then Inr (write (substitute_leading_ref_by_token target target_sources (p_name source)) st)
               else
                 res_bind (charge_substitution target source (pl_gained st))
                   (\<lambda>gained. res_bind (charge_elements target source (pl_added st))
                     (\<lambda>added.
                        Inr (write (substitute_leading_ref target target_sources source (sources_of (pl_sources st) (p_name source)))
                          (st\<lparr>pl_gained := gained, pl_added := added\<rparr>))))))"

fun paull_rounds :: "string list \<Rightarrow> nat \<Rightarrow> nat \<Rightarrow> paull \<Rightarrow> (emit_error, paull) result" where
  "paull_rounds keep i 0 st = Inr st"
| "paull_rounds keep i (Suc guard) st =
     res_bind (res_fold (paull_step keep i) (st\<lparr>pl_changed := False\<rparr>) [0..<i])
       (\<lambda>st. if pl_changed st then paull_rounds keep i guard st else Inr st)"

definition paull_rule :: "string list \<Rightarrow> string list \<Rightarrow> paull \<Rightarrow> nat \<Rightarrow> (emit_error, paull) result" where
  "paull_rule keep cyclic st i =
     res_bind
       (if exempt_alias (pl_prods st ! i) cyclic then Inr st
        else paull_rounds keep i (length (pl_prods st) + 1) (st\<lparr>pl_gained := 0\<rparr>))
       (\<lambda>st.
          let p = pl_prods st ! i
          in res_bind (eliminate_direct_left_rec p (sources_of (pl_sources st) (p_name p)) (pl_debts st))
               (\<lambda>((next, next_sources), debts).
                  Inr (st\<lparr>pl_prods := (pl_prods st)[i := next],
                          pl_sources := imap_insert (p_name p) next_sources (pl_sources st), pl_debts := debts\<rparr>)))"

text \<open>The declared order again: the slots are taken by name, and what is left follows.\<close>

fun take_slots :: "string list \<Rightarrow> prod_index \<Rightarrow> production list" where
  "take_slots [] slots = map snd slots"
| "take_slots (n # ns) slots =
     (case map_of slots n of
        Some p \<Rightarrow> p # take_slots ns (imap_remove n slots)
      | None \<Rightarrow> take_slots ns slots)"

definition authored_sources :: "production list \<Rightarrow> rewrite_sources" where
  "authored_sources ps =
     foldl (\<lambda>m p. imap_insert (p_name p) (map (map (authored_source p)) (p_alts p)) m) [] ps"

definition eliminate_left_recursion_keeping ::
  "grammar \<Rightarrow> string list \<Rightarrow> (emit_error, grammar \<times> rewrite_sources) result" where
  "eliminate_left_recursion_keeping g keep =
     res_bind
       (expand_nullable_left_prefixes (map (\<lambda>p. rebuilt p (p_alts p)) (productions g)) (authored_sources (productions g)) 0)
       (\<lambda>(expanded, srcs, added).
          let prods = topo_order_for_paull expanded;
              cyclic = find_leading_ref_cycle_members prods
          in res_bind
               (res_fold (paull_rule keep cyclic)
                 \<lparr>pl_prods = prods, pl_sources = srcs, pl_debts = [], pl_added = added, pl_gained = 0, pl_changed = False\<rparr>
                 [0..<length prods])
               (\<lambda>st. Inr (grammar_new (take_slots (names (productions g)) (index_prods (pl_prods st))), pl_sources st)))"

definition eliminate_left_recursion :: "grammar \<Rightarrow> (emit_error, grammar) result" where
  "eliminate_left_recursion g = res_bind (eliminate_left_recursion_keeping g []) (\<lambda>(g', _). Inr g')"

section \<open>Tail repetitions\<close>

definition tail_body :: "element \<Rightarrow> seq option" where
  "tail_body last_inner =
     (case kind_of last_inner of Group alts \<Rightarrow> (case alts of [a] \<Rightarrow> Some a | _ \<Rightarrow> None) | _ \<Rightarrow> Some [last_inner])"

definition tail_repeat_of :: "string \<Rightarrow> production \<Rightarrow> (seq \<times> seq) option" where
  "tail_repeat_of start p =
     (if p_probe_dispatch p \<noteq> None \<or> p_probe_helper p \<noteq> None \<or> p_name p = start then None
      else
        (case p_alts p of
           [alt] \<Rightarrow>
             if length alt < 2 then None
             else
               (case kind_of (last alt) of
                  Opt last_inner \<Rightarrow>
                    (case tail_body last_inner of
                       None \<Rightarrow> None
                     | Some sq \<Rightarrow>
                         if length sq < 2 \<or> \<not> is_ref_to (last sq) (p_name p) \<or> \<not> list_all is_terminal (butlast sq)
                            \<or> butlast alt = [] \<or> \<not> list_all is_terminal (butlast alt)
                         then None else Some (butlast alt, butlast sq))
                | _ \<Rightarrow> None)
         | _ \<Rightarrow> None))"

definition rewrite_tail_prod :: "string \<Rightarrow> production \<Rightarrow> production" where
  "rewrite_tail_prod start p =
     (case tail_repeat_of start p of
        Some (lead, sep) \<Rightarrow> p\<lparr>p_alts := [lead], p_tail_repeat := Some sep\<rparr>
      | None \<Rightarrow> p)"

definition rewrite_tail_repeats :: "grammar \<Rightarrow> string \<Rightarrow> grammar" where
  "rewrite_tail_repeats g start = g\<lparr>productions := map (rewrite_tail_prod start) (productions g)\<rparr>"

end
