(* ===== verification/Leading_Refs.thy ===== *)
theory Leading_Refs
  imports Left_Recursion
begin

text \<open>
  The leading-reference graph of \<open>rs/src/leftrec.rs\<close>: the order for Paull's pass lists every
  production once, and the cycle scan finds exactly the rules that lead back to themselves. Both
  walks keep a stack of their own; each is proved by an invariant of its state.
\<close>

section \<open>The index\<close>

lemma imap_insert_new: "k \<notin> fst ` set m \<Longrightarrow> imap_insert k v m = m @ [(k, v)]"
  by (induction m) auto

lemma index_prods_distinct:
  assumes "distinct (names ps)" shows "index_prods ps = map (\<lambda>p. (p_name p, p)) ps"
proof -
  have "foldl (\<lambda>m p. imap_insert (p_name p) p m) m ps = m @ map (\<lambda>p. (p_name p, p)) ps"
    if "distinct (names ps)" "fst ` set m \<inter> p_name ` set ps = {}" for m ps
    using that
  proof (induction ps arbitrary: m)
    case (Cons p ps)
    then have "imap_insert (p_name p) p m = m @ [(p_name p, p)]" by (intro imap_insert_new) auto
    then show ?case using Cons by auto
  qed simp
  from this [of ps "[]"] assms show ?thesis by (simp add: index_prods_def)
qed

lemma index_prods_Some:
  assumes "distinct (names ps)"
  shows "map_of (index_prods ps) n = Some p \<longleftrightarrow> p \<in> set ps \<and> p_name p = n"
proof -
  have "distinct (map fst (map (\<lambda>p. (p_name p, p)) ps))" using assms by (simp add: comp_def)
  then show ?thesis unfolding index_prods_distinct [OF assms] by (subst map_of_eq_Some_iff) auto
qed

lemma indexed_iff: "distinct (names ps) \<Longrightarrow> indexed (index_prods ps) n \<longleftrightarrow> n \<in> set (names ps)"
  unfolding indexed_def by (auto simp: index_prods_Some not_None_eq)

section \<open>The order lists every production once\<close>

definition coloured :: "(string \<times> nat) list \<Rightarrow> string \<Rightarrow> bool" where
  "coloured colour n \<longleftrightarrow> imap_get_or 0 colour n \<noteq> 0"

fun exits :: "topo_step list \<Rightarrow> string list" where
  "exits [] = []"
| "exits (Enter _ # steps) = exits steps"
| "exits (Exit n # steps) = n # exits steps"

lemma exits_append [simp]: "exits (a @ b) = exits a @ exits b"
  by (induction a rule: exits.induct) auto

lemma exits_enter [simp]: "exits (map Enter xs) = []"
  by (induction xs) auto

lemma coloured_insert [simp]: "v \<noteq> 0 \<Longrightarrow> coloured (imap_insert n v c) m \<longleftrightarrow> m = n \<or> coloured c m"
  by (simp add: coloured_def imap_get_or_def)

definition topo_inv :: "prod_index \<Rightarrow> topo_step list \<Rightarrow> (string \<times> nat) list \<Rightarrow> production list \<Rightarrow> bool" where
  "topo_inv by_name steps colour order \<longleftrightarrow>
     distinct (names order @ exits steps) \<and>
     (\<forall>p\<in>set order. map_of by_name (p_name p) = Some p) \<and>
     (\<forall>n\<in>set (names order @ exits steps). indexed by_name n \<and> coloured colour n) \<and>
     (\<forall>n. indexed by_name n \<and> coloured colour n \<longrightarrow> n \<in> set (names order @ exits steps))"

lemma topo_inv_enter [simp]: "topo_inv by_name (Enter n # steps) colour order \<longleftrightarrow> topo_inv by_name steps colour order"
  by (simp add: topo_inv_def)

lemma topo_inv_recolour:
  assumes "topo_inv by_name steps c order" and "\<And>n. indexed by_name n \<Longrightarrow> coloured c' n \<longleftrightarrow> coloured c n"
  shows "topo_inv by_name steps c' order"
  using assms unfolding topo_inv_def by blast

lemma topo_inv_push:
  assumes "topo_inv by_name steps c order" and "\<not> coloured c name" and "indexed by_name name"
  shows "topo_inv by_name (map Enter xs @ Exit name # steps) (imap_insert name (Suc 0) c) order"
proof -
  let ?old = "set (names order @ exits steps)"
  have i: "distinct (names order @ exits steps)" "\<forall>p\<in>set order. map_of by_name (p_name p) = Some p"
    "\<forall>n\<in>?old. indexed by_name n \<and> coloured c n" "\<forall>n. indexed by_name n \<and> coloured c n \<longrightarrow> n \<in> ?old"
    using assms(1) unfolding topo_inv_def by blast+
  have new: "set (names order @ exits (map Enter xs @ Exit name # steps)) = insert name ?old" by auto
  have "name \<notin> ?old" using i(3) assms(2) by blast
  then have "distinct (names order @ exits (map Enter xs @ Exit name # steps))" using i(1) by auto
  then show ?thesis
    unfolding topo_inv_def new coloured_insert [OF nat.distinct(2)]
  proof (intro conjI allI ballI impI)
    show "indexed by_name n" "n = name \<or> coloured c n" if "n \<in> insert name ?old" for n
      using that i(3) assms(3) by blast+
    show "n \<in> insert name ?old" if "indexed by_name n \<and> (n = name \<or> coloured c n)" for n
      using that i(4) by blast
  qed (use i(2) in \<open>simp_all\<close>)
qed

lemma topo_visit_inv:
  assumes "topo_visit by_name steps colour order = (colour', order')" and "topo_inv by_name steps colour order"
    and "\<forall>n p. map_of by_name n = Some p \<longrightarrow> p_name p = n"
  shows "topo_inv by_name [] colour' order' \<and> (\<forall>n. coloured colour n \<or> Enter n \<in> set steps \<longrightarrow> coloured colour' n)"
  using assms
proof (induction by_name steps colour order arbitrary: colour' order' rule: topo_visit.induct)
  case (2 by_name name steps colour order)
  let ?c = "imap_insert name 1 colour"
  show ?case
  proof (cases "coloured colour name")
    case True
    then have "topo_visit by_name steps colour order = (colour', order')"
      using "2.prems"(1) unfolding coloured_def topo_visit.simps(2) by simp
    from "2.IH"(1) [OF _ this] True "2.prems" show ?thesis by (auto simp: coloured_def)
  next
    case False
    then have zero: "\<not> imap_get_or 0 colour name \<noteq> 0" by (simp add: coloured_def)
    show ?thesis
    proof (cases "map_of by_name name")
      case None
      then have "topo_visit by_name steps (imap_insert name 2 ?c) order = (colour', order')"
        using "2.prems"(1) zero unfolding topo_visit.simps(2) by (simp add: Let_def)
      moreover have "topo_inv by_name steps (imap_insert name 2 ?c) order"
        using "2.prems"(2) unfolding topo_inv_enter by (rule topo_inv_recolour) (use None in \<open>auto simp: indexed_def\<close>)
      ultimately have "topo_inv by_name [] colour' order' \<and>
          (\<forall>n. coloured (imap_insert name 2 ?c) n \<or> Enter n \<in> set steps \<longrightarrow> coloured colour' n)"
        by (rule "2.IH"(2) [OF zero refl None _ _ "2.prems"(3)])
      then show ?thesis by simp
    next
      case (Some p)
      let ?steps = "map Enter (leading_refs by_name p) @ Exit name # steps"
      have step: "topo_visit by_name ?steps ?c order = (colour', order')"
        using "2.prems"(1) zero Some unfolding topo_visit.simps(2) by (simp add: Let_def)
      have "topo_inv by_name ?steps ?c order"
        using topo_inv_push [OF _ False, of by_name steps order "leading_refs by_name p"] "2.prems"(2) Some by (simp add: indexed_def)
      from "2.IH"(3) [OF zero refl Some step this "2.prems"(3)] show ?thesis by auto
    qed
  qed
next
  case (3 by_name name steps colour order)
  let ?order = "case map_of by_name name of Some p \<Rightarrow> order @ [p] | None \<Rightarrow> order"
  obtain p where p: "map_of by_name name = Some p" using "3.prems"(2) by (auto simp: topo_inv_def indexed_def)
  then have pn: "p_name p = name" using "3.prems"(3) by blast
  have "topo_inv by_name steps (imap_insert name 2 colour) ?order"
    using "3.prems"(2) p pn by (auto simp: topo_inv_def)
  from "3.IH" [OF _ this "3.prems"(3)] "3.prems"(1) show ?case by auto
qed simp

lemma topo_order_perm:
  assumes "distinct (names ps)"
  shows "set (topo_order_for_paull ps) = set ps" and "distinct (names (topo_order_for_paull ps))"
proof -
  let ?by = "index_prods ps"
  define step where "step = (\<lambda>(colour, order) name. topo_visit ?by [Enter name] colour order)"
  have own: "\<forall>n p. map_of ?by n = Some p \<longrightarrow> p_name p = n" by (simp add: index_prods_Some [OF assms])
  have run: "case foldl step (c, o') ns of (c', o'') \<Rightarrow>
      topo_inv ?by [] c' o'' \<and> (\<forall>n. coloured c n \<or> n \<in> set ns \<longrightarrow> coloured c' n)"
    if "topo_inv ?by [] c o'" for ns c o'
    using that
  proof (induction ns arbitrary: c o')
    case (Cons n ns)
    obtain c1 o1 where v: "topo_visit ?by [Enter n] c o' = (c1, o1)" by (cases "topo_visit ?by [Enter n] c o'")
    from topo_visit_inv [OF v _ own] Cons.prems
    have i: "topo_inv ?by [] c1 o1" "\<forall>m. coloured c m \<or> m = n \<longrightarrow> coloured c1 m" by auto
    show ?case using Cons.IH [OF i(1)] i(2) v by (auto simp: step_def)
  qed simp
  obtain c o' where f: "foldl step ([], []) (names ps) = (c, o')" by (cases "foldl step ([], []) (names ps)")
  have inv: "topo_inv ?by [] c o'" and all: "\<forall>n\<in>set (names ps). coloured c n"
    using run [of "[]" "[]" "names ps"] f by (auto simp: topo_inv_def coloured_def imap_get_or_def)
  have o': "topo_order_for_paull ps = o'"
    using f by (simp add: topo_order_for_paull_def step_def)
  show "distinct (names (topo_order_for_paull ps))" using inv by (simp add: o' topo_inv_def)
  have sub: "set o' \<subseteq> set ps" using inv by (auto simp: topo_inv_def index_prods_Some [OF assms])
  have "set ps \<subseteq> set o'"
  proof
    fix p assume p: "p \<in> set ps"
    then have "p_name p \<in> set (names o')" using inv all by (auto simp: topo_inv_def indexed_iff [OF assms])
    then obtain q where q: "q \<in> set o'" "p_name q = p_name p" by auto
    then have "q \<in> set ps" using sub by blast
    then have "q = p" using q(2) p assms by (auto simp: distinct_map inj_on_def)
    then show "p \<in> set o'" using q(1) by simp
  qed
  with sub show "set (topo_order_for_paull ps) = set ps" by (simp add: o')
qed

section \<open>The cycle scan is exact\<close>

definition edges :: "prod_index \<Rightarrow> (string \<times> string) set" where
  "edges by_name = {(a, b). b \<in> set (targets_of by_name a)}"

abbreviation frame_names :: "tarjan_frame list \<Rightarrow> string set" where
  "frame_names frames \<equiv> fr_name ` set frames"

abbreviation visited :: "tarjan \<Rightarrow> string set" where
  "visited st \<equiv> dom (map_of (tj_indices st))"

abbreviation on_stack :: "tarjan \<Rightarrow> string set" where
  "on_stack st \<equiv> set (tj_stack st)"

text \<open>The targets of a rule that the walk has looked at: all of them once its frame is closed.\<close>

definition looked_at :: "prod_index \<Rightarrow> tarjan_frame list \<Rightarrow> string \<Rightarrow> string \<Rightarrow> bool" where
  "looked_at by_name frames x y \<longleftrightarrow>
     (x \<notin> frame_names frames \<and> y \<in> set (targets_of by_name x) \<or>
      (\<exists>f\<in>set frames. fr_name f = x \<and> y \<in> set (take (fr_next f) (targets_of by_name x))))"

text \<open>
  The invariant. The stack lists its rules by falling index, and so do the frames theirs; a frame
  reaches every rule stacked since it was opened, and every stacked rule reaches a frame below it;
  what has left the stack is closed under the edges; a lowlink is the index of a stacked rule that
  the frame reaches, and no larger than any index a rule of the frame's stretch of the stack has
  seen.
\<close>

definition tarjan_inv :: "prod_index \<Rightarrow> tarjan_frame list \<Rightarrow> tarjan \<Rightarrow> bool" where
  "tarjan_inv by_name frames st \<longleftrightarrow>
     set (tj_on_stack st) = on_stack st \<and> on_stack st \<subseteq> visited st \<and>
     sorted_wrt (\<lambda>a b. index_of st b < index_of st a) (tj_stack st) \<and>
     (\<forall>n\<in>visited st. index_of st n < tj_index st) \<and>
     sorted_wrt (\<lambda>f g. index_of st (fr_name g) < index_of st (fr_name f)) frames \<and>
     (\<forall>f\<in>set frames. fr_name f \<in> on_stack st \<and> fr_targets f = targets_of by_name (fr_name f)) \<and>
     (\<forall>f\<in>set frames. \<forall>x\<in>on_stack st. index_of st (fr_name f) \<le> index_of st x \<longrightarrow> (fr_name f, x) \<in> (edges by_name)\<^sup>*) \<and>
     (\<forall>x\<in>on_stack st. \<exists>f\<in>set frames. index_of st (fr_name f) \<le> index_of st x \<and> (x, fr_name f) \<in> (edges by_name)\<^sup>*) \<and>
     (\<forall>x\<in>visited st. \<forall>y. looked_at by_name frames x y \<longrightarrow> y \<in> visited st) \<and>
     (\<forall>x\<in>visited st - on_stack st. set (targets_of by_name x) \<subseteq> visited st - on_stack st) \<and>
     set (tj_cyclic st) = {x \<in> visited st - on_stack st. (x, x) \<in> (edges by_name)\<^sup>+} \<and>
     (\<forall>f\<in>set frames. low_of st (fr_name f) \<le> index_of st (fr_name f) \<and>
        (\<exists>y\<in>on_stack st. index_of st y = low_of st (fr_name f) \<and> (fr_name f, y) \<in> (edges by_name)\<^sup>*)) \<and>
     (\<forall>f\<in>set frames. \<forall>x\<in>on_stack st. \<forall>y\<in>on_stack st.
        index_of st (fr_name f) \<le> index_of st x \<longrightarrow>
        (\<forall>g\<in>set frames. index_of st (fr_name f) < index_of st (fr_name g) \<longrightarrow> index_of st x < index_of st (fr_name g)) \<longrightarrow>
        looked_at by_name frames x y \<longrightarrow> low_of st (fr_name f) \<le> index_of st y)"

lemma tarjan_invD:
  assumes "tarjan_inv by_name frames st"
  shows "set (tj_on_stack st) = on_stack st" "on_stack st \<subseteq> visited st"
    "sorted_wrt (\<lambda>a b. index_of st b < index_of st a) (tj_stack st)"
    "\<And>n. n \<in> visited st \<Longrightarrow> index_of st n < tj_index st"
    "sorted_wrt (\<lambda>f g. index_of st (fr_name g) < index_of st (fr_name f)) frames"
    "\<And>f. f \<in> set frames \<Longrightarrow> fr_name f \<in> on_stack st"
    "\<And>f. f \<in> set frames \<Longrightarrow> fr_targets f = targets_of by_name (fr_name f)"
    "\<And>f x. f \<in> set frames \<Longrightarrow> x \<in> on_stack st \<Longrightarrow> index_of st (fr_name f) \<le> index_of st x \<Longrightarrow> (fr_name f, x) \<in> (edges by_name)\<^sup>*"
    "\<And>x. x \<in> on_stack st \<Longrightarrow> \<exists>f\<in>set frames. index_of st (fr_name f) \<le> index_of st x \<and> (x, fr_name f) \<in> (edges by_name)\<^sup>*"
    "\<And>x y. x \<in> visited st \<Longrightarrow> looked_at by_name frames x y \<Longrightarrow> y \<in> visited st"
    "\<And>x. x \<in> visited st - on_stack st \<Longrightarrow> set (targets_of by_name x) \<subseteq> visited st - on_stack st"
    "set (tj_cyclic st) = {x \<in> visited st - on_stack st. (x, x) \<in> (edges by_name)\<^sup>+}"
    "\<And>f. f \<in> set frames \<Longrightarrow> low_of st (fr_name f) \<le> index_of st (fr_name f)"
    "\<And>f. f \<in> set frames \<Longrightarrow> \<exists>y\<in>on_stack st. index_of st y = low_of st (fr_name f) \<and> (fr_name f, y) \<in> (edges by_name)\<^sup>*"
    "\<And>f x y. f \<in> set frames \<Longrightarrow> x \<in> on_stack st \<Longrightarrow> y \<in> on_stack st \<Longrightarrow>
       index_of st (fr_name f) \<le> index_of st x \<Longrightarrow>
       (\<And>g. g \<in> set frames \<Longrightarrow> index_of st (fr_name f) < index_of st (fr_name g) \<Longrightarrow> index_of st x < index_of st (fr_name g)) \<Longrightarrow>
       looked_at by_name frames x y \<Longrightarrow> low_of st (fr_name f) \<le> index_of st y"
  using assms unfolding tarjan_inv_def by - (simp | blast)+

lemma tarjan_invI:
  assumes "set (tj_on_stack st) = on_stack st" "on_stack st \<subseteq> visited st"
    "sorted_wrt (\<lambda>a b. index_of st b < index_of st a) (tj_stack st)"
    "\<And>n. n \<in> visited st \<Longrightarrow> index_of st n < tj_index st"
    "sorted_wrt (\<lambda>f g. index_of st (fr_name g) < index_of st (fr_name f)) frames"
    "\<And>f. f \<in> set frames \<Longrightarrow> fr_name f \<in> on_stack st"
    "\<And>f. f \<in> set frames \<Longrightarrow> fr_targets f = targets_of by_name (fr_name f)"
    "\<And>f x. f \<in> set frames \<Longrightarrow> x \<in> on_stack st \<Longrightarrow> index_of st (fr_name f) \<le> index_of st x \<Longrightarrow> (fr_name f, x) \<in> (edges by_name)\<^sup>*"
    "\<And>x. x \<in> on_stack st \<Longrightarrow> \<exists>f\<in>set frames. index_of st (fr_name f) \<le> index_of st x \<and> (x, fr_name f) \<in> (edges by_name)\<^sup>*"
    "\<And>x y. x \<in> visited st \<Longrightarrow> looked_at by_name frames x y \<Longrightarrow> y \<in> visited st"
    "\<And>x. x \<in> visited st - on_stack st \<Longrightarrow> set (targets_of by_name x) \<subseteq> visited st - on_stack st"
    "set (tj_cyclic st) = {x \<in> visited st - on_stack st. (x, x) \<in> (edges by_name)\<^sup>+}"
    "\<And>f. f \<in> set frames \<Longrightarrow> low_of st (fr_name f) \<le> index_of st (fr_name f)"
    "\<And>f. f \<in> set frames \<Longrightarrow> \<exists>y\<in>on_stack st. index_of st y = low_of st (fr_name f) \<and> (fr_name f, y) \<in> (edges by_name)\<^sup>*"
    "\<And>f x y. f \<in> set frames \<Longrightarrow> x \<in> on_stack st \<Longrightarrow> y \<in> on_stack st \<Longrightarrow>
       index_of st (fr_name f) \<le> index_of st x \<Longrightarrow>
       (\<And>g. g \<in> set frames \<Longrightarrow> index_of st (fr_name f) < index_of st (fr_name g) \<Longrightarrow> index_of st x < index_of st (fr_name g)) \<Longrightarrow>
       looked_at by_name frames x y \<Longrightarrow> low_of st (fr_name f) \<le> index_of st y"
  shows "tarjan_inv by_name frames st"
  unfolding tarjan_inv_def
proof (intro conjI ballI allI impI, goal_cases)
  case (15 f x y)
  then show ?case by (intro assms(15)) blast+
qed ((rule assms(1-14); assumption) | (insert assms(1-14), simp; fail))+

lemma sorted_index_inj: "sorted_wrt (\<lambda>a b. f b < (f a :: nat)) xs \<Longrightarrow> inj_on f (set xs)"
proof (induction xs)
  case (Cons a xs)
  then have "f a \<notin> f ` set xs" by force
  then show ?case using Cons by (auto simp: inj_on_insert)
qed simp

lemma low_of_lower [simp]: "low_of (lower_link n x st) m = (if m = n then min (low_of st n) x else low_of st m)"
  by (simp add: lower_link_def imap_get_or_def)

lemma lower_keeps [simp]:
  "tj_index (lower_link n x st) = tj_index st" "tj_stack (lower_link n x st) = tj_stack st"
  "tj_on_stack (lower_link n x st) = tj_on_stack st" "tj_cyclic (lower_link n x st) = tj_cyclic st"
  by (simp_all add: lower_link_def)

text \<open>The frame on top moves on.\<close>

lemma looked_at_next:
  assumes "tarjan_inv by_name (f # fs) st" and "fr_next f < length (fr_targets f)"
  shows "looked_at by_name (f\<lparr>fr_next := Suc (fr_next f)\<rparr> # fs) x y \<longleftrightarrow>
    looked_at by_name (f # fs) x y \<or> x = fr_name f \<and> y = fr_targets f ! fr_next f"
proof -
  note d = tarjan_invD [OF assms(1)]
  have "fr_targets f = targets_of by_name (fr_name f)" by (rule d(7)) simp
  then have "take (Suc (fr_next f)) (targets_of by_name (fr_name f)) =
      take (fr_next f) (targets_of by_name (fr_name f)) @ [fr_targets f ! fr_next f]"
    using assms(2) by (simp add: take_Suc_conv_app_nth)
  then show ?thesis by (auto simp: looked_at_def)
qed

lemma top_frame_edge:
  assumes "tarjan_inv by_name (f # fs) st" and "fr_next f < length (fr_targets f)"
  shows "(fr_name f, fr_targets f ! fr_next f) \<in> edges by_name"
  using assms(2) tarjan_invD(7) [OF assms(1), of f] by (simp add: edges_def)

lemma next_inv:
  assumes inv: "tarjan_inv by_name (f # fs) st" and n: "fr_next f < length (fr_targets f)"
    and t: "fr_targets f ! fr_next f = t" "t \<in> visited st"
    and st': "t \<in> on_stack st \<and> st' = lower_link (fr_name f) (index_of st t) st \<or> t \<notin> on_stack st \<and> st' = st"
  shows "tarjan_inv by_name (f\<lparr>fr_next := Suc (fr_next f)\<rparr> # fs) st'"
proof -
  let ?f = "f\<lparr>fr_next := Suc (fr_next f)\<rparr>"
  note d = tarjan_invD [OF inv] and look = looked_at_next [OF inv n, unfolded t(1)]
  have fr: "\<exists>h. h \<in> set (f # fs) \<and> fr_name h = fr_name g \<and> fr_targets h = fr_targets g" if "g \<in> set (?f # fs)" for g
    using that by auto
  have same: "tj_index st' = tj_index st" "tj_stack st' = tj_stack st" "tj_on_stack st' = tj_on_stack st"
    "tj_cyclic st' = tj_cyclic st" "tj_indices st' = tj_indices st"
    using st' by auto
  have low: "low_of st' m \<le> low_of st m" for m using st' by auto
  have low_other: "low_of st' m = low_of st m" if "m \<noteq> fr_name f" for m using st' that by auto
  have edge: "(fr_name f, t) \<in> edges by_name" using top_frame_edge [OF inv n] t(1) by simp
  show ?thesis
  proof (rule tarjan_invI, unfold same, goal_cases)
    case (5)
    then show ?case using d(5) by simp
  next
    case (6 g)
    from fr [OF this] obtain h where "h \<in> set (f # fs)" "fr_name h = fr_name g" by blast
    then show ?case using d(6) [of h] by simp
  next
    case (7 g)
    from fr [OF this] obtain h where "h \<in> set (f # fs)" "fr_name h = fr_name g" "fr_targets h = fr_targets g" by blast
    then show ?case using d(7) [of h] by simp
  next
    case (8 g x)
    from fr [OF 8(1)] obtain h where "h \<in> set (f # fs)" "fr_name h = fr_name g" by blast
    then show ?case using d(8) [of h x] 8(2,3) by simp
  next
    case (9 x)
    then show ?case using d(9) [OF 9] by auto
  next
    case (10 x y)
    then show ?case using d(10) [OF 10(1)] t(2) unfolding look by blast
  next
    case (13 g)
    obtain h where h: "h \<in> set (f # fs)" "fr_name h = fr_name g" using fr [OF 13] by blast
    then show ?case using d(13) [OF h(1)] low [of "fr_name g"] by simp
  next
    case (14 g)
    obtain h where h: "h \<in> set (f # fs)" "fr_name h = fr_name g" using fr [OF 14] by blast
    show ?case
    proof (cases "low_of st' (fr_name g) = low_of st (fr_name g)")
      case True
      then show ?thesis using d(14) [OF h(1)] h(2) by simp
    next
      case False
      then have "t \<in> on_stack st" "fr_name g = fr_name f" "low_of st' (fr_name g) = index_of st t"
        using st' low_other by (auto simp: min_def split: if_splits)
      then show ?thesis using edge by auto
    qed
  next
    case (15 g x y)
    obtain h where h: "h \<in> set (f # fs)" "fr_name h = fr_name g" using fr [OF 15(1)] by blast
    have stretch: "index_of st x < index_of st (fr_name k)" if "k \<in> set (f # fs)" "index_of st (fr_name h) < index_of st (fr_name k)" for k
    proof (cases "k = f")
      case True
      then show ?thesis using 15(5) [of ?f] that h(2) by simp
    next
      case False
      then show ?thesis using 15(5) [of k] that h(2) by simp
    qed
    show ?case
    proof (cases "looked_at by_name (f # fs) x y")
      case True
      then have "low_of st (fr_name h) \<le> index_of st y" using d(15) [OF h(1) 15(2,3)] 15(4) h(2) stretch by simp
      then show ?thesis using low [of "fr_name g"] h(2) by simp
    next
      case False
      then have xy: "x = fr_name f" "y = t" using 15(6) unfolding look by auto
      have "index_of st (fr_name f) \<le> index_of st (fr_name h)" using stretch [of f] xy by fastforce
      then have "fr_name h = fr_name f" using d(5) h(1) by auto
      then show ?thesis using st' 15(3) xy h(2) by auto
    qed
  qed (use d in auto)
qed

text \<open>A frame is opened.\<close>

lemma open_frame_fields:
  assumes "open_frame by_name t st = (child, st')"
  shows "child = \<lparr>fr_name = t, fr_targets = targets_of by_name t, fr_next = 0\<rparr>"
    "tj_index st' = tj_index st + 1" "tj_stack st' = t # tj_stack st" "tj_on_stack st' = iset_insert t (tj_on_stack st)"
    "tj_cyclic st' = tj_cyclic st" "visited st' = insert t (visited st)"
    "index_of st' n = (if n = t then tj_index st else index_of st n)"
    "low_of st' n = (if n = t then tj_index st else low_of st n)"
  using assms by (auto simp: open_frame_def imap_get_or_def)

lemma open_inv:
  assumes inv: "tarjan_inv by_name frames st" and new: "t \<notin> visited st" and o': "open_frame by_name t st = (child, st')"
    and fr: "frames = [] \<and> frames' = [] \<or>
      (\<exists>f fs. frames = f # fs \<and> fr_next f < length (fr_targets f) \<and> fr_targets f ! fr_next f = t \<and>
         frames' = f\<lparr>fr_next := Suc (fr_next f)\<rparr> # fs)"
  shows "tarjan_inv by_name (child # frames') st'"
proof -
  note d = tarjan_invD [OF inv] and o = open_frame_fields [OF o']
  have t: "t \<notin> on_stack st" using d(2) new by blast
  have names: "map fr_name frames' = map fr_name frames" using fr by auto
  have both: "\<And>g. g \<in> set (f\<lparr>fr_next := n\<rparr> # fs) \<Longrightarrow> \<exists>h. h \<in> set (f # fs) \<and> fr_name h = fr_name g \<and> fr_targets h = fr_targets g"
    "\<And>g. g \<in> set (f # fs) \<Longrightarrow> \<exists>h. h \<in> set (f\<lparr>fr_next := n\<rparr> # fs) \<and> fr_name h = fr_name g" for f fs n
    by auto
  have mem: "\<exists>h. h \<in> set frames \<and> fr_name h = fr_name g \<and> fr_targets h = fr_targets g" if "g \<in> set frames'" for g
    using fr that both(1) by (elim disjE conjE exE) (simp, blast)
  have mem': "\<exists>h. h \<in> set frames' \<and> fr_name h = fr_name g" if "g \<in> set frames" for g
    using fr that both(2) by (elim disjE conjE exE) (simp, blast)
  have tn: "t \<notin> frame_names frames'" using d(6) t mem by (metis imageE)
  have st_n: "fr_name g \<in> on_stack st" if "g \<in> set frames'" for g using mem [OF that] d(6) by metis
  have not_t: "fr_name g \<noteq> t" if "g \<in> set frames'" for g using st_n [OF that] t by blast
  have idx: "index_of st x < tj_index st" if "x \<in> on_stack st" for x using d(2,4) that by blast
  have look: "looked_at by_name (child # frames') x y \<longleftrightarrow> x \<noteq> t \<and> looked_at by_name frames' x y" for x y
    using tn by (auto simp: looked_at_def o(1))
  have look': "looked_at by_name frames' x y \<Longrightarrow> looked_at by_name frames x y \<or> y = t" for x y
    using fr looked_at_next inv by blast
  have to_t: "(fr_name g, t) \<in> (edges by_name)\<^sup>*" if g: "g \<in> set frames" for g
  proof -
    obtain f fs where f: "frames = f # fs" "fr_next f < length (fr_targets f)" "fr_targets f ! fr_next f = t"
      using fr g by auto
    have "index_of st (fr_name g) \<le> index_of st (fr_name f)" using d(5) g f(1) by auto
    then have "(fr_name g, fr_name f) \<in> (edges by_name)\<^sup>*" using d(8) [OF g] d(6) f(1) by simp
    moreover have "(fr_name f, t) \<in> edges by_name" using top_frame_edge inv f by blast
    ultimately show ?thesis by (rule rtrancl_into_rtrancl)
  qed
  show ?thesis
  proof (rule tarjan_invI, unfold o(2-8), goal_cases)
    case 3
    show ?case using d(3) idx t o(3) by (auto intro: sorted_wrt_mono_rel [OF _ d(3)])
  next
    case (4 n)
    then show ?case using d(4) [of n] by (cases "n = t") (auto intro: less_SucI)
  next
    case 5
    have "sorted_wrt (\<lambda>f g. index_of st g < index_of st f) (map fr_name frames')"
      unfolding names using d(5) by (simp add: sorted_wrt_map)
    then have "sorted_wrt (\<lambda>f g. index_of st (fr_name g) < index_of st (fr_name f)) frames'" by (simp add: sorted_wrt_map)
    then show ?case using not_t idx st_n by (auto simp: o(1) intro: sorted_wrt_mono_rel [rotated])
  next
    case (6 g)
    then show ?case using st_n by (auto simp: o(1))
  next
    case (7 g)
    then show ?case using mem d(7) by (auto simp: o(1)) metis
  next
    case (8 g x)
    show ?case
    proof (cases "g = child")
      case True
      then have "x = t" using 8(2,3) idx [of x] by (auto simp: o(1) split: if_splits)
      then show ?thesis by (simp add: True o(1))
    next
      case False
      then have g: "g \<in> set frames'" using 8(1) by simp
      then obtain h where h: "h \<in> set frames" "fr_name h = fr_name g" using mem by blast
      show ?thesis
      proof (cases "x = t")
        case True
        then show ?thesis using to_t [OF h(1)] h(2) by simp
      next
        case False
        then show ?thesis using d(8) [OF h(1), of x] 8(2,3) h(2) not_t [OF g] by simp
      qed
    qed
  next
    case (9 x)
    show ?case
    proof (cases "x = t")
      case True
      then show ?thesis by (simp add: o(1))
    next
      case False
      then have "x \<in> on_stack st" using 9 by simp
      then obtain g where g: "g \<in> set frames" "index_of st (fr_name g) \<le> index_of st x" "(x, fr_name g) \<in> (edges by_name)\<^sup>*"
        using d(9) by blast
      then obtain h where h: "h \<in> set frames'" "fr_name h = fr_name g" using mem' by blast
      then show ?thesis using g False not_t [OF h(1)] by (intro bexI [of _ h]) auto
    qed
  next
    case (10 x y)
    then show ?case using d(10) [of x y] look' unfolding look by blast
  next
    case (11 x)
    then have "x \<in> visited st - on_stack st" by auto
    then show ?case using d(11) new by auto
  next
    case 12
    have "insert t (visited st) - set (t # tj_stack st) = visited st - on_stack st" using new by auto
    then show ?case using d(12) by auto
  next
    case (13 g)
    then show ?case using mem d(13) not_t by (auto simp: o(1)) metis
  next
    case (14 g)
    show ?case
    proof (cases "g = child")
      case True
      then show ?thesis by (simp add: o(1))
    next
      case False
      then have g: "g \<in> set frames'" using 14 by simp
      then obtain h where h: "h \<in> set frames" "fr_name h = fr_name g" using mem by blast
      then obtain y where "y \<in> on_stack st" "index_of st y = low_of st (fr_name g)" "(fr_name g, y) \<in> (edges by_name)\<^sup>*"
        using d(14) by metis
      then show ?thesis using not_t [OF g] t by (intro bexI [of _ y]) auto
    qed
  next
    case (15 g x y)
    have xt: "x \<noteq> t" using 15(6) look by blast
    then have x: "x \<in> on_stack st" using 15(2) by simp
    have "g \<noteq> child" using 15(4) idx [OF x] xt by (auto simp: o(1))
    then have g: "g \<in> set frames'" using 15(1) by simp
    then obtain h where h: "h \<in> set frames" "fr_name h = fr_name g" using mem by blast
    have low: "low_of st (fr_name h) \<le> index_of st (fr_name h)" by (rule d(13) [OF h(1)])
    show ?case
    proof (cases "y = t")
      case True
      then show ?thesis using low idx [OF st_n [OF g]] not_t [OF g] h(2) by simp
    next
      case False
      then have y: "y \<in> on_stack st" and l: "looked_at by_name frames x y" using 15(3,6) look look' by auto
      have "low_of st (fr_name h) \<le> index_of st y"
      proof (rule d(15) [OF h(1) x y _ _ l])
        show "index_of st (fr_name h) \<le> index_of st x" using 15(4) xt not_t [OF g] h(2) by simp
        show "index_of st x < index_of st (fr_name k)" if k: "k \<in> set frames" "index_of st (fr_name h) < index_of st (fr_name k)" for k
        proof -
          obtain k' where k': "k' \<in> set frames'" "fr_name k' = fr_name k" using mem' [OF k(1)] by blast
          then show ?thesis using 15(5) [of k'] k(2) not_t [OF k'(1)] not_t [OF g] h(2) xt by simp
        qed
      qed
      then show ?thesis using False not_t [OF g] h(2) by simp
    qed
  qed (use d in auto)
qed

text \<open>A frame is closed: its stretch of the stack is a component, or joins the frame below.\<close>

lemma carry_up_keeps [simp]:
  "tj_index (carry_up fs n st) = tj_index st" "tj_stack (carry_up fs n st) = tj_stack st"
  "tj_on_stack (carry_up fs n st) = tj_on_stack st" "tj_cyclic (carry_up fs n st) = tj_cyclic st"
  by (simp_all add: carry_up_def split: list.split)

lemma low_of_carry_up:
  "low_of (carry_up fs n st) m =
     (case fs of p # _ \<Rightarrow> if m = fr_name p then min (low_of st m) (low_of st n) else low_of st m | [] \<Rightarrow> low_of st m)"
  by (simp add: carry_up_def split: list.split)

lemma looked_at_done:
  assumes inv: "tarjan_inv by_name (f # fs) st" and "length (fr_targets f) \<le> fr_next f"
  shows "looked_at by_name fs x y \<longleftrightarrow> looked_at by_name (f # fs) x y"
    and "looked_at by_name fs (fr_name f) y \<longleftrightarrow> y \<in> set (targets_of by_name (fr_name f))"
proof -
  note d = tarjan_invD [OF inv]
  have t: "take (fr_next f) (targets_of by_name (fr_name f)) = targets_of by_name (fr_name f)"
    using assms(2) d(7) [of f] by simp
  have n: "fr_name f \<notin> frame_names fs" using d(5) by auto
  show "looked_at by_name fs x y \<longleftrightarrow> looked_at by_name (f # fs) x y"
    using n t by (auto simp: looked_at_def)
  show "looked_at by_name fs (fr_name f) y \<longleftrightarrow> y \<in> set (targets_of by_name (fr_name f))"
    using n by (auto simp: looked_at_def dest: in_set_takeD)
qed

lemma carry_inv:
  assumes inv: "tarjan_inv by_name (f # fs) st" and all: "length (fr_targets f) \<le> fr_next f"
    and low: "low_of st (fr_name f) \<noteq> index_of st (fr_name f)"
  shows "tarjan_inv by_name fs (carry_up fs (fr_name f) st)"
proof -
  note d = tarjan_invD [OF inv] and look = looked_at_done [OF inv all]
  let ?n = "fr_name f" and ?E = "edges by_name"
  obtain y where y: "y \<in> on_stack st" "index_of st y = low_of st ?n" "(?n, y) \<in> ?E\<^sup>*" using d(14) [of f] by auto
  have lt: "low_of st ?n < index_of st ?n" using d(13) [of f] low by simp
  obtain g where g: "g \<in> set (f # fs)" "index_of st (fr_name g) \<le> index_of st y" "(y, fr_name g) \<in> ?E\<^sup>*" using d(9) [OF y(1)] by blast
  have gf: "g \<noteq> f" using g(2) y(2) lt by auto
  then obtain p ps where fs: "fs = p # ps" using g(1) by (cases fs) auto
  have below: "index_of st (fr_name h) < index_of st ?n" if "h \<in> set fs" for h using d(5) that by auto
  have ord: "index_of st (fr_name h) < index_of st (fr_name p)" if "h \<in> set ps" for h using d(5) that fs by auto
  have low': "low_of (carry_up fs ?n st) m = (if m = fr_name p then min (low_of st m) (low_of st ?n) else low_of st m)" for m
    by (simp add: low_of_carry_up fs)
  show ?thesis
  proof (rule tarjan_invI, unfold carry_up_keeps indices_carry_up, goal_cases)
    case 5
    then show ?case using d(5) by simp
  next
    case (8 h x)
    then show ?case using d(8) [of h x] by simp
  next
    case (9 x)
    then obtain h where h: "h \<in> set (f # fs)" "index_of st (fr_name h) \<le> index_of st x" "(x, fr_name h) \<in> ?E\<^sup>*" using d(9) by blast
    show ?case
    proof (cases "h = f")
      case True
      have "(x, fr_name g) \<in> ?E\<^sup>*" using h(3) True y(3) g(3) by (meson rtrancl_trans)
      moreover have "index_of st (fr_name g) \<le> index_of st x" using g(2) y(2) lt h(2) True by simp
      ultimately show ?thesis using g(1) gf by auto
    qed (use h in auto)
  next
    case (10 x z)
    then show ?case using d(10) look(1) by blast
  next
    case (13 h)
    then show ?case using d(13) [of h] by (auto simp: low' min.coboundedI1)
  next
    case (14 h)
    show ?case
    proof (cases "fr_name h = fr_name p \<and> low_of st ?n < low_of st (fr_name p)")
      case True
      have "(fr_name p, ?n) \<in> ?E\<^sup>*" using d(8) [of p ?n] d(6) [of f] below [of p] fs by simp
      then have "(fr_name h, y) \<in> ?E\<^sup>*" using True y(3) by (simp add: rtrancl_trans)
      then show ?thesis using True y(1,2) by (intro bexI [of _ y]) (simp_all add: low')
    next
      case False
      then have "low_of (carry_up fs ?n st) (fr_name h) = low_of st (fr_name h)" by (auto simp: low')
      then show ?thesis using d(14) [of h] 14 by simp
    qed
  next
    case (15 h x z)
    have hx: "h \<in> set (f # fs)" using 15(1) by simp
    have l: "looked_at by_name (f # fs) x z" using 15(6) look(1) by blast
    show ?case
    proof (cases "index_of st ?n \<le> index_of st x")
      case True
      have hp: "h = p" 
      proof (rule ccontr)
        assume "h \<noteq> p"
        then have "h \<in> set ps" using 15(1) fs by simp
        then have "index_of st x < index_of st (fr_name p)" using 15(5) [of p] ord fs by simp
        then show False using True below [of p] fs by simp
      qed
      have "low_of st ?n \<le> index_of st z"
      proof (rule d(15) [OF _ 15(2,3) True _ l])
        show "index_of st x < index_of st (fr_name k)" if "k \<in> set (f # fs)" "index_of st ?n < index_of st (fr_name k)" for k
          using that below by force
      qed simp
      then show ?thesis by (simp add: low' hp min.coboundedI2)
    next
      case False
      have "low_of st (fr_name h) \<le> index_of st z"
        by (rule d(15) [OF hx 15(2-4) _ l]) (use 15(5) False in auto)
      then show ?thesis by (auto simp: low' min.coboundedI1)
    qed
  qed (use d in auto)
qed

text \<open>The stack above a root, and the root.\<close>

lemma pop_stretch:
  assumes "sorted_wrt (\<lambda>a b. ix b < (ix a :: nat)) stack" and "n \<in> set stack"
  shows "set (takeWhile (\<lambda>w. w \<noteq> n) stack @ [n]) = {x \<in> set stack. ix n \<le> ix x}"
    and "set (drop (length (takeWhile (\<lambda>w. w \<noteq> n) stack @ [n])) stack) = {x \<in> set stack. ix x < ix n}"
    and "distinct (takeWhile (\<lambda>w. w \<noteq> n) stack @ [n])"
proof -
  obtain A B where s: "stack = A @ n # B" "n \<notin> set A" using assms(2) by (metis split_list_first)
  have t: "takeWhile (\<lambda>w. w \<noteq> n) stack = A" using s by (auto simp: takeWhile_tail takeWhile_append2)
  have above: "ix n < ix a" if "a \<in> set A" for a using assms(1) that by (auto simp: s sorted_wrt_append)
  have under: "ix b < ix n" if "b \<in> set B" for b using assms(1) that by (auto simp: s sorted_wrt_append)
  show "set (takeWhile (\<lambda>w. w \<noteq> n) stack @ [n]) = {x \<in> set stack. ix n \<le> ix x}"
    unfolding t using above under by (force simp: s)
  show "set (drop (length (takeWhile (\<lambda>w. w \<noteq> n) stack @ [n])) stack) = {x \<in> set stack. ix x < ix n}"
    unfolding t using above under by (force simp: s)
  have "distinct stack"
    using assms(1) by (induction stack) auto
  then show "distinct (takeWhile (\<lambda>w. w \<noteq> n) stack @ [n])" unfolding t by (simp add: s)
qed

lemma component_cyclic:
  assumes inv: "tarjan_inv by_name (f # fs) st" and all: "length (fr_targets f) \<le> fr_next f"
    and low: "low_of st (fr_name f) = index_of st (fr_name f)"
  defines "stretch \<equiv> {x \<in> on_stack st. index_of st (fr_name f) \<le> index_of st x}"
  shows "\<And>x. x \<in> stretch \<Longrightarrow> set (targets_of by_name x) \<subseteq> stretch \<union> (visited st - on_stack st)"
    and "\<And>x y. x \<in> stretch \<Longrightarrow> y \<in> stretch \<Longrightarrow> (x, y) \<in> (edges by_name)\<^sup>*"
    and "stretch = {fr_name f} \<Longrightarrow> (fr_name f, fr_name f) \<in> (edges by_name)\<^sup>+ \<longleftrightarrow> fr_name f \<in> set (targets_of by_name (fr_name f))"
proof -
  note d = tarjan_invD [OF inv] and look = looked_at_done [OF inv all]
  let ?n = "fr_name f" and ?E = "edges by_name"
  have below: "index_of st (fr_name h) < index_of st ?n" if "h \<in> set fs" for h using d(5) that by auto
  show tg: "set (targets_of by_name x) \<subseteq> stretch \<union> (visited st - on_stack st)" if x: "x \<in> stretch" for x
  proof
    fix y assume y: "y \<in> set (targets_of by_name x)"
    have xs: "x \<in> on_stack st" "index_of st ?n \<le> index_of st x" using x by (auto simp: stretch_def)
    have "x \<notin> frame_names fs" using below xs(2) by force
    then have "looked_at by_name fs x y" using y by (simp add: looked_at_def)
    then have l: "looked_at by_name (f # fs) x y" using look(1) by blast
    have v: "y \<in> visited st" using d(10) [OF _ l] xs(1) d(2) by blast
    show "y \<in> stretch \<union> (visited st - on_stack st)"
    proof (cases "y \<in> on_stack st")
      case True
      have "low_of st ?n \<le> index_of st y"
        by (rule d(15) [OF _ xs(1) True xs(2) _ l]) (use below in force)+
      then show ?thesis using True low by (simp add: stretch_def)
    qed (use v in simp)
  qed
  show reach: "(x, y) \<in> ?E\<^sup>*" if "x \<in> stretch" "y \<in> stretch" for x y
  proof -
    obtain g where g: "g \<in> set (f # fs)" "index_of st (fr_name g) \<le> index_of st x" "(x, fr_name g) \<in> ?E\<^sup>*"
      using d(9) [of x] \<open>x \<in> stretch\<close> by (auto simp: stretch_def)
    have "index_of st (fr_name g) \<le> index_of st ?n" using g(1) below by (cases "g = f") (auto simp: less_imp_le)
    then have "(fr_name g, ?n) \<in> ?E\<^sup>*" using d(8) [OF g(1)] d(6) [of f] by simp
    moreover have "(?n, y) \<in> ?E\<^sup>*" using d(8) [of f y] that(2) by (simp add: stretch_def)
    ultimately show ?thesis using g(3) by (meson rtrancl_trans)
  qed
  have closed: "z \<in> visited st - on_stack st" if "(y, z) \<in> ?E\<^sup>*" "y \<in> visited st - on_stack st" for y z
    using that by (induction rule: rtrancl_induct) (use d(11) in \<open>auto simp: edges_def\<close>)
  show "(?n, ?n) \<in> ?E\<^sup>+ \<longleftrightarrow> ?n \<in> set (targets_of by_name ?n)" if one: "stretch = {?n}"
  proof
    assume "(?n, ?n) \<in> ?E\<^sup>+"
    then obtain y where y: "(?n, y) \<in> ?E" "(y, ?n) \<in> ?E\<^sup>*" by (meson tranclD)
    then have "y \<in> stretch \<union> (visited st - on_stack st)" using tg [of ?n] one by (auto simp: edges_def)
    moreover have "y \<notin> visited st - on_stack st" using closed [OF y(2)] d(6) [of f] by auto
    ultimately show "?n \<in> set (targets_of by_name ?n)" using y(1) one by (auto simp: edges_def)
  qed (auto simp: edges_def intro: r_into_trancl)
qed

lemma indexed_targets: "y \<in> set (targets_of by_name x) \<Longrightarrow> indexed by_name x \<and> indexed by_name y"
  by (cases "map_of by_name x") (simp_all add: targets_of_def indexed_def leading_refs_def)

lemma close_inv:
  assumes inv: "tarjan_inv by_name (f # fs) st" and all: "length (fr_targets f) \<le> fr_next f"
  shows "tarjan_inv by_name fs (carry_up fs (fr_name f) (close_root by_name (fr_name f) st))"
proof (cases "low_of st (fr_name f) = index_of st (fr_name f)")
  case False
  then show ?thesis using carry_inv [OF inv all] by (simp add: close_root_def)
next
  case low: True
  note d = tarjan_invD [OF inv] and look = looked_at_done [OF inv all] and comp = component_cyclic [OF inv all low]
  let ?n = "fr_name f" and ?E = "edges by_name"
  define stretch where "stretch = {x \<in> on_stack st. index_of st ?n \<le> index_of st x}"
  define scc where "scc = takeWhile (\<lambda>w. w \<noteq> ?n) (tj_stack st) @ [?n]"
  note pop = pop_stretch [OF d(3), of ?n, folded scc_def stretch_def]
  have n: "?n \<in> on_stack st" using d(6) [of f] by simp
  define st1 where "st1 = close_root by_name ?n st"
  have st1: "tj_index st1 = tj_index st" "tj_indices st1 = tj_indices st" "tj_lowlinks st1 = tj_lowlinks st"
    "tj_stack st1 = drop (length scc) (tj_stack st)" "set (tj_on_stack st1) = set (tj_on_stack st) - set scc"
    "set (tj_cyclic st1) = (if is_cycle by_name scc then set (tj_cyclic st) \<union> set scc else set (tj_cyclic st))"
    using low by (auto simp: st1_def close_root_def pop_component_def scc_def Let_def)
  have sset: "set scc = stretch" "set (tj_stack st1) = {x \<in> on_stack st. index_of st x < index_of st ?n}"
    using pop n st1(4) by simp_all
  have rest: "on_stack st1 = on_stack st - stretch" unfolding sset(2) by (auto simp: stretch_def)
  have below: "index_of st (fr_name h) < index_of st ?n" if "h \<in> set fs" for h using d(5) that by auto
  have low': "low_of (carry_up fs ?n st1) (fr_name h) = low_of st (fr_name h)" for h
  proof (cases fs)
    case (Cons p ps)
    have "low_of st (fr_name p) \<le> low_of st ?n" using d(13) [of p] below [of p] low Cons by simp
    then show ?thesis using st1(3) by (simp add: low_of_carry_up Cons min_def)
  qed (simp add: low_of_carry_up st1(3))
  have nstretch: "?n \<in> stretch" using n by (simp add: stretch_def)
  have cyc: "is_cycle by_name scc \<longleftrightarrow> (\<forall>x\<in>stretch. (x, x) \<in> ?E\<^sup>+)" "\<not> is_cycle by_name scc \<Longrightarrow> stretch = {?n}"
  proof -
    have len: "length scc = card stretch" using pop(3) [OF n] sset(1) by (metis distinct_card)
    have one: "stretch = {?n}" if "length scc = 1"
      using that nstretch unfolding len by (auto simp: card_Suc_eq)
    have pos: "length scc \<noteq> 0" by (simp add: scc_def)
    have many: "\<forall>x\<in>stretch. (x, x) \<in> ?E\<^sup>+" if "length scc > 1"
    proof
      fix x assume x: "x \<in> stretch"
      have "\<not> stretch \<subseteq> {x}" using that card_mono [of "{x}" stretch] unfolding len by auto
      then obtain w where "w \<in> stretch" "w \<noteq> x" by blast
      then have r: "(x, w) \<in> ?E\<^sup>*" "(w, x) \<in> ?E\<^sup>*" using comp(2) x unfolding stretch_def [symmetric] by blast+
      have "(x, w) \<in> ?E\<^sup>+" using rtranclD [OF r(1)] \<open>w \<noteq> x\<close> by blast
      from this r(2) show "(x, x) \<in> ?E\<^sup>+" by (rule trancl_rtrancl_trancl)
    qed
    have single: "hd scc = ?n" if "length scc = 1" using that by (auto simp: scc_def length_Suc_conv)
    show "is_cycle by_name scc \<longleftrightarrow> (\<forall>x\<in>stretch. (x, x) \<in> ?E\<^sup>+)"
    proof (cases "length scc = 1")
      case True
      then show ?thesis
        using one [OF True] comp(3) single [OF True] indexed_targets [of ?n by_name ?n]
        unfolding stretch_def [symmetric] by (auto simp: is_cycle_def)
    next
      case False
      then have "length scc > 1" using pos by linarith
      then show ?thesis using many by (simp add: is_cycle_def)
    qed
    show "stretch = {?n}" if "\<not> is_cycle by_name scc"
      using that one pos by (cases "length scc") (auto simp: is_cycle_def)
  qed
  show ?thesis
    unfolding st1_def [symmetric]
  proof (rule tarjan_invI, unfold carry_up_keeps indices_carry_up st1(1,2), goal_cases)
    case 1
    then show ?case using d(1) by (simp add: st1(5) sset(1) rest)
  next
    case 2
    then show ?case using d(2) rest by blast
  next
    case 3
    then show ?case using d(3) by (simp add: st1(4) sorted_wrt_drop)
  next
    case 5
    then show ?case using d(5) by simp
  next
    case (6 h)
    then show ?case using d(6) [of h] below [of h] sset(2) by simp
  next
    case (8 h x)
    then show ?case using d(8) [of h x] rest by simp
  next
    case (9 x)
    then have x: "x \<in> on_stack st" "index_of st x < index_of st ?n" using sset(2) by auto
    then obtain h where h: "h \<in> set (f # fs)" "index_of st (fr_name h) \<le> index_of st x" "(x, fr_name h) \<in> ?E\<^sup>*" using d(9) by blast
    then have "h \<noteq> f" using x(2) by auto
    then show ?case using h by auto
  next
    case (10 x z)
    then show ?case using d(10) look(1) by blast
  next
    case (11 x)
    then consider "x \<in> visited st - on_stack st" | "x \<in> stretch" using rest by blast
    then show ?case
    proof cases
      case 1
      then show ?thesis using d(11) rest by blast
    next
      case 2
      have "stretch \<subseteq> visited st" using d(2) by (auto simp: stretch_def)
      then show ?thesis using comp(1) [of x] 2 rest unfolding stretch_def [symmetric] by blast
    qed
  next
    case 12
    have split: "visited st - on_stack st1 = (visited st - on_stack st) \<union> stretch"
      using rest d(2) by (auto simp: stretch_def)
    have "{x \<in> stretch. (x, x) \<in> ?E\<^sup>+} = (if is_cycle by_name scc then stretch else {})"
      using cyc nstretch by auto
    then show ?case unfolding split st1(6) sset(1) using d(12) by auto
  next
    case (13 h)
    then show ?case using d(13) [of h] by (simp add: low')
  next
    case (14 h)
    then obtain y where y: "y \<in> on_stack st" "index_of st y = low_of st (fr_name h)" "(fr_name h, y) \<in> ?E\<^sup>*"
      using d(14) [of h] by auto
    have "index_of st y < index_of st ?n" using y(2) d(13) [of h] below [OF 14] 14 by simp
    then show ?case using y sset(2) by (intro bexI [of _ y]) (simp_all add: low')
  next
    case (15 h x z)
    have xz: "x \<in> on_stack st" "z \<in> on_stack st" "index_of st x < index_of st ?n" using 15(2,3) sset(2) by auto
    have l: "looked_at by_name (f # fs) x z" using 15(6) look(1) by blast
    have "low_of st (fr_name h) \<le> index_of st z"
      by (rule d(15) [OF _ xz(1,2) 15(4) _ l]) (use 15(1,5) xz(3) in auto)
    then show ?case by (simp add: low')
  qed (use d in auto)
qed

lemma visited_close [simp]: "visited (carry_up fs n (close_root by_name n st)) = visited st"
  by simp

lemma strong_connect_inv:
  "tarjan_inv by_name frames st \<Longrightarrow>
   tarjan_inv by_name [] (strong_connect by_name frames st) \<and> visited st \<subseteq> visited (strong_connect by_name frames st)"
proof (induction by_name frames st rule: strong_connect.induct)
  case (2 by_name f frames st)
  let ?t = "fr_targets f ! fr_next f" and ?f = "f\<lparr>fr_next := Suc (fr_next f)\<rparr>"
  show ?case
  proof (cases "fr_next f < length (fr_targets f)")
    case True
    show ?thesis
    proof (cases "map_of (tj_indices st) ?t = None")
      case new: True
      obtain child st' where o': "open_frame by_name ?t st = (child, st')" by (cases "open_frame by_name ?t st")
      have "tarjan_inv by_name (child # ?f # frames) st'"
        by (rule open_inv [OF "2.prems" _ o']) (use new True in auto)
      from "2.IH"(1) [OF True refl refl new o' [symmetric] this]
      have "tarjan_inv by_name [] (strong_connect by_name (child # ?f # frames) st') \<and>
          visited st' \<subseteq> visited (strong_connect by_name (child # ?f # frames) st')" .
      moreover have "strong_connect by_name (f # frames) st = strong_connect by_name (child # ?f # frames) st'"
        using True new o' by (simp add: strong_connect.simps(2) Let_def)
      ultimately show ?thesis using open_frame_fields(6) [OF o'] by auto
    next
      case old: False
      define st' where "st' = (if ?t \<in> set (tj_on_stack st) then lower_link (fr_name ?f) (index_of st ?t) st else st)"
      have "tarjan_inv by_name (?f # frames) st'"
        by (rule next_inv [OF "2.prems" True refl])
          (use old tarjan_invD(1) [OF "2.prems"] in \<open>auto simp: st'_def\<close>)
      then have "tarjan_inv by_name [] (strong_connect by_name (?f # frames) st') \<and>
          visited st' \<subseteq> visited (strong_connect by_name (?f # frames) st')"
        using "2.IH"(2) [OF True refl refl old] "2.IH"(3) [OF True refl refl old] unfolding st'_def
        by (cases "?t \<in> set (tj_on_stack st)") (simp_all only: if_True if_False simp_thms)
      moreover have "strong_connect by_name (f # frames) st = strong_connect by_name (?f # frames) st'"
        unfolding st'_def strong_connect.simps(2) [of by_name f] Let_def if_P [OF True] if_not_P [OF old]
        by (cases "?t \<in> set (tj_on_stack st)") (simp_all only: if_True if_False)
      moreover have "visited st' = visited st" by (simp add: st'_def)
      ultimately show ?thesis by simp
    qed
  next
    case False
    then have "tarjan_inv by_name frames (carry_up frames (fr_name f) (close_root by_name (fr_name f) st))"
      by (intro close_inv "2.prems") simp
    from "2.IH"(4) [OF False this] show ?thesis using False by (simp add: strong_connect.simps(2))
  qed
qed simp

lemma cycle_members_exact:
  "set (find_leading_ref_cycle_members ps) = {n. (n, n) \<in> (edges (index_prods ps))\<^sup>+}"
proof -
  let ?by = "index_prods ps"
  define step where "step = (\<lambda>st (p :: production). if map_of (tj_indices st) (p_name p) = None then
       (case open_frame ?by (p_name p) st of (f, st) \<Rightarrow> strong_connect ?by [f] st) else st)"
  define st0 where "st0 = \<lparr>tj_index = 0, tj_stack = [], tj_on_stack = [], tj_indices = [], tj_lowlinks = [], tj_cyclic = []\<rparr>"
  have one: "tarjan_inv ?by [] (step st p) \<and> visited st \<subseteq> visited (step st p) \<and> p_name p \<in> visited (step st p)"
    if "tarjan_inv ?by [] st" for st p
  proof (cases "map_of (tj_indices st) (p_name p) = None")
    case True
    obtain f st' where o': "open_frame ?by (p_name p) st = (f, st')" by (cases "open_frame ?by (p_name p) st")
    have "tarjan_inv ?by [f] st'" by (rule open_inv [OF that _ o']) (use True in auto)
    from strong_connect_inv [OF this] show ?thesis
      using True o' open_frame_fields(6) [OF o'] by (auto simp: step_def)
  next
    case False
    then show ?thesis using that by (auto simp: step_def)
  qed
  have run: "tarjan_inv ?by [] (foldl step st qs) \<and> visited st \<subseteq> visited (foldl step st qs) \<and> set (names qs) \<subseteq> visited (foldl step st qs)"
    if "tarjan_inv ?by [] st" for st and qs :: "production list"
    using that
  proof (induction qs arbitrary: st)
    case (Cons q qs)
    note s1 = one [OF Cons.prems, of q]
    note s2 = Cons.IH [OF s1 [THEN conjunct1]]
    have "visited st \<subseteq> visited (foldl step (step st q) qs)" using s1 s2 by (meson subset_trans)
    moreover have "p_name q \<in> visited (foldl step (step st q) qs)" using s1 s2 by (meson subsetD)
    ultimately show ?case using s2 by (simp only: foldl_Cons list.map list.set insert_subset simp_thms)
  qed simp
  have "tarjan_inv ?by [] st0" by (rule tarjan_invI) (simp_all add: st0_def)
  note fin = run [OF this, of ps]
  let ?st = "foldl step st0 ps"
  have stack: "on_stack ?st = {}"
    using tarjan_invD(9) [of ?by "[]" ?st] fin by (metis empty_iff empty_set equals0I)
  have keys: "fst ` set ?by \<subseteq> set (names ps)"
  proof -
    have "fst ` set (foldl (\<lambda>m p. imap_insert (p_name p) p m) m qs) \<subseteq> fst ` set m \<union> set (names qs)" for m and qs :: "production list"
    proof (induction qs arbitrary: m)
      case (Cons q qs)
      have "fst ` set (imap_insert (p_name q) q m) \<subseteq> insert (p_name q) (fst ` set m)"
        using image_mono [OF set_imap_insert, of fst "p_name q" q m] by simp
      then show ?case using Cons.IH [of "imap_insert (p_name q) q m"] unfolding foldl_Cons list.map list.set by blast
    qed simp
    from this [of "[]" ps] show ?thesis by (simp add: index_prods_def)
  qed
  have "n \<in> visited ?st" if "(n, n) \<in> (edges ?by)\<^sup>+" for n
  proof -
    obtain y where "(n, y) \<in> edges ?by" using \<open>(n, n) \<in> (edges ?by)\<^sup>+\<close> by (meson tranclD)
    then have "indexed ?by n" using indexed_targets by (auto simp: edges_def)
    then have "n \<in> fst ` set ?by" by (auto simp: indexed_def map_of_eq_None_iff)
    then show ?thesis using keys fin by blast
  qed
  then have "set (tj_cyclic ?st) = {n. (n, n) \<in> (edges ?by)\<^sup>+}"
    using tarjan_invD(12) [of ?by "[]" ?st] fin stack by auto
  then show ?thesis by (simp add: find_leading_ref_cycle_members_def Let_def step_def st0_def)
qed

end
