(* ===== verification/Left_Recursion_Language.thy ===== *)
theory Left_Recursion_Language
  imports Leading_Refs
begin

text \<open>
  Left-recursion elimination keeps the language: every split, every substitution and every loop
  does, whatever the assignment of words to rules. Beside it runs the invariant that the source
  tree mirrors the grammar, element by element.
\<close>

section \<open>Sources mirror elements\<close>

fun mirrors :: "element \<Rightarrow> source \<Rightarrow> bool" where
  "mirrors (Element (Opt i) _) s = (case src_children s of InnerSource t \<Rightarrow> mirrors i t | _ \<Rightarrow> False)"
| "mirrors (Element (Star i _) _) s = (case src_children s of InnerSource t \<Rightarrow> mirrors i t | _ \<Rightarrow> False)"
| "mirrors (Element (Plus i) _) s = (case src_children s of InnerSource t \<Rightarrow> mirrors i t | _ \<Rightarrow> False)"
| "mirrors (Element (Rep _ _ i) _) s = (case src_children s of InnerSource t \<Rightarrow> mirrors i t | _ \<Rightarrow> False)"
| "mirrors (Element (Group alts) _) s =
     (case src_children s of GroupSources sas \<Rightarrow> list_all2 (list_all2 mirrors) alts sas | _ \<Rightarrow> False)"
| "mirrors (Element _ _) s = (src_children s = NoSource)"

abbreviation mirrors_alts :: "seq list \<Rightarrow> alt_sources list \<Rightarrow> bool" where
  "mirrors_alts \<equiv> list_all2 (list_all2 mirrors)"

definition sources_mirror :: "production list \<Rightarrow> rewrite_sources \<Rightarrow> bool" where
  "sources_mirror ps srcs \<longleftrightarrow> (\<forall>p\<in>set ps. mirrors_alts (p_alts p) (sources_of srcs (p_name p)))"

lemma mirrors_authored: "mirrors el (authored_source p el)"
  by (induction el rule: element_induct) (auto simp: list_all2_map2 list_all2_same)

lemma mirrors_leaf: "el_inner el = None \<Longrightarrow> (\<And>alts. kind_of el \<noteq> Group alts) \<Longrightarrow> mirrors el s \<longleftrightarrow> src_children s = NoSource"
  by (cases "(el, s)" rule: mirrors.cases) (auto simp: el_inner_def)

lemma mirrors_inner: "el_inner el = Some i \<Longrightarrow> mirrors el s \<longleftrightarrow> (\<exists>t. src_children s = InnerSource t \<and> mirrors i t)"
  by (cases "(el, s)" rule: mirrors.cases) (auto simp: el_inner_def split: source_children.splits)

lemma mirrors_group: "kind_of el = Group alts \<Longrightarrow> mirrors el s \<longleftrightarrow> (\<exists>sas. src_children s = GroupSources sas \<and> mirrors_alts alts sas)"
  by (cases "(el, s)" rule: mirrors.cases) (auto split: source_children.splits)

lemma sugar_sources:
  assumes "nullable_sugar_present el = Some sq" and "mirrors el s"
  obtains ss where "nullable_sugar_sources el s = Some ss" and "list_all2 mirrors sq ss"
  using assms
  by (cases "(el, s)" rule: mirrors.cases)
    (auto simp: nullable_sugar_present_def nullable_sugar_sources_def el_rep_def el_of_def
      split: source_children.splits option.splits if_splits)

section \<open>Nullable prefixes\<close>

lemma rep_counts_Suc: "rep_counts 0 (Some (Suc m)) = insert 0 (Suc ` rep_counts 0 (Some m))"
  by (auto simp: rep_counts_def image_iff) presburger

lemma rep_upto_unfold:
  "(\<Union>k\<in>rep_counts 0 (Some (Suc m)). lpow k A) = {[]} \<union> conc A (\<Union>k\<in>rep_counts 0 (Some m). lpow k A)"
  by (simp add: rep_counts_Suc conc_UN)

lemma sugar_present_lang:
  assumes "nullable_sugar_present el = Some sq"
  shows "elang T L el = {[]} \<union> slang T L sq"
proof -
  have upto: "(\<Union>k\<in>rep_counts 0 (Some m). lpow k A) = {[]} \<union> conc A (\<Union>k\<in>rep_counts 0 (Some (m - 1)). lpow k A)"
    if "m \<noteq> 0" for m :: nat and A :: "'b lang"
    using rep_upto_unfold [of A "m - 1"] that by simp
  have all: "(\<Union>k\<in>rep_counts 0 None. lpow k A) = lstar A" for A :: "'b lang"
    by (simp add: rep_counts_def lstar_def)
  obtain k sp where el: "el = Element k sp" by (cases el)
  show ?thesis
  proof (cases k)
    case (Star i g)
    then have "sq = [i, el]" using assms by (simp add: nullable_sugar_present_def el)
    then show ?thesis using Star lstar_unfold [of "elang T L i"] by (simp add: el)
  next
    case (Rep mn mx i)
    then have mn: "mn = 0" using assms by (auto simp: nullable_sugar_present_def el split: if_splits)
    show ?thesis
    proof (cases mx)
      case None
      then have "sq = [i, el]" using assms Rep mn by (simp add: nullable_sugar_present_def el)
      then show ?thesis using None Rep mn lstar_unfold [of "elang T L i"] by (simp add: el all)
    next
      case (Some m)
      then have m: "m \<noteq> 0" "sq = (if m = 1 then [i] else [i, el_rep 0 (Some (m - 1)) i])"
        using assms Rep mn by (auto simp: nullable_sugar_present_def el split: if_splits)
      have "elang T L el = {[]} \<union> conc (elang T L i) (\<Union>k\<in>rep_counts 0 (Some (m - 1)). lpow k (elang T L i))"
        unfolding el Rep mn Some elang.simps by (rule upto [OF m(1)])
      moreover have "rep_counts 0 (Some 0) = {0}" by (auto simp: rep_counts_def)
      ultimately show ?thesis by (simp add: m(2) el_rep_def el_of_def)
    qed
  qed (use assms in \<open>auto simp: nullable_sugar_present_def el\<close>)
qed

text \<open>What a rewrite of the alternatives of a rule keeps, given the sources.\<close>

definition nonempty_alts :: "seq list \<Rightarrow> bool" where
  "nonempty_alts alts \<longleftrightarrow> [] \<notin> set alts"

lemma splice_set: "idx < length xs \<Longrightarrow> set (splice idx new xs) = set new \<union> set (take idx xs) \<union> set (drop (Suc idx) xs)"
  by (auto simp: splice_def)

lemma nth_split: "idx < length xs \<Longrightarrow> xs = take idx xs @ (xs ! idx) # drop (Suc idx) xs"
  by (rule id_take_nth_drop)

lemma alang_splice:
  assumes "idx < length alts" and "alang T L new = slang T L (alts ! idx)"
  shows "alang T L (splice idx new alts) = alang T L alts"
proof -
  have "alang T L alts = alang T L (take idx alts @ (alts ! idx) # drop (Suc idx) alts)"
    using nth_split [OF assms(1)] by simp
  then show ?thesis by (simp add: splice_def assms(2) Un_ac)
qed

lemma mirrors_splice:
  assumes "mirrors_alts alts srcs" and "mirrors_alts new news"
  shows "mirrors_alts (splice idx new alts) (splice idx news srcs)"
  unfolding splice_def
  by (intro list_all2_appendI list_all2_takeI list_all2_dropI assms)

lemma hidden_head:
  assumes "hidden_from sugar alt n" and "sugar = False"
  obtains el rest sq where "alt = el # rest" and "nullable_sugar_present el = Some sq" and "ref_name el = None" and "rest \<noteq> []"
proof (cases alt)
  case Nil
  then show ?thesis using assms by simp
next
  case (Cons el rest)
  show ?thesis
  proof (cases "ref_name el")
    case None
    moreover obtain sq where "nullable_sugar_present el = Some sq" using assms Cons None by (auto split: if_splits)
    moreover have "rest \<noteq> []" using assms Cons None by (auto split: if_splits)
    ultimately show ?thesis using that Cons by blast
  qed (use assms Cons in simp)
qed

text \<open>One split, and the splits of a rule.\<close>

lemma split_hidden_keeps:
  assumes "split_hidden p idx alts srcs added = Inr (alts', srcs', added')" and "idx < length alts"
    and "is_hidden_left_recursive (alts ! idx) n" and "mirrors_alts alts srcs"
  shows "alang T L alts' = alang T L alts \<and> mirrors_alts alts' srcs' \<and>
    (nonempty_alts alts \<longrightarrow> nonempty_alts alts') \<and> alts_refs alts' = alts_refs alts"
proof -
  obtain el rest sq where h: "alts ! idx = el # rest" "nullable_sugar_present el = Some sq" "rest \<noteq> []"
    using assms(3) unfolding is_hidden_left_recursive_def by (metis hidden_head)
  have m: "list_all2 mirrors (alts ! idx) (srcs ! idx)" by (rule list_all2_nthD [OF assms(4,2)])
  then obtain s ss where ss: "srcs ! idx = s # ss" "mirrors el s" "list_all2 mirrors rest ss"
    unfolding h by (auto simp: list_all2_Cons1)
  obtain ws where ws: "nullable_sugar_sources el s = Some ws" "list_all2 mirrors sq ws"
    using sugar_sources [OF h(2) ss(2)] by blast
  have out: "alts' = splice idx [sq @ rest, rest] alts" "srcs' = splice idx [ws @ ss, ss] srcs"
    using assms(1) h ss ws by (auto simp: split_hidden_def res_bind_Inr_iff)
  have "alang T L [sq @ rest, rest] = slang T L (alts ! idx)"
    unfolding h(1) slang_simps sugar_present_lang [OF h(2), of T L] conc_Un by (simp add: Un_commute)
  then have "alang T L alts' = alang T L alts" unfolding out by (rule alang_splice [OF assms(2)])
  moreover have "mirrors_alts alts' srcs'" unfolding out
    by (rule mirrors_splice) (use assms(4) ws ss in \<open>auto intro: list_all2_appendI\<close>)
  moreover have "nonempty_alts alts'" if "nonempty_alts alts"
    using that h(3) unfolding out nonempty_alts_def splice_set [OF assms(2)] by (auto dest: in_set_takeD in_set_dropD)
  moreover have "alts_refs alts' = alts_refs alts"
  proof -
    have "seq_refs sq = el_refs el"
      using h(2) by (cases el rule: el_refs.cases) (auto simp: nullable_sugar_present_def el_rep_def el_of_def split: option.splits if_splits)
    then have "alts_refs [sq @ rest, rest] = seq_refs (alts ! idx)" by (auto simp: h(1))
    moreover have "alts_refs alts = alts_refs (take idx alts) \<union> seq_refs (alts ! idx) \<union> alts_refs (drop (Suc idx) alts)"
      by (subst nth_split [OF assms(2)]) (simp, blast)
    ultimately show ?thesis unfolding out splice_def by (simp add: Un_ac) blast
  qed
  ultimately show ?thesis by blast
qed

lemma expand_alts_keeps:
  "expand_alts guard p alts srcs added = Inr (alts', srcs', added') \<Longrightarrow> mirrors_alts alts srcs \<Longrightarrow>
   alang T L alts' = alang T L alts \<and> mirrors_alts alts' srcs' \<and>
   (nonempty_alts alts \<longrightarrow> nonempty_alts alts') \<and> alts_refs alts' = alts_refs alts"
proof (induction guard p alts srcs added rule: expand_alts.induct)
  case (2 guard p alts srcs added)
  show ?case
  proof (cases "find (\<lambda>i. is_hidden_left_recursive (alts ! i) (p_name p)) [0..<length alts]")
    case None
    then show ?thesis using 2 by simp
  next
    case (Some idx)
    then have idx: "idx < length alts" "is_hidden_left_recursive (alts ! idx) (p_name p)"
      by (auto simp: find_Some_iff)
    obtain a s d where st: "split_hidden p idx alts srcs added = Inr (a, s, d)" "expand_alts guard p a s d = Inr (alts', srcs', added')"
      using "2.prems"(1) Some by (auto simp: res_bind_Inr_iff)
    note k = split_hidden_keeps [OF st(1) idx "2.prems"(2), of T L]
    then show ?thesis using "2.IH" [OF Some st(1) refl refl st(2)] by simp
  qed
qed simp

text \<open>How the productions before a pass and after it correspond.\<close>

definition same_rule :: "'a terminals \<Rightarrow> production \<Rightarrow> production \<Rightarrow> bool" where
  "same_rule T p q \<longleftrightarrow>
     p_name q = p_name p \<and> (\<forall>L. alang T L (p_alts q) = alang T L (p_alts p)) \<and>
     (nonempty_alts (p_alts p) \<longrightarrow> nonempty_alts (p_alts q)) \<and> alts_refs (p_alts q) = alts_refs (p_alts p)"

lemma same_rules_names: "list_all2 (same_rule T) ps qs \<Longrightarrow> names qs = names ps"
  by (induction rule: list_all2_induct) (auto simp: same_rule_def)

lemma same_rules_solves: "list_all2 (same_rule T) ps qs \<Longrightarrow> solves T L qs \<longleftrightarrow> solves T L ps"
  by (induction rule: list_all2_induct) (auto simp: same_rule_def)

lemma expand_keeps:
  assumes "res_fold expand_prod (out, srcs, added) ps = Inr (out', srcs', added')"
    and "\<And>p. p \<in> set ps \<Longrightarrow> mirrors_alts (p_alts p) (sources_of srcs (p_name p))"
    and "sources_mirror out srcs" and "distinct (names (out @ ps))"
  shows "\<exists>qs. out' = out @ qs \<and> list_all2 (same_rule T) ps qs \<and> sources_mirror out' srcs'"
  using assms
proof (induction ps arbitrary: out srcs added)
  case (Cons p ps)
  obtain alts s d where e: "expand_alts (sum_list (map length (p_alts p)) + 1) p (p_alts p) (sources_of srcs (p_name p)) added = Inr (alts, s, d)"
    and r: "res_fold expand_prod (out @ [p\<lparr>p_alts := alts\<rparr>], imap_insert (p_name p) s srcs, d) ps = Inr (out', srcs', added')"
    using Cons.prems(1) unfolding res_fold.simps res_bind_Inr_iff expand_prod_def prod.case by (auto simp del: expand_alts.simps)
  have m: "mirrors_alts (p_alts p) (sources_of srcs (p_name p))" using Cons.prems(2) by simp
  note k = expand_alts_keeps [OF e m]
  have same: "same_rule T p (p\<lparr>p_alts := alts\<rparr>)" by (simp add: same_rule_def k)
  have other: "sources_of (imap_insert (p_name p) s srcs) n = sources_of srcs n" if "n \<noteq> p_name p" for n
    using that by (simp add: sources_of_def imap_get_or_def)
  have "\<exists>qs. out' = (out @ [p\<lparr>p_alts := alts\<rparr>]) @ qs \<and> list_all2 (same_rule T) ps qs \<and> sources_mirror out' srcs'"
  proof (rule Cons.IH [OF r])
    show "mirrors_alts (p_alts q) (sources_of (imap_insert (p_name p) s srcs) (p_name q))" if "q \<in> set ps" for q
    proof -
      have "p_name p \<notin> p_name ` set ps" using Cons.prems(4) by simp
      then have "p_name q \<noteq> p_name p" using imageI [OF that, of p_name] by metis
      then show ?thesis using other Cons.prems(2) [of q] that by simp
    qed
    show "sources_mirror (out @ [p\<lparr>p_alts := alts\<rparr>]) (imap_insert (p_name p) s srcs)"
      unfolding sources_mirror_def
    proof
      fix q assume "q \<in> set (out @ [p\<lparr>p_alts := alts\<rparr>])"
      then consider "q \<in> set out" | "q = p\<lparr>p_alts := alts\<rparr>" by auto
      then show "mirrors_alts (p_alts q) (sources_of (imap_insert (p_name p) s srcs) (p_name q))"
      proof cases
        case 1
        have "p_name p \<notin> p_name ` set out" using Cons.prems(4) by simp
        then have "p_name q \<noteq> p_name p" using imageI [OF 1, of p_name] by metis
        then show ?thesis using other Cons.prems(3) 1 by (simp add: sources_mirror_def)
      qed (simp add: k sources_of_def imap_get_or_def)
    qed
  qed (use Cons.prems(4) in simp)
  then obtain qs where "out' = out @ p\<lparr>p_alts := alts\<rparr> # qs" "list_all2 (same_rule T) ps qs" "sources_mirror out' srcs'" by auto
  with same show ?case by (intro exI [of _ "p\<lparr>p_alts := alts\<rparr> # qs"]) simp
qed simp

section \<open>Substitution and direct left recursion\<close>

lemma is_ref_to_lang: "is_ref_to el n \<Longrightarrow> elang T L el = L n"
  by (cases el) (auto simp: is_ref_to_iff)

lemma list_all2_zip: "list_all2 P xs ys \<Longrightarrow> x \<in> set (zip xs ys) \<Longrightarrow> P (fst x) (snd x)"
  by (auto simp: list_all2_iff)

lemma led_by_lang: "led_by source alt \<Longrightarrow> slang T L alt = conc (L (p_name source)) (slang T L (tl alt))"
  by (cases alt) (auto simp: led_by_def is_ref_to_lang)

lemma led_byE:
  assumes "led_by source alt" obtains el rest where "alt = el # rest" and "is_ref_to el (p_name source)"
  using assms by (cases alt) (auto simp: led_by_def)

lemma zip_alts:
  assumes "mirrors_alts alts srcs"
  shows "map fst (zip alts srcs) = alts" and "map snd (zip alts srcs) = srcs"
  using list_all2_lengthD [OF assms] by simp_all

lemma concat_alang: "alang T L (concat (map f xs)) = (\<Union>x\<in>set xs. alang T L (f x))"
  by (auto simp: alang_def)

lemma substitute_keeps:
  assumes L: "L (p_name source) = alang T L (p_alts source)"
    and t: "mirrors_alts (p_alts target) ts" and s: "mirrors_alts (p_alts source) ss"
  shows "alang T L (p_alts (fst (substitute_leading_ref target ts source ss))) = alang T L (p_alts target)"
proof -
  have one: "alang T L (map fst (substitute_alt source ss (alt, y))) = slang T L alt" for alt y
  proof (cases "led_by source alt")
    case True
    have "map fst (map (\<lambda>(a, s). (a @ tl alt, s @ tl y)) (zip (p_alts source) ss)) = map (\<lambda>a. a @ tl alt) (map fst (zip (p_alts source) ss))"
      by (simp add: case_prod_beta comp_def)
    also have "\<dots> = map (\<lambda>a. a @ tl alt) (p_alts source)" by (simp only: zip_alts(1) [OF s])
    finally have "alang T L (map fst (substitute_alt source ss (alt, y))) = alang T L (map (\<lambda>a. a @ tl alt) (p_alts source))"
      using True by (simp add: substitute_alt_def)
    also have "\<dots> = conc (alang T L (p_alts source)) (slang T L (tl alt))" by (simp add: alang_def conc_UN)
    finally show ?thesis using True L by (simp add: led_by_lang)
  qed (simp add: substitute_alt_def)
  have "alang T L (p_alts (fst (substitute_leading_ref target ts source ss))) =
      (\<Union>x\<in>set (zip (p_alts target) ts). alang T L (map fst (substitute_alt source ss x)))"
    by (simp add: substitute_leading_ref_def Let_def map_concat comp_def concat_alang)
  also have "\<dots> = (\<Union>x\<in>set (zip (p_alts target) ts). slang T L (fst x))"
    by (rule SUP_cong [OF refl]) (metis one prod.collapse)
  also have "\<dots> = (\<Union>alt\<in>set (map fst (zip (p_alts target) ts)). slang T L alt)" by simp
  finally show ?thesis by (simp only: zip_alts(1) [OF t] alang_def)
qed

lemma substitute_mirrors:
  assumes t: "mirrors_alts (p_alts target) ts" and s: "mirrors_alts (p_alts source) ss"
  shows "mirrors_alts (p_alts (fst (substitute_leading_ref target ts source ss))) (snd (substitute_leading_ref target ts source ss))"
proof -
  have tail: "list_all2 mirrors (tl a) (tl b)" if "list_all2 mirrors a b" for a b
    using that by (cases a; cases b) auto
  have one: "mirrors_alts (map fst (substitute_alt source ss x)) (map snd (substitute_alt source ss x))"
    if "x \<in> set (zip (p_alts target) ts)" for x
  proof -
    have "list_all2 mirrors (fst x) (snd x)" using t that by (rule list_all2_zip)
    moreover have "list_all2 mirrors (fst y) (snd y)" if "y \<in> set (zip (p_alts source) ss)" for y
      using s that by (rule list_all2_zip)
    ultimately show ?thesis
      by (auto simp: substitute_alt_def list_all2_map1 list_all2_map2 list_all2_same split_beta
          intro!: list_all2_appendI tail split: prod.split)
  qed
  have all: "list_all2 (list_all2 mirrors) (map fst (concat (map f xs))) (map snd (concat (map f xs)))"
    if "\<And>x. x \<in> set xs \<Longrightarrow> mirrors_alts (map fst (f x)) (map snd (f x))" for xs and f :: "seq \<times> alt_sources \<Rightarrow> (seq \<times> alt_sources) list"
    using that by (induction xs) (auto intro: list_all2_appendI)
  show ?thesis
    using all [OF one] by (simp add: substitute_leading_ref_def Let_def)
qed

lemma token_alt_keeps:
  assumes "T (Token (''#'' @ c)) = L c" shows "slang T L (token_alt c alt) = slang T L alt"
proof (cases alt)
  case (Cons el rest)
  then show ?thesis using assms by (simp add: token_alt_def el_token_def el_of_def is_ref_to_lang)
qed (simp add: token_alt_def)

lemma token_alt_mirrors: "list_all2 mirrors alt ss \<Longrightarrow> list_all2 mirrors (token_alt c alt) ss"
proof (cases alt)
  case (Cons el rest)
  assume m: "list_all2 mirrors alt ss"
  have "mirrors (el_token n) s" if "is_ref_to el c" "mirrors el s" for n s
    using that by (cases el) (auto simp: is_ref_to_iff el_token_def el_of_def)
  then show ?thesis using m Cons by (auto simp: token_alt_def list_all2_Cons1)
qed (simp add: token_alt_def)

lemma by_token_keeps:
  assumes t: "mirrors_alts (p_alts target) ts"
  shows "T (Token (''#'' @ c)) = L c \<Longrightarrow>
      alang T L (p_alts (fst (substitute_leading_ref_by_token target ts c))) = alang T L (p_alts target)"
    and "mirrors_alts (p_alts (fst (substitute_leading_ref_by_token target ts c))) (snd (substitute_leading_ref_by_token target ts c))"
proof -
  have fsts: "map (\<lambda>(alt, _). token_alt c alt) (zip (p_alts target) ts) = map (token_alt c) (p_alts target)"
    using zip_alts(1) [OF t] by (metis (mono_tags, lifting) case_prod_beta comp_apply list.map_comp map_eq_conv)
  have new: "p_alts (fst (substitute_leading_ref_by_token target ts c)) = map (token_alt c) (p_alts target)"
    "snd (substitute_leading_ref_by_token target ts c) = ts"
    using zip_alts(2) [OF t] by (simp_all add: substitute_leading_ref_by_token_def Let_def fsts)
  show "T (Token (''#'' @ c)) = L c \<Longrightarrow>
      alang T L (p_alts (fst (substitute_leading_ref_by_token target ts c))) = alang T L (p_alts target)"
    unfolding new by (simp add: alang_def token_alt_keeps)
  show "mirrors_alts (p_alts (fst (substitute_leading_ref_by_token target ts c))) (snd (substitute_leading_ref_by_token target ts c))"
    unfolding new list_all2_map1 by (rule list_all2_mono [OF t]) (rule token_alt_mirrors)
qed

lemma merged_lang: "elang T L (merged alts) = alang T L alts"
  by (cases alts; cases "hd alts"; cases "tl alts") (auto simp: merged_def el_group_def el_of_def)

lemma merged_mirrors: "mirrors_alts alts ss \<Longrightarrow> mirrors (merged alts) (merged_source ss fallback)"
proof -
  assume m: "mirrors_alts alts ss"
  then have l: "length ss = length alts" "length alts = 1 \<Longrightarrow> length (hd ss) = length (hd alts)"
    by (auto simp: list_all2_Cons1 length_Suc_conv dest: list_all2_lengthD) (metis list_all2_lengthD)
  show ?thesis
  proof (cases "length alts = 1 \<and> length (hd alts) = 1")
    case True
    then show ?thesis using m by (auto simp: merged_def merged_source_def length_Suc_conv list_all2_Cons1)
  next
    case False
    then show ?thesis
      using m l by (auto simp: merged_def merged_source_def el_group_def el_of_def generated_group_source_def with_children_def)
  qed
qed

definition seeds_of :: "production \<Rightarrow> seq list" where
  "seeds_of p = filter (\<lambda>alt. \<not> led_by p alt) (p_alts p)"

definition tails_of :: "production \<Rightarrow> seq list" where
  "tails_of p = filter (\<lambda>rest. rest \<noteq> []) (map tl (filter (led_by p) (p_alts p)))"

lemma alts_split: "alang T L (p_alts p) = alang T L (seeds_of p) \<union> conc (L (p_name p)) (alang T L (map tl (filter (led_by p) (p_alts p))))"
proof -
  have "alang T L (p_alts p) = alang T L (seeds_of p) \<union> alang T L (filter (led_by p) (p_alts p))"
    by (auto simp: alang_def seeds_of_def)
  also have "alang T L (filter (led_by p) (p_alts p)) = conc (L (p_name p)) (alang T L (map tl (filter (led_by p) (p_alts p))))"
    by (simp add: alang_def conc_UN) (rule SUP_cong [OF refl], simp add: led_by_lang)
  finally show ?thesis .
qed

lemma tails_lang: "alang T L (map tl (filter (led_by p) (p_alts p))) \<union> {[]} = alang T L (tails_of p) \<union> {[]}"
  by (auto simp: alang_def tails_of_def)

lemma conc_with_Nil: "A \<union> {[]} = B \<union> {[]} \<Longrightarrow> conc X A \<subseteq> X \<longleftrightarrow> conc X B \<subseteq> X"
proof -
  have step: "conc X B \<subseteq> X" if "A \<union> {[]} = B \<union> {[]}" "conc X A \<subseteq> X" for A B
  proof -
    have "conc X B \<subseteq> conc X (A \<union> {[]})" unfolding that(1) by (rule conc_mono) auto
    also have "conc X (A \<union> {[]}) = conc X A \<union> X" by (simp only: conc_Un conc_empty_word)
    finally show ?thesis using that(2) by blast
  qed
  assume "A \<union> {[]} = B \<union> {[]}"
  then show ?thesis using step [of A B] step [of B A] by auto
qed

lemma direct_cases:
  assumes "eliminate_direct_left_rec p ss debts = Inr ((q, qs), debts')" and "mirrors_alts (p_alts p) ss"
  obtains "q = rebuilt p (seeds_of p)" and "tails_of p = []" and "mirrors_alts (p_alts q) qs"
  | g where "q = rebuilt p [[merged (seeds_of p), Element (Star (merged (tails_of p)) g) None]]"
    and "seeds_of p \<noteq> []" and "tails_of p \<noteq> []" and "mirrors_alts (p_alts q) qs"
proof -
  define pairs where "pairs = zip (p_alts p) ss"
  define seeds where "seeds = filter (\<lambda>(alt, _). \<not> led_by p alt) pairs"
  define rec' where "rec' = map (\<lambda>(alt, ss). (tl alt, tl ss)) (filter (\<lambda>(alt, _). led_by p alt) pairs)"
  define nt where "nt = filter (\<lambda>(rest, _). rest \<noteq> []) rec'"
  have fst_pairs: "map fst pairs = p_alts p" unfolding pairs_def by (rule zip_alts(1) [OF assms(2)])
  have "map fst seeds = filter (\<lambda>alt. \<not> led_by p alt) (map fst pairs)"
    by (simp add: seeds_def filter_map comp_def case_prod_unfold)
  then have s: "map fst seeds = seeds_of p" by (simp add: fst_pairs seeds_of_def)
  have "map fst rec' = map tl (filter (led_by p) (map fst pairs))"
    by (simp add: rec'_def filter_map comp_def case_prod_unfold)
  moreover have "map fst nt = filter (\<lambda>rest. rest \<noteq> []) (map fst rec')"
    by (simp add: nt_def filter_map comp_def case_prod_unfold)
  ultimately have t: "map fst nt = tails_of p" by (simp add: fst_pairs tails_of_def)
  have pm: "list_all2 mirrors (fst x) (snd x)" if "x \<in> set pairs" for x
    using assms(2) that unfolding pairs_def by (rule list_all2_zip)
  have sm: "mirrors_alts (map fst seeds) (map snd seeds)"
    using pm by (auto simp: seeds_def list_all2_map1 list_all2_map2 list_all2_same)
  have "list_all2 mirrors (tl a) (tl b)" if "list_all2 mirrors a b" for a b
    using that by (cases a; cases b) auto
  then have tm: "mirrors_alts (map fst nt) (map snd nt)"
    using pm by (auto simp: nt_def rec'_def list_all2_map1 list_all2_map2 list_all2_same)
  note defs = pairs_def [symmetric] seeds_def [symmetric] rec'_def [symmetric] nt_def [symmetric]
  show ?thesis
  proof (cases "nt = []")
    case True
    then have "q = rebuilt p (map fst seeds)" "qs = map snd seeds"
      using assms(1) by (simp_all add: eliminate_direct_left_rec_def Let_def defs)
    then show ?thesis using that(1) s t True sm by simp
  next
    case False
    then have sn: "seeds \<noteq> []" using assms(1) by (auto simp: eliminate_direct_left_rec_def Let_def defs split: if_splits)
    define fb where "fb = Source (origin_of p) (p_sp p) NoSource"
    define ts where "ts = merged_source (map snd nt) fb"
    obtain g where g: "q = rebuilt p [[merged (map fst seeds), Element (Star (merged (map fst nt)) g) None]]"
      "qs = [[merged_source (map snd seeds) fb, with_children ts (InnerSource ts)]]"
      using assms(1) False sn
      by (auto simp: eliminate_direct_left_rec_def Let_def defs fb_def ts_def split: if_splits prod.splits)
    have "mirrors_alts (p_alts q) qs"
      unfolding g ts_def using merged_mirrors [OF sm] merged_mirrors [OF tm] by (simp add: with_children_def)
    then show ?thesis using that(2) g(1) s t False sn by (metis map_is_Nil_conv)
  qed
qed

lemma direct_keeps:
  assumes "eliminate_direct_left_rec p ss debts = Inr ((q, qs), debts')" and "mirrors_alts (p_alts p) ss"
  shows "p_name q = p_name p" and "mirrors_alts (p_alts q) qs"
    and "L (p_name p) = alang T L (p_alts q) \<Longrightarrow> alang T L (p_alts p) \<subseteq> L (p_name p)"
    and "alang T L (p_alts p) \<subseteq> L (p_name p) \<Longrightarrow> alang T L (p_alts q) \<subseteq> L (p_name p)"
proof -
  let ?X = "L (p_name p)" and ?S = "alang T L (seeds_of p)" and ?R = "alang T L (tails_of p)"
  show "p_name q = p_name p" "mirrors_alts (p_alts q) qs" by (rule direct_cases [OF assms]; simp)+
  have le: "alang T L (p_alts p) \<subseteq> ?X \<longleftrightarrow> ?S \<subseteq> ?X \<and> conc ?X ?R \<subseteq> ?X"
    using conc_with_Nil [OF tails_lang, of ?X T L p] alts_split [of T L p] by simp
  show "?X = alang T L (p_alts q) \<Longrightarrow> alang T L (p_alts p) \<subseteq> ?X"
  proof (cases rule: direct_cases [OF assms])
    case 1
    assume "?X = alang T L (p_alts q)"
    then show ?thesis unfolding le using 1 by simp
  next
    case (2 g)
    assume "?X = alang T L (p_alts q)"
    then have X: "?X = conc ?S (lstar ?R)" using 2 by (simp add: merged_lang)
    have "?S \<subseteq> ?X" unfolding X using conc_mono [OF order_refl, of "{[]}" "lstar ?R" ?S] by simp
    moreover have "conc (lstar ?R) ?R \<subseteq> lstar ?R"
    proof -
      have "conc (lpow n ?R) ?R \<subseteq> lstar ?R" for n
      proof -
        have "conc (lpow n ?R) ?R = lpow (Suc n) ?R" using lpow_add [of n 1 ?R] by simp
        then show ?thesis unfolding lstar_def by (metis UN_upper UNIV_I)
      qed
      then show ?thesis by (auto simp: lstar_def conc_UN)
    qed
    then have "conc ?X ?R \<subseteq> ?X" unfolding X conc_assoc by (rule conc_mono [OF order_refl])
    ultimately show ?thesis unfolding le by simp
  qed
  show "alang T L (p_alts p) \<subseteq> ?X \<Longrightarrow> alang T L (p_alts q) \<subseteq> ?X"
  proof (cases rule: direct_cases [OF assms])
    case 1
    assume "alang T L (p_alts p) \<subseteq> ?X"
    then show ?thesis using 1 unfolding le by simp
  next
    case (2 g)
    assume "alang T L (p_alts p) \<subseteq> ?X"
    then have "conc ?S (lstar ?R) \<subseteq> ?X" unfolding le by (intro lstar_least_seed) auto
    then show ?thesis using 2 by (simp add: merged_lang)
  qed
qed

section \<open>One rule of a grammar rewritten\<close>

lemma names_update: "i < length ps \<Longrightarrow> p_name q = p_name (ps ! i) \<Longrightarrow> names (ps[i := q]) = names ps"
  by (metis list_update_id map_update)

lemma glang_update:
  assumes "distinct (names ps)" and "i < length ps" and "p_name q = p_name (ps ! i)"
    and fw: "\<And>L. solves T L ps \<Longrightarrow> alang T L (p_alts q) \<subseteq> L (p_name (ps ! i))"
    and bk: "\<And>L. solves T L (ps[i := q]) \<Longrightarrow> alang T L (p_alts (ps ! i)) \<subseteq> L (p_name (ps ! i))"
  shows "glang T (ps[i := q]) = glang T ps"
proof (rule glang_swap)
  show "distinct (names ps)" "distinct (names (ps[i := q]))" using assms(1) names_update [OF assms(2,3)] by simp_all
  show "models T L (ps[i := q])" if "solves T L ps" for L
    unfolding models_def
  proof
    fix p assume "p \<in> set (ps[i := q])"
    then consider "p = q" | "p \<in> set ps" using set_update_subset_insert [of ps i q] by blast
    then show "alang T L (p_alts p) \<subseteq> L (p_name p)"
      using fw [OF that] assms(3) solves_models [OF that] by cases (auto simp: models_def)
  qed
  show "models T L ps" if "solves T L (ps[i := q])" for L
    unfolding models_def
  proof
    fix p assume "p \<in> set ps"
    then obtain j where j: "j < length ps" "p = ps ! j" by (auto simp: in_set_conv_nth)
    show "alang T L (p_alts p) \<subseteq> L (p_name p)"
    proof (cases "j = i")
      case True
      then show ?thesis using bk [OF that] j by simp
    next
      case False
      then have "p \<in> set (ps[i := q])" using j by (metis length_list_update nth_list_update_neq nth_mem)
      then show ?thesis using solves_models [OF that] by (auto simp: models_def)
    qed
  qed
qed

lemma mirror_update:
  assumes "sources_mirror ps srcs" and "distinct (names ps)" and "i < length ps" and "p_name q = p_name (ps ! i)"
    and "mirrors_alts (p_alts q) ss"
  shows "sources_mirror (ps[i := q]) (imap_insert (p_name (ps ! i)) ss srcs)"
  unfolding sources_mirror_def
proof
  fix p assume "p \<in> set (ps[i := q])"
  then obtain j where j: "j < length ps" "p = ps[i := q] ! j" by (auto simp: in_set_conv_nth)
  show "mirrors_alts (p_alts p) (sources_of (imap_insert (p_name (ps ! i)) ss srcs) (p_name p))"
  proof (cases "j = i")
    case True
    then show ?thesis using assms j by (simp add: sources_of_def imap_get_or_def)
  next
    case False
    then have "p_name (ps ! j) \<noteq> p_name (ps ! i)"
      using assms(2,3) j by (simp add: distinct_conv_nth)
    then show ?thesis using assms(1) j False by (simp add: sources_of_def imap_get_or_def sources_mirror_def)
  qed
qed

text \<open>
  A kept rule is a token class: it holds no reference, and the set the emitter mints under its
  name matches what its alternatives do.
\<close>

definition token_classes :: "'a terminals \<Rightarrow> string list \<Rightarrow> production list \<Rightarrow> bool" where
  "token_classes T keep ps \<longleftrightarrow>
     (\<forall>p\<in>set ps. p_name p \<in> set keep \<longrightarrow>
        alts_refs (p_alts p) = {} \<and> alang T (\<lambda>_. {}) (p_alts p) = T (Token (''#'' @ p_name p)))"

lemma token_class_lang:
  assumes "token_classes T keep ps" and "p \<in> set ps" and "p_name p \<in> set keep"
  shows "alang T L (p_alts p) = T (Token (''#'' @ p_name p))"
  using assms alang_cong [of "p_alts p" L "\<lambda>_. {}" T] by (auto simp: token_classes_def)

lemma no_refs_not_led: "alts_refs (p_alts p) = {} \<Longrightarrow> alt \<in> set (p_alts p) \<Longrightarrow> \<not> led_by q alt"
proof
  assume r: "alts_refs (p_alts p) = {}" "alt \<in> set (p_alts p)" and "led_by q alt"
  from \<open>led_by q alt\<close> obtain el rest where alt: "alt = el # rest" "is_ref_to el (p_name q)" by (rule led_byE)
  then have "p_name q \<in> el_refs el" by (cases el) (auto simp: is_ref_to_iff)
  then show False using r alt(1) by auto
qed

definition paull_inv :: "'a terminals \<Rightarrow> string list \<Rightarrow> production list \<Rightarrow> paull \<Rightarrow> bool" where
  "paull_inv T keep ps st \<longleftrightarrow>
     names (pl_prods st) = names ps \<and> glang T (pl_prods st) = glang T ps \<and>
     sources_mirror (pl_prods st) (pl_sources st) \<and> token_classes T keep (pl_prods st)"

lemma paull_inv_update:
  assumes inv: "paull_inv T keep ps st" and d: "distinct (names ps)" and i: "i < length (pl_prods st)"
    and q: "p_name q = p_name (pl_prods st ! i)" "mirrors_alts (p_alts q) ss"
    and cl: "p_name q \<in> set keep \<Longrightarrow> p_alts q = p_alts (pl_prods st ! i)"
    and fw: "\<And>L. solves T L (pl_prods st) \<Longrightarrow> alang T L (p_alts q) \<subseteq> L (p_name (pl_prods st ! i))"
    and bk: "\<And>L. solves T L ((pl_prods st)[i := q]) \<Longrightarrow> alang T L (p_alts (pl_prods st ! i)) \<subseteq> L (p_name (pl_prods st ! i))"
    and st': "pl_prods st' = (pl_prods st)[i := q]" "pl_sources st' = imap_insert (p_name (pl_prods st ! i)) ss (pl_sources st)"
  shows "paull_inv T keep ps st'"
proof -
  have dn: "distinct (names (pl_prods st))" using inv d by (simp add: paull_inv_def)
  have "names (pl_prods st') = names ps" using names_update [OF i q(1)] inv by (simp add: st' paull_inv_def)
  moreover have "glang T (pl_prods st') = glang T ps"
    using glang_update [OF dn i q(1) fw bk] inv by (simp add: st' paull_inv_def)
  moreover have "sources_mirror (pl_prods st') (pl_sources st')"
    unfolding st' by (rule mirror_update [OF _ dn i q]) (use inv in \<open>simp add: paull_inv_def\<close>)
  moreover have "token_classes T keep (pl_prods st')"
    unfolding token_classes_def
  proof (intro ballI impI)
    fix p assume "p \<in> set (pl_prods st')" and k: "p_name p \<in> set keep"
    then consider "p = q" | "p \<in> set (pl_prods st)" unfolding st' using set_update_subset_insert by fast
    then show "alts_refs (p_alts p) = {} \<and> alang T (\<lambda>_. {}) (p_alts p) = T (Token (''#'' @ p_name p))"
    proof cases
      case 1
      then show ?thesis
        using cl k q(1) inv nth_mem [OF i] by (fastforce simp: paull_inv_def token_classes_def)
    next
      case 2
      then show ?thesis using k inv by (simp add: paull_inv_def token_classes_def)
    qed
  qed
  ultimately show ?thesis by (simp add: paull_inv_def)
qed

lemma has_leading_iff: "has_leading_ref_to p (p_name source) \<longleftrightarrow> (\<exists>alt\<in>set (p_alts p). led_by source alt)"
  by (auto simp: has_leading_ref_to_def led_by_def list_ex_iff)

lemma paull_step_inv:
  assumes step: "paull_step keep i st j = Inr st'" and inv: "paull_inv T keep ps st" and d: "distinct (names ps)"
    and ij: "i < length (pl_prods st)" "j < i"
  shows "paull_inv T keep ps st'"
proof (cases "has_leading_ref_to (pl_prods st ! i) (p_name (pl_prods st ! j))")
  case False
  then show ?thesis using step inv by (simp add: paull_step_def Let_def)
next
  case True
  let ?t = "pl_prods st ! i" and ?s = "pl_prods st ! j"
  let ?ts = "sources_of (pl_sources st) (p_name ?t)" and ?ss = "sources_of (pl_sources st) (p_name ?s)"
  have mem: "?t \<in> set (pl_prods st)" "?s \<in> set (pl_prods st)" using ij by auto
  have m: "mirrors_alts (p_alts ?t) ?ts" "mirrors_alts (p_alts ?s) ?ss"
    using inv mem by (simp_all add: paull_inv_def sources_mirror_def)
  have cl: "p_name ?t \<notin> set keep"
  proof
    assume "p_name ?t \<in> set keep"
    then have "alts_refs (p_alts ?t) = {}" using inv mem by (simp add: paull_inv_def token_classes_def)
    then show False using True no_refs_not_led [of ?t] by (auto simp: has_leading_iff)
  qed
  have old: "alang T L (p_alts ?t) = L (p_name ?t)" if "solves T L (pl_prods st)" for L
    using that mem by (auto simp: solves_def)
  have new: "L (p_name ?t) = alang T L (p_alts q)" if "solves T L ((pl_prods st)[i := q])" "p_name q = p_name ?t" for L q
    using that set_update_memI [OF ij(1), of q] by (auto simp: solves_def)
  have src: "L (p_name ?s) = alang T L (p_alts ?s)"
    if "solves T L (pl_prods st) \<or> solves T L ((pl_prods st)[i := q])" for L q
  proof -
    have "?s \<in> set ((pl_prods st)[i := q])" using ij by (metis length_list_update less_trans nat_neq_iff nth_list_update_neq nth_mem)
    with that mem show ?thesis by (auto simp: solves_def)
  qed
  have finish: "paull_inv T keep ps st'"
    if q: "pl_prods st' = (pl_prods st)[i := q]" "pl_sources st' = imap_insert (p_name ?t) ss (pl_sources st)"
      "p_name q = p_name ?t" "mirrors_alts (p_alts q) ss"
      and eq: "\<And>L. solves T L (pl_prods st) \<or> solves T L ((pl_prods st)[i := q]) \<Longrightarrow> alang T L (p_alts q) = alang T L (p_alts ?t)"
    for q ss
  proof (rule paull_inv_update [OF inv d ij(1) q(3,4) _ _ _ q(1,2)])
    show "p_name q \<in> set keep \<Longrightarrow> p_alts q = p_alts ?t" using cl q(3) by simp
    show "alang T L (p_alts q) \<subseteq> L (p_name ?t)" if "solves T L (pl_prods st)" for L
      using eq [of L] old [OF that] that by simp
    show "alang T L (p_alts ?t) \<subseteq> L (p_name ?t)" if "solves T L ((pl_prods st)[i := q])" for L
      using eq [of L] new [OF that q(3)] that by simp
  qed
  show ?thesis
  proof (cases "p_name ?s \<in> set keep")
    case True
    define r where "r = substitute_leading_ref_by_token ?t ?ts (p_name ?s)"
    have st': "pl_prods st' = (pl_prods st)[i := fst r]" "pl_sources st' = imap_insert (p_name ?t) (snd r) (pl_sources st)"
      using step True \<open>has_leading_ref_to ?t (p_name ?s)\<close> by (auto simp: paull_step_def Let_def r_def)
    have n: "p_name (fst r) = p_name ?t" by (simp add: r_def substitute_leading_ref_by_token_def Let_def)
    have tok: "alang T L (p_alts (fst r)) = alang T L (p_alts ?t)"
      if "solves T L (pl_prods st) \<or> solves T L ((pl_prods st)[i := fst r])" for L
      unfolding r_def
    proof (rule by_token_keeps(1) [OF m(1)])
      have "alang T L (p_alts ?s) = T (Token (''#'' @ p_name ?s))"
        by (rule token_class_lang [OF _ mem(2) True]) (use inv in \<open>simp add: paull_inv_def\<close>)
      then show "T (Token (''#'' @ p_name ?s)) = L (p_name ?s)" using src [OF that] by simp
    qed
    show ?thesis by (rule finish [OF st' n _ tok]) (simp_all add: r_def by_token_keeps(2) [OF m(1)])
  next
    case False
    define r where "r = substitute_leading_ref ?t ?ts ?s ?ss"
    have st': "pl_prods st' = (pl_prods st)[i := fst r]" "pl_sources st' = imap_insert (p_name ?t) (snd r) (pl_sources st)"
      using step False \<open>has_leading_ref_to ?t (p_name ?s)\<close> by (auto simp: paull_step_def Let_def r_def res_bind_Inr_iff)
    have n: "p_name (fst r) = p_name ?t" by (simp add: r_def substitute_leading_ref_def Let_def)
    have sub: "alang T L (p_alts (fst r)) = alang T L (p_alts ?t)"
      if "solves T L (pl_prods st) \<or> solves T L ((pl_prods st)[i := fst r])" for L
      unfolding r_def by (rule substitute_keeps [OF src [OF that] m])
    show ?thesis by (rule finish [OF st' n _ sub]) (simp_all add: r_def substitute_mirrors [OF m])
  qed
qed

lemma paull_inv_length: "paull_inv T keep ps st \<Longrightarrow> length (pl_prods st) = length ps"
  unfolding paull_inv_def by (metis length_map)

lemma paull_inv_counters [simp]:
  "paull_inv T keep ps (st\<lparr>pl_changed := c\<rparr>) = paull_inv T keep ps st"
  "paull_inv T keep ps (st\<lparr>pl_gained := n\<rparr>) = paull_inv T keep ps st"
  by (simp_all add: paull_inv_def)

lemma paull_rounds_inv:
  assumes "paull_rounds keep i guard st = Inr st'" and "paull_inv T keep ps st" and "distinct (names ps)" and "i < length ps"
  shows "paull_inv T keep ps st'"
  using assms(1,2)
proof (induction guard arbitrary: st)
  case (Suc guard)
  obtain s1 where s1: "res_fold (paull_step keep i) (st\<lparr>pl_changed := False\<rparr>) [0..<i] = Inr s1"
    "(if pl_changed s1 then paull_rounds keep i guard s1 else Inr s1) = Inr st'"
    using Suc.prems(1) by (auto simp: res_bind_Inr_iff)
  have "paull_inv T keep ps (st\<lparr>pl_changed := False\<rparr>)" using Suc.prems(2) by simp
  then have "paull_inv T keep ps s1"
  proof (rule res_fold_invariant [OF s1(1)])
    show "paull_inv T keep ps b" if "j \<in> set [0..<i]" "paull_inv T keep ps a" "paull_step keep i a j = Inr b" for a j b
      by (rule paull_step_inv [OF that(3,2) assms(3)]) (use that(1) assms(4) paull_inv_length [OF that(2)] in simp_all)
  qed
  then show ?case using Suc.IH s1(2) by (auto split: if_splits)
qed simp

lemma paull_rule_inv:
  assumes "paull_rule keep cyclic st i = Inr st'" and inv: "paull_inv T keep ps st" and d: "distinct (names ps)" and i: "i < length ps"
  shows "paull_inv T keep ps st'"
proof -
  obtain s1 where s1: "(if exempt_alias (pl_prods st ! i) cyclic then Inr st
        else paull_rounds keep i (length (pl_prods st) + 1) (st\<lparr>pl_gained := 0\<rparr>)) = Inr s1"
    and e: "res_bind (eliminate_direct_left_rec (pl_prods s1 ! i) (sources_of (pl_sources s1) (p_name (pl_prods s1 ! i))) (pl_debts s1))
          (\<lambda>((next, ns), debts). Inr (s1\<lparr>pl_prods := (pl_prods s1)[i := next],
             pl_sources := imap_insert (p_name (pl_prods s1 ! i)) ns (pl_sources s1), pl_debts := debts\<rparr>)) = Inr st'"
    using assms(1) unfolding paull_rule_def res_bind_Inr_iff Let_def by blast
  have inv1: "paull_inv T keep ps s1"
  proof (cases "exempt_alias (pl_prods st ! i) cyclic")
    case True
    then show ?thesis using s1 inv by simp
  next
    case False
    then have "paull_rounds keep i (length (pl_prods st) + 1) (st\<lparr>pl_gained := 0\<rparr>) = Inr s1" using s1 by simp
    then show ?thesis by (rule paull_rounds_inv [OF _ _ d i]) (simp add: inv)
  qed
  let ?p = "pl_prods s1 ! i" and ?ss = "sources_of (pl_sources s1) (p_name (pl_prods s1 ! i))"
  have li: "i < length (pl_prods s1)" using paull_inv_length [OF inv1] i by simp
  then have mem: "?p \<in> set (pl_prods s1)" by simp
  have m: "mirrors_alts (p_alts ?p) ?ss" using inv1 mem by (simp add: paull_inv_def sources_mirror_def)
  obtain q qs debts where q: "eliminate_direct_left_rec ?p ?ss (pl_debts s1) = Inr ((q, qs), debts)"
    and st': "st' = s1\<lparr>pl_prods := (pl_prods s1)[i := q], pl_sources := imap_insert (p_name ?p) qs (pl_sources s1), pl_debts := debts\<rparr>"
    using e by (auto simp: res_bind_Inr_iff)
  note k = direct_keeps [OF q m]
  have mem': "q \<in> set ((pl_prods s1)[i := q])" by (rule set_update_memI [OF li])
  show ?thesis
  proof (rule paull_inv_update [OF inv1 d li k(1,2)])
    show "p_alts q = p_alts ?p" if "p_name q \<in> set keep"
    proof -
      have "alts_refs (p_alts ?p) = {}" using that k(1) inv1 mem by (simp add: paull_inv_def token_classes_def)
      then have "seeds_of ?p = p_alts ?p" "filter (led_by ?p) (p_alts ?p) = []"
        using no_refs_not_led [of ?p] by (auto simp: seeds_of_def filter_id_conv filter_empty_conv)
      then have "tails_of ?p = []" by (simp add: tails_of_def)
      with \<open>seeds_of ?p = p_alts ?p\<close> show ?thesis by (cases rule: direct_cases [OF q m]) simp_all
    qed
    show "alang T L (p_alts q) \<subseteq> L (p_name ?p)" if "solves T L (pl_prods s1)" for L
      by (rule k(4)) (use that mem in \<open>simp add: solves_def\<close>)
    show "alang T L (p_alts ?p) \<subseteq> L (p_name ?p)" if "solves T L ((pl_prods s1)[i := q])" for L
      by (rule k(3)) (use that mem' k(1) in \<open>auto simp: solves_def\<close>)
  qed (simp_all add: st')
qed

section \<open>The whole pass\<close>

lemma take_slots_set:
  assumes "distinct (map fst slots)" and "\<And>n p. (n, p) \<in> set slots \<Longrightarrow> p_name p = n"
  shows "set (take_slots ns slots) = snd ` set slots"
  using assms
proof (induction ns arbitrary: slots)
  case (Cons n ns)
  show ?case
  proof (cases "map_of slots n")
    case None
    then show ?thesis using Cons by simp
  next
    case (Some p)
    have "distinct (map fst (imap_remove n slots))" using Cons.prems(1) by (simp add: imap_remove_def distinct_map_filter)
    moreover have "p_name q = m" if "(m, q) \<in> set (imap_remove n slots)" for m q
      using that Cons.prems(2) by (auto simp: set_imap_remove)
    ultimately have "set (take_slots ns (imap_remove n slots)) = snd ` set (imap_remove n slots)"
      by (rule Cons.IH)
    moreover have "(n, q) \<in> set slots \<longleftrightarrow> q = p" for q
      using map_of_eq_Some_iff [OF Cons.prems(1), of n q] unfolding Some by auto
    then have "snd ` set slots = insert p (snd ` set (imap_remove n slots))"
      by (force simp: set_imap_remove image_iff)
    ultimately show ?thesis using Some by simp
  qed
qed simp

lemma mirrors_authored_alts: "mirrors_alts alts (map (map (authored_source p)) alts)"
  by (simp add: list_all2_map2 list_all2_same mirrors_authored)

lemma authored_sources_of:
  assumes "distinct (names ps)" and "p \<in> set ps"
  shows "sources_of (authored_sources ps) (p_name p) = map (map (authored_source p)) (p_alts p)"
proof -
  have other: "sources_of (foldl (\<lambda>m p. imap_insert (p_name p) (map (map (authored_source p)) (p_alts p)) m) m qs) n = sources_of m n"
    if "n \<notin> set (names qs)" for m qs n
    using that by (induction qs arbitrary: m) (auto simp: sources_of_def imap_get_or_def)
  have "sources_of (foldl (\<lambda>m p. imap_insert (p_name p) (map (map (authored_source p)) (p_alts p)) m) m ps) (p_name p) =
      map (map (authored_source p)) (p_alts p)" for m
    using assms
  proof (induction ps arbitrary: m)
    case (Cons q qs)
    show ?case
    proof (cases "p = q")
      case True
      then show ?thesis using other [of "p_name p" qs] Cons.prems(1) by (simp add: sources_of_def imap_get_or_def)
    next
      case False
      then show ?thesis using Cons by simp
    qed
  qed simp
  then show ?thesis by (simp add: authored_sources_def)
qed

lemma take_slots_names:
  assumes "distinct ns" and "set ns = fst ` set slots" and "distinct (map fst slots)"
    and "\<And>n p. (n, p) \<in> set slots \<Longrightarrow> p_name p = n"
  shows "names (take_slots ns slots) = ns"
  using assms
proof (induction ns arbitrary: slots)
  case (Cons n ns)
  obtain p where p: "map_of slots n = Some p" using Cons.prems(2) by (cases "map_of slots n") (auto simp: map_of_eq_None_iff)
  have "names (take_slots ns (imap_remove n slots)) = ns"
  proof (rule Cons.IH)
    show "set ns = fst ` set (imap_remove n slots)"
      using Cons.prems(1,2) by (force simp: set_imap_remove)
    show "distinct (map fst (imap_remove n slots))" using Cons.prems(3) by (simp add: imap_remove_def distinct_map_filter)
    show "p_name q = m" if "(m, q) \<in> set (imap_remove n slots)" for m q
      using that Cons.prems(4) by (auto simp: set_imap_remove)
  qed (use Cons.prems(1) in simp)
  then show ?case using p Cons.prems(4) [OF map_of_SomeD [OF p]] by simp
qed simp

lemma index_prods_keys: "distinct (names ps) \<Longrightarrow> map fst (index_prods ps) = names ps"
  by (simp add: index_prods_distinct comp_def)

definition expanded :: "grammar \<Rightarrow> (emit_error, production list \<times> rewrite_sources \<times> nat) result" where
  "expanded g =
     expand_nullable_left_prefixes (map (\<lambda>p. rebuilt p (p_alts p)) (productions g)) (authored_sources (productions g)) 0"

lemma expanded_rules:
  assumes "expanded g = Inr (out, srcs, added)" and "distinct (names (productions g))"
  shows "list_all2 (same_rule T) (map (\<lambda>p. rebuilt p (p_alts p)) (productions g)) out" and "sources_mirror out srcs"
proof -
  let ?qs = "map (\<lambda>p. rebuilt p (p_alts p)) (productions g)"
  have d: "distinct (names ([] @ ?qs))" using assms(2) by (simp add: comp_def)
  have e: "res_fold expand_prod ([], authored_sources (productions g), 0) ?qs = Inr (out, srcs, added)"
    using assms(1) by (simp add: expanded_def expand_nullable_left_prefixes_def)
  have src: "mirrors_alts (p_alts p) (sources_of (authored_sources (productions g)) (p_name p))" if "p \<in> set ?qs" for p
    using that by (auto simp: authored_sources_of [OF assms(2)] mirrors_authored_alts)
  show "list_all2 (same_rule T) ?qs out" "sources_mirror out srcs"
    using expand_keeps [OF e src _ d, of T] by (auto simp: sources_mirror_def)
qed

lemma expanded_keeps:
  assumes "expanded g = Inr (out, srcs, added)" and "distinct (names (productions g))"
  shows "names out = names (productions g)" and "glang T out = glang T (productions g)" and "sources_mirror out srcs"
    and "token_classes T keep (productions g) \<Longrightarrow> token_classes T keep out"
proof -
  let ?qs = "map (\<lambda>p. rebuilt p (p_alts p)) (productions g)"
  have d: "distinct (names ([] @ ?qs))" using assms(2) by (simp add: comp_def)
  note k = expanded_rules [OF assms]
  show n: "names out = names (productions g)" using same_rules_names [OF k(1)] by (simp add: comp_def)
  show "sources_mirror out srcs" by (rule k(2))
  have "glang T out = glang T ?qs"
  proof (rule glang_swap)
    show "models T L out" if "solves T L ?qs" for L
      using that same_rules_solves [OF k(1), of T L] by (simp add: solves_models)
    show "models T L ?qs" if "solves T L out" for L
      using that same_rules_solves [OF k(1), of T L] by (simp add: solves_models)
  qed (use d n assms(2) in simp_all)
  also have "\<dots> = glang T (productions g)" by (rule glang_cong) (simp add: comp_def)
  finally show "glang T out = glang T (productions g)" .
  show "token_classes T keep out" if t: "token_classes T keep (productions g)"
    unfolding token_classes_def
  proof (intro ballI impI)
    fix p assume "p \<in> set out" and kp: "p_name p \<in> set keep"
    then obtain q where "q \<in> set ?qs" "same_rule T q p"
      using k(1) [of T] by (metis in_set_conv_nth list_all2_conv_all_nth)
    then obtain r where r: "r \<in> set (productions g)" "same_rule T (rebuilt r (p_alts r)) p" by auto
    then show "alts_refs (p_alts p) = {} \<and> alang T (\<lambda>_. {}) (p_alts p) = T (Token (''#'' @ p_name p))"
      using t kp by (auto simp: same_rule_def token_classes_def)
  qed
qed

text \<open>What the loop over the rules starts from, and what it ends with.\<close>

definition paull_start :: "production list \<Rightarrow> rewrite_sources \<Rightarrow> nat \<Rightarrow> paull" where
  "paull_start prods srcs added =
     \<lparr>pl_prods = prods, pl_sources = srcs, pl_debts = [], pl_added = added, pl_gained = 0, pl_changed = False\<rparr>"

lemma eliminate_parts:
  assumes "eliminate_left_recursion_keeping g keep = Inr (g', srcs')"
  obtains out srcs added st where "expanded g = Inr (out, srcs, added)"
    and "res_fold (paull_rule keep (find_leading_ref_cycle_members (topo_order_for_paull out)))
           (paull_start (topo_order_for_paull out) srcs added) [0..<length (topo_order_for_paull out)] = Inr st"
    and "g' = grammar_new (take_slots (names (productions g)) (index_prods (pl_prods st)))" and "srcs' = pl_sources st"
  using assms
  by (auto simp: eliminate_left_recursion_keeping_def expanded_def [symmetric] paull_start_def [symmetric] res_bind_Inr_iff Let_def)

lemma start_inv:
  assumes "expanded g = Inr (out, srcs, added)" and "distinct (names (productions g))" and "token_classes T keep (productions g)"
  shows "paull_inv T keep (topo_order_for_paull out) (paull_start (topo_order_for_paull out) srcs added)"
    and "distinct (names (topo_order_for_paull out))" and "set (topo_order_for_paull out) = set out"
proof -
  note e = expanded_keeps [OF assms(1,2)]
  have d: "distinct (names out)" using e(1) assms(2) by simp
  note o' = topo_order_perm [OF d]
  show "distinct (names (topo_order_for_paull out))" "set (topo_order_for_paull out) = set out" by (rule o')+
  show "paull_inv T keep (topo_order_for_paull out) (paull_start (topo_order_for_paull out) srcs added)"
    using e(3) e(4) [OF assms(3)] by (simp add: paull_inv_def paull_start_def sources_mirror_def token_classes_def o'(1))
qed

lemma eliminate_keeps:
  assumes "eliminate_left_recursion_keeping g keep = Inr (g', srcs')" and "distinct (names (productions g))"
    and "token_classes T keep (productions g)"
  shows "glang T (productions g') = glang T (productions g)" and "names (productions g') = names (productions g)"
    and "sources_mirror (productions g') srcs'"
proof -
  obtain out srcs added st where e: "expanded g = Inr (out, srcs, added)"
    and f: "res_fold (paull_rule keep (find_leading_ref_cycle_members (topo_order_for_paull out)))
           (paull_start (topo_order_for_paull out) srcs added) [0..<length (topo_order_for_paull out)] = Inr st"
    and g': "g' = grammar_new (take_slots (names (productions g)) (index_prods (pl_prods st)))" and srcs': "srcs' = pl_sources st"
    by (rule eliminate_parts [OF assms(1)])
  note s = start_inv [OF e assms(2,3)] and k = expanded_keeps [OF e assms(2)]
  let ?prods = "topo_order_for_paull out"
  have inv: "paull_inv T keep ?prods st"
  proof (rule res_fold_invariant [OF f, where P = "paull_inv T keep ?prods"])
    show "paull_inv T keep ?prods b"
      if "i \<in> set [0..<length ?prods]" "paull_inv T keep ?prods a"
        "paull_rule keep (find_leading_ref_cycle_members ?prods) a i = Inr b" for a i b
      using paull_rule_inv [OF that(3,2) s(2)] that(1) by simp
  qed (rule s(1))
  have dn: "distinct (names (pl_prods st))" using inv s(2) by (simp add: paull_inv_def)
  have slots: "distinct (map fst (index_prods (pl_prods st)))" using dn by (simp add: index_prods_keys)
  have own: "p_name p = n" if "(n, p) \<in> set (index_prods (pl_prods st))" for n p
    using that by (auto simp: index_prods_distinct [OF dn])
  have set': "set (productions g') = set (pl_prods st)"
    using take_slots_set [OF slots own, of "names (productions g)"]
    by (auto simp: g' grammar_new_def index_prods_distinct [OF dn] image_image)
  have "glang T (productions g') = glang T ?prods" unfolding glang_set_eq [OF set'] using inv by (simp add: paull_inv_def)
  also have "\<dots> = glang T (productions g)" unfolding glang_set_eq [OF s(3)] by (rule k(2))
  finally show "glang T (productions g') = glang T (productions g)" .
  have "set (names (productions g)) = set (names (pl_prods st))"
    using inv s(3) k(1) by (simp add: paull_inv_def) (metis set_map)
  then have "set (names (productions g)) = fst ` set (index_prods (pl_prods st))"
    using index_prods_keys [OF dn] by (metis set_map)
  then show "names (productions g') = names (productions g)"
    using take_slots_names [OF assms(2) _ slots own] by (simp add: g' grammar_new_def)
  show "sources_mirror (productions g') srcs'"
    using inv by (simp add: paull_inv_def sources_mirror_def set' srcs')
qed

end
