(* ===== verification/Left_Recursion_Free.thy ===== *)
theory Left_Recursion_Free
  imports Left_Recursion_Language
begin

text \<open>
  What Paull's pass establishes: the references that alternatives begin with make no cycle. The
  rounds over a rule suffice because every round leaves fewer exempt aliases to be followed; the
  exempt aliases themselves are on no cycle, which is what the cycle scan is for.
\<close>

section \<open>The rules that alternatives begin with\<close>

definition lead_names :: "production \<Rightarrow> string set" where
  "lead_names p = {n. \<exists>alt\<in>set (p_alts p). alt \<noteq> [] \<and> ref_name (hd alt) = Some n}"

lemma is_ref_to_name: "is_ref_to el n \<longleftrightarrow> ref_name el = Some n"
  by (auto simp: is_ref_to_def ref_name_def split: kind.splits)

lemma led_by_name: "led_by p alt \<longleftrightarrow> alt \<noteq> [] \<and> ref_name (hd alt) = Some (p_name p)"
  by (cases alt) (auto simp: led_by_def is_ref_to_name)

lemma has_leading_name: "has_leading_ref_to p n \<longleftrightarrow> n \<in> lead_names p"
proof -
  have "(case alt of el # _ \<Rightarrow> is_ref_to el n | [] \<Rightarrow> False) \<longleftrightarrow> alt \<noteq> [] \<and> ref_name (hd alt) = Some n" for alt
    by (cases alt) (auto simp: is_ref_to_name)
  then show ?thesis by (simp add: has_leading_ref_to_def list_ex_iff lead_names_def)
qed

lemma set_map_filter: "y \<in> set (List.map_filter f xs) \<longleftrightarrow> (\<exists>x\<in>set xs. f x = Some y)"
  by (force simp: map_filter_def)

lemma leading_refs_names: "set (leading_refs by_name p) = {n \<in> lead_names p. indexed by_name n}"
proof -
  have "(case alt of first # _ \<Rightarrow> ref_name first | [] \<Rightarrow> None) = Some n \<longleftrightarrow> alt \<noteq> [] \<and> ref_name (hd alt) = Some n" for alt n
    by (cases alt) auto
  then show ?thesis by (auto simp: leading_refs_def lead_names_def set_map_filter)
qed

lemma edges_lead:
  assumes "distinct (names ps)" and "p \<in> set ps"
  shows "(p_name p, n) \<in> edges (index_prods ps) \<longleftrightarrow> n \<in> lead_names p \<and> n \<in> set (names ps)"
proof -
  have "map_of (index_prods ps) (p_name p) = Some p" using assms by (simp add: index_prods_Some)
  then show ?thesis by (simp add: edges_def targets_of_def leading_refs_names indexed_iff [OF assms(1)])
qed

lemma substitute_leads:
  assumes "nonempty_alts (p_alts s)"
  shows "lead_names (fst (substitute_leading_ref t ts s ss)) \<subseteq> (lead_names t - {p_name s}) \<union> lead_names s"
    and "nonempty_alts (p_alts t) \<Longrightarrow> nonempty_alts (p_alts (fst (substitute_leading_ref t ts s ss)))"
proof -
  let ?q = "fst (substitute_leading_ref t ts s ss)"
  have cases: "(\<exists>a\<in>set (p_alts s). \<exists>b. alt = a @ b) \<or> (alt \<in> set (p_alts t) \<and> \<not> led_by s alt)" if m: "alt \<in> set (p_alts ?q)" for alt
  proof -
    obtain a b where ab: "(a, b) \<in> set (zip (p_alts t) ts)" "alt \<in> fst ` set (substitute_alt s ss (a, b))"
      using m by (auto simp: substitute_leading_ref_def Let_def)
    show ?thesis
    proof (cases "led_by s a")
      case True
      then obtain c d where "(c, d) \<in> set (zip (p_alts s) ss)" "alt = c @ tl a" using ab(2) by (auto simp: substitute_alt_def)
      then show ?thesis by (blast dest: set_zip_leftD)
    next
      case False
      then show ?thesis using ab by (auto simp: substitute_alt_def dest: set_zip_leftD)
    qed
  qed
  have ne: "a \<noteq> []" if "a \<in> set (p_alts s)" for a using assms that by (auto simp: nonempty_alts_def)
  show "lead_names ?q \<subseteq> (lead_names t - {p_name s}) \<union> lead_names s"
  proof
    fix n assume "n \<in> lead_names ?q"
    then obtain alt where alt: "alt \<in> set (p_alts ?q)" "alt \<noteq> []" "ref_name (hd alt) = Some n" by (auto simp: lead_names_def)
    from cases [OF alt(1)] show "n \<in> (lead_names t - {p_name s}) \<union> lead_names s"
    proof
      assume "\<exists>a\<in>set (p_alts s). \<exists>b. alt = a @ b"
      then obtain a b where a: "a \<in> set (p_alts s)" "alt = a @ b" by blast
      then have "hd a = hd alt" using ne by simp
      then show ?thesis using a ne alt(3) by (auto simp: lead_names_def)
    next
      assume "alt \<in> set (p_alts t) \<and> \<not> led_by s alt"
      then show ?thesis using alt(2,3) by (auto simp: lead_names_def led_by_name)
    qed
  qed
  show "nonempty_alts (p_alts ?q)" if "nonempty_alts (p_alts t)"
    using that cases ne unfolding nonempty_alts_def by fastforce
qed

lemma by_token_leads:
  shows "lead_names (fst (substitute_leading_ref_by_token t ts c)) \<subseteq> lead_names t - {c}"
    and "nonempty_alts (p_alts t) \<Longrightarrow> nonempty_alts (p_alts (fst (substitute_leading_ref_by_token t ts c)))"
proof -
  let ?q = "fst (substitute_leading_ref_by_token t ts c)"
  have cases: "\<exists>a\<in>set (p_alts t). alt = token_alt c a" if "alt \<in> set (p_alts ?q)" for alt
    using that by (auto simp: substitute_leading_ref_by_token_def Let_def dest: set_zip_leftD)
  have tok: "ref_name (el_token x) = None" for x by (simp add: ref_name_def el_token_def el_of_def)
  show "lead_names ?q \<subseteq> lead_names t - {c}"
  proof
    fix n assume "n \<in> lead_names ?q"
    then obtain alt where alt: "alt \<in> set (p_alts ?q)" "alt \<noteq> []" "ref_name (hd alt) = Some n" by (auto simp: lead_names_def)
    then obtain a where a: "a \<in> set (p_alts t)" "alt = token_alt c a" using cases by blast
    show "n \<in> lead_names t - {c}"
    proof (cases a)
      case Nil
      then show ?thesis using a(2) alt(2) by (simp add: token_alt_def)
    next
      case (Cons el rest)
      then have "ref_name el = Some n" "n \<noteq> c" using a(2) alt(3) tok by (auto simp: token_alt_def is_ref_to_name split: if_splits)
      then show ?thesis using a(1) Cons by (auto simp: lead_names_def intro!: bexI [of _ a])
    qed
  qed
  show "nonempty_alts (p_alts ?q)" if "nonempty_alts (p_alts t)"
  proof -
    have "alt \<noteq> []" if a: "alt \<in> set (p_alts ?q)" for alt
    proof -
      obtain b where b: "b \<in> set (p_alts t)" "alt = token_alt c b" using cases [OF a] by blast
      then have "b \<noteq> []" using \<open>nonempty_alts (p_alts t)\<close> by (auto simp: nonempty_alts_def)
      then show ?thesis unfolding b(2) by (simp add: token_alt_def split: list.split)
    qed
    then show ?thesis by (auto simp: nonempty_alts_def)
  qed
qed

lemma direct_shape:
  assumes "eliminate_direct_left_rec p ss debts = Inr ((q, qs), debts')"
  obtains seeds where "set seeds \<subseteq> {alt \<in> set (p_alts p). \<not> led_by p alt}" and "q = rebuilt p seeds"
  | seeds star where "set seeds \<subseteq> {alt \<in> set (p_alts p). \<not> led_by p alt}" and "q = rebuilt p [[merged seeds, star]]" and "seeds \<noteq> []"
proof -
  define seeds where "seeds = filter (\<lambda>(alt, _). \<not> led_by p alt) (zip (p_alts p) ss)"
  have sub: "set (map fst seeds) \<subseteq> {alt \<in> set (p_alts p). \<not> led_by p alt}"
    by (auto simp: seeds_def dest: set_zip_leftD)
  show ?thesis
    using assms that(1) [OF sub] that(2) [OF sub]
    by (auto simp: eliminate_direct_left_rec_def Let_def seeds_def [symmetric] split: if_splits prod.splits)
qed

lemma direct_leads:
  assumes "eliminate_direct_left_rec p ss debts = Inr ((q, qs), debts')"
  shows "lead_names q \<subseteq> lead_names p - {p_name p}" and "nonempty_alts (p_alts p) \<Longrightarrow> nonempty_alts (p_alts q)"
    and "p_name q = p_name p"
proof -
  show "lead_names q \<subseteq> lead_names p - {p_name p}"
  proof (cases rule: direct_shape [OF assms])
    case (1 seeds)
    then show ?thesis by (auto simp: lead_names_def led_by_name)
  next
    case (2 seeds star)
    have m: "\<exists>alt\<in>set seeds. alt \<noteq> [] \<and> hd alt = merged seeds" if "ref_name (merged seeds) = Some n" for n
      using that 2(3) by (cases seeds) (auto simp: merged_def el_group_def el_of_def ref_name_def length_Suc_conv split: if_splits)
    show ?thesis
    proof
      fix n assume "n \<in> lead_names q"
      then have "ref_name (merged seeds) = Some n" by (simp add: 2(2) lead_names_def)
      moreover from m [OF this] obtain alt where "alt \<in> set seeds" "alt \<noteq> []" "hd alt = merged seeds" by blast
      ultimately show "n \<in> lead_names p - {p_name p}" using 2(1) by (auto simp: lead_names_def led_by_name)
    qed
  qed
  show "nonempty_alts (p_alts q)" if "nonempty_alts (p_alts p)"
    using that by (cases rule: direct_shape [OF assms]) (auto simp: nonempty_alts_def)
  show "p_name q = p_name p" by (cases rule: direct_shape [OF assms]) simp_all
qed

section \<open>How many aliases a rule leads to\<close>

abbreviation scan :: "production list \<Rightarrow> string list" where
  "scan ps \<equiv> find_leading_ref_cycle_members ps"

abbreviation lead_edges :: "production list \<Rightarrow> (string \<times> string) set" where
  "lead_edges ps \<equiv> edges (index_prods ps)"

definition aliases :: "production list \<Rightarrow> string set" where
  "aliases ps = p_name ` {p \<in> set ps. exempt_alias p (scan ps)}"

definition alias_depth :: "production list \<Rightarrow> string \<Rightarrow> nat" where
  "alias_depth ps n = card {c \<in> aliases ps. (n, c) \<in> (lead_edges ps)\<^sup>*}"

lemma finite_aliases [simp]: "finite {c \<in> aliases ps. P c}"
  by (simp add: aliases_def)

lemma exempt_alias_iff:
  "exempt_alias p cyclic \<longleftrightarrow>
   (\<exists>el n. p_alts p = [[el]] \<and> ref_name el = Some n \<and> p_name p \<notin> set cyclic \<and> n \<notin> set cyclic)"
  unfolding exempt_alias_def by (auto split: list.split option.split)

lemma alias_acyclic: "n \<in> aliases ps \<Longrightarrow> (n, n) \<notin> (lead_edges ps)\<^sup>+"
  using cycle_members_exact [of ps] by (auto simp: aliases_def exempt_alias_iff)

lemma alias_depth_bound: "alias_depth ps n \<le> length ps"
proof -
  have "card {c \<in> aliases ps. (n, c) \<in> (lead_edges ps)\<^sup>*} \<le> card (set (names ps))"
    by (rule card_mono) (auto simp: aliases_def)
  also have "\<dots> \<le> length ps" by (metis card_length length_map)
  finally show ?thesis by (simp add: alias_depth_def)
qed

lemma alias_depth_mono: "(n, m) \<in> (lead_edges ps)\<^sup>* \<Longrightarrow> alias_depth ps m \<le> alias_depth ps n"
  unfolding alias_depth_def by (rule card_mono) (auto intro: rtrancl_trans)

lemma alias_depth_less:
  assumes "n \<in> aliases ps" and "(n, m) \<in> (lead_edges ps)\<^sup>+"
  shows "alias_depth ps m < alias_depth ps n"
  unfolding alias_depth_def
proof (rule psubset_card_mono)
  have "(m, n) \<notin> (lead_edges ps)\<^sup>*" using alias_acyclic [OF assms(1)] assms(2) by (meson trancl_rtrancl_trancl)
  moreover have "{c \<in> aliases ps. (m, c) \<in> (lead_edges ps)\<^sup>*} \<subseteq> {c \<in> aliases ps. (n, c) \<in> (lead_edges ps)\<^sup>*}"
    using assms(2) by (auto intro: trancl_into_rtrancl rtrancl_trans)
  ultimately show "{c \<in> aliases ps. (m, c) \<in> (lead_edges ps)\<^sup>*} \<subset> {c \<in> aliases ps. (n, c) \<in> (lead_edges ps)\<^sup>*}"
    using assms(1) by blast
qed simp

section \<open>The rounds over one rule\<close>

text \<open>The rules before \<open>i\<close> are done, in the productions \<open>qs\<close> that \<open>ps\<close> has become.\<close>

definition settled :: "production list \<Rightarrow> nat \<Rightarrow> production list \<Rightarrow> bool" where
  "settled ps i qs \<longleftrightarrow>
     names qs = names ps \<and> (\<forall>p\<in>set qs. nonempty_alts (p_alts p)) \<and>
     (\<forall>k<i. \<forall>m<length ps. p_name (ps ! m) \<in> lead_names (qs ! k) \<longrightarrow>
        (p_name (ps ! k), p_name (ps ! m)) \<in> (lead_edges ps)\<^sup>+ \<and> (k < m \<or> p_name (ps ! k) \<in> aliases ps))"

text \<open>
  In a round over rule \<open>i\<close>, at the earlier rule \<open>j\<close>: what still leads to an earlier rule is yet to
  come, or is below an alias the round has followed.
\<close>

definition in_round :: "production list \<Rightarrow> nat \<Rightarrow> nat \<Rightarrow> nat \<Rightarrow> production list \<Rightarrow> bool" where
  "in_round ps i h j qs \<longleftrightarrow>
     (\<forall>m<length ps. p_name (ps ! m) \<in> lead_names (qs ! i) \<longrightarrow>
        (p_name (ps ! i), p_name (ps ! m)) \<in> (lead_edges ps)\<^sup>+ \<and>
        (m < i \<longrightarrow> j \<le> m \<and> alias_depth ps (p_name (ps ! m)) \<le> h \<or> alias_depth ps (p_name (ps ! m)) < h))"

lemma paull_step_cases:
  assumes "paull_step keep i st j = Inr st'" and "\<forall>p\<in>set (pl_prods st). nonempty_alts (p_alts p)"
    and "i < length (pl_prods st)" and "j < length (pl_prods st)"
  obtains "p_name (pl_prods st ! j) \<notin> lead_names (pl_prods st ! i)" and "st' = st"
  | q where "p_name (pl_prods st ! j) \<in> lead_names (pl_prods st ! i)" and "pl_changed st'"
    and "pl_prods st' = (pl_prods st)[i := q]" and "p_name q = p_name (pl_prods st ! i)" and "nonempty_alts (p_alts q)"
    and "lead_names q \<subseteq> (lead_names (pl_prods st ! i) - {p_name (pl_prods st ! j)}) \<union> lead_names (pl_prods st ! j)"
proof -
  let ?t = "pl_prods st ! i" and ?s = "pl_prods st ! j"
  let ?ts = "sources_of (pl_sources st) (p_name ?t)" and ?ss = "sources_of (pl_sources st) (p_name ?s)"
  have ne: "nonempty_alts (p_alts ?t)" "nonempty_alts (p_alts ?s)" using assms(2-4) by simp_all
  show ?thesis
  proof (cases "p_name ?s \<in> lead_names ?t")
    case False
    then show ?thesis using that(1) assms(1) by (simp add: paull_step_def Let_def has_leading_name)
  next
    case lead: True
    show ?thesis
    proof (cases "p_name ?s \<in> set keep")
      case True
      have n: "p_name (fst (substitute_leading_ref_by_token ?t ?ts (p_name ?s))) = p_name ?t"
        by (simp add: substitute_leading_ref_by_token_def Let_def)
      show ?thesis
        by (rule that(2) [OF lead _ _ n])
          (use assms(1) lead True by_token_leads [of ?t ?ts "p_name ?s"] ne in \<open>auto simp: paull_step_def Let_def has_leading_name\<close>)
    next
      case False
      have n: "p_name (fst (substitute_leading_ref ?t ?ts ?s ?ss)) = p_name ?t"
        by (simp add: substitute_leading_ref_def Let_def)
      show ?thesis
        by (rule that(2) [OF lead _ _ n])
          (use assms(1) lead False substitute_leads [OF ne(2), of ?t ?ts ?ss] ne in
            \<open>auto simp: paull_step_def Let_def has_leading_name res_bind_Inr_iff\<close>)
    qed
  qed
qed

lemma name_at: "names qs = names ps \<Longrightarrow> k < length ps \<Longrightarrow> p_name (qs ! k) = p_name (ps ! k)"
  by (metis length_map nth_map)

lemma same_index: "distinct (names ps) \<Longrightarrow> k < length ps \<Longrightarrow> m < length ps \<Longrightarrow> p_name (ps ! k) = p_name (ps ! m) \<longleftrightarrow> k = m"
  by (metis length_map nth_eq_iff_index_eq nth_map)

lemma paull_step_round:
  assumes step: "paull_step keep i st j = Inr st'" and d: "distinct (names ps)" and ij: "j < i" "i < length ps"
    and set': "settled ps i (pl_prods st)" and rnd: "in_round ps i h j (pl_prods st)"
  shows "settled ps i (pl_prods st')" and "in_round ps i h (Suc j) (pl_prods st')"
    and "k \<noteq> i \<Longrightarrow> pl_prods st' ! k = pl_prods st ! k"
proof -
  have n: "names (pl_prods st) = names ps" and ne: "\<forall>p\<in>set (pl_prods st). nonempty_alts (p_alts p)"
    using set' by (auto simp: settled_def)
  have len: "length (pl_prods st) = length ps" using n by (metis length_map)
  have nj: "p_name (pl_prods st ! j) = p_name (ps ! j)" and ni: "p_name (pl_prods st ! i) = p_name (ps ! i)"
    using name_at [OF n] ij by simp_all
  have jl: "j < length (pl_prods st)" and il: "i < length (pl_prods st)" using ij len by simp_all
  have all: "settled ps i (pl_prods st') \<and> in_round ps i h (Suc j) (pl_prods st') \<and> (\<forall>k. k \<noteq> i \<longrightarrow> pl_prods st' ! k = pl_prods st ! k)"
  proof (cases rule: paull_step_cases [OF step ne il jl])
    case 1
    have "in_round ps i h (Suc j) (pl_prods st)"
      unfolding in_round_def
    proof (intro allI impI)
      fix m assume m: "m < length ps" "p_name (ps ! m) \<in> lead_names (pl_prods st ! i)"
      have "m \<noteq> j" using m(2) 1(1) nj by auto
      then show "(p_name (ps ! i), p_name (ps ! m)) \<in> (lead_edges ps)\<^sup>+ \<and>
          (m < i \<longrightarrow> Suc j \<le> m \<and> alias_depth ps (p_name (ps ! m)) \<le> h \<or> alias_depth ps (p_name (ps ! m)) < h)"
        using rnd m by (fastforce simp: in_round_def)
    qed
    then show ?thesis using 1(2) set' by simp
  next
    case (2 q)
    have other: "pl_prods st' ! k = pl_prods st ! k" if "k \<noteq> i" for k using that by (simp add: 2(3))
    have at_i: "pl_prods st' ! i = q" using il by (simp add: 2(3))
    have names': "names (pl_prods st') = names ps" using names_update [OF il 2(4)] n by (simp add: 2(3))
    have "settled ps i (pl_prods st')"
      unfolding settled_def
    proof (intro conjI ballI)
      show "names (pl_prods st') = names ps" by (rule names')
      show "nonempty_alts (p_alts p)" if "p \<in> set (pl_prods st')" for p
        using that 2(5) ne set_update_subset_insert [of "pl_prods st" i q] by (auto simp: 2(3))
      show "\<forall>k<i. \<forall>m<length ps. p_name (ps ! m) \<in> lead_names (pl_prods st' ! k) \<longrightarrow>
          (p_name (ps ! k), p_name (ps ! m)) \<in> (lead_edges ps)\<^sup>+ \<and> (k < m \<or> p_name (ps ! k) \<in> aliases ps)"
        using set' other by (simp add: settled_def)
    qed
    moreover have "in_round ps i h (Suc j) (pl_prods st')"
      unfolding in_round_def at_i
    proof (intro allI impI)
      fix m assume m: "m < length ps" "p_name (ps ! m) \<in> lead_names q"
      have lj: "(p_name (ps ! i), p_name (ps ! j)) \<in> (lead_edges ps)\<^sup>+" "alias_depth ps (p_name (ps ! j)) \<le> h"
        using rnd [unfolded in_round_def, THEN spec, of j] 2(1) ij nj by auto
      have "p_name (ps ! m) \<in> (lead_names (pl_prods st ! i) - {p_name (ps ! j)}) \<union> lead_names (pl_prods st ! j)"
        using m(2) 2(6) unfolding nj by (rule subsetD [rotated])
      then consider "p_name (ps ! m) \<in> lead_names (pl_prods st ! i)" "m \<noteq> j" | "p_name (ps ! m) \<in> lead_names (pl_prods st ! j)"
        by blast
      then show "(p_name (ps ! i), p_name (ps ! m)) \<in> (lead_edges ps)\<^sup>+ \<and>
          (m < i \<longrightarrow> Suc j \<le> m \<and> alias_depth ps (p_name (ps ! m)) \<le> h \<or> alias_depth ps (p_name (ps ! m)) < h)"
      proof cases
        case 1
        then show ?thesis using rnd m(1) by (fastforce simp: in_round_def)
      next
        case 2
        then have e: "(p_name (ps ! j), p_name (ps ! m)) \<in> (lead_edges ps)\<^sup>+" "j < m \<or> p_name (ps ! j) \<in> aliases ps"
          using set' ij m(1) by (auto simp: settled_def)
        have "alias_depth ps (p_name (ps ! m)) \<le> h"
          using alias_depth_mono [OF trancl_into_rtrancl [OF e(1)]] lj(2) by simp
        moreover have "alias_depth ps (p_name (ps ! m)) < h" if "p_name (ps ! j) \<in> aliases ps"
          using alias_depth_less [OF that e(1)] lj(2) by simp
        ultimately show ?thesis using e lj(1) by (auto intro: trancl_trans)
      qed
    qed
    ultimately show ?thesis using other by blast
  qed
  then show "settled ps i (pl_prods st')" "in_round ps i h (Suc j) (pl_prods st')"
    "k \<noteq> i \<Longrightarrow> pl_prods st' ! k = pl_prods st ! k" by blast+
qed

lemma res_fold_upt:
  assumes "res_fold f s [a..<b] = Inr t" and "a \<le> b" and "P a s"
    and "\<And>k x y. a \<le> k \<Longrightarrow> k < b \<Longrightarrow> P k x \<Longrightarrow> f x k = Inr y \<Longrightarrow> P (Suc k) y"
  shows "P b t"
  using assms
proof (induction "b - a" arbitrary: a s)
  case (Suc d)
  then have ab: "a < b" by simp
  then have "[a..<b] = a # [Suc a..<b]" by (rule upt_conv_Cons)
  then obtain s' where s': "f s a = Inr s'" "res_fold f s' [Suc a..<b] = Inr t" using Suc.prems(1) by (auto simp: res_bind_Inr_iff)
  show ?case
    by (rule Suc.hyps(1) [OF _ s'(2)]) (use Suc.hyps(2) Suc.prems ab s'(1) in auto)
qed simp

text \<open>A round that changes nothing found nothing to do.\<close>

lemma paull_step_changed: "paull_step keep i st j = Inr st' \<Longrightarrow> pl_changed st \<Longrightarrow> pl_changed st'"
  by (auto simp: paull_step_def Let_def res_bind_Inr_iff split: if_splits)

lemma paull_step_idle:
  "paull_step keep i st j = Inr st' \<Longrightarrow> \<not> pl_changed st' \<Longrightarrow>
   st' = st \<and> p_name (pl_prods st ! j) \<notin> lead_names (pl_prods st ! i)"
  by (auto simp: paull_step_def Let_def res_bind_Inr_iff has_leading_name split: if_splits)

lemma idle_round:
  "res_fold (paull_step keep i) st js = Inr st' \<Longrightarrow> \<not> pl_changed st' \<Longrightarrow>
   st' = st \<and> (\<forall>j\<in>set js. p_name (pl_prods st ! j) \<notin> lead_names (pl_prods st ! i))"
proof (induction js arbitrary: st)
  case (Cons j js)
  obtain s1 where s1: "paull_step keep i st j = Inr s1" "res_fold (paull_step keep i) s1 js = Inr st'"
    using Cons.prems(1) by (auto simp: res_bind_Inr_iff)
  have "\<not> pl_changed s1"
    using res_fold_invariant [OF s1(2), where P = pl_changed] paull_step_changed Cons.prems(2) by blast
  then show ?case using paull_step_idle [OF s1(1)] Cons.IH [OF s1(2) Cons.prems(2)] by auto
qed simp

definition earlier_leads :: "production list \<Rightarrow> nat \<Rightarrow> nat \<Rightarrow> production list \<Rightarrow> bool" where
  "earlier_leads ps i h qs \<longleftrightarrow>
     (\<forall>m<length ps. p_name (ps ! m) \<in> lead_names (qs ! i) \<longrightarrow>
        (p_name (ps ! i), p_name (ps ! m)) \<in> (lead_edges ps)\<^sup>+ \<and> (m < i \<longrightarrow> alias_depth ps (p_name (ps ! m)) < h))"

lemma round_ends:
  assumes "res_fold (paull_step keep i) st [0..<i] = Inr st'" and d: "distinct (names ps)" and i: "i < length ps"
    and "settled ps i (pl_prods st)" and "earlier_leads ps i (Suc h) (pl_prods st)"
  shows "settled ps i (pl_prods st') \<and> earlier_leads ps i h (pl_prods st') \<and> (\<forall>k. k \<noteq> i \<longrightarrow> pl_prods st' ! k = pl_prods st ! k)"
proof -
  let ?P = "\<lambda>j s. settled ps i (pl_prods s) \<and> in_round ps i h j (pl_prods s) \<and> (\<forall>k. k \<noteq> i \<longrightarrow> pl_prods s ! k = pl_prods st ! k)"
  have "?P i st'"
  proof (rule res_fold_upt [OF assms(1), where P = ?P])
    show "?P 0 st" using assms(4,5) by (auto simp: in_round_def earlier_leads_def)
    show "?P (Suc k) y" if "0 \<le> k" "k < i" "?P k x" "paull_step keep i x k = Inr y" for k x y
      using paull_step_round [OF that(4) d that(2) i, of h] that(3) by auto
  qed simp
  moreover have "in_round ps i h i (pl_prods st') \<Longrightarrow> earlier_leads ps i h (pl_prods st')"
    by (auto simp: in_round_def earlier_leads_def)
  ultimately show ?thesis by blast
qed

lemma rounds_end:
  assumes "paull_rounds keep i guard st = Inr st'" and d: "distinct (names ps)" and i: "i < length ps"
    and "settled ps i (pl_prods st)" and "earlier_leads ps i guard (pl_prods st)"
  shows "settled ps i (pl_prods st') \<and> earlier_leads ps i 0 (pl_prods st') \<and> (\<forall>k. k \<noteq> i \<longrightarrow> pl_prods st' ! k = pl_prods st ! k)"
  using assms(1,4,5)
proof (induction guard arbitrary: st)
  case (Suc guard)
  obtain s1 where s1: "res_fold (paull_step keep i) (st\<lparr>pl_changed := False\<rparr>) [0..<i] = Inr s1"
    "(if pl_changed s1 then paull_rounds keep i guard s1 else Inr s1) = Inr st'"
    using Suc.prems(1) by (auto simp: res_bind_Inr_iff)
  note r = round_ends [OF s1(1) d i, of guard]
  show ?case
  proof (cases "pl_changed s1")
    case True
    then have "paull_rounds keep i guard s1 = Inr st'" using s1(2) by simp
    from Suc.IH [OF this] r Suc.prems(2,3) show ?thesis by auto
  next
    case False
    then have st': "st' = s1" "s1 = st\<lparr>pl_changed := False\<rparr>"
      and no: "\<forall>j\<in>set [0..<i]. p_name (pl_prods st ! j) \<notin> lead_names (pl_prods st ! i)"
      using s1(2) idle_round [OF s1(1) False] by auto
    have n: "names (pl_prods st) = names ps" using Suc.prems(2) by (simp add: settled_def)
    have "earlier_leads ps i 0 (pl_prods st)"
      using Suc.prems(3) no name_at [OF n] i by (auto simp: earlier_leads_def)
    then show ?thesis using Suc.prems(2) by (simp add: st')
  qed
qed simp

section \<open>Every rule, and no cycle\<close>

lemma rule_ends:
  assumes "paull_rule keep (scan ps) st i = Inr st'" and d: "distinct (names ps)" and i: "i < length ps"
    and st: "settled ps i (pl_prods st)" "\<forall>k<length ps. i \<le> k \<longrightarrow> pl_prods st ! k = ps ! k"
  shows "settled ps (Suc i) (pl_prods st') \<and> (\<forall>k<length ps. Suc i \<le> k \<longrightarrow> pl_prods st' ! k = ps ! k)"
proof -
  obtain s1 where s1: "(if exempt_alias (pl_prods st ! i) (scan ps) then Inr st
        else paull_rounds keep i (length (pl_prods st) + 1) (st\<lparr>pl_gained := 0\<rparr>)) = Inr s1"
    and e: "res_bind (eliminate_direct_left_rec (pl_prods s1 ! i) (sources_of (pl_sources s1) (p_name (pl_prods s1 ! i))) (pl_debts s1))
          (\<lambda>((next, ns), debts). Inr (s1\<lparr>pl_prods := (pl_prods s1)[i := next],
             pl_sources := imap_insert (p_name (pl_prods s1 ! i)) ns (pl_sources s1), pl_debts := debts\<rparr>)) = Inr st'"
    using assms(1) unfolding paull_rule_def res_bind_Inr_iff Let_def by blast
  have n: "names (pl_prods st) = names ps" using st(1) by (simp add: settled_def)
  then have len: "length (pl_prods st) = length ps" by (metis length_map)
  have ii: "pl_prods st ! i = ps ! i" using st(2) i by simp
  have edge: "(p_name (ps ! i), p_name (ps ! m)) \<in> (lead_edges ps)\<^sup>+"
    if "m < length ps" "p_name (ps ! m) \<in> lead_names (ps ! i)" for m
    using edges_lead [OF d nth_mem [OF i], of "p_name (ps ! m)"] that by (auto intro: r_into_trancl)
  have mid: "settled ps i (pl_prods s1) \<and> (\<forall>k<length ps. i < k \<longrightarrow> pl_prods s1 ! k = ps ! k) \<and>
      (\<forall>m<length ps. p_name (ps ! m) \<in> lead_names (pl_prods s1 ! i) \<longrightarrow>
         (p_name (ps ! i), p_name (ps ! m)) \<in> (lead_edges ps)\<^sup>+ \<and> (i \<le> m \<or> p_name (ps ! i) \<in> aliases ps))"
  proof (cases "exempt_alias (ps ! i) (scan ps)")
    case True
    then have "p_name (ps ! i) \<in> aliases ps" using i by (simp add: aliases_def)
    moreover have "s1 = st" using True s1 ii by simp
    ultimately show ?thesis using st ii edge by auto
  next
    case False
    then have r: "paull_rounds keep i (length ps + 1) (st\<lparr>pl_gained := 0\<rparr>) = Inr s1" using s1 ii len by simp
    have "earlier_leads ps i (length ps + 1) (pl_prods st)"
      using edge alias_depth_bound [of ps] by (auto simp: earlier_leads_def ii less_Suc_eq_le)
    then have "settled ps i (pl_prods s1) \<and> earlier_leads ps i 0 (pl_prods s1) \<and> (\<forall>k. k \<noteq> i \<longrightarrow> pl_prods s1 ! k = pl_prods st ! k)"
      using rounds_end [OF r d i] st(1) by simp
    then show ?thesis using st(2) by (auto simp: earlier_leads_def not_less)
  qed
  let ?p = "pl_prods s1 ! i" and ?ss = "sources_of (pl_sources s1) (p_name (pl_prods s1 ! i))"
  obtain q qs debts where q: "eliminate_direct_left_rec ?p ?ss (pl_debts s1) = Inr ((q, qs), debts)"
    and st': "pl_prods st' = (pl_prods s1)[i := q]"
    using e by (auto simp: res_bind_Inr_iff)
  note dl = direct_leads [OF q]
  have n1: "names (pl_prods s1) = names ps" using mid by (simp add: settled_def)
  then have il: "i < length (pl_prods s1)" using i by (metis length_map)
  have pn: "p_name ?p = p_name (ps ! i)" by (rule name_at [OF n1 i])
  have ne: "nonempty_alts (p_alts q)" using dl(2) mid il by (simp add: settled_def)
  have "settled ps (Suc i) (pl_prods st')"
    unfolding settled_def
  proof (intro conjI ballI allI impI)
    show "names (pl_prods st') = names ps" using names_update [OF il dl(3)] n1 by (simp add: st')
    show "nonempty_alts (p_alts p)" if "p \<in> set (pl_prods st')" for p
      using that ne mid set_update_subset_insert [of "pl_prods s1" i q] by (auto simp: st' settled_def)
    fix k m assume k: "k < Suc i" "m < length ps" "p_name (ps ! m) \<in> lead_names (pl_prods st' ! k)"
    have both: "(p_name (ps ! k), p_name (ps ! m)) \<in> (lead_edges ps)\<^sup>+ \<and> (k < m \<or> p_name (ps ! k) \<in> aliases ps)"
    proof (cases "k = i")
      case True
      then have "p_name (ps ! m) \<in> lead_names ?p" "p_name (ps ! m) \<noteq> p_name (ps ! i)"
        using k(3) dl(1) pn il by (auto simp: st')
      then show ?thesis using mid k(2) True by (metis nat_less_le)
    next
      case False
      then show ?thesis using mid k by (simp add: settled_def st')
    qed
    show "(p_name (ps ! k), p_name (ps ! m)) \<in> (lead_edges ps)\<^sup>+" using both ..
    show "k < m \<or> p_name (ps ! k) \<in> aliases ps" using both ..
  qed
  then show ?thesis using mid by (simp add: st')
qed

definition leading_graph :: "production list \<Rightarrow> (string \<times> string) set" where
  "leading_graph ps = {(p_name p, n) | p n. p \<in> set ps \<and> n \<in> lead_names p}"

lemma cycle_in_domain: "(x, x) \<in> F\<^sup>+ \<Longrightarrow> (x, x) \<in> (F \<inter> UNIV \<times> Domain F)\<^sup>+"
proof -
  have "(x, y) \<in> (F \<inter> UNIV \<times> Domain F)\<^sup>+" if "(x, y) \<in> F\<^sup>+" "y \<in> Domain F" for x y
    using that
  proof (induction rule: trancl_induct)
    case (step y z)
    then have "(x, y) \<in> (F \<inter> UNIV \<times> Domain F)\<^sup>+" by blast
    then show ?case using step by (blast intro: trancl_into_trancl)
  qed auto
  moreover assume "(x, x) \<in> F\<^sup>+"
  moreover have "x \<in> Domain F" using calculation(2) by (meson Domain.DomainI tranclD)
  ultimately show ?thesis by blast
qed

lemma settled_acyclic:
  assumes "settled ps (length ps) qs" and d: "distinct (names ps)"
  shows "acyclic (leading_graph qs)"
proof (rule acyclicI, intro allI notI)
  fix x assume x: "(x, x) \<in> (leading_graph qs)\<^sup>+"
  let ?F = "leading_graph qs \<inter> UNIV \<times> Domain (leading_graph qs)" and ?E = "lead_edges ps"
  have n: "names qs = names ps" using assms(1) by (simp add: settled_def)
  then have len: "length qs = length ps" by (metis length_map)
  have edge: "\<exists>k m. k < length ps \<and> m < length ps \<and> a = p_name (ps ! k) \<and> b = p_name (ps ! m) \<and>
      (a, b) \<in> ?E\<^sup>+ \<and> (k < m \<or> a \<in> aliases ps)" if ab: "(a, b) \<in> ?F" for a b
  proof -
    obtain p where p: "p \<in> set qs" "a = p_name p" "b \<in> lead_names p" using ab by (auto simp: leading_graph_def)
    then obtain k where k: "k < length ps" "p = qs ! k" using len by (metis in_set_conv_nth)
    have "b \<in> set (names qs)" using ab by (auto simp: leading_graph_def)
    then have "b \<in> set (names ps)" using n by simp
    then obtain m where m: "m < length ps" "b = p_name (ps ! m)" by (auto simp: in_set_conv_nth)
    have a: "a = p_name (ps ! k)" using name_at [OF n k(1)] k(2) p(2) by simp
    have "(a, b) \<in> ?E\<^sup>+ \<and> (k < m \<or> a \<in> aliases ps)" using assms(1) k m p(3) unfolding a settled_def by simp
    with k m a show ?thesis by blast
  qed
  define pos where "pos = (\<lambda>a. SOME k. k < length ps \<and> p_name (ps ! k) = a)"
  have pos: "pos (p_name (ps ! k)) = k" if "k < length ps" for k
    unfolding pos_def using that same_index [OF d] by (intro some_equality) auto
  have up: "(a, b) \<in> ?E\<^sup>+ \<and> ((b, a) \<in> ?E\<^sup>* \<longrightarrow> pos a < pos b)" if ab: "(a, b) \<in> ?F" for a b
  proof -
    obtain k m where k: "k < length ps" "m < length ps" "a = p_name (ps ! k)" "b = p_name (ps ! m)"
      "(a, b) \<in> ?E\<^sup>+" "k < m \<or> a \<in> aliases ps" using edge [OF ab] by blast
    have "k < m" if "(b, a) \<in> ?E\<^sup>*"
    proof -
      have "(a, a) \<in> ?E\<^sup>+" using k(5) that by (rule trancl_rtrancl_trancl)
      then show ?thesis using k(6) alias_acyclic by blast
    qed
    then show ?thesis using k pos by simp
  qed
  have "(a, b) \<in> ?E\<^sup>+ \<and> ((b, a) \<in> ?E\<^sup>* \<longrightarrow> pos a < pos b)" if "(a, b) \<in> ?F\<^sup>+" for a b
    using that
  proof (induction rule: trancl_induct)
    case (base b)
    then show ?case by (rule up)
  next
    case (step b c)
    have u: "(b, c) \<in> ?E\<^sup>+" "(c, b) \<in> ?E\<^sup>* \<longrightarrow> pos b < pos c" using up [OF step(2)] by auto
    have "pos a < pos c" if "(c, a) \<in> ?E\<^sup>*"
    proof -
      have "(b, a) \<in> ?E\<^sup>*" using u(1) that by (meson rtrancl_trans trancl_into_rtrancl)
      moreover have "(c, b) \<in> ?E\<^sup>*" using step.IH that by (meson rtrancl_trans trancl_into_rtrancl)
      ultimately show ?thesis using step.IH u(2) by (meson less_trans)
    qed
    moreover have "(a, c) \<in> ?E\<^sup>+" using step.IH u(1) by (meson trancl_trans)
    ultimately show ?case by blast
  qed
  from this [OF cycle_in_domain [OF x]] show False by blast
qed

lemma expanded_nonempty:
  assumes "expanded g = Inr (out, srcs, added)" and "distinct (names (productions g))"
    and "\<And>p. p \<in> set (productions g) \<Longrightarrow> nonempty_alts (p_alts p)" and "p \<in> set out"
  shows "nonempty_alts (p_alts p)"
proof -
  obtain q where q: "q \<in> set (map (\<lambda>p. rebuilt p (p_alts p)) (productions g))" "same_rule literal_terminals q p"
    using expanded_rules(1) [OF assms(1,2), where T = literal_terminals] assms(4) by (metis in_set_conv_nth list_all2_conv_all_nth)
  then show ?thesis using assms(3) by (auto simp: same_rule_def)
qed

lemma eliminated_acyclic:
  assumes "eliminate_left_recursion_keeping g keep = Inr (g', srcs')" and d: "distinct (names (productions g))"
    and ne: "\<And>p. p \<in> set (productions g) \<Longrightarrow> nonempty_alts (p_alts p)"
  shows "acyclic (leading_graph (productions g'))"
proof -
  obtain out srcs added st where e: "expanded g = Inr (out, srcs, added)"
    and f: "res_fold (paull_rule keep (scan (topo_order_for_paull out)))
           (paull_start (topo_order_for_paull out) srcs added) [0..<length (topo_order_for_paull out)] = Inr st"
    and g': "g' = grammar_new (take_slots (names (productions g)) (index_prods (pl_prods st)))" and srcs': "srcs' = pl_sources st"
    by (rule eliminate_parts [OF assms(1)])
  let ?ps = "topo_order_for_paull out"
  have dout: "distinct (names out)" using expanded_keeps(1) [OF e d] d by simp
  note o' = topo_order_perm [OF dout]
  have ne_out: "nonempty_alts (p_alts p)" if "p \<in> set ?ps" for p
    using expanded_nonempty [OF e d ne] that o'(1) by blast
  let ?P = "\<lambda>i s. settled ?ps i (pl_prods s) \<and> (\<forall>k<length ?ps. i \<le> k \<longrightarrow> pl_prods s ! k = ?ps ! k)"
  have "?P (length ?ps) st"
  proof (rule res_fold_upt [OF f, where P = ?P])
    show "?P 0 (paull_start ?ps srcs added)" using ne_out by (simp add: settled_def paull_start_def)
    show "?P (Suc k) y" if "0 \<le> k" "k < length ?ps" "?P k x" "paull_rule keep (scan ?ps) x k = Inr y" for k x y
      using rule_ends [OF that(4) o'(2) that(2)] that(3) by simp
  qed simp
  then have fin: "settled ?ps (length ?ps) (pl_prods st)" by simp
  then have "acyclic (leading_graph (pl_prods st))" by (rule settled_acyclic) (rule o'(2))
  moreover have dn: "distinct (names (pl_prods st))" using fin o'(2) by (simp add: settled_def)
  have "set (productions g') = set (pl_prods st)"
  proof -
    have own: "p_name p = n" if "(n, p) \<in> set (index_prods (pl_prods st))" for n p
      using that by (auto simp: index_prods_distinct [OF dn])
    have "distinct (map fst (index_prods (pl_prods st)))" using dn by (simp add: index_prods_keys)
    from take_slots_set [OF this own, of "names (productions g)"] show ?thesis
      by (simp add: g' grammar_new_def index_prods_distinct [OF dn] image_image)
  qed
  ultimately show ?thesis by (simp add: leading_graph_def)
qed

end
