(* ===== verification/Left_Recursion_Size.thy ===== *)
theory Left_Recursion_Size
  imports Left_Recursion_Language
begin

text \<open>
  What left-recursion elimination may add to a grammar. The size of a grammar counts every element
  all the way down, and every alternative; the walk of the code measures it exactly up to its cap,
  each step that copies elements is charged at least what it adds, and the rewrite of a rule to a
  loop adds three at most. So the size of the result is bounded by the limit of the charges.
\<close>

section \<open>The size of elements, measured up to a cap\<close>

fun deep :: "element \<Rightarrow> nat" where
  "deep (Element (Group alts) _) = 1 + length alts + sum_list (map (\<lambda>alt. sum_list (map deep alt)) alts)"
| "deep (Element (Opt i) _) = 1 + deep i"
| "deep (Element (Star i _) _) = 1 + deep i"
| "deep (Element (Plus i) _) = 1 + deep i"
| "deep (Element (Rep _ _ i) _) = 1 + deep i"
| "deep _ = 1"

abbreviation seq_deep :: "seq \<Rightarrow> nat" where
  "seq_deep alt \<equiv> sum_list (map deep alt)"

definition alts_size :: "seq list \<Rightarrow> nat" where
  "alts_size alts = sum_list (map (\<lambda>alt. 1 + seq_deep alt) alts)"

definition rules_size :: "production list \<Rightarrow> nat" where
  "rules_size ps = sum_list (map (\<lambda>p. alts_size (p_alts p)) ps)"

lemma alts_size_simps [simp]:
  "alts_size [] = 0" "alts_size (alt # alts) = 1 + seq_deep alt + alts_size alts"
  "alts_size (alts @ more_alts) = alts_size alts + alts_size more_alts"
  by (simp_all add: alts_size_def)

lemma alts_size_eq: "alts_size alts = length alts + seq_deep (concat alts)"
  by (induction alts) auto

lemma deep_group: "deep (Element (Group alts) sp) = 1 + alts_size alts"
  by (induction alts) auto

lemma deep_pos: "0 < deep el"
  by (cases el rule: deep.cases) auto

lemma seq_deep_concat: "seq_deep (concat alts) = sum_list (map seq_deep alts)"
  by (induction alts) auto

lemma deep_children: "deep el = own_size el + seq_deep (children el)"
  by (cases el rule: deep.cases) (auto simp: own_size_def children_def seq_deep_concat)

lemma size_walk_exact:
  "cap \<le> USIZE_MAX \<Longrightarrow> n < cap \<Longrightarrow> size_walk stack n cap = min cap (n + seq_deep stack)"
proof (induction stack n cap rule: size_walk.induct)
  case (2 el stack n cap)
  show ?case
  proof (cases "cap \<le> n + own_size el")
    case True
    then have "cap \<le> saturating_add n (own_size el)" using "2.prems" by (simp add: saturating_add_def)
    moreover have "cap \<le> n + seq_deep (el # stack)" using True deep_children [of el] by simp
    ultimately show ?thesis by simp
  next
    case False
    then have s: "saturating_add n (own_size el) = n + own_size el" using "2.prems" by (simp add: saturating_add_def)
    have "size_walk (rev (children el) @ stack) (n + own_size el) cap =
        min cap (n + own_size el + seq_deep (rev (children el) @ stack))"
      using "2.IH" [OF refl] False "2.prems" s by simp
    then show ?thesis
      using False s by (simp add: deep_children [of el] rev_map [symmetric] sum_list_rev add.assoc)
  qed
qed simp

lemma deep_size_exact: "0 < cap \<Longrightarrow> cap \<le> USIZE_MAX \<Longrightarrow> deep_size els cap = min cap (seq_deep els)"
  using size_walk_exact [of cap 0 "rev els"] by (simp add: deep_size_def rev_map [symmetric] sum_list_rev)

lemma limit_fits [simp]: "MAX_LEFT_RECURSION_ELEMENTS + 2 < USIZE_MAX"
  by (simp add: MAX_LEFT_RECURSION_ELEMENTS_def USIZE_MAX_def)


section \<open>Every copy is paid for\<close>

lemma sat_add_le: "saturating_add a b \<le> c \<Longrightarrow> c < USIZE_MAX \<Longrightarrow> saturating_add a b = a + b"
  by (auto simp: saturating_add_def)

text \<open>A split.\<close>

lemma charge_expansion_pays:
  assumes "charge_expansion p (el # rest) present added = Inr added'" and "added \<le> MAX_LEFT_RECURSION_ELEMENTS"
    and "deep el + MAX_LEFT_RECURSION_ELEMENTS + 2 \<le> USIZE_MAX"
  shows "added' \<le> MAX_LEFT_RECURSION_ELEMENTS" and "added \<le> added'"
    and "alts_size [present @ rest, rest] + added \<le> alts_size [el # rest] + added'"
proof -
  let ?r = "MAX_LEFT_RECURSION_ELEMENTS - added" and ?W = "seq_deep (present @ rest)"
  have lead: "deep_size [el] USIZE_MAX = deep el" using assms(3) by (simp add: deep_size_exact)
  have cap: "saturating_add (saturating_add ?r (deep el)) 2 = ?r + deep el + 2"
    using assms(3) by (simp add: saturating_add_def)
  have w: "deep_size (present @ rest) (?r + deep el + 2) = min (?r + deep el + 2) ?W"
    by (rule deep_size_exact) (use assms(3) in auto)
  define c where "c = ?r + deep el + 2"
  have g: "deep_size (present @ rest) c + 1 - deep el \<le> ?r" "added' = added + (deep_size (present @ rest) c + 1 - deep el)"
    using assms(1) unfolding c_def by (auto simp: charge_expansion_def Let_def lead cap split: if_splits)
  have "deep_size (present @ rest) c = ?W" using w g(1) unfolding c_def by simp
  then have "?W + 1 - deep el \<le> ?r" "added' = added + (?W + 1 - deep el)" using g by simp_all
  then show "added' \<le> MAX_LEFT_RECURSION_ELEMENTS" "added \<le> added'"
    "alts_size [present @ rest, rest] + added \<le> alts_size [el # rest] + added'"
    using assms(2) by auto
qed

text \<open>A substitution, alternative by alternative.\<close>

lemma charge_alt_pays:
  assumes "charge_alt refusal m held remaining gain (el # rest) = Inr gain'"
    and "gain \<le> remaining" and r: "remaining \<le> MAX_LEFT_RECURSION_ELEMENTS" "held \<le> remaining + 1"
    and "m = 0 \<Longrightarrow> held = 0"
  shows "gain' \<le> remaining" and "gain \<le> gain'" and "m * (1 + seq_deep rest) + held + gain \<le> 2 + seq_deep rest + gain'"
proof -
  define tail where "tail = (if m > 1 then deep_size rest (remaining - gain + 2) else 0)"
  define written where "written = saturating_add (saturating_mul m (1 + tail)) held"
  have big: "3 * remaining + 8 < USIZE_MAX" using r(1) by (simp add: MAX_LEFT_RECURSION_ELEMENTS_def USIZE_MAX_def)
  have g: "saturating_add gain (written - (2 + tail)) \<le> remaining" "gain' = saturating_add gain (written - (2 + tail))"
    using assms(1) by (auto simp: charge_alt_def Let_def tail_def written_def split: if_splits)
  have gain': "gain' = gain + (written - (2 + tail))"
    using sat_add_le [OF g(1)] g(2) big by simp
  show "gain' \<le> remaining" "gain \<le> gain'" using g gain' by simp_all
  have small: "deep_size rest (remaining - gain + 2) = min (remaining - gain + 2) (seq_deep rest)"
    by (rule deep_size_exact) (use big in auto)
  have exact: "written = m * (1 + tail) + held" if "written < USIZE_MAX"
    using that by (auto simp: written_def saturating_add_def saturating_mul_def min_def split: if_splits)
  show "m * (1 + seq_deep rest) + held + gain \<le> 2 + seq_deep rest + gain'"
  proof (cases "m > 1")
    case True
    have "tail \<le> remaining + 2" using small True by (simp add: tail_def)
    then have "written \<le> remaining + (2 + (remaining + 2))" using g(1) gain' g(2) by linarith
    then have "written < USIZE_MAX" using big by linarith
    then have w: "written = m * (1 + tail) + held" by (rule exact)
    obtain k where k: "m = k + 2" using True by (metis Suc_eq_plus1 add_2_eq_Suc' less_imp_add_positive add.commute Suc_leI le_add_diff_inverse2 one_add_one)
    have "m * (1 + tail) + held - (2 + tail) \<le> remaining - gain" using g gain' w by linarith
    then have "tail \<le> remaining - gain" by (simp add: k algebra_simps)
    then have "tail = seq_deep rest" using small True by (auto simp: tail_def)
    then show ?thesis using gain' w by simp
  next
    case False
    then have t: "tail = 0" by (simp add: tail_def)
    have m: "m = 0 \<or> m = 1" using False by linarith
    have "saturating_mul m 1 = m" using m big by (auto simp: saturating_mul_def)
    then have "written = m + held" using m big r(2) by (auto simp: written_def t saturating_add_def)
    then show ?thesis using m assms(5) gain' t by auto
  qed
qed

lemma led_alts_pay:
  assumes "res_fold (charge_alt refusal m held remaining) gain alts = Inr gain'"
    and "gain \<le> remaining" and "remaining \<le> MAX_LEFT_RECURSION_ELEMENTS" and "held \<le> remaining + 1"
    and "m = 0 \<Longrightarrow> held = 0" and "\<And>alt. alt \<in> set alts \<Longrightarrow> alt \<noteq> []"
  shows "gain' \<le> remaining \<and> gain \<le> gain' \<and>
    sum_list (map (\<lambda>alt. m * (1 + seq_deep (tl alt)) + held) alts) + gain \<le>
    sum_list (map (\<lambda>alt. 2 + seq_deep (tl alt)) alts) + gain'"
  using assms(1,2,6)
proof (induction alts arbitrary: gain)
  case (Cons alt alts)
  obtain k where k: "charge_alt refusal m held remaining gain alt = Inr k"
    "res_fold (charge_alt refusal m held remaining) k alts = Inr gain'"
    using Cons.prems(1) by (auto simp: res_bind_Inr_iff)
  obtain el rest where alt: "alt = el # rest" using Cons.prems(3) [of alt] by (cases alt) auto
  note p = charge_alt_pays [OF k(1) [unfolded alt] Cons.prems(2) assms(3-5)]
  from Cons.IH [OF k(2) p(1)] Cons.prems(3) p show ?case by (auto simp: alt)
qed simp

lemma own_alts_size: "sum_list (map (\<lambda>a. 1 + (seq_deep a + t)) alts) = length alts * (1 + t) + seq_deep (concat alts)"
  by (induction alts) (auto simp: algebra_simps)

lemma led_size: "led_by source alt \<Longrightarrow> seq_deep alt = 1 + seq_deep (tl alt)"
  by (cases alt; cases "hd alt"; cases "kind_of (hd alt)") (auto simp: led_by_def is_ref_to_iff)

lemma zip_fst_size: "sum_list (map (\<lambda>x. f (fst x)) (zip xs ys)) \<le> (sum_list (map f xs) :: nat)"
proof (induction xs arbitrary: ys)
  case (Cons x xs)
  then show ?case by (cases ys) (auto intro: le_SucI)
qed simp

lemma substitute_alt_size:
  "alts_size (map fst (substitute_alt source ss (alt, y))) \<le>
     (if led_by source alt then length (p_alts source) * (1 + seq_deep (tl alt)) + seq_deep (concat (p_alts source))
      else 1 + seq_deep alt)"
proof (cases "led_by source alt")
  case True
  have "alts_size (map fst (substitute_alt source ss (alt, y))) =
      sum_list (map (\<lambda>x. 1 + (seq_deep (fst x) + seq_deep (tl alt))) (zip (p_alts source) ss))"
    using True by (simp add: substitute_alt_def alts_size_def comp_def case_prod_unfold)
  also have "\<dots> \<le> sum_list (map (\<lambda>a. 1 + (seq_deep a + seq_deep (tl alt))) (p_alts source))"
    by (rule zip_fst_size [where f = "\<lambda>a. 1 + (seq_deep a + seq_deep (tl alt))"])
  finally show ?thesis using True by (simp only: own_alts_size if_True)
qed (simp add: substitute_alt_def)

lemma alts_size_concat: "alts_size (concat xss) = sum_list (map alts_size xss)"
  by (induction xss) auto

lemma substitute_size:
  "alts_size (p_alts (fst (substitute_leading_ref target ts source ss))) \<le>
     sum_list (map (\<lambda>alt. if led_by source alt
         then length (p_alts source) * (1 + seq_deep (tl alt)) + seq_deep (concat (p_alts source)) else 1 + seq_deep alt)
       (p_alts target))" (is "_ \<le> sum_list (map ?c _)")
proof -
  have "alts_size (p_alts (fst (substitute_leading_ref target ts source ss))) =
      sum_list (map (\<lambda>x. alts_size (map fst (substitute_alt source ss x))) (zip (p_alts target) ts))"
    by (simp add: substitute_leading_ref_def Let_def map_concat alts_size_concat comp_def)
  also have "\<dots> \<le> sum_list (map (\<lambda>x. ?c (fst x)) (zip (p_alts target) ts))"
    by (rule sum_list_mono) (metis substitute_alt_size prod.collapse)
  also have "\<dots> \<le> sum_list (map ?c (p_alts target))" by (rule zip_fst_size)
  finally show ?thesis .
qed

lemma sum_list_filter_split:
  "sum_list (map (\<lambda>x. if P x then f x else g x) xs) + sum_list (map g (filter P xs)) =
     sum_list (map f (filter P xs)) + (sum_list (map g xs) :: nat)"
  by (induction xs) auto

lemma charge_elements_pays:
  assumes "charge_elements target source added = Inr added'" and "added \<le> MAX_LEFT_RECURSION_ELEMENTS"
  shows "added' \<le> MAX_LEFT_RECURSION_ELEMENTS" and "added \<le> added'"
    and "alts_size (p_alts (fst (substitute_leading_ref target ts source ss))) + added \<le> alts_size (p_alts target) + added'"
proof -
  define r where "r = MAX_LEFT_RECURSION_ELEMENTS - added"
  define m where "m = length (p_alts source)"
  define H where "H = seq_deep (concat (p_alts source))"
  define held where "held = deep_size (concat (p_alts source)) (r + 2)"
  define led where "led = filter (led_by source) (p_alts target)"
  have rb: "r \<le> MAX_LEFT_RECURSION_ELEMENTS" "r + 2 \<le> USIZE_MAX" using limit_fits unfolding r_def by linarith+
  have held: "held = min (r + 2) H"
    unfolding held_def H_def by (rule deep_size_exact) (use rb in auto)
  define refusal where "refusal = err_at (LeftRecElements (p_name target) (p_name source) (length led) r added) (p_name target) (p_sp target)"
  have eq: "charge_elements target source added =
      (if led \<noteq> [] \<and> r + 1 < held then Inl refusal
       else res_bind (res_fold (charge_alt refusal m held r) 0 led) (\<lambda>gain. Inr (added + gain)))"
    unfolding charge_elements_def Let_def r_def m_def held_def led_def refusal_def ..
  obtain gain where g: "led \<noteq> [] \<Longrightarrow> held \<le> r + 1"
    "res_fold (charge_alt refusal m held r) 0 led = Inr gain" "added' = added + gain"
    using assms(1) unfolding eq by (auto simp: res_bind_Inr_iff not_less split: if_splits)
  have pays: "gain \<le> r \<and> sum_list (map (\<lambda>alt. m * (1 + seq_deep (tl alt)) + H) led) \<le> sum_list (map (\<lambda>alt. 2 + seq_deep (tl alt)) led) + gain"
  proof (cases "led = []")
    case True
    then show ?thesis using g(2) by simp
  next
    case False
    then have "held = H" "held \<le> r + 1" using g(1) held by simp_all
    moreover have "m = 0 \<Longrightarrow> held = 0" using \<open>held = H\<close> by (simp add: m_def H_def)
    moreover have "alt \<noteq> []" if "alt \<in> set led" for alt using that by (auto simp: led_def led_by_def)
    ultimately show ?thesis using led_alts_pay [OF g(2) _ rb(1)] by auto
  qed
  show "added' \<le> MAX_LEFT_RECURSION_ELEMENTS" "added \<le> added'" using pays g(3) assms(2) unfolding r_def by linarith+
  have "sum_list (map (\<lambda>alt. 2 + seq_deep (tl alt)) led) = sum_list (map (\<lambda>alt. 1 + seq_deep alt) led)"
    by (rule arg_cong [of _ _ sum_list], rule map_cong [OF refl]) (auto simp: led_def led_size)
  then have "alts_size (p_alts (fst (substitute_leading_ref target ts source ss))) \<le> alts_size (p_alts target) + gain"
    using substitute_size [of target ts source ss] pays
      sum_list_filter_split [of "led_by source" "\<lambda>alt. m * (1 + seq_deep (tl alt)) + H" "\<lambda>alt. 1 + seq_deep alt" "p_alts target"]
    unfolding m_def H_def led_def alts_size_def by linarith
  then show "alts_size (p_alts (fst (substitute_leading_ref target ts source ss))) + added \<le> alts_size (p_alts target) + added'"
    using g(3) by simp
qed

text \<open>A token for a class, and the rewrite to a loop, which needs no charge.\<close>

lemma token_alt_size: "seq_deep (token_alt c alt) \<le> seq_deep alt"
  using deep_pos by (cases alt) (auto simp: token_alt_def el_token_def el_of_def Suc_le_eq)

lemma by_token_size: "alts_size (p_alts (fst (substitute_leading_ref_by_token target ts c))) \<le> alts_size (p_alts target)"
proof -
  have "alts_size (p_alts (fst (substitute_leading_ref_by_token target ts c))) =
      sum_list (map (\<lambda>x. 1 + seq_deep (token_alt c (fst x))) (zip (p_alts target) ts))"
    by (simp add: substitute_leading_ref_by_token_def Let_def alts_size_def comp_def case_prod_unfold)
  also have "\<dots> \<le> sum_list (map (\<lambda>x. 1 + seq_deep (fst x)) (zip (p_alts target) ts))"
    by (rule sum_list_mono) (simp add: token_alt_size)
  also have "\<dots> \<le> alts_size (p_alts target)"
    unfolding alts_size_def by (rule zip_fst_size [where f = "\<lambda>a. 1 + seq_deep a"])
  finally show ?thesis .
qed

lemma deep_merged: "deep (merged alts) \<le> 1 + alts_size alts"
proof (cases "length alts = 1 \<and> length (hd alts) = 1")
  case True
  then obtain e where "alts = [[e]]" by (auto simp: length_Suc_conv)
  then show ?thesis by (simp add: merged_def)
next
  case False
  then show ?thesis
    unfolding merged_def if_not_P [OF False] by (simp add: el_group_def el_of_def deep_group del: deep.simps)
qed

lemma direct_size:
  assumes "eliminate_direct_left_rec p ss debts = Inr ((q, qs), debts')"
  shows "alts_size (p_alts q) \<le> alts_size (p_alts p) + 3"
proof -
  define pairs where "pairs = zip (p_alts p) ss"
  define seeds where "seeds = filter (\<lambda>(alt, _). \<not> led_by p alt) pairs"
  define led where "led = filter (\<lambda>(alt, _). led_by p alt) pairs"
  define nt where "nt = filter (\<lambda>(rest, _). rest \<noteq> []) (map (\<lambda>(alt, ss). (tl alt, tl ss)) led)"
  note defs = pairs_def [symmetric] seeds_def [symmetric] led_def [symmetric] nt_def [symmetric]
  have split: "alts_size (map fst seeds) + alts_size (map fst led) \<le> alts_size (p_alts p)"
  proof -
    have "alts_size (map fst seeds) + alts_size (map fst led) = alts_size (map fst pairs)"
      unfolding seeds_def led_def by (induction pairs) auto
    also have "\<dots> \<le> alts_size (p_alts p)"
      using zip_fst_size [of "\<lambda>a. 1 + seq_deep a" "p_alts p" ss] by (simp add: pairs_def alts_size_def comp_def)
    finally show ?thesis .
  qed
  have tails: "alts_size (map fst nt) + length led \<le> alts_size (map fst led)"
  proof -
    have "alts_size (map fst (filter (\<lambda>(rest, _). rest \<noteq> []) (map (\<lambda>(alt, ss). (tl alt, tl ss)) xs))) + length xs \<le> alts_size (map fst xs)"
      if "\<forall>x\<in>set xs. led_by p (fst x)" for xs :: "(seq \<times> source list) list"
      using that by (induction xs) (auto simp: led_size)
    moreover have "\<forall>x\<in>set led. led_by p (fst x)" by (auto simp: led_def)
    ultimately show ?thesis unfolding nt_def by blast
  qed
  show ?thesis
  proof (cases "nt = []")
    case True
    then show ?thesis using assms split by (auto simp: eliminate_direct_left_rec_def Let_def defs)
  next
    case False
    then obtain g where q: "p_alts q = [[merged (map fst seeds), Element (Star (merged (map fst nt)) g) None]]"
      using assms by (auto simp: eliminate_direct_left_rec_def Let_def defs split: if_splits prod.splits)
    have "0 < length led" using False by (auto simp: nt_def)
    moreover have "alts_size (p_alts q) = 2 + deep (merged (map fst seeds)) + deep (merged (map fst nt))" by (simp add: q)
    ultimately show ?thesis
      using split tails deep_merged [of "map fst seeds"] deep_merged [of "map fst nt"] by linarith
  qed
qed

section \<open>The size of the result\<close>

lemma rules_size_simps [simp]:
  "rules_size [] = 0" "rules_size (p # ps) = alts_size (p_alts p) + rules_size ps"
  "rules_size (ps @ qs) = rules_size ps + rules_size qs"
  by (simp_all add: rules_size_def)

lemma rules_size_update: "i < length ps \<Longrightarrow> rules_size (ps[i := q]) + alts_size (p_alts (ps ! i)) = rules_size ps + alts_size (p_alts q)"
  by (induction ps arbitrary: i) (auto split: nat.split)

lemma rules_size_member: "p \<in> set ps \<Longrightarrow> alts_size (p_alts p) \<le> rules_size ps"
  unfolding rules_size_def by (rule member_le_sum_list) auto

lemma alts_size_member: "alt \<in> set alts \<Longrightarrow> 1 + seq_deep alt \<le> alts_size alts"
  unfolding alts_size_def by (rule member_le_sum_list) auto

lemma alts_size_splice:
  "idx < length alts \<Longrightarrow> alts_size (splice idx new alts) + 1 + seq_deep (alts ! idx) = alts_size alts + alts_size new"
proof -
  assume "idx < length alts"
  then have "alts_size alts = alts_size (take idx alts @ (alts ! idx) # drop (Suc idx) alts)"
    using nth_split by metis
  then show ?thesis by (simp add: splice_def)
qed

lemma expand_alts_size:
  assumes "expand_alts guard p alts srcs added = Inr (alts', srcs', added')"
    and "added \<le> MAX_LEFT_RECURSION_ELEMENTS" and "alts_size alts + (MAX_LEFT_RECURSION_ELEMENTS - added) + MAX_LEFT_RECURSION_ELEMENTS + 2 \<le> USIZE_MAX"
  shows "added' \<le> MAX_LEFT_RECURSION_ELEMENTS \<and> added \<le> added' \<and> alts_size alts' + added \<le> alts_size alts + added'"
  using assms
proof (induction guard p alts srcs added rule: expand_alts.induct)
  case (2 guard p alts srcs added)
  show ?case
  proof (cases "find (\<lambda>i. is_hidden_left_recursive (alts ! i) (p_name p)) [0..<length alts]")
    case None
    then show ?thesis using 2 by simp
  next
    case (Some idx)
    then have idx: "idx < length alts" "is_hidden_left_recursive (alts ! idx) (p_name p)" by (auto simp: find_Some_iff)
    obtain a s d where st: "split_hidden p idx alts srcs added = Inr (a, s, d)" "expand_alts guard p a s d = Inr (alts', srcs', added')"
      using "2.prems"(1) Some by (auto simp: res_bind_Inr_iff)
    obtain el rest sq where h: "alts ! idx = el # rest" "nullable_sugar_present el = Some sq"
      using idx(2) unfolding is_hidden_left_recursive_def by (metis hidden_head)
    have c: "charge_expansion p (el # rest) sq added = Inr d" "a = splice idx [sq @ rest, rest] alts"
      using st(1) by (auto simp: split_hidden_def h res_bind_Inr_iff Let_def)
    have le: "1 + seq_deep (el # rest) \<le> alts_size alts" using alts_size_member [OF nth_mem [OF idx(1)]] h(1) by simp
    then have fits: "deep el + MAX_LEFT_RECURSION_ELEMENTS + 2 \<le> USIZE_MAX" using "2.prems"(3) by simp
    note pays = charge_expansion_pays [OF c(1) "2.prems"(2) fits]
    have grow: "alts_size a + added \<le> alts_size alts + d"
      using alts_size_splice [OF idx(1), of "[sq @ rest, rest]"] pays(3) by (simp add: c(2) h(1))
    have "alts_size a + (MAX_LEFT_RECURSION_ELEMENTS - d) + MAX_LEFT_RECURSION_ELEMENTS + 2 \<le> USIZE_MAX"
      using grow pays(1,2) "2.prems"(2,3) by linarith
    from "2.IH" [OF Some st(1) refl refl st(2) pays(1) this] show ?thesis using grow pays(2) by linarith
  qed
qed simp

lemma expand_prods_size:
  assumes "res_fold expand_prod (out, srcs, added) ps = Inr (out', srcs', added')" and "added \<le> MAX_LEFT_RECURSION_ELEMENTS"
    and "rules_size ps + 2 * MAX_LEFT_RECURSION_ELEMENTS + 2 \<le> USIZE_MAX"
  shows "added' \<le> MAX_LEFT_RECURSION_ELEMENTS \<and> added \<le> added' \<and> rules_size out' + added \<le> rules_size (out @ ps) + added'"
  using assms
proof (induction ps arbitrary: out srcs added)
  case (Cons p ps)
  obtain alts s d where e: "expand_alts (sum_list (map length (p_alts p)) + 1) p (p_alts p) (sources_of srcs (p_name p)) added = Inr (alts, s, d)"
    and r: "res_fold expand_prod (out @ [p\<lparr>p_alts := alts\<rparr>], imap_insert (p_name p) s srcs, d) ps = Inr (out', srcs', added')"
    using Cons.prems(1) unfolding res_fold.simps res_bind_Inr_iff expand_prod_def prod.case by (auto simp del: expand_alts.simps)
  have pays: "d \<le> MAX_LEFT_RECURSION_ELEMENTS \<and> added \<le> d \<and> alts_size alts + added \<le> alts_size (p_alts p) + d"
    by (rule expand_alts_size [OF e Cons.prems(2)]) (use Cons.prems(3) in simp)
  have "rules_size ps + 2 * MAX_LEFT_RECURSION_ELEMENTS + 2 \<le> USIZE_MAX" using Cons.prems(3) by simp
  from Cons.IH [OF r _ this] pays show ?case by auto
qed simp

definition sized :: "nat \<Rightarrow> nat \<Rightarrow> paull \<Rightarrow> bool" where
  "sized n size0 st \<longleftrightarrow>
     length (pl_prods st) = n \<and> pl_added st \<le> MAX_LEFT_RECURSION_ELEMENTS \<and> rules_size (pl_prods st) \<le> size0 + pl_added st"

lemma sized_simps [simp]:
  "sized n s (st\<lparr>pl_changed := b\<rparr>) = sized n s st" "sized n s (st\<lparr>pl_gained := k\<rparr>) = sized n s st"
  by (simp_all add: sized_def)

lemma paull_step_size:
  assumes "paull_step keep i st j = Inr st'" and s: "sized n size0 st" and i: "i < n"
  shows "sized n size0 st'"
proof (cases "has_leading_ref_to (pl_prods st ! i) (p_name (pl_prods st ! j))")
  case False
  then show ?thesis using assms by (simp add: paull_step_def Let_def)
next
  case True
  let ?t = "pl_prods st ! i" and ?s = "pl_prods st ! j"
  let ?ts = "sources_of (pl_sources st) (p_name ?t)" and ?ss = "sources_of (pl_sources st) (p_name ?s)"
  have il: "i < length (pl_prods st)" using s i by (simp add: sized_def)
  show ?thesis
  proof (cases "p_name ?s \<in> set keep")
    case True
    have "pl_prods st' = (pl_prods st)[i := fst (substitute_leading_ref_by_token ?t ?ts (p_name ?s))]" "pl_added st' = pl_added st"
      using assms(1) True \<open>has_leading_ref_to ?t (p_name ?s)\<close> by (auto simp: paull_step_def Let_def)
    then show ?thesis
      using s rules_size_update [OF il, of "fst (substitute_leading_ref_by_token ?t ?ts (p_name ?s))"]
        by_token_size [of ?t ?ts "p_name ?s"] by (simp add: sized_def)
  next
    case False
    then obtain gained added where c: "charge_elements ?t ?s (pl_added st) = Inr added"
      and st': "pl_prods st' = (pl_prods st)[i := fst (substitute_leading_ref ?t ?ts ?s ?ss)]" "pl_added st' = added"
      using assms(1) \<open>has_leading_ref_to ?t (p_name ?s)\<close> by (auto simp: paull_step_def Let_def res_bind_Inr_iff)
    have "pl_added st \<le> MAX_LEFT_RECURSION_ELEMENTS" using s by (simp add: sized_def)
    note pays = charge_elements_pays(1,2) [OF c this] charge_elements_pays(3) [OF c this, where ts = ?ts and ss = ?ss]
    then show ?thesis
      using s rules_size_update [OF il, of "fst (substitute_leading_ref ?t ?ts ?s ?ss)"] by (simp add: sized_def st')
  qed
qed

lemma paull_rounds_size:
  assumes "paull_rounds keep i guard st = Inr st'" and "sized n size0 st" and "i < n"
  shows "sized n size0 st'"
  using assms(1,2)
proof (induction guard arbitrary: st)
  case (Suc guard)
  obtain s1 where s1: "res_fold (paull_step keep i) (st\<lparr>pl_changed := False\<rparr>) [0..<i] = Inr s1"
    "(if pl_changed s1 then paull_rounds keep i guard s1 else Inr s1) = Inr st'"
    using Suc.prems(1) by (auto simp: res_bind_Inr_iff)
  have "sized n size0 s1"
    by (rule res_fold_invariant [OF s1(1)]) (use Suc.prems(2) paull_step_size assms(3) in auto)
  then show ?case using Suc.IH s1(2) by (auto split: if_splits)
qed simp

lemma paull_rule_size:
  assumes "paull_rule keep cyclic st i = Inr st'" and s: "sized n size0 st" and i: "i < n"
  shows "sized n (size0 + 3) st'"
proof -
  obtain s1 where s1: "(if exempt_alias (pl_prods st ! i) cyclic then Inr st
        else paull_rounds keep i (length (pl_prods st) + 1) (st\<lparr>pl_gained := 0\<rparr>)) = Inr s1"
    and e: "res_bind (eliminate_direct_left_rec (pl_prods s1 ! i) (sources_of (pl_sources s1) (p_name (pl_prods s1 ! i))) (pl_debts s1))
          (\<lambda>((next, ns), debts). Inr (s1\<lparr>pl_prods := (pl_prods s1)[i := next],
             pl_sources := imap_insert (p_name (pl_prods s1 ! i)) ns (pl_sources s1), pl_debts := debts\<rparr>)) = Inr st'"
    using assms(1) unfolding paull_rule_def res_bind_Inr_iff Let_def by blast
  have mid: "sized n size0 s1"
  proof (cases "exempt_alias (pl_prods st ! i) cyclic")
    case False
    then have "paull_rounds keep i (length (pl_prods st) + 1) (st\<lparr>pl_gained := 0\<rparr>) = Inr s1" using s1 by simp
    then show ?thesis by (rule paull_rounds_size [OF _ _ i]) (simp add: s)
  qed (use s1 s in simp)
  then have il: "i < length (pl_prods s1)" using i by (simp add: sized_def)
  obtain q qs debts where q: "eliminate_direct_left_rec (pl_prods s1 ! i) (sources_of (pl_sources s1) (p_name (pl_prods s1 ! i))) (pl_debts s1) = Inr ((q, qs), debts)"
    and st': "pl_prods st' = (pl_prods s1)[i := q]" "pl_added st' = pl_added s1"
    using e by (auto simp: res_bind_Inr_iff)
  show ?thesis
    using mid rules_size_update [OF il, of q] direct_size [OF q] by (simp add: sized_def st')
qed

lemma paull_rules_size:
  assumes "res_fold (paull_rule keep cyclic) st is = Inr st'" and "sized n size0 st" and "set is \<subseteq> {..<n}"
  shows "sized n (size0 + 3 * length is) st'"
  using assms
proof (induction "is" arbitrary: st size0)
  case (Cons i "is")
  obtain s1 where s1: "paull_rule keep cyclic st i = Inr s1" "res_fold (paull_rule keep cyclic) s1 is = Inr st'"
    using Cons.prems(1) by (auto simp: res_bind_Inr_iff)
  have "sized n (size0 + 3) s1" by (rule paull_rule_size [OF s1(1) Cons.prems(2)]) (use Cons.prems(3) in auto)
  from Cons.IH [OF s1(2) this] Cons.prems(3) show ?case by (simp add: add.assoc)
qed simp

lemma rules_size_set_eq:
  assumes "distinct (names ps)" and "distinct (names qs)" and "set ps = set qs"
  shows "rules_size ps = rules_size qs"
proof -
  have "distinct ps" "distinct qs" using assms(1,2) by (simp_all add: distinct_map)
  then show ?thesis using assms(3) by (simp add: rules_size_def sum_list_distinct_conv_sum_set)
qed

lemma imap_insert_size: "rules_size (map snd (imap_insert k p m)) \<le> alts_size (p_alts p) + rules_size (map snd m)"
  by (induction k p m rule: imap_insert.induct) auto

lemma index_prods_size: "rules_size (map snd (index_prods ps)) \<le> rules_size ps"
proof -
  have "rules_size (map snd (foldl (\<lambda>m p. imap_insert (p_name p) p m) m ps)) \<le> rules_size (map snd m) + rules_size ps" for m
  proof (induction ps arbitrary: m)
    case (Cons p ps)
    from Cons.IH [of "imap_insert (p_name p) p m"] show ?case using imap_insert_size [of "p_name p" p m] by simp
  qed simp
  from this [of "[]"] show ?thesis by (simp add: index_prods_def)
qed

lemma removed_size: "map_of m n = Some p \<Longrightarrow> alts_size (p_alts p) + rules_size (map snd (imap_remove n m)) \<le> rules_size (map snd m)"
proof (induction m)
  case (Cons kv m)
  have "rules_size (map snd (imap_remove n m)) \<le> rules_size (map snd m)" by (induction m) (auto simp: imap_remove_def)
  then show ?case using Cons by (cases kv) (auto simp: imap_remove_def split: if_splits)
qed simp

lemma take_slots_size: "rules_size (take_slots ns slots) \<le> rules_size (map snd slots)"
proof (induction ns slots rule: take_slots.induct)
  case (2 n ns slots)
  then show ?case using removed_size [of slots n] by (cases "map_of slots n") fastforce+
qed simp

lemma eliminated_size:
  assumes "eliminate_left_recursion_keeping g keep = Inr (g', srcs')" and d: "distinct (names (productions g))"
    and "rules_size (productions g) + 2 * MAX_LEFT_RECURSION_ELEMENTS + 2 \<le> USIZE_MAX"
  shows "rules_size (productions g') \<le> rules_size (productions g) + MAX_LEFT_RECURSION_ELEMENTS + 3 * length (productions g)"
proof -
  obtain out srcs added st where e: "expanded g = Inr (out, srcs, added)"
    and f: "res_fold (paull_rule keep (find_leading_ref_cycle_members (topo_order_for_paull out)))
           (paull_start (topo_order_for_paull out) srcs added) [0..<length (topo_order_for_paull out)] = Inr st"
    and g': "g' = grammar_new (take_slots (names (productions g)) (index_prods (pl_prods st)))"
    by (rule eliminate_parts [OF assms(1)])
  let ?ps = "topo_order_for_paull out" and ?qs = "map (\<lambda>p. rebuilt p (p_alts p)) (productions g)"
  have n: "names out = names (productions g)" by (rule expanded_keeps(1) [OF e d])
  then have dout: "distinct (names out)" and len: "length out = length (productions g)" using d by (simp, metis length_map)
  note o' = topo_order_perm [OF dout]
  have qs: "rules_size ?qs = rules_size (productions g)" by (induction "productions g") (auto simp: rules_size_def comp_def)
  have "added \<le> MAX_LEFT_RECURSION_ELEMENTS \<and> rules_size out \<le> rules_size ?qs + added"
    using expand_prods_size [of "[]" "authored_sources (productions g)" 0 ?qs] e assms(3)
    by (simp add: expanded_def expand_nullable_left_prefixes_def qs)
  moreover have "rules_size ?ps = rules_size out" by (rule rules_size_set_eq [OF o'(2) dout o'(1)])
  ultimately have "sized (length ?ps) (rules_size (productions g)) (paull_start ?ps srcs added)"
    by (simp add: sized_def paull_start_def qs)
  from paull_rules_size [OF f this] have "sized (length ?ps) (rules_size (productions g) + 3 * length ?ps) st"
    by (simp add: atLeast0LessThan)
  moreover have "length ?ps = length (productions g)"
  proof -
    have "distinct ?ps" "distinct out" using o'(2) dout by (simp_all add: distinct_map)
    then show ?thesis using o'(1) len by (metis distinct_card)
  qed
  ultimately have "rules_size (pl_prods st) \<le> rules_size (productions g) + 3 * length (productions g) + MAX_LEFT_RECURSION_ELEMENTS"
    by (simp add: sized_def)
  then show ?thesis
    using take_slots_size [of "names (productions g)" "index_prods (pl_prods st)"] index_prods_size [of "pl_prods st"]
    by (simp add: g' grammar_new_def)
qed

end
