(* ===== verification/Tail_Repeats.thy ===== *)
theory Tail_Repeats
  imports Left_Recursion_Language
begin

text \<open>
  What the source-aware repetition check accepts after elimination, and what the tail-repeat
  rewrite means: a rule that repeats itself stands for its lead and any number of separated leads.
\<close>

section \<open>The source-aware check\<close>

lemma res_check_zip:
  assumes "list_all2 m xs ys" and "\<And>x y. x \<in> set xs \<Longrightarrow> m x y \<Longrightarrow> f (x, y) = Inr () \<longleftrightarrow> ok x"
  shows "res_check f (zip xs ys) = Inr () \<longleftrightarrow> list_all ok xs"
  using assms by (induction rule: list_all2_induct) (auto simp: res_bind_Inr_iff)

lemma res_check_zip_alts:
  assumes "mirrors_alts alts sas" and "\<And>alt c s. alt \<in> set alts \<Longrightarrow> c \<in> set alt \<Longrightarrow> mirrors c s \<Longrightarrow> f c s = Inr () \<longleftrightarrow> ok c"
  shows "res_check (\<lambda>(alt, ss). res_check (\<lambda>(c, s). f c s) (zip alt ss)) (zip alts sas) = Inr () \<longleftrightarrow> list_all (list_all ok) alts"
proof (rule res_check_zip [OF assms(1)], unfold prod.case)
  fix alt ss assume "alt \<in> set alts" "list_all2 mirrors alt ss"
  then show "res_check (\<lambda>(c, s). f c s) (zip alt ss) = Inr () \<longleftrightarrow> list_all ok alt"
    using assms(2) by (intro res_check_zip [where m = mirrors]) auto
qed

lemma source_bounds_iff: "mirrors el s \<Longrightarrow> source_bounds el s = Inr () \<longleftrightarrow> bounds_ok el"
proof (induction el arbitrary: s rule: element_induct)
  case (Group alts sp)
  then obtain sas where sas: "src_children s = GroupSources sas" "mirrors_alts alts sas" by (auto split: source_children.splits)
  show ?case
    using res_check_zip_alts [OF sas(2) Group.IH] by (simp add: source_bounds.simps [of "Element (Group alts) sp"] sas(1))
next
  case (Rep mn mx i sp)
  then show ?case by (auto simp: source_bounds.simps [of "Element k sp" for k sp] not_less split: source_children.splits option.splits)
qed (auto simp: source_bounds.simps [of "Element k sp" for k sp] split: source_children.splits)

lemma source_walk_iff: "mirrors el s \<Longrightarrow> source_walk rx nullable el s = Inr () \<longleftrightarrow> loops_consume rx nullable el"
proof (induction el arbitrary: s rule: element_induct)
  case (Group alts sp)
  then obtain sas where sas: "src_children s = GroupSources sas" "mirrors_alts alts sas" by (auto split: source_children.splits)
  show ?case
    using res_check_zip_alts [OF sas(2) Group.IH] by (simp add: source_walk.simps [of rx nullable "Element (Group alts) sp"] sas(1))
next
  case (Rep mn mx i sp)
  then show ?case by (auto simp: source_walk.simps [of rx nullable "Element k sp" for k sp] el_inner_def unbounded_def Let_def split: source_children.splits)
qed (auto simp: source_walk.simps [of rx nullable "Element k sp" for k sp] el_inner_def unbounded_def Let_def split: source_children.splits)

lemma check_sources_iff:
  assumes "sources_mirror ps srcs" and "\<And>el s. mirrors el s \<Longrightarrow> f el s = Inr () \<longleftrightarrow> ok el"
  shows "check_sources f ps srcs = Inr () \<longleftrightarrow> all_elements ok ps"
proof -
  have "res_check (\<lambda>(alt, ss). res_check (\<lambda>(el, s). f el s) (zip alt ss)) (zip (p_alts p) (sources_of srcs (p_name p))) = Inr () \<longleftrightarrow>
      list_all (list_all ok) (p_alts p)" if "p \<in> set ps" for p
    using assms that by (intro res_check_zip_alts) (auto simp: sources_mirror_def)
  then show ?thesis by (simp add: check_sources_def res_check_Inr list_all_iff)
qed

lemma validate_rewrite_iff:
  assumes "sources_mirror (productions g) srcs"
  shows "validate_rewrite_repetitions rx g srcs = Inr () \<longleftrightarrow>
    all_elements bounds_ok (productions g) \<and>
    all_elements (loops_consume rx (non_consuming_rules rx (productions g))) (productions g)"
  using check_sources_iff [OF assms source_bounds_iff] check_sources_iff [OF assms source_walk_iff]
  by (auto simp: validate_rewrite_repetitions_def res_bind_Inr_iff)

section \<open>Tail repetitions\<close>

text \<open>
  A rule that repeats itself from its close phase, written out: the lead, then any number of
  separators each with the lead again.
\<close>

definition tail_written :: "production \<Rightarrow> production" where
  "tail_written p =
     (case p_tail_repeat p of
        Some sep \<Rightarrow> p\<lparr>p_alts := map (\<lambda>alt. alt @ [el_star (el_group [sep @ alt])]) (p_alts p)\<rparr>
      | None \<Rightarrow> p)"

lemma tail_repeat_parts:
  assumes "tail_repeat_of start p = Some (lead, sep)"
  obtains el where "p_alts p = [lead @ [el]]" and "\<And>T L. elang T L el = {[]} \<union> conc (slang T L sep) (L (p_name p))"
proof -
  obtain alt where alt: "p_alts p = [alt]" "2 \<le> length alt"
    using assms by (auto simp: tail_repeat_of_def split: if_splits list.splits)
  obtain inner where inner: "kind_of (last alt) = Opt inner"
    using assms alt by (auto simp: tail_repeat_of_def split: if_splits kind.splits)
  obtain sq where sq: "tail_body inner = Some sq"
    using assms alt inner by (auto simp: tail_repeat_of_def split: if_splits option.splits)
  have p: "2 \<le> length sq" "is_ref_to (last sq) (p_name p)" "lead = butlast alt" "sep = butlast sq"
    using assms alt inner sq by (auto simp: tail_repeat_of_def not_less split: if_splits)
  have body: "elang T L inner = slang T L sq" for T L
    using sq by (cases inner; cases "kind_of inner") (auto simp: tail_body_def split: list.splits)
  have "sq = sep @ [last sq]" using p(1,4) by (cases sq rule: rev_cases) auto
  then have sq_lang: "slang T L sq = conc (slang T L sep) (L (p_name p))" for T L
    using is_ref_to_lang [OF p(2), of T L] by (metis conc_empty_word(2) slang_append slang_simps)
  have "elang T L (last alt) = {[]} \<union> conc (slang T L sep) (L (p_name p))" for T L
    using inner by (cases "last alt") (simp add: body sq_lang)
  moreover have "alt = lead @ [last alt]" using alt(2) p(3) by (cases alt rule: rev_cases) auto
  ultimately show ?thesis using that alt(1) by metis
qed

lemma tail_names: "names (map tail_written ps) = names ps"
  by (auto simp: tail_written_def comp_def split: option.splits)

lemma rewrite_names: "names (map (rewrite_tail_prod start) ps) = names ps"
  by (auto simp: rewrite_tail_prod_def comp_def split: option.splits)

text \<open>The least word set of \<open>X = lead [sep X]\<close> is \<open>lead (sep lead)*\<close>.\<close>

lemma tail_loop_below:
  assumes "X = conc A ({[]} \<union> conc B X)"
  shows "conc A (lstar (conc B A)) \<subseteq> X"
proof -
  have "conc A (lpow n (conc B A)) \<subseteq> X" for n
  proof (induction n)
    case 0
    have "conc A {[]} \<subseteq> conc A ({[]} \<union> conc B X)" by (rule conc_mono) auto
    then show ?case using assms by simp
  next
    case (Suc n)
    have "conc A (lpow (Suc n) (conc B A)) = conc A (conc B (conc A (lpow n (conc B A))))"
      by (simp add: conc_assoc)
    also have "\<dots> \<subseteq> conc A (conc B X)" by (intro conc_mono order_refl Suc.IH)
    also have "\<dots> \<subseteq> conc A ({[]} \<union> conc B X)" by (rule conc_mono) auto
    finally show ?case using assms by simp
  qed
  then show ?thesis by (auto simp: lstar_def conc_UN)
qed

lemma tail_loop_solves:
  assumes "X = conc A (lstar (conc B A))"
  shows "conc A ({[]} \<union> conc B X) = X"
proof -
  have "conc A ({[]} \<union> conc B X) = conc A ({[]} \<union> conc (conc B A) (lstar (conc B A)))" by (simp add: assms conc_assoc)
  then show ?thesis using lstar_unfold [of "conc B A"] assms by simp
qed

lemma tail_repeats_keep:
  assumes d: "distinct (names (productions g))" and none: "\<And>p. p \<in> set (productions g) \<Longrightarrow> p_tail_repeat p = None"
  shows "glang T (map tail_written (productions (rewrite_tail_repeats g start))) = glang T (productions g)"
proof -
  let ?w = "\<lambda>p. tail_written (rewrite_tail_prod start p)"
  have eq: "map tail_written (productions (rewrite_tail_repeats g start)) = map ?w (productions g)"
    by (simp add: rewrite_tail_repeats_def)
  have name: "p_name (?w p) = p_name p" for p
    by (auto simp: tail_written_def rewrite_tail_prod_def split: option.splits)
  have fw: "alang T L (p_alts (?w p)) \<subseteq> L (p_name p)" if "alang T L (p_alts p) = L (p_name p)" "p \<in> set (productions g)" for L p
  proof (cases "tail_repeat_of start p")
    case None
    then show ?thesis using that none by (simp add: rewrite_tail_prod_def tail_written_def)
  next
    case (Some ls)
    obtain lead sep where ls: "ls = (lead, sep)" by (cases ls)
    obtain el where el: "p_alts p = [lead @ [el]]" "elang T L el = {[]} \<union> conc (slang T L sep) (L (p_name p))"
      using tail_repeat_parts [OF Some [unfolded ls]] by metis
    have "L (p_name p) = conc (slang T L lead) ({[]} \<union> conc (slang T L sep) (L (p_name p)))"
      using that(1) el by simp
    from tail_loop_below [OF this] show ?thesis
      using Some ls by (simp add: rewrite_tail_prod_def tail_written_def el_star_def el_group_def el_of_def)
  qed
  have bk: "alang T L (p_alts p) \<subseteq> L (p_name p)" if "alang T L (p_alts (?w p)) = L (p_name p)" "p \<in> set (productions g)" for L p
  proof (cases "tail_repeat_of start p")
    case None
    then show ?thesis using that none by (simp add: rewrite_tail_prod_def tail_written_def)
  next
    case (Some ls)
    obtain lead sep where ls: "ls = (lead, sep)" by (cases ls)
    obtain el where el: "p_alts p = [lead @ [el]]" "elang T L el = {[]} \<union> conc (slang T L sep) (L (p_name p))"
      using tail_repeat_parts [OF Some [unfolded ls]] by metis
    have "L (p_name p) = conc (slang T L lead) (lstar (conc (slang T L sep) (slang T L lead)))"
      using that(1) Some ls by (simp add: rewrite_tail_prod_def tail_written_def el_star_def el_group_def el_of_def)
    from tail_loop_solves [OF this] show ?thesis using el by simp
  qed
  show ?thesis
    unfolding eq
  proof (rule glang_swap [OF d])
    show "distinct (names (map ?w (productions g)))" using d by (simp add: name comp_def)
    show "models T L (map ?w (productions g))" if "solves T L (productions g)" for L
    proof (unfold models_def, intro ballI)
      fix q assume "q \<in> set (map ?w (productions g))"
      then obtain p where p: "p \<in> set (productions g)" "q = ?w p" by auto
      have "alang T L (p_alts p) = L (p_name p)" using that p(1) by (simp add: solves_def)
      from fw [OF this p(1)] show "alang T L (p_alts q) \<subseteq> L (p_name q)" by (simp add: p(2) name)
    qed
    show "models T L (productions g)" if "solves T L (map ?w (productions g))" for L
    proof (unfold models_def, intro ballI)
      fix p assume p: "p \<in> set (productions g)"
      have "alang T L (p_alts (?w p)) = L (p_name p)" using that p by (simp add: solves_def name)
      from bk [OF this p] show "alang T L (p_alts p) \<subseteq> L (p_name p)" .
    qed
  qed
qed

end
