(* ===== verification/Left_Recursion_Results.thy ===== *)
theory Left_Recursion_Results
  imports Left_Recursion_Free Left_Recursion_Size Tail_Repeats
begin

text \<open>
  The properties of left-recursion elimination and of the tail-repeat rewrite, each on a small
  grammar as well, and two grammars on which the elimination leaves left recursion in place.
\<close>

definition leftrec_example :: grammar where
  "leftrec_example = grammar_new
     [prod_new ''e'' [[el_reference ''e'', el_term ''+'', el_reference ''t''], [el_reference ''t'']],
      prod_new ''t'' [[el_term ''x'']]]"

text \<open>The scan for cycles, production by production, for evaluation.\<close>

fun connect_all :: "prod_index \<Rightarrow> production list \<Rightarrow> tarjan \<Rightarrow> tarjan" where
  "connect_all by_name [] st = st"
| "connect_all by_name (p # ps) st =
     connect_all by_name ps
       (if map_of (tj_indices st) (p_name p) = None
        then case_prod (\<lambda>f st. strong_connect by_name [f] st) (open_frame by_name (p_name p) st) else st)"

lemma connect_all_foldl:
  "foldl (\<lambda>st p. if map_of (tj_indices st) (p_name p) = None
       then (case open_frame by_name (p_name p) st of (f, st) \<Rightarrow> strong_connect by_name [f] st) else st) st ps =
   connect_all by_name ps st"
  by (induction ps arbitrary: st) auto

lemma find_cycles_evaluate:
  "find_leading_ref_cycle_members ps =
     tj_cyclic (connect_all (index_prods ps) ps
       \<lparr>tj_index = 0, tj_stack = [], tj_on_stack = [], tj_indices = [], tj_lowlinks = [], tj_cyclic = []\<rparr>)"
  unfolding find_leading_ref_cycle_members_def Let_def connect_all_foldl ..

lemmas leftrec_evaluate =
  eliminate_left_recursion_keeping_def expand_nullable_left_prefixes_def expand_prod_def is_hidden_left_recursive_def
  nullable_sugar_present_def topo_order_for_paull_def find_cycles_evaluate strong_connect.simps
  leading_refs_def targets_of_def indexed_def index_prods_def List.map_filter_simps
  open_frame_def lower_link_def pop_component_def is_cycle_def close_root_def carry_up_def
  paull_rule_def exempt_alias_def paull_step_def has_leading_ref_to_def charge_substitution_def charge_elements_def
  charge_alt_def led_by_def checked_mul_def saturating_add_def saturating_mul_def deep_size_def own_size_def
  substitute_leading_ref_def substitute_alt_def eliminate_direct_left_rec_def seeds_reference_self_def merged_def
  merged_source_def generated_group_source_def with_children_def sources_of_def authored_sources_def
  imap_get_or_def imap_remove_def iset_insert_def iset_extend_def rebuilt_def children_def el_inner_def is_ref_to_def ref_name_def
  fresh_debt_counter_def origin_of_def or_span_def
  USIZE_MAX_def MAX_LEFT_RECURSION_ELEMENTS_def MAX_LEFT_RECURSION_EXPANSION_def
  topo_visit.simps Let_def refs_in_def grammar_new_def prod_new_def default_production_def
  el_term_def el_reference_def el_star_def el_group_def el_of_def

definition leftrec_result :: "grammar \<times> rewrite_sources" where
  "leftrec_result =
     (case eliminate_left_recursion_keeping leftrec_example [] of Inr r \<Rightarrow> r | Inl _ \<Rightarrow> (leftrec_example, []))"

lemma leftrec_example_run:
  "eliminate_left_recursion_keeping leftrec_example [] = Inr (fst leftrec_result, snd leftrec_result)"
  by (simp add: leftrec_result_def leftrec_example_def leftrec_evaluate)

lemma leftrec_example_facts:
  "distinct (names (productions leftrec_example))" "token_classes T [] (productions leftrec_example)"
  "rules_size (productions leftrec_example) + 2 * MAX_LEFT_RECURSION_ELEMENTS + 2 \<le> USIZE_MAX"
  "p \<in> set (productions leftrec_example) \<Longrightarrow> nonempty_alts (p_alts p)"
  by (auto simp: leftrec_example_def leftrec_evaluate token_classes_def nonempty_alts_def)

section \<open>What elimination keeps and what it removes\<close>

text \<open>
  C1: Left-recursion elimination keeps the language of every rule: whenever the pass returns, on
  a grammar with distinct rule names and for any token classes left in place, each rule matches
  exactly the words it matched before.
\<close>

theorem left_recursion_language:
  assumes "eliminate_left_recursion_keeping g keep = Inr (g', srcs)" and "distinct (names (productions g))"
    and "token_classes T keep (productions g)"
  shows "glang T (productions g') = glang T (productions g)"
  by (rule eliminate_keeps(1) [OF assms])

lemma left_recursion_language_witness:
  "glang literal_terminals (productions (fst leftrec_result)) = glang literal_terminals (productions leftrec_example)"
  by (rule left_recursion_language [OF leftrec_example_run leftrec_example_facts(1,2)])



text \<open>
  C3: Elimination adds at most its limit to a grammar: the size of the result, every element all
  the way down and every alternative, exceeds the size of the input by no more than the element
  limit and three for each rule rewritten to a loop, whatever the substitutions.
\<close>

theorem left_recursion_bounded:
  assumes "eliminate_left_recursion_keeping g keep = Inr (g', srcs)" and "distinct (names (productions g))"
    and "rules_size (productions g) + 2 * MAX_LEFT_RECURSION_ELEMENTS + 2 \<le> USIZE_MAX"
  shows "rules_size (productions g') \<le>
    rules_size (productions g) + MAX_LEFT_RECURSION_ELEMENTS + 3 * length (productions g)"
  by (rule eliminated_size [OF assms])

lemma left_recursion_bounded_witness:
  "rules_size (productions (fst leftrec_result)) \<le>
     rules_size (productions leftrec_example) + MAX_LEFT_RECURSION_ELEMENTS + 3 * length (productions leftrec_example)"
  by (rule left_recursion_bounded [OF leftrec_example_run leftrec_example_facts(1,3)])



text \<open>
  C39: The scan for cycles is exact: the rules it returns are those that the graph of leading
  references leads back to themselves.
\<close>

theorem leading_cycles_found:
  "set (find_leading_ref_cycle_members ps) = {n. (n, n) \<in> (edges (index_prods ps))\<^sup>+}"
  by (rule cycle_members_exact)

text \<open>
  C40: The tail-repeat rewrite keeps the language, when a rule that repeats itself is read as its
  lead and any number of separators each followed by the lead.
\<close>

theorem tail_repeats_language:
  assumes "distinct (names (productions g))" and "\<And>p. p \<in> set (productions g) \<Longrightarrow> p_tail_repeat p = None"
  shows "glang T (map tail_written (productions (rewrite_tail_repeats g start))) = glang T (productions g)"
  by (rule tail_repeats_keep [OF assms])

definition tail_example :: grammar where
  "tail_example = grammar_new
     [prod_new ''s'' [[el_reference ''l'']],
      prod_new ''l'' [[el_term ''x'', el_opt (el_group [[el_term '','', el_reference ''l'']])]]]"

lemma tail_repeats_language_witness:
  "glang literal_terminals (map tail_written (productions (rewrite_tail_repeats tail_example ''s''))) =
   glang literal_terminals (productions tail_example)"
  by (rule tail_repeats_language) (auto simp: tail_example_def grammar_new_def prod_new_def default_production_def)

section \<open>Left recursion that survives\<close>

text \<open>
  Two rules that are left-recursive through each other and each through itself: the loop made of
  the first holds a group, the second begins with that group, and no later step looks into it. The
  rule \<open>a\<close> of the result still begins with itself.
\<close>

definition mutual_example :: grammar where
  "mutual_example = grammar_new
     [prod_new ''a'' [[el_reference ''a'', el_term ''x''], [el_reference ''b'', el_term ''y''], [el_term ''z'']],
      prod_new ''b'' [[el_reference ''b'', el_term ''u''], [el_reference ''a'', el_term ''w''], [el_term ''v'']]]"

lemma debt_of_a: "fresh_from (hinted [CHR ''d'', CHR ''e'', CHR ''b'', CHR ''t'', CHR ''_'', debt_char (utf8_next CHR ''a'' [])] ''_'') [] 0 = ''debt_a''"
  by code_simp

lemma mutual_recursion_survives:
  "\<exists>g'. eliminate_left_recursion mutual_example = Inr g' \<and>
     p_alts (hd (productions g')) =
       [[el_group
           [[el_group [[el_reference ''a'', el_term ''w''], [el_term ''v'']], el_star (el_term ''u''), el_term ''y''],
            [el_term ''z'']],
         Element (Star (el_term ''x'') (Some ''debt_a'')) None]]"
  by (simp add: eliminate_left_recursion_def mutual_example_def leftrec_evaluate debt_of_a)

text \<open>
  An empty alternative and an alias: the alias is exempt, since its rules are on no leading cycle
  when the cycles are scanned, and the substitution of the empty alternative makes one. The result
  has \<open>a\<close> begin with \<open>b\<close> and \<open>b\<close> with \<open>a\<close>.
\<close>

definition empty_lead_example :: grammar where
  "empty_lead_example = grammar_new
     [prod_new ''a'' [[el_reference ''n'', el_reference ''b'', el_term ''x''], [el_term ''z'']],
      prod_new ''b'' [[el_reference ''a'']], prod_new ''n'' [[el_term ''k''], []]]"

lemma empty_lead_survives:
  "\<exists>g'. eliminate_left_recursion empty_lead_example = Inr g' \<and>
     map p_alts (productions g') =
       [[[el_term ''k'', el_reference ''b'', el_term ''x''], [el_reference ''b'', el_term ''x''], [el_term ''z'']],
        [[el_reference ''a'']], [[el_term ''k''], []]]"
  by (simp add: eliminate_left_recursion_def empty_lead_example_def leftrec_evaluate)

end
