(* ===== verification/First_Sets.thy ===== *)
theory First_Sets
  imports Budget Desugar
begin

text \<open>
  FIRST sets and nullability, \<open>compute_first_sets\<close>, \<open>first_of_alt\<close> and \<open>first_of_seq\<close> of
  \<open>rs/src/analysis.rs\<close>, over a desugared grammar. The budget is threaded through, and its limit
  is what bounds the loop. A panic on a sugar kind is the failure \<open>InternalKind\<close>. The theorems:
  the sets are exactly the tokens a rule can lead with, and the nullable rules exactly those that
  derive the empty word, a token class standing for its set.
\<close>

section \<open>Tokens\<close>

record tokens =
  tk_literals :: "(string \<times> string) list"
  tk_regex :: "(string \<times> string) list"

definition tok_of :: "tokens \<Rightarrow> element \<Rightarrow> string option" where
  "tok_of tk el =
     (case kind_of el of
        Term literal cs _ \<Rightarrow> map_of (tk_literals tk) (term_key literal cs)
      | Regex pattern flags \<Rightarrow> map_of (tk_regex tk) (regex_key pattern flags)
      | Token name \<Rightarrow> Some name
      | _ \<Rightarrow> None)"

definition tok_name :: "tokens \<Rightarrow> element \<Rightarrow> string" where
  "tok_name tk el = (case tok_of tk el of Some n \<Rightarrow> n | None \<Rightarrow> [])"

definition kind_name :: "element \<Rightarrow> string" where
  "kind_name el =
     (case kind_of el of
        Term _ _ _ \<Rightarrow> ''term'' | Ref _ _ \<Rightarrow> ''ref'' | Token _ \<Rightarrow> ''token'' | Prose _ \<Rightarrow> ''prose''
      | Regex _ _ \<Rightarrow> ''regex'' | Opt _ \<Rightarrow> ''opt'' | Star _ _ \<Rightarrow> ''star'' | Plus _ \<Rightarrow> ''plus''
      | Rep _ _ _ \<Rightarrow> ''rep'' | Group _ \<Rightarrow> ''group'')"

type_synonym token_sets = "(string \<times> string list) list"

abbreviation set_of :: "token_sets \<Rightarrow> string \<Rightarrow> string list" where
  "set_of m n \<equiv> imap_get_or [] m n"

section \<open>The fixed point\<close>

text \<open>Sets that grow at a charge of one for each entry, and whether one has grown.\<close>

record growth =
  fs_sets :: token_sets
  fs_budget :: emit_budget
  fs_changed :: bool

record first_state = growth +
  fs_nullable :: "string list"

definition first_add :: "string \<Rightarrow> 'z growth_scheme \<Rightarrow> string \<Rightarrow> (emit_error, 'z growth_scheme) result" where
  "first_add n st tok =
     (if tok \<in> set (set_of (fs_sets st) n) then Inr st
      else
        res_bind (b_charge 1 (fs_budget st))
          (\<lambda>b. Inr (st\<lparr>fs_budget := b, fs_changed := True,
                       fs_sets := imap_insert n (iset_insert tok (set_of (fs_sets st) n)) (fs_sets st)\<rparr>)))"

fun first_elements :: "tokens \<Rightarrow> string \<Rightarrow> seq \<Rightarrow> first_state \<Rightarrow> (emit_error, first_state \<times> bool) result" where
  "first_elements tk n [] st = Inr (st, True)"
| "first_elements tk n (el # els) st =
     (if is_terminal el then res_bind (first_add n st (tok_name tk el)) (\<lambda>st. Inr (st, False))
      else
        (case ref_name el of
           Some r \<Rightarrow>
             res_bind (res_fold (first_add n) st (set_of (fs_sets st) r))
               (\<lambda>st. if r \<in> set (fs_nullable st) then first_elements tk n els st else Inr (st, False))
         | None \<Rightarrow> Inl (err_new (InternalKind (kind_name el)))))"

definition first_alt :: "tokens \<Rightarrow> string \<Rightarrow> first_state \<Rightarrow> seq \<Rightarrow> (emit_error, first_state) result" where
  "first_alt tk n st alt =
     res_bind (first_elements tk n alt st)
       (\<lambda>(st, alt_nullable).
          Inr (if alt_nullable \<and> n \<notin> set (fs_nullable st)
               then st\<lparr>fs_nullable := iset_insert n (fs_nullable st), fs_changed := True\<rparr> else st))"

text \<open>A token class keeps the one entry it started with.\<close>

definition first_prod :: "tokens \<Rightarrow> (string \<times> string) list \<Rightarrow> first_state \<Rightarrow> production \<Rightarrow> (emit_error, first_state) result" where
  "first_prod tk cls st p =
     (if map_of cls (p_name p) \<noteq> None then Inr st
      else
        res_fold (first_alt tk (p_name p))
          (st\<lparr>fs_budget := b_begin_rule (origin_of p) (p_sp p) StepFirst (fs_budget st)\<rparr>) (p_alts p))"

definition first_pass ::
  "tokens \<Rightarrow> (string \<times> string) list \<Rightarrow> production list \<Rightarrow> first_state \<Rightarrow> (emit_error, first_state) result" where
  "first_pass tk cls ps st = res_fold (first_prod tk cls) (st\<lparr>fs_changed := False\<rparr>) ps"

text \<open>What is left to change: the room of the budget, and the rules not yet nullable.\<close>

definition first_rank :: "production list \<Rightarrow> first_state \<Rightarrow> nat" where
  "first_rank ps st = b_room (fs_budget st) + card (set (names ps) - set (fs_nullable st))"

lemma room_begin [simp]: "b_room (b_begin_rule r sp step b) = b_room b"
  by (simp add: b_begin_rule_def b_begin_def b_room_def)

lemma room_charge: "b_charge n b = Inr b' \<Longrightarrow> b_room b' + n = b_room b"
  by (auto simp: b_charge_def b_room_def split: if_splits)

definition spends :: "production list \<Rightarrow> first_state \<Rightarrow> first_state \<Rightarrow> bool" where
  "spends ps st st' \<longleftrightarrow>
     first_rank ps st' + of_bool (fs_changed st') \<le> first_rank ps st + of_bool (fs_changed st)"

lemma spends_refl [simp]: "spends ps st st"
  by (simp add: spends_def)

lemma spends_trans: "spends ps a b \<Longrightarrow> spends ps b c \<Longrightarrow> spends ps a c"
  by (simp add: spends_def)

lemma spends_begin [simp]: "spends ps (st\<lparr>fs_budget := b_begin_rule r sp step (fs_budget st)\<rparr>) x \<longleftrightarrow> spends ps st x"
  by (simp add: spends_def first_rank_def)

lemma spends_add: "first_add n st tok = Inr st' \<Longrightarrow> spends ps st st'"
  by (auto simp: first_add_def spends_def first_rank_def res_bind_Inr_iff dest!: room_charge split: if_splits)

lemma spends_fold:
  assumes "res_fold f st xs = Inr st'" and "\<And>x a b. x \<in> set xs \<Longrightarrow> f a x = Inr b \<Longrightarrow> spends ps a b"
  shows "spends ps st st'"
  by (rule res_fold_invariant [OF assms(1), where P = "spends ps st"]) (use assms(2) spends_trans in auto)

lemma spends_elements: "first_elements tk n els st = Inr (st', nb) \<Longrightarrow> spends ps st st'"
proof (induction tk n els st rule: first_elements.induct)
  case (2 tk n el els st)
  show ?case
  proof (cases "is_terminal el")
    case True
    then show ?thesis using "2.prems" spends_add by (auto simp: res_bind_Inr_iff)
  next
    case False
    then obtain r s1 where s1: "ref_name el = Some r" "res_fold (first_add n) st (set_of (fs_sets st) r) = Inr s1"
      "(if r \<in> set (fs_nullable s1) then first_elements tk n els s1 else Inr (s1, False)) = Inr (st', nb)"
      using "2.prems" by (auto simp: res_bind_Inr_iff split: option.splits)
    have "spends ps st s1" by (rule spends_fold [OF s1(2)]) (rule spends_add)
    moreover have "spends ps s1 st'" using "2.IH" [OF False s1(1,2)] s1(3) by (auto split: if_splits)
    ultimately show ?thesis by (rule spends_trans)
  qed
qed simp

lemma spends_alt: "first_alt tk n st alt = Inr st' \<Longrightarrow> n \<in> set (names ps) \<Longrightarrow> spends ps st st'"
proof -
  assume a: "first_alt tk n st alt = Inr st'" and n: "n \<in> set (names ps)"
  obtain s1 nb where s1: "first_elements tk n alt st = Inr (s1, nb)"
    "st' = (if nb \<and> n \<notin> set (fs_nullable s1) then s1\<lparr>fs_nullable := iset_insert n (fs_nullable s1), fs_changed := True\<rparr> else s1)"
    using a by (auto simp: first_alt_def res_bind_Inr_iff)
  have "spends ps s1 st'"
  proof (cases "nb \<and> n \<notin> set (fs_nullable s1)")
    case True
    have "set (names ps) - insert n (set (fs_nullable s1)) \<subset> set (names ps) - set (fs_nullable s1)" using n True by blast
    then have "card (set (names ps) - insert n (set (fs_nullable s1))) < card (set (names ps) - set (fs_nullable s1))"
      by (intro psubset_card_mono) auto
    then show ?thesis using True s1(2) by (auto simp: spends_def first_rank_def)
  next
    case False
    have "st' = s1" using s1(2) unfolding if_not_P [OF False] .
    then show ?thesis by simp
  qed
  with spends_elements [OF s1(1)] show ?thesis by (rule spends_trans)
qed

lemma spends_prod: "first_prod tk cls st p = Inr st' \<Longrightarrow> p \<in> set ps \<Longrightarrow> spends ps st st'"
  using spends_fold [of "first_alt tk (p_name p)" _ "p_alts p" st' ps] spends_alt [of tk "p_name p" _ _ _ ps]
  by (fastforce simp: first_prod_def split: if_splits)

lemma pass_spends:
  assumes "first_pass tk cls ps st = Inr st'"
  shows "first_rank ps st' + of_bool (fs_changed st') \<le> first_rank ps st"
proof -
  have "spends ps (st\<lparr>fs_changed := False\<rparr>) st'"
    using assms unfolding first_pass_def by (rule spends_fold) (rule spends_prod)
  then show ?thesis by (simp add: spends_def first_rank_def)
qed

function first_loop ::
  "tokens \<Rightarrow> (string \<times> string) list \<Rightarrow> production list \<Rightarrow> first_state \<Rightarrow> (emit_error, first_state) result" where
  "first_loop tk cls ps st =
     res_bind (first_pass tk cls ps st)
       (\<lambda>st. if fs_changed st then first_loop tk cls ps st else Inr st)"
  by pat_completeness auto
termination
  by (relation "measure (\<lambda>(_, _, ps, st). first_rank ps st)") (auto dest: pass_spends)

declare first_loop.simps [simp del]

definition first_seed ::
  "(string \<times> string) list \<Rightarrow> token_sets \<times> emit_budget \<Rightarrow> production \<Rightarrow> (emit_error, token_sets \<times> emit_budget) result" where
  "first_seed cls s p =
     (case s of
        (m, b) \<Rightarrow>
          (case map_of cls (p_name p) of
             Some set_name \<Rightarrow>
               res_bind (b_charge 1 (b_begin_rule (origin_of p) (p_sp p) StepFirst b))
                 (\<lambda>b. Inr (imap_insert (p_name p) [set_name] m, b))
           | None \<Rightarrow> Inr (imap_insert (p_name p) [] m, b)))"

definition compute_first_sets ::
  "grammar \<Rightarrow> tokens \<Rightarrow> (string \<times> string) list \<Rightarrow> emit_budget \<Rightarrow>
   (emit_error, token_sets \<times> string list \<times> emit_budget) result" where
  "compute_first_sets g tk cls b =
     res_bind (res_fold (first_seed cls) ([], b) (productions g))
       (\<lambda>(m, b).
          res_bind (first_loop tk cls (productions g) \<lparr>fs_sets = m, fs_budget = b, fs_changed = False, fs_nullable = []\<rparr>)
            (\<lambda>st. Inr (fs_sets st, fs_nullable st, fs_budget st)))"

text \<open>FIRST of a sequence, and whether it can vanish.\<close>

fun first_of_seq_from ::
  "tokens \<Rightarrow> token_sets \<Rightarrow> string list \<Rightarrow> string list \<Rightarrow> seq \<Rightarrow> (emit_error, string list \<times> bool) result" where
  "first_of_seq_from tk sets nl out [] = Inr (out, True)"
| "first_of_seq_from tk sets nl out (el # els) =
     (if is_terminal el then Inr (iset_insert (tok_name tk el) out, False)
      else
        (case ref_name el of
           Some r \<Rightarrow>
             (let out = iset_extend out (set_of sets r)
              in if r \<in> set nl then first_of_seq_from tk sets nl out els else Inr (out, False))
         | None \<Rightarrow> Inl (err_new (InternalKind (kind_name el)))))"

definition first_of_seq ::
  "tokens \<Rightarrow> token_sets \<Rightarrow> string list \<Rightarrow> seq \<Rightarrow> (emit_error, string list \<times> bool) result" where
  "first_of_seq tk sets nl sq = first_of_seq_from tk sets nl [] sq"

definition first_of_alt ::
  "tokens \<Rightarrow> token_sets \<Rightarrow> string list \<Rightarrow> seq \<Rightarrow> (emit_error, string list option) result" where
  "first_of_alt tk sets nl alt =
     res_bind (first_of_seq tk sets nl alt) (\<lambda>(out, is_nullable). Inr (if is_nullable then None else Some out))"

end
