(* ===== verification/First_Language.thy ===== *)
theory First_Language
  imports First_Sets
begin

text \<open>
  FIRST sets against the language of the grammar, over words of token names: a terminal matches
  the one-token word of its allocated name, and a token class stands for its set. The computed
  sets are the least relation \<open>leads\<close>, every word of a rule begins with a token of its set, and
  where every rule derives something the two coincide.
\<close>

section \<open>The language of tokens\<close>

definition tok_words :: "tokens \<Rightarrow> string terminals" where
  "tok_words tk k = (if is_terminal (Element k None) then {[tok_name tk (Element k None)]} else {})"

text \<open>The grammar with every token class replaced by its set.\<close>

definition classed :: "(string \<times> string) list \<Rightarrow> production \<Rightarrow> production" where
  "classed cls p = (case map_of cls (p_name p) of Some s \<Rightarrow> p\<lparr>p_alts := [[el_token s]]\<rparr> | None \<Rightarrow> p)"

lemma p_name_classed [simp]: "p_name (classed cls p) = p_name p"
  by (simp add: classed_def split: option.splits)

abbreviation tlang :: "tokens \<Rightarrow> production list \<Rightarrow> string env" where
  "tlang tk ps \<equiv> glang (tok_words tk) ps"

lemma tok_name_sp: "tok_name tk (Element k sp) = tok_name tk (Element k None)"
  by (simp add: tok_name_def tok_of_def)

lemma elang_terminal: "is_terminal el \<Longrightarrow> elang (tok_words tk) L el = {[tok_name tk el]}"
proof -
  obtain k sp where el: "el = Element k sp" by (cases el)
  assume "is_terminal el"
  then show ?thesis using tok_name_sp [of tk k sp] unfolding el
    by (cases k) (simp_all add: is_terminal_def tok_words_def)
qed

lemma elang_ref: "ref_name el = Some r \<Longrightarrow> elang T L el = L r"
  by (cases el; cases "kind_of el") (auto simp: ref_name_def)

lemma leaf_cases:
  assumes "is_leaf el" obtains "is_terminal el" | r where "\<not> is_terminal el" and "ref_name el = Some r"
  using assms by (cases "kind_of el") (auto simp: is_leaf_def is_ref_def is_terminal_def ref_name_def)

lemma ref_not_terminal: "ref_name el = Some r \<Longrightarrow> \<not> is_terminal el"
  by (cases "kind_of el") (auto simp: is_terminal_def ref_name_def)

lemma leaves_classed: "all_elements is_leaf ps \<Longrightarrow> all_elements is_leaf (map (classed cls) ps)"
  by (auto simp: classed_def list_all_iff el_token_def el_of_def is_leaf_def is_terminal_def split: option.splits)

section \<open>What a rule leads with\<close>

inductive leads :: "tokens \<Rightarrow> production list \<Rightarrow> string \<Rightarrow> string \<Rightarrow> bool" for tk ps where
  leads_token: "p \<in> set ps \<Longrightarrow> pre @ el # post \<in> set (p_alts p) \<Longrightarrow> [] \<in> slang (tok_words tk) (tlang tk ps) pre \<Longrightarrow>
    is_terminal el \<Longrightarrow> leads tk ps (p_name p) (tok_name tk el)"
| leads_ref: "p \<in> set ps \<Longrightarrow> pre @ el # post \<in> set (p_alts p) \<Longrightarrow> [] \<in> slang (tok_words tk) (tlang tk ps) pre \<Longrightarrow>
    ref_name el = Some r \<Longrightarrow> leads tk ps r t \<Longrightarrow> leads tk ps (p_name p) t"

section \<open>Soundness of the pass\<close>

definition sound_first :: "tokens \<Rightarrow> production list \<Rightarrow> first_state \<Rightarrow> bool" where
  "sound_first tk ps st \<longleftrightarrow>
     (\<forall>n t. t \<in> set (set_of (fs_sets st) n) \<longrightarrow> leads tk ps n t) \<and>
     (\<forall>n\<in>set (fs_nullable st). [] \<in> tlang tk ps n)"

lemma set_of_insert: "set_of (imap_insert n v m) k = (if k = n then v else set_of m k)"
  by (simp add: imap_get_or_def)

lemma sound_add: "first_add n st t = Inr st' \<Longrightarrow> sound_first tk ps st \<Longrightarrow> leads tk ps n t \<Longrightarrow> sound_first tk ps st'"
  by (auto simp: first_add_def sound_first_def res_bind_Inr_iff set_of_insert split: if_splits)

lemma add_nullable: "first_add n st t = Inr st' \<Longrightarrow> fs_nullable st' = fs_nullable st"
  by (auto simp: first_add_def res_bind_Inr_iff split: if_splits)

lemma adds_nullable: "res_fold (first_add n) st ts = Inr st' \<Longrightarrow> fs_nullable st' = fs_nullable st"
  by (rule res_fold_invariant [where P = "\<lambda>s. fs_nullable s = fs_nullable st"]) (auto dest: add_nullable)

lemma sound_elements:
  assumes "first_elements tk (p_name p) els st = Inr (st', nb)" and "sound_first tk ps st"
    and p: "p \<in> set ps" "pre @ els \<in> set (p_alts p)" "[] \<in> slang (tok_words tk) (tlang tk ps) pre"
  shows "sound_first tk ps st' \<and> (nb \<longrightarrow> [] \<in> slang (tok_words tk) (tlang tk ps) (pre @ els))"
  using assms
proof (induction tk "p_name p" els st arbitrary: pre rule: first_elements.induct)
  case (2 tk el els st)
  show ?case
  proof (cases "is_terminal el")
    case True
    then have "leads tk ps (p_name p) (tok_name tk el)" using "2.prems" by (intro leads_token) auto
    then show ?thesis using True "2.prems"(1,2) by (auto simp: res_bind_Inr_iff dest: sound_add)
  next
    case False
    then obtain r s1 where s1: "ref_name el = Some r" "res_fold (first_add (p_name p)) st (set_of (fs_sets st) r) = Inr s1"
      "(if r \<in> set (fs_nullable s1) then first_elements tk (p_name p) els s1 else Inr (s1, False)) = Inr (st', nb)"
      using "2.prems"(1) by (auto simp: res_bind_Inr_iff split: option.splits)
    have "leads tk ps (p_name p) t" if "t \<in> set (set_of (fs_sets st) r)" for t
      by (rule leads_ref [OF "2.prems"(3,4,5) s1(1)]) (use that "2.prems"(2) in \<open>auto simp: sound_first_def\<close>)
    then have so: "sound_first tk ps s1"
      using res_fold_invariant [OF s1(2), of "sound_first tk ps"] "2.prems"(2) sound_add by metis
    show ?thesis
    proof (cases "r \<in> set (fs_nullable s1)")
      case True
      then have "[] \<in> tlang tk ps r" using so by (simp add: sound_first_def)
      then have "[] \<in> slang (tok_words tk) (tlang tk ps) (pre @ [el])" using "2.prems"(5) by (simp add: elang_ref [OF s1(1)])
      with "2.hyps" [OF False s1(1,2) True _ so "2.prems"(3), of "pre @ [el]"] s1(3) True "2.prems"(4) show ?thesis by simp
    qed (use s1 so in auto)
  qed
qed simp

lemma sound_alt:
  assumes "first_alt tk (p_name p) st alt = Inr st'" and "sound_first tk ps st" and "p \<in> set ps" and "alt \<in> set (p_alts p)"
  shows "sound_first tk ps st'"
proof -
  obtain s1 nb where s1: "first_elements tk (p_name p) alt st = Inr (s1, nb)"
    "st' = (if nb \<and> p_name p \<notin> set (fs_nullable s1) then s1\<lparr>fs_nullable := iset_insert (p_name p) (fs_nullable s1), fs_changed := True\<rparr> else s1)"
    using assms(1) by (auto simp: first_alt_def res_bind_Inr_iff)
  have so: "sound_first tk ps s1" "nb \<longrightarrow> [] \<in> slang (tok_words tk) (tlang tk ps) alt"
    using sound_elements [OF s1(1) assms(2,3), of "[]"] assms(4) by auto
  then have "nb \<longrightarrow> [] \<in> tlang tk ps (p_name p)" using glang_alt [OF assms(3,4), of "tok_words tk"] by blast
  then show ?thesis using so(1) unfolding s1(2) by (auto simp: sound_first_def)
qed

lemma sound_pass:
  assumes "first_pass tk cls ps st = Inr st'" and "sound_first tk (map (classed cls) ps) st"
  shows "sound_first tk (map (classed cls) ps) st'"
proof -
  have flags: "sound_first tk qs (s\<lparr>fs_changed := b\<rparr>) = sound_first tk qs s" "sound_first tk qs (s\<lparr>fs_budget := c\<rparr>) = sound_first tk qs s"
    for qs s b c by (simp_all add: sound_first_def)
  have one: "sound_first tk (map (classed cls) ps) b"
    if "p \<in> set ps" "sound_first tk (map (classed cls) ps) a" "first_prod tk cls a p = Inr b" for p a b
  proof (cases "map_of cls (p_name p)")
    case None
    then have c: "classed cls p = p" by (simp add: classed_def)
    have p: "p \<in> set (map (classed cls) ps)" using that(1) c by force
    have f: "res_fold (first_alt tk (p_name p)) (a\<lparr>fs_budget := b_begin_rule (origin_of p) (p_sp p) StepFirst (fs_budget a)\<rparr>) (p_alts p) = Inr b"
      using that(3) None by (simp add: first_prod_def)
    show ?thesis
      by (rule res_fold_invariant [OF f]) (use that(2) sound_alt p flags in auto)
  qed (use that in \<open>simp add: first_prod_def\<close>)
  show ?thesis
    by (rule res_fold_invariant [OF assms(1) [unfolded first_pass_def]]) (use assms(2) flags one in auto)
qed

section \<open>What a pass that changes nothing leaves\<close>

fun alt_closed :: "tokens \<Rightarrow> token_sets \<Rightarrow> string list \<Rightarrow> string \<Rightarrow> seq \<Rightarrow> bool" where
  "alt_closed tk sets nl n [] = True"
| "alt_closed tk sets nl n (el # els) =
     (if is_terminal el then tok_name tk el \<in> set (set_of sets n)
      else (case ref_name el of
              Some r \<Rightarrow> set (set_of sets r) \<subseteq> set (set_of sets n) \<and> (r \<in> set nl \<longrightarrow> alt_closed tk sets nl n els)
            | None \<Rightarrow> True))"

definition vanishes :: "string list \<Rightarrow> seq \<Rightarrow> bool" where
  "vanishes nl alt = list_all (\<lambda>el. case ref_name el of Some r \<Rightarrow> r \<in> set nl | None \<Rightarrow> False) alt"

lemma add_unchanged: "first_add n st t = Inr st' \<Longrightarrow> \<not> fs_changed st' \<Longrightarrow> st' = st \<and> t \<in> set (set_of (fs_sets st) n)"
  by (auto simp: first_add_def res_bind_Inr_iff split: if_splits)

lemma adds_unchanged:
  "res_fold (first_add n) st ts = Inr st' \<Longrightarrow> \<not> fs_changed st' \<Longrightarrow> st' = st \<and> set ts \<subseteq> set (set_of (fs_sets st) n)"
proof (induction ts arbitrary: st)
  case (Cons t ts)
  then obtain s1 where s1: "first_add n st t = Inr s1" "res_fold (first_add n) s1 ts = Inr st'" by (auto simp: res_bind_Inr_iff)
  from Cons.IH [OF s1(2) Cons.prems(2)] add_unchanged [OF s1(1)] Cons.prems(2) show ?case by auto
qed simp

lemma elements_unchanged:
  "first_elements tk n els st = Inr (st', nb) \<Longrightarrow> \<not> fs_changed st' \<Longrightarrow>
   st' = st \<and> alt_closed tk (fs_sets st) (fs_nullable st) n els \<and> (nb \<longleftrightarrow> vanishes (fs_nullable st) els)"
proof (induction tk n els st rule: first_elements.induct)
  case (2 tk n el els st)
  show ?case
  proof (cases "is_terminal el")
    case True
    then have "ref_name el = None" using ref_not_terminal by (cases "ref_name el") auto
    then show ?thesis using True "2.prems" by (auto simp: res_bind_Inr_iff vanishes_def dest: add_unchanged)
  next
    case False
    then obtain r s1 where s1: "ref_name el = Some r" "res_fold (first_add n) st (set_of (fs_sets st) r) = Inr s1"
      "(if r \<in> set (fs_nullable s1) then first_elements tk n els s1 else Inr (s1, False)) = Inr (st', nb)"
      using "2.prems"(1) by (auto simp: res_bind_Inr_iff split: option.splits)
    show ?thesis
    proof (cases "r \<in> set (fs_nullable s1)")
      case True
      with "2.IH" [OF False s1(1,2) True] s1(3) "2.prems"(2)
      have k: "st' = s1 \<and> alt_closed tk (fs_sets s1) (fs_nullable s1) n els \<and> (nb \<longleftrightarrow> vanishes (fs_nullable s1) els)" by simp
      then have "s1 = st \<and> set (set_of (fs_sets st) r) \<subseteq> set (set_of (fs_sets st) n)"
        using adds_unchanged [OF s1(2)] "2.prems"(2) by simp
      then show ?thesis using k False s1(1) True by (simp add: vanishes_def)
    next
      case r: False
      then have "st' = s1" "\<not> nb" using s1(3) by auto
      moreover from this have "s1 = st \<and> set (set_of (fs_sets st) r) \<subseteq> set (set_of (fs_sets st) n)"
        using adds_unchanged [OF s1(2)] "2.prems"(2) by simp
      ultimately show ?thesis using False s1(1) r by (auto simp: vanishes_def)
    qed
  qed
qed (simp add: vanishes_def)

lemma fold_unchanged:
  assumes "\<And>x a b. x \<in> set xs \<Longrightarrow> f a x = Inr b \<Longrightarrow> \<not> fs_changed b \<Longrightarrow> b = a \<and> P a x"
  shows "res_fold f st xs = Inr st' \<Longrightarrow> \<not> fs_changed st' \<Longrightarrow> st' = st \<and> (\<forall>x\<in>set xs. P st x)"
  using assms
proof (induction xs arbitrary: st)
  case (Cons x xs)
  obtain s1 where s1: "f st x = Inr s1" "res_fold f s1 xs = Inr st'" using Cons.prems(1) by (auto simp: res_bind_Inr_iff)
  have "st' = s1 \<and> (\<forall>x\<in>set xs. P s1 x)" by (rule Cons.IH [OF s1(2) Cons.prems(2)]) (use Cons.prems(3) in auto)
  moreover from this have "s1 = st \<and> P st x" using Cons.prems(3) [OF _ s1(1)] Cons.prems(2) by simp
  ultimately show ?case by auto
qed simp

lemma alt_unchanged:
  assumes "first_alt tk n st alt = Inr st'" and "\<not> fs_changed st'"
  shows "st' = st \<and> alt_closed tk (fs_sets st) (fs_nullable st) n alt \<and> (vanishes (fs_nullable st) alt \<longrightarrow> n \<in> set (fs_nullable st))"
proof -
  obtain s1 nb where s1: "first_elements tk n alt st = Inr (s1, nb)"
    "st' = (if nb \<and> n \<notin> set (fs_nullable s1) then s1\<lparr>fs_nullable := iset_insert n (fs_nullable s1), fs_changed := True\<rparr> else s1)"
    using assms(1) by (auto simp: first_alt_def res_bind_Inr_iff)
  have no: "\<not> (nb \<and> n \<notin> set (fs_nullable s1))" using s1(2) assms(2) by (auto split: if_splits)
  have "st' = s1" using s1(2) unfolding if_not_P [OF no] .
  with elements_unchanged [OF s1(1)] assms(2) no show ?thesis by auto
qed

definition rule_closed :: "tokens \<Rightarrow> token_sets \<Rightarrow> string list \<Rightarrow> production \<Rightarrow> bool" where
  "rule_closed tk sets nl p \<longleftrightarrow>
     (\<forall>alt\<in>set (p_alts p). alt_closed tk sets nl (p_name p) alt \<and> (vanishes nl alt \<longrightarrow> p_name p \<in> set nl))"

lemma prod_unchanged:
  assumes "first_prod tk cls st p = Inr st'" and "\<not> fs_changed st'"
  shows "fs_sets st' = fs_sets st \<and> fs_nullable st' = fs_nullable st \<and> \<not> fs_changed st \<and>
    (map_of cls (p_name p) = None \<longrightarrow> rule_closed tk (fs_sets st) (fs_nullable st) p)"
proof (cases "map_of cls (p_name p)")
  case None
  then have f: "res_fold (first_alt tk (p_name p)) (st\<lparr>fs_budget := b_begin_rule (origin_of p) (p_sp p) StepFirst (fs_budget st)\<rparr>) (p_alts p) = Inr st'"
    using assms(1) by (simp add: first_prod_def)
  have "st' = st\<lparr>fs_budget := b_begin_rule (origin_of p) (p_sp p) StepFirst (fs_budget st)\<rparr> \<and> rule_closed tk (fs_sets st) (fs_nullable st) p"
    using fold_unchanged [where f = "first_alt tk (p_name p)" and P = "\<lambda>s alt. alt_closed tk (fs_sets s) (fs_nullable s) (p_name p) alt \<and>
        (vanishes (fs_nullable s) alt \<longrightarrow> p_name p \<in> set (fs_nullable s))", OF alt_unchanged f assms(2)]
    by (simp add: rule_closed_def)
  then show ?thesis using assms(2) by auto
qed (use assms in \<open>auto simp: first_prod_def\<close>)

lemma prods_unchanged:
  assumes "res_fold (first_prod tk cls) st ps = Inr st'" and "\<not> fs_changed st'"
  shows "fs_sets st' = fs_sets st \<and> fs_nullable st' = fs_nullable st \<and> \<not> fs_changed st \<and>
    (\<forall>p\<in>set ps. map_of cls (p_name p) = None \<longrightarrow> rule_closed tk (fs_sets st) (fs_nullable st) p)"
  using assms
proof (induction ps arbitrary: st)
  case (Cons p ps)
  obtain s1 where s1: "first_prod tk cls st p = Inr s1" "res_fold (first_prod tk cls) s1 ps = Inr st'"
    using Cons.prems(1) by (auto simp: res_bind_Inr_iff)
  from Cons.IH [OF s1(2) Cons.prems(2)] prod_unchanged [OF s1(1)] show ?case by auto
qed simp

section \<open>What every step keeps\<close>

lemma pass_keeps:
  assumes add: "\<And>n t a b. P a \<Longrightarrow> first_add n a t = Inr b \<Longrightarrow> P b"
    and flag: "\<And>a c. P a \<Longrightarrow> P (a\<lparr>fs_changed := c\<rparr>)" and null: "\<And>a c. P a \<Longrightarrow> P (a\<lparr>fs_nullable := c\<rparr>)"
    and budget: "\<And>a c. P a \<Longrightarrow> P (a\<lparr>fs_budget := c\<rparr>)"
    and "first_pass tk cls ps st = Inr st'" and "P st"
  shows "P st'"
proof -
  have els: "P b" if "first_elements tk n els a = Inr (b, nb)" "P a" for n els a b nb
    using that
  proof (induction tk n els a rule: first_elements.induct)
    case (2 tk n el els a)
    show ?case
    proof (cases "is_terminal el")
      case True
      then show ?thesis using 2(2,3) add by (auto simp: res_bind_Inr_iff)
    next
      case False
      then obtain r s1 where s1: "ref_name el = Some r" "res_fold (first_add n) a (set_of (fs_sets a) r) = Inr s1"
        "(if r \<in> set (fs_nullable s1) then first_elements tk n els s1 else Inr (s1, False)) = Inr (b, nb)"
        using 2(2) by (auto simp: res_bind_Inr_iff split: option.splits)
      have "P s1" by (rule res_fold_invariant [OF s1(2)]) (use add 2(3) in auto)
      then show ?thesis using 2(1) [OF False s1(1,2)] s1(3) by (auto split: if_splits)
    qed
  qed simp
  have alt: "P b" if "first_alt tk n a alt = Inr b" "P a" for n a alt b
    using that els flag [OF null] by (auto simp: first_alt_def res_bind_Inr_iff split: if_splits)
  have prod: "P b" if "first_prod tk cls a p = Inr b" "P a" for a p b
  proof (cases "map_of cls (p_name p)")
    case None
    then have "res_fold (first_alt tk (p_name p)) (a\<lparr>fs_budget := b_begin_rule (origin_of p) (p_sp p) StepFirst (fs_budget a)\<rparr>) (p_alts p) = Inr b"
      using that(1) by (simp add: first_prod_def)
    then show ?thesis by (rule res_fold_invariant) (use alt budget that(2) in auto)
  qed (use that in \<open>simp add: first_prod_def\<close>)
  show ?thesis
    by (rule res_fold_invariant [OF assms(5) [unfolded first_pass_def]]) (use prod flag assms(6) in auto)
qed

lemma first_loop_result:
  assumes "first_loop tk cls ps st = Inr st'" and "sound_first tk (map (classed cls) ps) st"
  shows "sound_first tk (map (classed cls) ps) st' \<and>
    (\<forall>p\<in>set ps. map_of cls (p_name p) = None \<longrightarrow> rule_closed tk (fs_sets st') (fs_nullable st') p) \<and>
    (\<forall>n. set (set_of (fs_sets st) n) \<subseteq> set (set_of (fs_sets st') n))"
  using assms
proof (induction tk cls ps st rule: first_loop.induct)
  case (1 tk cls ps st)
  obtain s1 where s1: "first_pass tk cls ps st = Inr s1" "(if fs_changed s1 then first_loop tk cls ps s1 else Inr s1) = Inr st'"
    using "1.prems"(1) by (subst (asm) first_loop.simps) (auto simp: res_bind_Inr_iff)
  have so: "sound_first tk (map (classed cls) ps) s1" by (rule sound_pass [OF s1(1) "1.prems"(2)])
  have grow: "set (set_of (fs_sets st) n) \<subseteq> set (set_of (fs_sets s1) n)" for n
    by (rule pass_keeps [where P = "\<lambda>s. set (set_of (fs_sets st) n) \<subseteq> set (set_of (fs_sets s) n)", OF _ _ _ _ s1(1)])
      (auto simp: first_add_def res_bind_Inr_iff set_of_insert split: if_splits)
  show ?case
  proof (cases "fs_changed s1")
    case True
    then show ?thesis using "1.IH" [OF s1(1) True _ so] s1(2) grow by (auto; blast)
  next
    case False
    then have "st' = s1" using s1(2) by simp
    moreover have "\<forall>p\<in>set ps. map_of cls (p_name p) = None \<longrightarrow> rule_closed tk (fs_sets s1) (fs_nullable s1) p"
      using prods_unchanged [OF s1(1) [unfolded first_pass_def] False] by simp
    ultimately show ?thesis using so grow by blast
  qed
qed

section \<open>Completeness\<close>

lemma Nil_slang_leaf:
  "list_all is_leaf alt \<Longrightarrow> [] \<in> slang (tok_words tk) L alt \<longleftrightarrow>
     list_all (\<lambda>el. case ref_name el of Some r \<Rightarrow> [] \<in> L r | None \<Rightarrow> False) alt"
proof (induction alt)
  case (Cons el alt)
  have "is_leaf el" using Cons.prems by simp
  then show ?case
  proof (cases rule: leaf_cases)
    case 1
    moreover have "ref_name el = None" using ref_not_terminal 1 by (cases "ref_name el") auto
    ultimately show ?thesis using elang_terminal [OF 1, of tk L] by simp
  next
    case (2 r)
    then show ?thesis using Cons elang_ref [OF 2(2), of "tok_words tk" L] by simp
  qed
qed simp

definition closed_first :: "tokens \<Rightarrow> production list \<Rightarrow> token_sets \<Rightarrow> string list \<Rightarrow> bool" where
  "closed_first tk ps sets nl \<longleftrightarrow> (\<forall>p\<in>set ps. rule_closed tk sets nl p)"

lemma closed_nullable:
  assumes "closed_first tk ps sets nl" and "all_elements is_leaf ps" and "[] \<in> tlang tk ps n"
  shows "n \<in> set nl"
proof -
  let ?L = "\<lambda>n. {w :: string list. w \<noteq> [] \<or> n \<in> set nl}"
  have "models (tok_words tk) ?L ps"
    unfolding models_def alang_def
  proof (intro ballI UN_least)
    fix p alt assume p: "p \<in> set ps" "alt \<in> set (p_alts p)"
    have leaf: "list_all is_leaf alt" using assms(2) p by (auto simp: list_all_iff)
    have "[] \<in> slang (tok_words tk) ?L alt \<Longrightarrow> vanishes nl alt"
      unfolding Nil_slang_leaf [OF leaf] vanishes_def by (simp cong: option.case_cong)
    moreover have "vanishes nl alt \<longrightarrow> p_name p \<in> set nl"
      using assms(1) p by (simp add: closed_first_def rule_closed_def)
    ultimately show "slang (tok_words tk) ?L alt \<subseteq> ?L (p_name p)" by auto
  qed
  from glang_least [OF this, of n] assms(3) show ?thesis by auto
qed

lemma closed_suffix:
  "alt_closed tk sets nl n (pre @ el # post) \<Longrightarrow> vanishes nl pre \<Longrightarrow> alt_closed tk sets nl n (el # post)"
proof (induction pre)
  case (Cons x pre)
  then obtain r where r: "ref_name x = Some r" "r \<in> set nl" by (auto simp: vanishes_def split: option.splits)
  then show ?case using Cons ref_not_terminal [OF r(1)] by (simp add: vanishes_def)
qed simp

lemma closed_leads:
  assumes "leads tk ps n t" and c: "closed_first tk ps sets nl" and l: "all_elements is_leaf ps"
  shows "t \<in> set (set_of sets n)"
proof -
  have at: "alt_closed tk sets nl (p_name p) (el # post)"
    if "p \<in> set ps" "pre @ el # post \<in> set (p_alts p)" "[] \<in> slang (tok_words tk) (tlang tk ps) pre" for p pre el post
  proof (rule closed_suffix)
    show "alt_closed tk sets nl (p_name p) (pre @ el # post)" using c that(1,2) by (auto simp: closed_first_def rule_closed_def)
    have "list_all is_leaf pre" using l that(1,2) by (force simp: list_all_iff)
    then show "vanishes nl pre"
      using that(3) closed_nullable [OF c l] by (auto simp: Nil_slang_leaf vanishes_def list_all_iff split: option.splits)
  qed
  show ?thesis
    using assms(1)
  proof (induction rule: leads.induct)
    case (leads_token p pre el post)
    then show ?case using at [of p pre el post] by simp
  next
    case (leads_ref p pre el post r t)
    then show ?case using at [of p pre el post] ref_not_terminal [of el r] by auto
  qed
qed

section \<open>The sets are exact\<close>

lemma seeds:
  assumes "res_fold (first_seed cls) (m, b) ps = Inr (m', b')"
  shows "set_of m' n =
    (if n \<in> set (names ps) then (case map_of cls n of Some s \<Rightarrow> [s] | None \<Rightarrow> []) else set_of m n)"
  using assms
proof (induction ps arbitrary: m b)
  case (Cons p ps)
  obtain m1 b1 where s1: "first_seed cls (m, b) p = Inr (m1, b1)" "res_fold (first_seed cls) (m1, b1) ps = Inr (m', b')"
    using Cons.prems by (auto simp: res_bind_Inr_iff)
  have "set_of m1 n = (if n = p_name p then (case map_of cls n of Some s \<Rightarrow> [s] | None \<Rightarrow> []) else set_of m n)"
    using s1(1) by (auto simp: first_seed_def res_bind_Inr_iff set_of_insert split: option.splits)
  with Cons.IH [OF s1(2)] show ?case by (cases "n = p_name p") auto
qed simp

lemma first_exact:
  assumes "compute_first_sets g tk cls b = Inr (sets, nl, b')" and leaf: "all_elements is_leaf (productions g)"
  shows "t \<in> set (set_of sets n) \<longleftrightarrow> leads tk (map (classed cls) (productions g)) n t"
    and "n \<in> set nl \<longleftrightarrow> [] \<in> tlang tk (map (classed cls) (productions g)) n"
proof -
  let ?ps = "productions g" and ?qs = "map (classed cls) (productions g)"
  obtain m c st where m: "res_fold (first_seed cls) ([], b) ?ps = Inr (m, c)"
    and st: "first_loop tk cls ?ps \<lparr>fs_sets = m, fs_budget = c, fs_changed = False, fs_nullable = []\<rparr> = Inr st"
      "sets = fs_sets st" "nl = fs_nullable st"
    using assms(1) by (auto simp: compute_first_sets_def res_bind_Inr_iff)
  note seed = seeds [OF m]
  have class_leads: "leads tk ?qs n s" if "p \<in> set ?ps" "p_name p = n" "map_of cls n = Some s" for p n s
  proof -
    have "classed cls p \<in> set ?qs" "[] @ el_token s # [] \<in> set (p_alts (classed cls p))"
      using that by (simp, simp add: classed_def)
    from leads_token [OF this, of tk] show ?thesis
      using that by (simp add: is_terminal_def el_token_def el_of_def tok_name_def tok_of_def)
  qed
  have seed_leads: "leads tk ?qs n t" if "t \<in> set (set_of m n)" for n t
    using that class_leads unfolding seed by (auto simp: imap_get_or_def split: option.splits if_splits)
  have start: "sound_first tk ?qs \<lparr>fs_sets = m, fs_budget = c, fs_changed = False, fs_nullable = []\<rparr>"
    using seed_leads by (simp add: sound_first_def)
  note r = first_loop_result [OF st(1) start]
  have so: "sound_first tk ?qs st" using r by blast
  have cl: "closed_first tk ?qs sets nl"
    unfolding closed_first_def
  proof
    fix q assume "q \<in> set ?qs"
    then obtain p where p: "p \<in> set ?ps" "q = classed cls p" by auto
    show "rule_closed tk sets nl q"
    proof (cases "map_of cls (p_name p)")
      case None
      then have "q = p" using p(2) by (simp add: classed_def)
      then show ?thesis using r p(1) None st(2,3) by simp
    next
      case (Some s)
      have "s \<in> set (set_of m (p_name p))" using p(1) Some by (simp add: seed)
      then have "s \<in> set (set_of sets (p_name p))" using r st(2) by auto
      then show ?thesis using Some
        by (simp add: p(2) classed_def rule_closed_def vanishes_def is_terminal_def el_token_def el_of_def tok_name_def tok_of_def ref_name_def)
    qed
  qed
  note lq = leaves_classed [OF leaf, of cls]
  show "t \<in> set (set_of sets n) \<longleftrightarrow> leads tk ?qs n t"
    using so closed_leads [OF _ cl lq] by (auto simp: sound_first_def st(2))
  show "n \<in> set nl \<longleftrightarrow> [] \<in> tlang tk ?qs n"
    using so closed_nullable [OF cl lq] by (auto simp: sound_first_def st(3))
qed

section \<open>Heads of words\<close>

lemma head_leads:
  assumes "all_elements is_leaf ps" and "t # w \<in> tlang tk ps n"
  shows "leads tk ps n t"
proof -
  let ?T = "tok_words tk" and ?G = "tlang tk ps"
  define L where "L = (\<lambda>n. {w \<in> ?G n. w = [] \<or> leads tk ps n (hd w)})"
  have sub: "L n \<subseteq> ?G n" for n by (auto simp: L_def)
  have head: "leads tk ps (p_name p) (hd w)"
    if "w \<in> slang ?T L els" "w \<noteq> []" "p \<in> set ps" "pre @ els \<in> set (p_alts p)" "[] \<in> slang ?T ?G pre" "list_all is_leaf els"
    for w els p pre
    using that
  proof (induction els arbitrary: w pre)
    case (Cons el els)
    obtain u v where uv: "w = u @ v" "u \<in> elang ?T L el" "v \<in> slang ?T L els" using Cons.prems(1) by (auto elim: concE)
    have "is_leaf el" using Cons.prems(6) by simp
    then show ?case
    proof (cases rule: leaf_cases)
      case 1
      then have "hd w = tok_name tk el" using uv elang_terminal [OF 1, of tk L] by simp
      then show ?thesis using leads_token [OF Cons.prems(3,4,5) 1] by simp
    next
      case (2 r)
      then have u: "u \<in> L r" using uv(2) elang_ref [OF 2(2), of ?T L] by simp
      show ?thesis
      proof (cases "u = []")
        case True
        then have "[] \<in> slang ?T ?G (pre @ [el])" using u sub Cons.prems(5) by (auto simp: elang_ref [OF 2(2)])
        then show ?thesis using Cons.IH [of v "pre @ [el]"] Cons.prems uv True by simp
      next
        case False
        then have "leads tk ps r (hd u)" using u by (simp add: L_def)
        from leads_ref [OF Cons.prems(3,4,5) 2(2) this] show ?thesis using uv(1) False by simp
      qed
    qed
  qed simp
  have "models ?T L ps"
    unfolding models_def alang_def
  proof (intro ballI UN_least subsetI)
    fix p alt w assume p: "p \<in> set ps" "alt \<in> set (p_alts p)" "w \<in> slang ?T L alt"
    have "w \<in> ?G (p_name p)" using slang_mono [of L ?G, OF sub] p(3) glang_alt [OF p(1,2)] by blast
    moreover have "list_all is_leaf alt" using assms(1) p(1,2) by (auto simp: list_all_iff)
    then have "leads tk ps (p_name p) (hd w)" if "w \<noteq> []" using head [OF p(3) that p(1), of "[]"] p(2) by simp
    ultimately show "w \<in> L (p_name p)" by (auto simp: L_def)
  qed
  from glang_least [OF this, of n] assms(2) show ?thesis by (auto simp: L_def)
qed

text \<open>Conversely, where every rule derives something.\<close>

definition productive :: "'a terminals \<Rightarrow> production list \<Rightarrow> bool" where
  "productive T ps \<longleftrightarrow> (\<forall>n\<in>set (names ps). glang T ps n \<noteq> {})"

lemma slang_productive:
  assumes "list_all is_leaf alt" and "seq_refs alt \<subseteq> set (names ps)" and "productive (tok_words tk) ps"
  shows "slang (tok_words tk) (tlang tk ps) alt \<noteq> {}"
  using assms(1,2)
proof (induction alt)
  case (Cons el alt)
  have "is_leaf el" using Cons.prems by simp
  then have "elang (tok_words tk) (tlang tk ps) el \<noteq> {}"
  proof (cases rule: leaf_cases)
    case 1
    then show ?thesis using elang_terminal [OF 1] by simp
  next
    case (2 r)
    then have "r \<in> el_refs el" by (cases el; cases "kind_of el") (auto simp: ref_name_def)
    then have "r \<in> set (names ps)" using Cons.prems(2) by auto
    then show ?thesis using assms(3) elang_ref [OF 2(2), of "tok_words tk" "tlang tk ps"] by (auto simp: productive_def)
  qed
  then show ?case using Cons by (auto simp: conc_def)
qed simp

lemma leads_head:
  assumes "leads tk ps n t" and leaf: "all_elements is_leaf ps" and cl: "closed ps" and pr: "productive (tok_words tk) ps"
  shows "\<exists>w. t # w \<in> tlang tk ps n"
  using assms(1)
proof (induction rule: leads.induct)
  case (leads_token p pre el post)
  have "list_all is_leaf post" "seq_refs post \<subseteq> set (names ps)"
    using leaf cl leads_token(1,2) by (force simp: list_all_iff closed_def)+
  then obtain w where w: "w \<in> slang (tok_words tk) (tlang tk ps) post" using slang_productive [OF _ _ pr] by blast
  have "[] @ [tok_name tk el] @ w \<in> slang (tok_words tk) (tlang tk ps) (pre @ el # post)"
    using leads_token(3) elang_terminal [OF leads_token(4), of tk "tlang tk ps"] w by (auto intro!: concI simp del: append_Cons append_Nil)
  then show ?case using glang_alt [OF leads_token(1,2), of "tok_words tk"] by auto
next
  case (leads_ref p pre el post r t)
  then obtain v where v: "t # v \<in> tlang tk ps r" by blast
  have "list_all is_leaf post" "seq_refs post \<subseteq> set (names ps)"
    using leaf cl leads_ref(1,2) by (force simp: list_all_iff closed_def)+
  then obtain w where w: "w \<in> slang (tok_words tk) (tlang tk ps) post" using slang_productive [OF _ _ pr] by blast
  have "[] @ (t # v) @ w \<in> slang (tok_words tk) (tlang tk ps) (pre @ el # post)"
    using leads_ref(3) elang_ref [OF leads_ref(4), of "tok_words tk" "tlang tk ps"] v w by (auto intro!: concI simp del: append_Cons append_Nil)
  then show ?case using glang_alt [OF leads_ref(1,2), of "tok_words tk"] by auto
qed

text \<open>FIRST of a sequence.\<close>

definition exact_first :: "tokens \<Rightarrow> production list \<Rightarrow> token_sets \<Rightarrow> string list \<Rightarrow> bool" where
  "exact_first tk ps sets nl \<longleftrightarrow>
     (\<forall>n t. t \<in> set (set_of sets n) \<longleftrightarrow> leads tk ps n t) \<and> (\<forall>n. n \<in> set nl \<longleftrightarrow> [] \<in> tlang tk ps n)"

lemma first_computed:
  assumes "compute_first_sets g tk cls b = Inr (sets, nl, b')" and "all_elements is_leaf (productions g)"
  shows "exact_first tk (map (classed cls) (productions g)) sets nl"
  using first_exact [OF assms] by (simp add: exact_first_def)

lemma first_of_seq_from_result:
  "first_of_seq_from tk sets nl out sq = Inr (out', nb) \<Longrightarrow> list_all is_leaf sq \<Longrightarrow> exact_first tk ps sets nl \<Longrightarrow>
   all_elements is_leaf ps \<Longrightarrow>
   set out \<subseteq> set out' \<and> (nb \<longleftrightarrow> [] \<in> slang (tok_words tk) (tlang tk ps) sq) \<and>
   (\<forall>t w. t # w \<in> slang (tok_words tk) (tlang tk ps) sq \<longrightarrow> t \<in> set out')"
proof (induction tk sets nl out sq rule: first_of_seq_from.induct)
  case (2 tk sets nl out el els)
  have "is_leaf el" using "2.prems"(2) by simp
  then show ?case
  proof (cases rule: leaf_cases)
    case 1
    then show ?thesis using "2.prems"(1) by (auto simp: elang_terminal [OF 1] elim!: concE)
  next
    case (2 r)
    let ?o = "iset_extend out (set_of sets r)"
    note er = elang_ref [OF 2(2), of "tok_words tk" "tlang tk ps"]
    have in_first: "t \<in> set ?o" if "t # w \<in> tlang tk ps r" for t w
      using head_leads [OF "2.prems"(4) that] "2.prems"(3) by (simp add: exact_first_def)
    have nul: "r \<in> set nl \<longleftrightarrow> [] \<in> tlang tk ps r" using "2.prems"(3) by (simp add: exact_first_def)
    show ?thesis
    proof (cases "r \<in> set nl")
      case True
      then have "first_of_seq_from tk sets nl ?o els = Inr (out', nb)" using "2.prems"(1) 2 by (simp add: Let_def)
      from "2.IH" [OF 2 refl True this] "2.prems"(2-4)
      have ih: "set ?o \<subseteq> set out' \<and> (nb \<longleftrightarrow> [] \<in> slang (tok_words tk) (tlang tk ps) els) \<and>
        (\<forall>t w. t # w \<in> slang (tok_words tk) (tlang tk ps) els \<longrightarrow> t \<in> set out')" by simp
      have "t \<in> set out'" if "t # w \<in> slang (tok_words tk) (tlang tk ps) (el # els)" for t w
      proof -
        obtain u v where uv: "t # w = u @ v" "u \<in> tlang tk ps r" "v \<in> slang (tok_words tk) (tlang tk ps) els"
          using \<open>t # w \<in> _\<close> by (auto simp: er elim: concE)
        show ?thesis
        proof (cases u)
          case Nil
          then show ?thesis using uv ih by auto
        next
          case (Cons a u')
          then show ?thesis using in_first [of a u'] uv ih by auto
        qed
      qed
      then show ?thesis using ih nul True by (auto simp: er)
    next
      case False
      then have out: "out' = ?o" "\<not> nb" using "2.prems"(1) 2 by (simp_all add: Let_def)
      have "t \<in> set ?o" if "t # w \<in> slang (tok_words tk) (tlang tk ps) (el # els)" for t w
      proof -
        obtain u v where uv: "t # w = u @ v" "u \<in> tlang tk ps r" using \<open>t # w \<in> _\<close> by (auto simp: er elim: concE)
        then show ?thesis using in_first False nul by (cases u) auto
      qed
      then show ?thesis using out nul False by (auto simp: er)
    qed
  qed
qed simp

lemma first_of_seq_result:
  assumes "first_of_seq tk sets nl sq = Inr (out, nb)" and "list_all is_leaf sq" and "exact_first tk ps sets nl"
    and "all_elements is_leaf ps"
  shows "nb \<longleftrightarrow> [] \<in> slang (tok_words tk) (tlang tk ps) sq"
    and "t # w \<in> slang (tok_words tk) (tlang tk ps) sq \<Longrightarrow> t \<in> set out"
  using first_of_seq_from_result [OF assms(1) [unfolded first_of_seq_def] assms(2-4)] by blast+

end
