(* ===== verification/Lookahead.thy ===== *)
theory Lookahead
  imports First_Language
begin

text \<open>
  The token paths an alternative can start with, and the prefixes a choice is dispatched on:
  \<open>alt_prefixes_raw\<close>, \<open>alt_prefixes\<close> and \<open>dispatch_prefixes\<close> of \<open>rs/src/analysis.rs\<close>. The
  table of contest answers only remembers what \<open>contest\<close> said, so the model asks it directly. The
  theorems: every word of an alternative runs along one of its paths, and one of its prefixes
  dispatches it.
\<close>

section \<open>Paths\<close>

record prefix_path =
  pp_tokens :: "string list"
  pp_done :: bool

type_synonym head_filter = "(string \<Rightarrow> bool) option"

text \<open>What the extension of the paths by one element threads: the paths made, whether one of them
  can still grow, and what a reference contributed at each length.\<close>

record extension =
  ex_next :: "prefix_path list"
  ex_grows :: bool
  ex_by_length :: "(nat \<times> prefix_path list list) list"
  ex_budget :: emit_budget

definition put_path :: "nat \<Rightarrow> string list \<Rightarrow> bool \<Rightarrow> extension \<Rightarrow> (emit_error, extension) result" where
  "put_path max_k ts dn st =
     res_bind (b_hold (1 + length ts) (ex_budget st))
       (\<lambda>b. Inr (st\<lparr>ex_next := ex_next st @ [\<lparr>pp_tokens = ts, pp_done = dn\<rparr>],
                    ex_grows := ex_grows st \<or> \<not> dn \<and> length ts < max_k, ex_budget := b\<rparr>))"

definition admits :: "head_filter \<Rightarrow> prefix_path \<Rightarrow> string \<Rightarrow> bool" where
  "admits flt p tok = (case flt of None \<Rightarrow> True | Some f \<Rightarrow> pp_tokens p \<noteq> [] \<or> f tok)"

text \<open>The alternatives of a reference at a length, enumerated once for that length.\<close>

definition sub_paths_at ::
  "(nat \<Rightarrow> emit_budget \<Rightarrow> (emit_error, prefix_path list list \<times> emit_budget) result) \<Rightarrow> nat \<Rightarrow> extension \<Rightarrow>
   (emit_error, prefix_path list list \<times> extension) result" where
  "sub_paths_at enum held st =
     (case map_of (ex_by_length st) held of
        Some subs \<Rightarrow> Inr (subs, st)
      | None \<Rightarrow>
          res_bind (enum held (ex_budget st))
            (\<lambda>(subs, b). Inr (subs, st\<lparr>ex_by_length := imap_insert held subs (ex_by_length st), ex_budget := b\<rparr>)))"

definition extend_path ::
  "nat \<Rightarrow> head_filter \<Rightarrow> string option \<Rightarrow>
   (nat \<Rightarrow> emit_budget \<Rightarrow> (emit_error, prefix_path list list \<times> emit_budget) result) option \<Rightarrow>
   extension \<Rightarrow> prefix_path \<Rightarrow> (emit_error, extension) result" where
  "extend_path max_k flt added sub st p =
     (if pp_done p \<or> max_k \<le> length (pp_tokens p) then Inr (st\<lparr>ex_next := ex_next st @ [p]\<rparr>)
      else
        (case added of
           Some tok \<Rightarrow> if admits flt p tok then put_path max_k (pp_tokens p @ [tok]) False st else Inr st
         | None \<Rightarrow>
             (case sub of
                None \<Rightarrow> put_path max_k (pp_tokens p) True st
              | Some enum \<Rightarrow>
                  res_bind (sub_paths_at enum (length (pp_tokens p)) st)
                    (\<lambda>(subs, st).
                       res_fold (\<lambda>st sp. put_path max_k (pp_tokens p @ pp_tokens sp) (pp_done sp) st) st (concat subs)))))"

definition added_token :: "tokens \<Rightarrow> (string \<times> string) list option \<Rightarrow> element \<Rightarrow> string option" where
  "added_token tk class_sets el =
     (if is_terminal el then Some (tok_name tk el)
      else
        (case ref_name el of
           Some name \<Rightarrow> (case class_sets of Some c \<Rightarrow> map_of c name | None \<Rightarrow> None)
         | None \<Rightarrow> None))"

text \<open>The rule a reference expands to, unless it is on the way already or has no alternatives.\<close>

definition expands_to :: "grammar \<Rightarrow> string list \<Rightarrow> element \<Rightarrow> (string \<times> seq list) option" where
  "expands_to g visited el =
     (case ref_name el of
        None \<Rightarrow> None
      | Some name \<Rightarrow>
          if name \<in> set visited then None
          else
            (case find_prod g name of
               Some p \<Rightarrow> if p_alts p = [] then None else Some (name, p_alts p)
             | None \<Rightarrow> None))"

lemma expands_to_Some:
  "expands_to g visited el = Some (name, alts) \<Longrightarrow>
   ref_name el = Some name \<and> name \<notin> set visited \<and> (\<exists>p. find_prod g name = Some p \<and> alts = p_alts p)"
  by (auto simp: expands_to_def split: option.splits if_splits)

lemma card_visited:
  assumes "expands_to g visited el = Some (name, alts)"
  shows "card (set (names (productions g)) - insert name (set visited)) < card (set (names (productions g)) - set visited)"
proof -
  obtain p where "name \<notin> set visited" "find_prod g name = Some p" using expands_to_Some [OF assms] by blast
  then have "name \<in> set (names (productions g)) - set visited" by (auto dest: find_prod_Some)
  then show ?thesis by (intro psubset_card_mono) auto
qed

definition path_start :: prefix_path where
  "path_start = \<lparr>pp_tokens = [], pp_done = False\<rparr>"

function prefixes_walk ::
  "grammar \<Rightarrow> tokens \<Rightarrow> (string \<times> string) list option \<Rightarrow> nat \<Rightarrow> string list \<Rightarrow> head_filter \<Rightarrow> seq \<Rightarrow>
   prefix_path list \<Rightarrow> emit_budget \<Rightarrow> (emit_error, prefix_path list \<times> emit_budget) result" where
  "prefixes_walk g tk cs max_k visited flt [] paths b = Inr (paths, b)"
| "prefixes_walk g tk cs max_k visited flt (el # els) paths b =
     res_bind
       (res_fold
         (extend_path max_k flt (added_token tk cs el)
           (case expands_to g visited el of
              None \<Rightarrow> None
            | Some (name, alts) \<Rightarrow>
                Some (\<lambda>held b.
                  res_fold
                    (\<lambda>(subs, b) sub.
                       res_bind (b_hold 1 b)
                         (\<lambda>b. res_bind
                            (prefixes_walk g tk cs (max_k - held) (name # visited) (if held = 0 then flt else None) sub [path_start] b)
                            (\<lambda>(ps, b). Inr (subs @ [ps], b))))
                    ([], b) alts)))
         \<lparr>ex_next = [], ex_grows = False, ex_by_length = [], ex_budget = b\<rparr> paths)
       (\<lambda>st. if ex_grows st then prefixes_walk g tk cs max_k visited flt els (ex_next st) (ex_budget st)
             else Inr (ex_next st, ex_budget st))"
  by pat_completeness auto
termination
  by (relation "measures [\<lambda>(g, _, _, _, visited, _). card (set (names (productions g)) - set visited),
      \<lambda>(_, _, _, _, _, _, alt, _). length alt]") (auto dest: card_visited)

declare prefixes_walk.simps(2) [simp del]

definition alt_prefixes_raw ::
  "grammar \<Rightarrow> tokens \<Rightarrow> (string \<times> string) list option \<Rightarrow> nat \<Rightarrow> string list \<Rightarrow> head_filter \<Rightarrow> seq \<Rightarrow>
   emit_budget \<Rightarrow> (emit_error, prefix_path list \<times> emit_budget) result" where
  "alt_prefixes_raw g tk cs max_k visited flt alt b =
     res_bind (b_hold 1 b) (\<lambda>b. prefixes_walk g tk cs max_k visited flt alt [path_start] b)"

text \<open>The distinct prefixes of an alternative, told apart by their spaced text.\<close>

definition distinct_paths :: "prefix_path list \<Rightarrow> string list list \<times> nat" where
  "distinct_paths raw =
     (case foldl
        (\<lambda>(seen, out, kept) p.
           let key = join '' '' (pp_tokens p)
           in if key \<in> set seen then (seen, out, kept)
              else (iset_insert key seen, out @ [pp_tokens p], kept + 1 + length (pp_tokens p)))
        ([], [], 0) raw
      of (_, out, kept) \<Rightarrow> (out, kept))"

definition alt_prefixes ::
  "grammar \<Rightarrow> tokens \<Rightarrow> (string \<times> string) list option \<Rightarrow> nat \<Rightarrow> seq \<Rightarrow> emit_budget \<Rightarrow>
   (emit_error, string list list \<times> emit_budget) result" where
  "alt_prefixes g tk cs max_k alt b =
     res_bind (alt_prefixes_raw g tk cs max_k [] None alt b)
       (\<lambda>(raw, b'). case distinct_paths raw of (out, kept) \<Rightarrow> Inr (out, b_keep (b_held b) kept b'))"

section \<open>Dispatch\<close>

record dispatch_prefixes =
  dp_prefixes :: "string list list"
  dp_nullable :: bool

definition enumerate_alt ::
  "grammar \<Rightarrow> tokens \<Rightarrow> (string \<times> string) list \<Rightarrow> nat \<Rightarrow> head_filter \<Rightarrow> seq \<Rightarrow> emit_budget \<Rightarrow>
   (emit_error, prefix_path list \<times> emit_budget) result" where
  "enumerate_alt g tk cs k flt alt b =
     res_bind (alt_prefixes_raw g tk (Some cs) k [] flt alt b)
       (\<lambda>(paths, b'). Inr (paths, b_settle (b_held b) (map pp_tokens paths) b'))"

definition heads_of :: "prefix_path list \<Rightarrow> string list" where
  "heads_of paths = iset_extend [] (map (\<lambda>p. hd (pp_tokens p)) (filter (\<lambda>p. length (pp_tokens p) = 1) paths))"

text \<open>Every alternative one token deep.\<close>

definition scan_heads ::
  "grammar \<Rightarrow> tokens \<Rightarrow> (string \<times> string) list \<Rightarrow> (string list \<times> bool) list \<times> emit_budget \<Rightarrow> seq \<Rightarrow>
   (emit_error, (string list \<times> bool) list \<times> emit_budget) result" where
  "scan_heads g tk cs s alt =
     (case s of
        (out, b) \<Rightarrow>
          res_bind (if alt = [] then Inr ([], b) else enumerate_alt g tk cs 1 None alt b)
            (\<lambda>(paths, b).
               Inr (out @ [(heads_of paths, list_ex (\<lambda>p. pp_tokens p = [] \<and> \<not> pp_done p) paths)], b)))"

definition contested_heads :: "(string \<Rightarrow> string \<Rightarrow> bool) \<Rightarrow> string list list \<Rightarrow> string list list \<Rightarrow> nat \<Rightarrow> string list" where
  "contested_heads contest exits heads i =
     filter
       (\<lambda>h. list_ex (\<lambda>j. j \<noteq> i \<and> list_ex (contest h) (heads ! j)) [0..<length heads] \<or> list_ex (\<lambda>e. contest h (hd e)) exits)
       (heads ! i)"

text \<open>The deep paths of an alternative, under its contested heads only.\<close>

definition scan_deep ::
  "grammar \<Rightarrow> tokens \<Rightarrow> (string \<times> string) list \<Rightarrow> nat \<Rightarrow> string list list list \<times> emit_budget \<Rightarrow> seq \<times> string list \<Rightarrow>
   (emit_error, string list list list \<times> emit_budget) result" where
  "scan_deep g tk cs max_k s x =
     (case (s, x) of
        ((deep, b), (alt, contested)) \<Rightarrow>
          if contested = [] then Inr (deep @ [[]], b)
          else res_bind (enumerate_alt g tk cs max_k (Some (\<lambda>t. t \<in> set contested)) alt b)
                 (\<lambda>(paths, b). Inr (deep @ [filter (\<lambda>ts. ts \<noteq> []) (map pp_tokens paths)], b)))"

text \<open>How far two paths collide, and the depth at which a path stops colliding with its rivals.\<close>

definition collide :: "(string \<Rightarrow> string \<Rightarrow> bool) \<Rightarrow> string list \<Rightarrow> string list \<Rightarrow> nat" where
  "collide contest p q = length (takeWhile (\<lambda>(a, b). contest a b) (zip p q))"

definition depth_of :: "(string \<Rightarrow> string \<Rightarrow> bool) \<Rightarrow> string list \<Rightarrow> string list list \<Rightarrow> nat" where
  "depth_of contest p rivals =
     (if list_ex (\<lambda>q. collide contest p q = min (length p) (length q)) rivals then length p
      else foldl max 1 (map (\<lambda>q. Suc (collide contest p q)) rivals))"

definition rivals_of :: "string list list list \<Rightarrow> string list list \<Rightarrow> nat \<Rightarrow> string list list" where
  "rivals_of deep exits i = concat (map (\<lambda>j. if j = i then [] else deep ! j) [0..<length deep]) @ exits"

record keeping =
  kp_seen :: "string list"
  kp_prefixes :: "string list list"
  kp_kept :: nat
  kp_budget :: emit_budget

definition keep_prefix :: "string list \<Rightarrow> keeping \<Rightarrow> (emit_error, keeping) result" where
  "keep_prefix pre st =
     (let key = join '' '' pre
      in if key \<in> set (kp_seen st) then Inr st
         else
           res_bind (b_hold (1 + length pre) (kp_budget st))
             (\<lambda>b. Inr (st\<lparr>kp_seen := iset_insert key (kp_seen st), kp_prefixes := kp_prefixes st @ [pre],
                          kp_kept := kp_kept st + 1 + length pre, kp_budget := b\<rparr>)))"

definition keep_head ::
  "(string \<Rightarrow> string \<Rightarrow> bool) \<Rightarrow> string list list \<Rightarrow> string list \<Rightarrow> string list list \<Rightarrow> keeping \<Rightarrow> string \<Rightarrow> (emit_error, keeping) result" where
  "keep_head contest rivals contested deep st h =
     (if h \<notin> set contested then keep_prefix [h] st
      else
        res_fold (\<lambda>st p. keep_prefix (take (depth_of contest p rivals) p) st) st (filter (\<lambda>p. hd p = h) deep))"

definition keep_alt ::
  "(string \<Rightarrow> string \<Rightarrow> bool) \<Rightarrow> string list list \<Rightarrow> (string list \<times> bool) list \<Rightarrow> string list list \<Rightarrow> string list list list \<Rightarrow>
   dispatch_prefixes list \<times> nat \<times> emit_budget \<Rightarrow> nat \<Rightarrow> (emit_error, dispatch_prefixes list \<times> nat \<times> emit_budget) result" where
  "keep_alt contest exits scanned contested deep s i =
     (case s of
        (out, kept, b) \<Rightarrow>
          res_bind
            (res_fold (keep_head contest (rivals_of deep exits i) (contested ! i) (deep ! i))
              \<lparr>kp_seen = [], kp_prefixes = [], kp_kept = kept, kp_budget = b\<rparr> (fst (scanned ! i)))
            (\<lambda>st. Inr (out @ [\<lparr>dp_prefixes = kp_prefixes st, dp_nullable = snd (scanned ! i)\<rparr>], kp_kept st, kp_budget st)))"

definition dispatch_prefixes_of ::
  "seq list \<Rightarrow> grammar \<Rightarrow> tokens \<Rightarrow> nat \<Rightarrow> (string \<Rightarrow> string \<Rightarrow> bool) \<Rightarrow> string list list \<Rightarrow> (string \<times> string) list \<Rightarrow>
   emit_budget \<Rightarrow> (emit_error, dispatch_prefixes list \<times> emit_budget) result" where
  "dispatch_prefixes_of alts g tk max_k contest exits cs b =
     res_bind (res_fold (scan_heads g tk cs) ([], b) alts)
       (\<lambda>(scanned, b1).
          let heads = map fst scanned;
              contested = map (contested_heads contest exits heads) [0..<length alts]
          in res_bind (res_fold (scan_deep g tk cs max_k) ([], b1) (zip alts contested))
               (\<lambda>(deep, b2).
                  res_bind (res_fold (keep_alt contest exits scanned contested deep) ([], 0, b2) [0..<length alts])
                    (\<lambda>(out, kept, b3). Inr (out, b_keep (b_held b) kept b3))))"

end
