(* ===== verification/Lookahead_Cover.thy ===== *)
theory Lookahead_Cover
  imports Lookahead
begin

text \<open>
  Every word of an alternative runs along one of its paths: the path holds the first tokens of
  the word, all of them up to the window where it was not cut short.
\<close>

definition covers :: "nat \<Rightarrow> prefix_path \<Rightarrow> string list \<Rightarrow> bool" where
  "covers k p w \<longleftrightarrow>
     (if pp_done p then prefix (pp_tokens p) w \<and> length (pp_tokens p) \<le> k else pp_tokens p = take k w)"

definition admitted :: "head_filter \<Rightarrow> string list \<Rightarrow> bool" where
  "admitted flt w \<longleftrightarrow> (case flt of None \<Rightarrow> True | Some f \<Rightarrow> w = [] \<or> f (hd w))"

definition class_list :: "(string \<times> string) list option \<Rightarrow> (string \<times> string) list" where
  "class_list cs = (case cs of Some c \<Rightarrow> c | None \<Rightarrow> [])"

section \<open>One path and one element\<close>

lemma put_path_result:
  "put_path k ts dn st = Inr st' \<Longrightarrow>
   ex_next st' = ex_next st @ [\<lparr>pp_tokens = ts, pp_done = dn\<rparr>] \<and> ex_by_length st' = ex_by_length st \<and>
   ex_grows st' = (ex_grows st \<or> \<not> dn \<and> length ts < k)"
  by (auto simp: put_path_def res_bind_Inr_iff)

lemma put_paths_result:
  "res_fold (\<lambda>st sp. put_path k (pre @ pp_tokens sp) (pp_done sp) st) st sps = Inr st' \<Longrightarrow>
   ex_next st' = ex_next st @ map (\<lambda>sp. \<lparr>pp_tokens = pre @ pp_tokens sp, pp_done = pp_done sp\<rparr>) sps \<and>
   ex_by_length st' = ex_by_length st \<and>
   ex_grows st' = (ex_grows st \<or> (\<exists>sp\<in>set sps. \<not> pp_done sp \<and> length (pre @ pp_tokens sp) < k))"
proof (induction sps arbitrary: st)
  case (Cons sp sps)
  obtain s1 where s1: "put_path k (pre @ pp_tokens sp) (pp_done sp) st = Inr s1"
    "res_fold (\<lambda>st sp. put_path k (pre @ pp_tokens sp) (pp_done sp) st) s1 sps = Inr st'"
    using Cons.prems by (auto simp: res_bind_Inr_iff)
  from Cons.IH [OF s1(2)] put_path_result [OF s1(1)] show ?case by auto
qed simp

text \<open>Every path kept is done, full, or counted as one that can grow.\<close>

definition settled_paths :: "nat \<Rightarrow> extension \<Rightarrow> bool" where
  "settled_paths k st \<longleftrightarrow> (\<forall>p\<in>set (ex_next st). pp_done p \<or> k \<le> length (pp_tokens p) \<or> ex_grows st)"

lemma extend_path_settled: "extend_path k flt added sub st p = Inr st' \<Longrightarrow> settled_paths k st \<Longrightarrow> settled_paths k st'"
  by (fastforce simp: extend_path_def settled_paths_def sub_paths_at_def res_bind_Inr_iff
      split: if_splits option.splits dest!: put_path_result put_paths_result)

text \<open>The sub-paths cached for a length cover what the reference derives.\<close>

definition cache_covers :: "nat \<Rightarrow> head_filter \<Rightarrow> string list set \<Rightarrow> extension \<Rightarrow> bool" where
  "cache_covers k flt X st \<longleftrightarrow>
     (\<forall>held subs. map_of (ex_by_length st) held = Some subs \<longrightarrow>
        (\<forall>x\<in>X. admitted (if held = 0 then flt else None) x \<longrightarrow> (\<exists>sp\<in>set (concat subs). covers (k - held) sp x)))"

definition enum_covers ::
  "nat \<Rightarrow> head_filter \<Rightarrow> string list set \<Rightarrow> (nat \<Rightarrow> emit_budget \<Rightarrow> (emit_error, prefix_path list list \<times> emit_budget) result) \<Rightarrow> bool" where
  "enum_covers k flt X enum \<longleftrightarrow>
     (\<forall>held b subs b'. enum held b = Inr (subs, b') \<longrightarrow>
        (\<forall>x\<in>X. admitted (if held = 0 then flt else None) x \<longrightarrow> (\<exists>sp\<in>set (concat subs). covers (k - held) sp x)))"

lemma sub_paths_covers:
  assumes "sub_paths_at enum held st = Inr (subs, st')" and "cache_covers k flt X st" and "enum_covers k flt X enum"
  shows "cache_covers k flt X st' \<and> ex_next st' = ex_next st \<and> ex_grows st' = ex_grows st \<and>
    (\<forall>x\<in>X. admitted (if held = 0 then flt else None) x \<longrightarrow> (\<exists>sp\<in>set (concat subs). covers (k - held) sp x))"
proof (cases "map_of (ex_by_length st) held")
  case None
  then obtain b where e: "enum held (ex_budget st) = Inr (subs, b)"
    and st': "st' = st\<lparr>ex_by_length := imap_insert held subs (ex_by_length st), ex_budget := b\<rparr>"
    using assms(1) by (auto simp: sub_paths_at_def res_bind_Inr_iff)
  have c: "\<forall>x\<in>X. admitted (if held = 0 then flt else None) x \<longrightarrow> (\<exists>sp\<in>set (concat subs). covers (k - held) sp x)"
    using assms(3) e unfolding enum_covers_def by blast
  then have "cache_covers k flt X st'" using assms(2) unfolding cache_covers_def st' by (auto split: if_splits)
  then show ?thesis using c st' by simp
next
  case (Some s)
  then have "subs = s" "st' = st" using assms(1) by (auto simp: sub_paths_at_def)
  moreover have "\<forall>x\<in>X. admitted (if held = 0 then flt else None) x \<longrightarrow> (\<exists>sp\<in>set (concat s). covers (k - held) sp x)"
    using assms(2) Some unfolding cache_covers_def by blast
  ultimately show ?thesis using assms(2) by simp
qed

text \<open>What an element adds, with the words it derives.\<close>

definition adds :: "nat \<Rightarrow> head_filter \<Rightarrow> string list set \<Rightarrow> string option \<Rightarrow>
    (nat \<Rightarrow> emit_budget \<Rightarrow> (emit_error, prefix_path list list \<times> emit_budget) result) option \<Rightarrow> bool" where
  "adds k flt X added sub \<longleftrightarrow>
     (\<forall>tok. added = Some tok \<longrightarrow> X \<subseteq> {[tok]}) \<and> (\<forall>enum. added = None \<longrightarrow> sub = Some enum \<longrightarrow> enum_covers k flt X enum)"

lemma covers_more: "covers k p u \<Longrightarrow> pp_done p \<or> k \<le> length (pp_tokens p) \<Longrightarrow> covers k p (u @ x)"
  by (auto simp: covers_def split: if_splits)

lemma extend_path_covers:
  assumes "extend_path k flt added sub st p = Inr st'" and X: "adds k flt X added sub" and "cache_covers k flt X st"
  shows "cache_covers k flt X st' \<and> set (ex_next st) \<subseteq> set (ex_next st') \<and>
    (\<forall>u x. covers k p u \<longrightarrow> x \<in> X \<longrightarrow> admitted flt (u @ x) \<longrightarrow> (\<exists>q\<in>set (ex_next st'). covers k q (u @ x)))"
proof (cases "pp_done p \<or> k \<le> length (pp_tokens p)")
  case True
  then have "st' = st\<lparr>ex_next := ex_next st @ [p]\<rparr>" using assms(1) by (simp add: extend_path_def)
  then show ?thesis using assms(3) covers_more [OF _ True] by (auto simp: cache_covers_def)
next
  case live: False
  then have live': "\<not> pp_done p" "length (pp_tokens p) < k" by auto
  have ends: "pp_tokens p = u" if "covers k p u" for u
    using that live' by (auto simp: covers_def min_def split: if_splits)
  show ?thesis
  proof (cases added)
    case (Some tok)
    have one: "X \<subseteq> {[tok]}" using X Some by (simp add: adds_def)
    show ?thesis
    proof (cases "admits flt p tok")
      case True
      then have "put_path k (pp_tokens p @ [tok]) False st = Inr st'" using assms(1) Some live by (simp add: extend_path_def)
      note r = put_path_result [OF this]
      have "covers k \<lparr>pp_tokens = pp_tokens p @ [tok], pp_done = False\<rparr> (u @ x)" if "covers k p u" "x \<in> X" for u x
        using ends [OF that(1)] that(2) one live' by (auto simp: covers_def)
      then show ?thesis using r assms(3) by (auto simp: cache_covers_def)
    next
      case False
      then have "st' = st" using assms(1) Some live by (simp add: extend_path_def)
      moreover have "\<not> admitted flt (u @ x)" if "covers k p u" "x \<in> X" for u x
        using ends [OF that(1)] that(2) one False by (auto simp: admits_def admitted_def split: option.splits)
      ultimately show ?thesis using assms(3) by auto
    qed
  next
    case None
    show ?thesis
    proof (cases sub)
      case none: None
      then have "put_path k (pp_tokens p) True st = Inr st'" using assms(1) None live by (simp add: extend_path_def)
      note r = put_path_result [OF this]
      have "covers k \<lparr>pp_tokens = pp_tokens p, pp_done = True\<rparr> (u @ x)" if "covers k p u" for u x
        using ends [OF that] live' by (simp add: covers_def)
      then show ?thesis using r assms(3) by (auto simp: cache_covers_def)
    next
      case (Some enum)
      let ?h = "length (pp_tokens p)"
      have ec: "enum_covers k flt X enum" using X None Some by (simp add: adds_def)
      obtain subs s1 where s1: "sub_paths_at enum ?h st = Inr (subs, s1)"
        "res_fold (\<lambda>st sp. put_path k (pp_tokens p @ pp_tokens sp) (pp_done sp) st) s1 (concat subs) = Inr st'"
        using assms(1) None Some live by (auto simp: extend_path_def res_bind_Inr_iff)
      note c = sub_paths_covers [OF s1(1) assms(3) ec] and r = put_paths_result [OF s1(2)]
      have "\<exists>q\<in>set (ex_next st'). covers k q (u @ x)" if u: "covers k p u" and x: "x \<in> X" and a: "admitted flt (u @ x)" for u x
      proof -
        have pu: "pp_tokens p = u" by (rule ends [OF u])
        have "admitted (if ?h = 0 then flt else None) x" using a pu by (cases "u = []") (auto simp: admitted_def)
        then obtain sp where sp: "sp \<in> set (concat subs)" "covers (k - ?h) sp x" using c x by blast
        let ?q = "\<lparr>pp_tokens = pp_tokens p @ pp_tokens sp, pp_done = pp_done sp\<rparr>"
        have "?q \<in> set (ex_next st')" using r sp(1) by auto
        moreover have "covers k ?q (u @ x)" using sp(2) pu live' by (auto simp: covers_def split: if_splits)
        ultimately show ?thesis by blast
      qed
      moreover have "cache_covers k flt X st'" using c r by (simp add: cache_covers_def)
      ultimately show ?thesis using c r by auto
    qed
  qed
qed

lemma extend_paths_cover:
  assumes "res_fold (extend_path k flt added sub) st paths = Inr st'" and X: "adds k flt X added sub" and "cache_covers k flt X st"
  shows "set (ex_next st) \<subseteq> set (ex_next st') \<and>
    (\<forall>p\<in>set paths. \<forall>u x. covers k p u \<longrightarrow> x \<in> X \<longrightarrow> admitted flt (u @ x) \<longrightarrow> (\<exists>q\<in>set (ex_next st'). covers k q (u @ x)))"
  using assms(1,3)
proof (induction paths arbitrary: st)
  case (Cons p paths)
  obtain s1 where s1: "extend_path k flt added sub st p = Inr s1" "res_fold (extend_path k flt added sub) s1 paths = Inr st'"
    using Cons.prems(1) by (auto simp: res_bind_Inr_iff)
  note e = extend_path_covers [OF s1(1) X Cons.prems(2)]
  note ih = Cons.IH [OF s1(2) conjunct1 [OF e]]
  have "\<exists>q\<in>set (ex_next st'). covers k q (u @ x)"
    if "p' \<in> set (p # paths)" "covers k p' u" "x \<in> X" "admitted flt (u @ x)" for p' u x
  proof (cases "p' = p")
    case True
    then have "\<exists>q\<in>set (ex_next s1). covers k q (u @ x)" using e that(2-4) by blast
    then show ?thesis using ih by blast
  next
    case False
    then show ?thesis using ih that by simp
  qed
  moreover have "set (ex_next st) \<subseteq> set (ex_next st')" using e ih by blast
  ultimately show ?case by blast
qed simp

section \<open>The whole walk\<close>

lemma admitted_prefix: "admitted flt (u @ v) \<Longrightarrow> admitted flt u"
  by (cases u) (auto simp: admitted_def split: option.splits)

lemma class_word:
  assumes "map_of cls name = Some s" and "x \<in> tlang tk (map (classed cls) ps) name"
  shows "x = [s]"
proof -
  let ?qs = "map (classed cls) ps"
  have "models (tok_words tk) (\<lambda>n. case map_of cls n of Some s \<Rightarrow> {[s]} | None \<Rightarrow> UNIV) ?qs"
    by (auto simp: models_def classed_def el_token_def el_of_def tok_words_def is_terminal_def tok_name_def tok_of_def split: option.splits)
  from glang_least [OF this, of name] assms show ?thesis by auto
qed

lemma name_word:
  assumes "x \<in> tlang tk (map (classed cls) (productions g)) name" and "map_of cls name = None"
    and "find_prod g name = Some p" and "distinct (names (productions g))"
  shows "\<exists>alt\<in>set (p_alts p). x \<in> slang (tok_words tk) (tlang tk (map (classed cls) (productions g))) alt"
proof -
  let ?qs = "map (classed cls) (productions g)"
  have f: "p \<in> set (productions g)" "p_name p = name" using find_prod_Some [OF assms(3)] by auto
  have "{q \<in> set ?qs. p_name q = name} = {classed cls p}"
    using f assms(4) by (auto simp: distinct_map inj_on_def)
  then have "tlang tk ?qs name = alang (tok_words tk) (tlang tk ?qs) (p_alts (classed cls p))"
    using glang_unfold [of "tok_words tk" ?qs name] by simp
  moreover have "classed cls p = p" using assms(2) f(2) by (simp add: classed_def)
  ultimately show ?thesis using assms(1) by (auto simp: alang_def)
qed

lemma covers_start: "covers k path_start []"
  by (simp add: covers_def path_start_def)

lemma walk_covers:
  assumes d: "distinct (names (productions g))" and leaf: "all_elements is_leaf (productions g)"
  shows "prefixes_walk g tk cs k visited flt alt paths b = Inr (out, b') \<Longrightarrow> list_all is_leaf alt \<Longrightarrow>
    p \<in> set paths \<Longrightarrow> covers k p u \<Longrightarrow>
    v \<in> slang (tok_words tk) (tlang tk (map (classed (class_list cs)) (productions g))) alt \<Longrightarrow> admitted flt (u @ v) \<Longrightarrow>
    \<exists>q\<in>set out. covers k q (u @ v)"
proof (induction "card (set (names (productions g)) - set visited)" arbitrary: visited k flt alt paths b out b' p u v rule: less_induct)
  case less
  let ?S = "slang (tok_words tk) (tlang tk (map (classed (class_list cs)) (productions g)))"
  let ?G = "tlang tk (map (classed (class_list cs)) (productions g))"
  note outer = less.hyps
  show ?case
    using less.prems
  proof (induction alt arbitrary: paths b p u v)
    case Nil
    then show ?case by auto
  next
    case (Cons el els)
    define X where "X = elang (tok_words tk) ?G el"
    define sub where "sub = (case expands_to g visited el of
        None \<Rightarrow> None
      | Some (name, alts) \<Rightarrow>
          Some (\<lambda>held b.
            res_fold
              (\<lambda>(subs, b) sub.
                 res_bind (b_hold 1 b)
                   (\<lambda>b. res_bind
                      (prefixes_walk g tk cs (k - held) (name # visited) (if held = 0 then flt else None) sub [path_start] b)
                      (\<lambda>(ps, b). Inr (subs @ [ps], b))))
              ([], b) alts))"
    obtain st where st: "res_fold (extend_path k flt (added_token tk cs el) sub)
          \<lparr>ex_next = [], ex_grows = False, ex_by_length = [], ex_budget = b\<rparr> paths = Inr st"
      and fin: "(if ex_grows st then prefixes_walk g tk cs k visited flt els (ex_next st) (ex_budget st)
             else Inr (ex_next st, ex_budget st)) = Inr (out, b')"
      using Cons.prems(1) unfolding prefixes_walk.simps(2) sub_def by (auto simp: res_bind_Inr_iff)
    have le: "is_leaf el" "list_all is_leaf els" using Cons.prems(2) by auto
    have enum: "enum_covers k flt X enum" if none: "added_token tk cs el = None" and s: "sub = Some enum" for enum
    proof -
      obtain name alts where e: "expands_to g visited el = Some (name, alts)"
        and en: "enum = (\<lambda>held b.
            res_fold
              (\<lambda>(subs, b) sub.
                 res_bind (b_hold 1 b)
                   (\<lambda>b. res_bind
                      (prefixes_walk g tk cs (k - held) (name # visited) (if held = 0 then flt else None) sub [path_start] b)
                      (\<lambda>(ps, b). Inr (subs @ [ps], b))))
              ([], b) alts)"
        using s unfolding sub_def by (auto split: option.splits)
      obtain q where q: "ref_name el = Some name" "find_prod g name = Some q" "alts = p_alts q"
        using expands_to_Some [OF e] by blast
      have X: "X = ?G name" unfolding X_def by (rule elang_ref [OF q(1)])
      have cls: "map_of (class_list cs) name = None"
        using none q(1) ref_not_terminal [OF q(1)] by (auto simp: added_token_def class_list_def split: option.splits)
      have small: "card (set (names (productions g)) - set (name # visited)) < card (set (names (productions g)) - set visited)"
        using card_visited [OF e] by simp
      have fold: "(\<forall>ps\<in>set subs. ps \<in> set subs') \<and>
          (\<forall>a\<in>set as. \<forall>x\<in>?S a. admitted (if held = 0 then flt else None) x \<longrightarrow> (\<exists>sp\<in>set (concat subs'). covers (k - held) sp x))"
        if "res_fold
              (\<lambda>(subs, b) sub.
                 res_bind (b_hold 1 b)
                   (\<lambda>b. res_bind
                      (prefixes_walk g tk cs (k - held) (name # visited) (if held = 0 then flt else None) sub [path_start] b)
                      (\<lambda>(ps, b). Inr (subs @ [ps], b))))
              (subs, b0) as = Inr (subs', b1)" and "set as \<subseteq> set alts" for as subs subs' b0 b1 held
        using that
      proof (induction as arbitrary: subs b0)
        case Nil
        then show ?case by simp
      next
        case (Cons a as)
        obtain b2 ps b3 where w: "prefixes_walk g tk cs (k - held) (name # visited) (if held = 0 then flt else None) a [path_start] b2 = Inr (ps, b3)"
          and rest: "res_fold
              (\<lambda>(subs, b) sub.
                 res_bind (b_hold 1 b)
                   (\<lambda>b. res_bind
                      (prefixes_walk g tk cs (k - held) (name # visited) (if held = 0 then flt else None) sub [path_start] b)
                      (\<lambda>(ps, b). Inr (subs @ [ps], b))))
              (subs @ [ps], b3) as = Inr (subs', b1)"
          using Cons.prems(1) by (auto simp: res_bind_Inr_iff)
        have la: "list_all is_leaf a"
          using leaf Cons.prems(2) q(3) find_prod_Some [OF q(2)] by (auto simp: list_all_iff)
        note ih = Cons.IH [OF rest]
        have "\<exists>sp\<in>set ps. covers (k - held) sp x" if "x \<in> ?S a" "admitted (if held = 0 then flt else None) x" for x
          using outer [OF small w la _ covers_start, of x] that by simp
        moreover have "ps \<in> set subs'" using ih Cons.prems(2) by simp
        ultimately have "\<exists>sp\<in>set (concat subs'). covers (k - held) sp x"
          if "x \<in> ?S a" "admitted (if held = 0 then flt else None) x" for x
          using that by (metis UnionI set_concat image_eqI)
        then show ?case using ih Cons.prems(2) by auto
      qed
      show ?thesis
        unfolding enum_covers_def
      proof (intro allI impI ballI)
        fix held c subs c' x
        assume r: "enum held c = Inr (subs, c')" and x: "x \<in> X" "admitted (if held = 0 then flt else None) x"
        obtain a where "a \<in> set alts" "x \<in> ?S a" using name_word [OF x(1) [unfolded X] cls q(2) d] q(3) by blast
        then show "\<exists>sp\<in>set (concat subs). covers (k - held) sp x"
          using fold [OF r [unfolded en] order_refl] x(2) by blast
      qed
    qed
    have tok: "X \<subseteq> {[tok]}" if "added_token tk cs el = Some tok" for tok
    proof (cases "is_terminal el")
      case True
      then show ?thesis using that elang_terminal [OF True, of tk ?G] by (simp add: X_def added_token_def)
    next
      case False
      obtain name where n: "ref_name el = Some name" "map_of (class_list cs) name = Some tok"
      proof (cases "ref_name el")
        case None
        then show ?thesis using \<open>added_token tk cs el = Some tok\<close> False by (simp add: added_token_def)
      next
        case (Some name)
        then have "map_of (class_list cs) name = Some tok"
          using \<open>added_token tk cs el = Some tok\<close> False
          by (cases cs) (simp_all add: added_token_def class_list_def)
        then show ?thesis using Some that by blast
      qed
      show ?thesis using class_word [OF n(2)] by (auto simp: X_def elang_ref [OF n(1)])
    qed
    have ad: "adds k flt X (added_token tk cs el) sub" using enum tok by (auto simp: adds_def)
    have c0: "cache_covers k flt X \<lparr>ex_next = [], ex_grows = False, ex_by_length = [], ex_budget = b\<rparr>"
      by (simp add: cache_covers_def)
    obtain x y where v: "v = x @ y" "x \<in> X" "y \<in> ?S els" using Cons.prems(5) by (auto simp: X_def elim: concE)
    have "admitted flt (u @ x)" using Cons.prems(6) v(1) admitted_prefix [of flt "u @ x" y] by simp
    then obtain q where q: "q \<in> set (ex_next st)" "covers k q (u @ x)"
      using extend_paths_cover [OF st ad c0] Cons.prems(3,4) v(2) by blast
    show ?case
    proof (cases "ex_grows st")
      case True
      then have "prefixes_walk g tk cs k visited flt els (ex_next st) (ex_budget st) = Inr (out, b')" using fin by simp
      from Cons.IH [OF this le(2) q v(3)] Cons.prems(6) show ?thesis by (simp add: v(1))
    next
      case False
      have "settled_paths k st"
        by (rule res_fold_invariant [OF st]) (use extend_path_settled in \<open>auto simp: settled_paths_def\<close>)
      then have "pp_done q \<or> k \<le> length (pp_tokens q)" using q(1) False by (auto simp: settled_paths_def)
      then have "covers k q (u @ x @ y)" using covers_more [OF q(2)] by simp
      moreover have "q \<in> set out" using q(1) False fin by simp
      ultimately show ?thesis by (auto simp: v(1))
    qed
  qed
qed

end
