(* ===== verification/Dispatch_Cover.thy ===== *)
theory Dispatch_Cover
  imports Lookahead_Cover
begin

text \<open>
  A choice can dispatch every word of its alternatives. Where no rule leads back to itself, no path
  is cut short before its first token; then each non-empty word of an alternative begins with one of
  the prefixes the alternative is dispatched on.
\<close>

section \<open>Nothing is cut before its first token\<close>

abbreviation lang_of :: "grammar \<Rightarrow> tokens \<Rightarrow> (string \<times> string) list option \<Rightarrow> string env" where
  "lang_of g tk cs \<equiv> tlang tk (map (classed (class_list cs)) (productions g))"

text \<open>The names a sequence can lead with, all of a rank below the bound.\<close>

definition leads_below :: "grammar \<Rightarrow> tokens \<Rightarrow> (string \<times> string) list option \<Rightarrow> (string \<Rightarrow> nat) \<Rightarrow> nat \<Rightarrow> seq \<Rightarrow> bool" where
  "leads_below g tk cs rank r alt \<longleftrightarrow>
     (\<forall>x el y n. alt = x @ el # y \<longrightarrow> [] \<in> slang (tok_words tk) (lang_of g tk cs) x \<longrightarrow> ref_name el = Some n \<longrightarrow>
        added_token tk cs el = None \<longrightarrow> rank n < r)"

definition ranked :: "grammar \<Rightarrow> tokens \<Rightarrow> (string \<times> string) list option \<Rightarrow> (string \<Rightarrow> nat) \<Rightarrow> bool" where
  "ranked g tk cs rank \<longleftrightarrow>
     (\<forall>p\<in>set (productions g). \<forall>alt\<in>set (p_alts p). leads_below g tk cs rank (rank (p_name p)) alt)"

text \<open>A path with no token yet has only passed what can be empty, and can still grow.\<close>

definition bare_path :: "bool \<Rightarrow> prefix_path \<Rightarrow> bool" where
  "bare_path e p \<longleftrightarrow> (pp_tokens p = [] \<longrightarrow> \<not> pp_done p \<and> e)"

definition bare_cache :: "bool \<Rightarrow> extension \<Rightarrow> bool" where
  "bare_cache e st \<longleftrightarrow> (\<forall>subs. map_of (ex_by_length st) 0 = Some subs \<longrightarrow> (\<forall>sp\<in>set (concat subs). bare_path e sp))"

definition bare_enum :: "bool \<Rightarrow> (nat \<Rightarrow> emit_budget \<Rightarrow> (emit_error, prefix_path list list \<times> emit_budget) result) \<Rightarrow> bool" where
  "bare_enum e enum \<longleftrightarrow> (\<forall>b subs b'. enum 0 b = Inr (subs, b') \<longrightarrow> (\<forall>sp\<in>set (concat subs). bare_path e sp))"

lemma extend_path_bare:
  assumes r: "extend_path k flt added sub st p = Inr st'" and k: "0 < k"
    and p: "bare_path e0 p" and st: "\<forall>q\<in>set (ex_next st). bare_path (e0 \<and> e) q" and c: "e0 \<longrightarrow> bare_cache e st"
    and en: "\<And>enum. e0 \<Longrightarrow> added = None \<Longrightarrow> sub = Some enum \<Longrightarrow> bare_enum e enum"
    and ex: "e0 \<Longrightarrow> added = None \<Longrightarrow> sub \<noteq> None"
  shows "(\<forall>q\<in>set (ex_next st'). bare_path (e0 \<and> e) q) \<and> (e0 \<longrightarrow> bare_cache e st')"
proof (cases "pp_done p \<or> k \<le> length (pp_tokens p)")
  case True
  then have "bare_path (e0 \<and> e) p" using p k by (auto simp: bare_path_def)
  then show ?thesis using True r st c by (auto simp: extend_path_def bare_cache_def)
next
  case live: False
  show ?thesis
  proof (cases added)
    case (Some tok)
    then show ?thesis using r live st c
      by (auto simp: extend_path_def bare_path_def bare_cache_def dest!: put_path_result split: if_splits)
  next
    case None
    show ?thesis
    proof (cases sub)
      case none: None
      then have "pp_tokens p \<noteq> []" using ex None p by (auto simp: bare_path_def)
      then show ?thesis using r live None none st c
        by (auto simp: extend_path_def bare_path_def bare_cache_def dest!: put_path_result)
    next
      case (Some enum)
      let ?h = "length (pp_tokens p)"
      obtain subs s1 where s1: "sub_paths_at enum ?h st = Inr (subs, s1)"
        and puts: "res_fold (\<lambda>st sp. put_path k (pp_tokens p @ pp_tokens sp) (pp_done sp) st) s1 (concat subs) = Inr st'"
        using r None Some live by (auto simp: extend_path_def res_bind_Inr_iff)
      have s: "ex_next s1 = ex_next st \<and> (e0 \<longrightarrow> bare_cache e s1 \<and> (?h = 0 \<longrightarrow> (\<forall>sp\<in>set (concat subs). bare_path e sp)))"
      proof (cases "map_of (ex_by_length st) ?h")
        case (Some s)
        then have "subs = s" "s1 = st" using s1 by (auto simp: sub_paths_at_def)
        then show ?thesis using c Some by (auto simp: bare_cache_def)
      next
        case None
        then obtain b where e': "enum ?h (ex_budget st) = Inr (subs, b)"
          and s1': "s1 = st\<lparr>ex_by_length := imap_insert ?h subs (ex_by_length st), ex_budget := b\<rparr>"
          using s1 by (auto simp: sub_paths_at_def res_bind_Inr_iff)
        have z: "\<forall>sp\<in>set (concat subs). bare_path e sp" if e0 "?h = 0"
          using en [OF that(1) \<open>added = None\<close> \<open>sub = Some enum\<close>] e' that(2) unfolding bare_enum_def by (metis (no_types))
        then show ?thesis using c unfolding s1' by (auto simp: bare_cache_def split: if_splits)
      qed
      have "bare_path (e0 \<and> e) \<lparr>pp_tokens = pp_tokens p @ pp_tokens sp, pp_done = pp_done sp\<rparr>" if "sp \<in> set (concat subs)" for sp
        using s that p by (auto simp: bare_path_def)
      then show ?thesis using put_paths_result [OF puts] s st by (auto simp: bare_cache_def)
    qed
  qed
qed

lemma extend_paths_bare:
  assumes "res_fold (extend_path k flt added sub) st ps = Inr st'" and k: "0 < k"
    and "\<forall>p\<in>set ps. bare_path e0 p" and "\<forall>q\<in>set (ex_next st). bare_path (e0 \<and> e) q" and "e0 \<longrightarrow> bare_cache e st"
    and en: "\<And>enum. e0 \<Longrightarrow> added = None \<Longrightarrow> sub = Some enum \<Longrightarrow> bare_enum e enum"
    and ex: "e0 \<Longrightarrow> added = None \<Longrightarrow> sub \<noteq> None"
  shows "\<forall>q\<in>set (ex_next st'). bare_path (e0 \<and> e) q"
  using assms(1,3-5)
proof (induction ps arbitrary: st)
  case (Cons p ps)
  obtain s1 where s1: "extend_path k flt added sub st p = Inr s1" "res_fold (extend_path k flt added sub) s1 ps = Inr st'"
    using Cons.prems(1) by (auto simp: res_bind_Inr_iff)
  have p: "bare_path e0 p" using Cons.prems(2) by simp
  have "(\<forall>q\<in>set (ex_next s1). bare_path (e0 \<and> e) q) \<and> (e0 \<longrightarrow> bare_cache e s1)"
    by (rule extend_path_bare [OF s1(1) k p Cons.prems(3,4) en ex])
  then show ?case using Cons.IH [OF s1(2)] Cons.prems(2) by simp
qed simp

lemma leads_below_suffix:
  assumes "leads_below g tk cs rank r (x @ y)" and "[] \<in> slang (tok_words tk) (lang_of g tk cs) x"
  shows "leads_below g tk cs rank r y"
  unfolding leads_below_def
proof (intro allI impI)
  fix x' el y' n
  assume "y = x' @ el # y'" and e: "[] \<in> slang (tok_words tk) (lang_of g tk cs) x'" and n: "ref_name el = Some n" "added_token tk cs el = None"
  then have "x @ y = (x @ x') @ el # y'" by simp
  moreover have "[] \<in> slang (tok_words tk) (lang_of g tk cs) (x @ x')" using assms(2) e by simp
  ultimately show "rank n < r" using assms(1) n unfolding leads_below_def by blast
qed

lemma walk_bare:
  assumes d: "distinct (names (productions g))" and rk: "ranked g tk cs rank"
    and full: "\<And>p. p \<in> set (productions g) \<Longrightarrow> p_alts p \<noteq> []"
    and leaf: "all_elements is_leaf (productions g)" and cl: "closed (productions g)"
  shows "prefixes_walk g tk cs k visited flt alt paths b = Inr (out, b') \<Longrightarrow> 0 < k \<Longrightarrow> list_all is_leaf alt \<Longrightarrow>
    seq_refs alt \<subseteq> set (names (productions g)) \<Longrightarrow>
    (e0 \<Longrightarrow> leads_below g tk cs rank r alt) \<Longrightarrow> (\<forall>v\<in>set visited. r \<le> rank v) \<Longrightarrow> \<forall>p\<in>set paths. bare_path e0 p \<Longrightarrow>
    \<forall>q\<in>set out. bare_path (e0 \<and> [] \<in> slang (tok_words tk) (lang_of g tk cs) alt) q"
proof (induction "card (set (names (productions g)) - set visited)" arbitrary: visited k flt alt paths b out b' e0 r rule: less_induct)
  case less
  let ?G = "lang_of g tk cs"
  note outer = less.hyps
  show ?case
    using less.prems
  proof (induction alt arbitrary: paths b e0)
    case Nil
    then show ?case by simp
  next
    case (Cons el els)
    define e where "e = ([] \<in> elang (tok_words tk) ?G el)"
    define sub where "sub = (case expands_to g visited el of
        None \<Rightarrow> None
      | Some (name, alts) \<Rightarrow>
          Some (\<lambda>held b.
            res_fold
              (\<lambda>(subs, b) sub.
                 res_bind (b_hold 1 b)
                   (\<lambda>b. res_bind
                      (prefixes_walk g tk cs (k - held) (name # visited) (if held = 0 then flt else None) sub [path_start] b)
                      (\<lambda>(ps, b). Inr (subs @ [ps], b))))
              ([], b) alts))"
    obtain st where st: "res_fold (extend_path k flt (added_token tk cs el) sub)
          \<lparr>ex_next = [], ex_grows = False, ex_by_length = [], ex_budget = b\<rparr> paths = Inr st"
      and fin: "(if ex_grows st then prefixes_walk g tk cs k visited flt els (ex_next st) (ex_budget st)
             else Inr (ex_next st, ex_budget st)) = Inr (out, b')"
      using Cons.prems(1) unfolding prefixes_walk.simps(2) sub_def by (auto simp: res_bind_Inr_iff)
    have le: "is_leaf el" "list_all is_leaf els" using Cons.prems(3) by auto
    have lead: "rank n < r" if e0 "ref_name el = Some n" "added_token tk cs el = None" for n
    proof -
      have "el # els = [] @ el # els \<and> [] \<in> slang (tok_words tk) ?G []" by simp
      then show ?thesis using Cons.prems(5) [OF that(1)] that(2,3) unfolding leads_below_def by blast
    qed
    have ex: "sub \<noteq> None" if "e0" "added_token tk cs el = None"
    proof -
      have "\<not> is_terminal el" using that(2) by (auto simp: added_token_def split: if_splits)
      then obtain n where n: "ref_name el = Some n" using le(1) by (auto elim: leaf_cases)
      then have "n \<in> set (names (productions g))"
        using Cons.prems(4) by (cases el; cases "kind_of el") (auto simp: ref_name_def)
      then obtain p where p: "find_prod g n = Some p" using find_prod_None [of g n] by (cases "find_prod g n") auto
      then have "p_alts p \<noteq> []" using full find_prod_Some by blast
      moreover have "n \<notin> set visited" using lead [OF that(1) n that(2)] Cons.prems(6) by force
      ultimately show ?thesis using n p by (simp add: sub_def expands_to_def)
    qed
    have en: "bare_enum e enum" if none: "added_token tk cs el = None" and s: "sub = Some enum" and e0 for enum
    proof -
      obtain name alts where x: "expands_to g visited el = Some (name, alts)"
        and enum: "enum = (\<lambda>held b.
            res_fold
              (\<lambda>(subs, b) sub.
                 res_bind (b_hold 1 b)
                   (\<lambda>b. res_bind
                      (prefixes_walk g tk cs (k - held) (name # visited) (if held = 0 then flt else None) sub [path_start] b)
                      (\<lambda>(ps, b). Inr (subs @ [ps], b))))
              ([], b) alts)"
        using s unfolding sub_def by (auto split: option.splits)
      obtain q where q: "ref_name el = Some name" "find_prod g name = Some q" "alts = p_alts q"
        using expands_to_Some [OF x] by blast
      have qs: "q \<in> set (productions g)" "p_name q = name" using find_prod_Some [OF q(2)] by auto
      have cls: "map_of (class_list cs) name = None"
        using none q(1) ref_not_terminal [OF q(1)] by (auto simp: added_token_def class_list_def split: option.splits)
      have small: "card (set (names (productions g)) - set (name # visited)) < card (set (names (productions g)) - set visited)"
        using card_visited [OF x] by simp
      have below: "\<forall>v\<in>set (name # visited). rank name \<le> rank v"
        using lead [OF \<open>e0\<close> q(1) none] Cons.prems(6) by auto
      have one: "\<forall>p\<in>set ps. bare_path e p"
        if w: "prefixes_walk g tk cs k (name # visited) flt a [path_start] b1 = Inr (ps, b2)" and a: "a \<in> set alts" for a b1 ps b2
      proof -
        have "list_all is_leaf a" using leaf a q(3) qs(1) by (auto simp: list_all_iff)
        moreover have "seq_refs a \<subseteq> set (names (productions g))" using cl a q(3) qs(1) by (fastforce simp: closed_def)
        moreover have "leads_below g tk cs rank (rank name) a" using rk a q(3) qs by (auto simp: ranked_def)
        ultimately have "\<forall>p\<in>set ps. bare_path (True \<and> [] \<in> slang (tok_words tk) ?G a) p"
          using outer [OF small w Cons.prems(2), of True "rank name"] below by (simp add: bare_path_def path_start_def)
        moreover have "[] \<in> slang (tok_words tk) ?G a \<Longrightarrow> e"
        proof -
          assume "[] \<in> slang (tok_words tk) ?G a"
          moreover have "classed (class_list cs) q = q" using cls qs(2) by (simp add: classed_def)
          then have "q \<in> set (map (classed (class_list cs)) (productions g))" using qs(1) by force
          ultimately have "[] \<in> ?G name" using glang_alt a q(3) qs(2) by blast
          then show e by (simp add: e_def elang_ref [OF q(1)])
        qed
        ultimately show ?thesis by (auto simp: bare_path_def)
      qed
      have fold: "\<forall>sp\<in>set (concat subs'). bare_path e sp"
        if "res_fold
              (\<lambda>(subs, b) sub.
                 res_bind (b_hold 1 b)
                   (\<lambda>b. res_bind (prefixes_walk g tk cs k (name # visited) flt sub [path_start] b)
                      (\<lambda>(ps, b). Inr (subs @ [ps], b))))
              (subs, b0) as = Inr (subs', b1)" "set as \<subseteq> set alts" "\<forall>sp\<in>set (concat subs). bare_path e sp" for as subs subs' b0 b1
        using that
      proof (induction as arbitrary: subs b0)
        case (Cons a as)
        obtain b2 ps b3 where w: "prefixes_walk g tk cs k (name # visited) flt a [path_start] b2 = Inr (ps, b3)"
          and rest: "res_fold
              (\<lambda>(subs, b) sub.
                 res_bind (b_hold 1 b)
                   (\<lambda>b. res_bind (prefixes_walk g tk cs k (name # visited) flt sub [path_start] b)
                      (\<lambda>(ps, b). Inr (subs @ [ps], b))))
              (subs @ [ps], b3) as = Inr (subs', b1)"
          using Cons.prems(1) by (auto simp: res_bind_Inr_iff)
        show ?case by (rule Cons.IH [OF rest]) (use one [OF w] Cons.prems(2,3) in auto)
      qed simp
      show ?thesis
        unfolding bare_enum_def
      proof (intro allI impI)
        fix b1 subs b2
        assume "enum 0 b1 = Inr (subs, b2)"
        then show "\<forall>sp\<in>set (concat subs). bare_path e sp"
          using fold [of "[]" b1 alts subs b2] by (simp add: enum)
      qed
    qed
    have nx: "\<forall>q\<in>set (ex_next st). bare_path (e0 \<and> e) q"
      by (rule extend_paths_bare [OF st Cons.prems(2,7)]) (use en ex in \<open>auto simp: bare_cache_def\<close>)
    show ?case
    proof (cases "ex_grows st")
      case True
      then have w: "prefixes_walk g tk cs k visited flt els (ex_next st) (ex_budget st) = Inr (out, b')" using fin by simp
      have lb: "leads_below g tk cs rank r els" if "e0 \<and> e"
        using leads_below_suffix [of g tk cs rank r "[el]" els] Cons.prems(5) that by (simp add: e_def)
      have "\<forall>q\<in>set out. bare_path ((e0 \<and> e) \<and> [] \<in> slang (tok_words tk) ?G els) q"
        by (rule Cons.IH [OF w Cons.prems(2) le(2) _ lb Cons.prems(6) nx]) (use Cons.prems(4) in auto)
      then show ?thesis by (simp add: e_def)
    next
      case False
      have "settled_paths k st"
        by (rule res_fold_invariant [OF st]) (use extend_path_settled in \<open>auto simp: settled_paths_def\<close>)
      moreover have "ex_next st = out" using fin False by simp
      ultimately have "pp_tokens q \<noteq> []" if "q \<in> set out" for q
        using False that nx Cons.prems(2) by (auto simp: settled_paths_def bare_path_def)
      then show ?thesis by (simp add: bare_path_def)
    qed
  qed
qed

section \<open>One alternative\<close>

text \<open>What the analysis asks of the grammar: desugared, closed, and with no rule that leads back to itself.\<close>

definition dispatchable :: "grammar \<Rightarrow> tokens \<Rightarrow> (string \<times> string) list \<Rightarrow> (string \<Rightarrow> nat) \<Rightarrow> bool" where
  "dispatchable g tk cs rank \<longleftrightarrow>
     distinct (names (productions g)) \<and> list_all (\<lambda>p. p_alts p \<noteq> []) (productions g) \<and>
     all_elements is_leaf (productions g) \<and> closed (productions g) \<and> ranked g tk (Some cs) rank"

lemma ranked_leads:
  assumes "ranked g tk cs rank" obtains r where "leads_below g tk cs rank r alt"
proof -
  have "leads_below g tk cs rank (Suc (Max (rank ` seq_refs alt))) alt"
    unfolding leads_below_def
  proof (intro allI impI)
    fix x el y n assume "alt = x @ el # y" "ref_name el = Some n"
    then have "n \<in> seq_refs alt" by (cases el; cases "kind_of el") (auto simp: ref_name_def)
    moreover have "finite (el_refs e)" for e :: element by (induction e rule: element_induct) auto
    ultimately show "rank n < Suc (Max (rank ` seq_refs alt))" by (intro le_imp_less_Suc Max_ge) auto
  qed
  then show ?thesis using that by blast
qed

lemma enumerate_covers:
  assumes en: "enumerate_alt g tk cs k flt alt b = Inr (paths, b')" and d: "dispatchable g tk cs rank" and k: "0 < k"
    and alt: "list_all is_leaf alt" "seq_refs alt \<subseteq> set (names (productions g))"
  shows "w \<in> slang (tok_words tk) (lang_of g tk (Some cs)) alt \<Longrightarrow> admitted flt w \<Longrightarrow> \<exists>p\<in>set paths. covers k p w"
    and "p \<in> set paths \<Longrightarrow> pp_tokens p = [] \<Longrightarrow> \<not> pp_done p \<and> [] \<in> slang (tok_words tk) (lang_of g tk (Some cs)) alt"
proof -
  note dd = d [unfolded dispatchable_def]
  obtain b0 b1 where w: "prefixes_walk g tk (Some cs) k [] flt alt [path_start] b0 = Inr (paths, b1)"
    using en by (auto simp: enumerate_alt_def alt_prefixes_raw_def res_bind_Inr_iff)
  show "\<exists>p\<in>set paths. covers k p w" if "w \<in> slang (tok_words tk) (lang_of g tk (Some cs)) alt" "admitted flt w"
    using walk_covers [OF _ _ w alt(1), of path_start "[]" w] dd that by (simp add: covers_start)
  obtain r where r: "leads_below g tk (Some cs) rank r alt" using ranked_leads dd by blast
  have "\<forall>q\<in>set paths. bare_path (True \<and> [] \<in> slang (tok_words tk) (lang_of g tk (Some cs)) alt) q"
    by (rule walk_bare [OF _ _ _ _ _ w k alt r]) (use dd in \<open>auto simp: list_all_iff bare_path_def path_start_def\<close>)
  then show "\<not> pp_done p \<and> [] \<in> slang (tok_words tk) (lang_of g tk (Some cs)) alt" if "p \<in> set paths" "pp_tokens p = []"
    using that by (auto simp: bare_path_def)
qed

lemma covers_nonempty:
  assumes "covers k p w" "0 < k" "w \<noteq> []" "pp_tokens p = [] \<longrightarrow> \<not> pp_done p"
  shows "pp_tokens p \<noteq> [] \<and> prefix (pp_tokens p) w \<and> length (pp_tokens p) \<le> k"
proof (cases "pp_done p")
  case False
  then have "pp_tokens p = take k w" using assms(1) by (simp add: covers_def)
  then show ?thesis using assms(2,3) by (simp add: take_is_prefix)
qed (use assms in \<open>auto simp: covers_def\<close>)

section \<open>A choice\<close>

text \<open>A fold that adds one result for each input.\<close>

lemma appending_fold:
  assumes "\<And>out z x s. x \<in> set xs \<Longrightarrow> f (out, z) x = Inr s \<Longrightarrow> \<exists>y z'. s = (out @ [y], z') \<and> R x y"
  shows "res_fold f (out, z) xs = Inr (out', z') \<Longrightarrow> \<exists>ys. out' = out @ ys \<and> list_all2 R xs ys"
  using assms
proof (induction xs arbitrary: out z)
  case (Cons x xs)
  obtain s where s: "f (out, z) x = Inr s" "res_fold f s xs = Inr (out', z')"
    using Cons.prems(1) by (auto simp: res_bind_Inr_iff)
  obtain y z1 where y: "s = (out @ [y], z1)" "R x y" using Cons.prems(2) [OF _ s(1)] by auto
  have "\<exists>ys. out' = (out @ [y]) @ ys \<and> list_all2 R xs ys"
    by (rule Cons.IH [OF s(2) [unfolded y(1)]]) (use Cons.prems(2) in auto)
  then show ?case using y(2) by auto
qed simp

definition heads_cover :: "grammar \<Rightarrow> tokens \<Rightarrow> (string \<times> string) list \<Rightarrow> seq \<Rightarrow> string list \<times> bool \<Rightarrow> bool" where
  "heads_cover g tk cs alt x \<longleftrightarrow>
     (\<forall>t w. t # w \<in> slang (tok_words tk) (lang_of g tk (Some cs)) alt \<longrightarrow> t \<in> set (fst x)) \<and>
     (alt \<noteq> [] \<longrightarrow> (snd x \<longleftrightarrow> [] \<in> slang (tok_words tk) (lang_of g tk (Some cs)) alt))"

lemma scan_heads_covers:
  assumes r: "scan_heads g tk cs (out, b) alt = Inr s" and d: "dispatchable g tk cs rank"
    and alt: "list_all is_leaf alt" "seq_refs alt \<subseteq> set (names (productions g))"
  shows "\<exists>y b'. s = (out @ [y], b') \<and> heads_cover g tk cs alt y"
proof (cases "alt = []")
  case True
  then show ?thesis using r by (auto simp: scan_heads_def heads_cover_def)
next
  case False
  then obtain paths b1 where en: "enumerate_alt g tk cs 1 None alt b = Inr (paths, b1)"
    and s: "s = (out @ [(heads_of paths, list_ex (\<lambda>p. pp_tokens p = [] \<and> \<not> pp_done p) paths)], b1)"
    using r by (auto simp: scan_heads_def res_bind_Inr_iff)
  note c = enumerate_covers [OF en d zero_less_one alt]
  have "t \<in> set (heads_of paths)" if tw: "t # w \<in> slang (tok_words tk) (lang_of g tk (Some cs)) alt" for t w
  proof -
    obtain p where p: "p \<in> set paths" "covers 1 p (t # w)" using c(1) [OF tw] by (auto simp: admitted_def)
    then have n: "pp_tokens p \<noteq> [] \<and> prefix (pp_tokens p) (t # w) \<and> length (pp_tokens p) \<le> 1"
      using covers_nonempty [OF p(2)] c(2) [OF p(1)] by simp
    then obtain u where u: "pp_tokens p = [u]" by (cases "pp_tokens p") auto
    then have "u = t" using n by simp
    then show ?thesis using p(1) u by (force simp: heads_of_def)
  qed
  moreover have "list_ex (\<lambda>p. pp_tokens p = [] \<and> \<not> pp_done p) paths"
    if e: "[] \<in> slang (tok_words tk) (lang_of g tk (Some cs)) alt"
  proof -
    obtain p where p: "p \<in> set paths" "covers 1 p []" using c(1) [OF e] by (auto simp: admitted_def)
    then have "pp_tokens p = []" by (auto simp: covers_def split: if_splits)
    then show ?thesis using p(1) c(2) [OF p(1)] by (auto simp: list_ex_iff)
  qed
  ultimately show ?thesis using s c(2) by (auto simp: heads_cover_def list_ex_iff)
qed

definition deep_cover :: "grammar \<Rightarrow> tokens \<Rightarrow> (string \<times> string) list \<Rightarrow> seq \<times> string list \<Rightarrow> string list list \<Rightarrow> bool" where
  "deep_cover g tk cs x ps \<longleftrightarrow>
     (\<forall>t w. t # w \<in> slang (tok_words tk) (lang_of g tk (Some cs)) (fst x) \<longrightarrow> t \<in> set (snd x) \<longrightarrow>
        (\<exists>p\<in>set ps. p \<noteq> [] \<and> prefix p (t # w)))"

lemma scan_deep_covers:
  assumes r: "scan_deep g tk cs k (out, b) (alt, contested) = Inr s" and d: "dispatchable g tk cs rank" and k: "0 < k"
    and alt: "list_all is_leaf alt" "seq_refs alt \<subseteq> set (names (productions g))"
  shows "\<exists>y b'. s = (out @ [y], b') \<and> deep_cover g tk cs (alt, contested) y"
proof (cases "contested = []")
  case True
  then show ?thesis using r by (auto simp: scan_deep_def deep_cover_def)
next
  case False
  then obtain paths b1 where en: "enumerate_alt g tk cs k (Some (\<lambda>t. t \<in> set contested)) alt b = Inr (paths, b1)"
    and s: "s = (out @ [filter (\<lambda>ts. ts \<noteq> []) (map pp_tokens paths)], b1)"
    using r by (auto simp: scan_deep_def res_bind_Inr_iff)
  note c = enumerate_covers [OF en d k alt]
  have "\<exists>p\<in>set (filter (\<lambda>ts. ts \<noteq> []) (map pp_tokens paths)). p \<noteq> [] \<and> prefix p (t # w)"
    if tw: "t # w \<in> slang (tok_words tk) (lang_of g tk (Some cs)) alt" "t \<in> set contested" for t w
  proof -
    obtain p where p: "p \<in> set paths" "covers k p (t # w)" using c(1) [OF tw(1)] tw(2) by (auto simp: admitted_def)
    then show ?thesis using covers_nonempty [OF p(2) k] c(2) [OF p(1)] by auto
  qed
  then show ?thesis using s by (auto simp: deep_cover_def)
qed

lemma keep_prefix_result:
  assumes "keep_prefix pre st = Inr st'" and "set (kp_seen st) = join '' '' ` set (kp_prefixes st)"
  shows "set (kp_seen st') = join '' '' ` set (kp_prefixes st') \<and> set (kp_prefixes st) \<subseteq> set (kp_prefixes st') \<and>
    join '' '' pre \<in> join '' '' ` set (kp_prefixes st')"
  using assms by (auto simp: keep_prefix_def Let_def res_bind_Inr_iff split: if_splits)

lemma keep_prefixes_result:
  assumes "res_fold (\<lambda>st p. keep_prefix (h p) st) st ps = Inr st'" and "set (kp_seen st) = join '' '' ` set (kp_prefixes st)"
  shows "set (kp_seen st') = join '' '' ` set (kp_prefixes st') \<and> set (kp_prefixes st) \<subseteq> set (kp_prefixes st') \<and>
    (\<forall>p\<in>set ps. join '' '' (h p) \<in> join '' '' ` set (kp_prefixes st'))"
  using assms
proof (induction ps arbitrary: st)
  case (Cons p ps)
  obtain s1 where s1: "keep_prefix (h p) st = Inr s1" "res_fold (\<lambda>st p. keep_prefix (h p) st) s1 ps = Inr st'"
    using Cons.prems(1) by (auto simp: res_bind_Inr_iff)
  note k = keep_prefix_result [OF s1(1) Cons.prems(2)]
  note ih = Cons.IH [OF s1(2) conjunct1 [OF k]]
  show ?case using k ih by fastforce
qed simp

text \<open>A head is kept as itself, or as the prefixes of the deep paths that begin with it.\<close>

definition head_kept ::
  "(string \<Rightarrow> string \<Rightarrow> bool) \<Rightarrow> string list list \<Rightarrow> string list \<Rightarrow> string list list \<Rightarrow> string list list \<Rightarrow> string \<Rightarrow> bool" where
  "head_kept contest rivals contested deep out h \<longleftrightarrow>
     (if h \<notin> set contested then join '' '' [h] \<in> join '' '' ` set out
      else \<forall>p\<in>set deep. hd p = h \<longrightarrow> join '' '' (take (depth_of contest p rivals) p) \<in> join '' '' ` set out)"

lemma head_kept_mono: "head_kept contest rivals contested deep out h \<Longrightarrow> set out \<subseteq> set out' \<Longrightarrow> head_kept contest rivals contested deep out' h"
  by (fastforce simp: head_kept_def split: if_splits)

lemma keep_heads_result:
  assumes "res_fold (keep_head contest rivals contested deep) st hs = Inr st'" and "set (kp_seen st) = join '' '' ` set (kp_prefixes st)"
  shows "set (kp_prefixes st) \<subseteq> set (kp_prefixes st') \<and> (\<forall>h\<in>set hs. head_kept contest rivals contested deep (kp_prefixes st') h)"
  using assms
proof (induction hs arbitrary: st)
  case (Cons h hs)
  obtain s1 where s1: "keep_head contest rivals contested deep st h = Inr s1"
    "res_fold (keep_head contest rivals contested deep) s1 hs = Inr st'"
    using Cons.prems(1) by (auto simp: res_bind_Inr_iff)
  have k: "set (kp_seen s1) = join '' '' ` set (kp_prefixes s1) \<and> set (kp_prefixes st) \<subseteq> set (kp_prefixes s1) \<and>
      head_kept contest rivals contested deep (kp_prefixes s1) h"
  proof (cases "h \<in> set contested")
    case True
    then have "res_fold (\<lambda>st p. keep_prefix (take (depth_of contest p rivals) p) st) st (filter (\<lambda>p. hd p = h) deep) = Inr s1"
      using s1(1) by (simp add: keep_head_def)
    from keep_prefixes_result [OF this Cons.prems(2)] show ?thesis using True by (auto simp: head_kept_def)
  next
    case False
    then have "keep_prefix [h] st = Inr s1" using s1(1) by (simp add: keep_head_def)
    from keep_prefix_result [OF this Cons.prems(2)] show ?thesis using False by (simp add: head_kept_def)
  qed
  note ih = Cons.IH [OF s1(2) conjunct1 [OF k]]
  then show ?case using k by (auto intro: head_kept_mono)
qed simp

lemma depth_positive: "p \<noteq> [] \<Longrightarrow> 0 < depth_of contest p rivals"
proof -
  have "1 \<le> foldl max (1 :: nat) xs" for xs
  proof -
    have "m \<le> foldl max m xs" for m :: nat by (induction xs arbitrary: m) (auto intro: le_trans [OF max.cobounded1])
    then show ?thesis .
  qed
  then show "p \<noteq> [] \<Longrightarrow> 0 < depth_of contest p rivals" by (auto simp: depth_of_def Suc_le_eq)
qed

text \<open>What one alternative of a choice is dispatched on.\<close>

definition dispatched :: "grammar \<Rightarrow> tokens \<Rightarrow> (string \<times> string) list \<Rightarrow> seq \<Rightarrow> dispatch_prefixes \<Rightarrow> bool" where
  "dispatched g tk cs alt d \<longleftrightarrow>
     (\<forall>w\<in>slang (tok_words tk) (lang_of g tk (Some cs)) alt. w \<noteq> [] \<longrightarrow>
        (\<exists>p. p \<noteq> [] \<and> prefix p w \<and> join '' '' p \<in> join '' '' ` set (dp_prefixes d))) \<and>
     (alt \<noteq> [] \<longrightarrow> (dp_nullable d \<longleftrightarrow> [] \<in> slang (tok_words tk) (lang_of g tk (Some cs)) alt))"

lemma keep_alt_dispatched:
  assumes r: "keep_alt contest exits scanned contested deep (out, z) i = Inr s"
    and h: "heads_cover g tk cs alt (scanned ! i)" and d: "deep_cover g tk cs (alt, contested ! i) (deep ! i)"
  shows "\<exists>y z'. s = (out @ [y], z') \<and> dispatched g tk cs alt y"
proof -
  let ?S = "slang (tok_words tk) (lang_of g tk (Some cs)) alt"
  obtain kept b st where z: "z = (kept, b)"
    and st: "res_fold (keep_head contest (rivals_of deep exits i) (contested ! i) (deep ! i))
        \<lparr>kp_seen = [], kp_prefixes = [], kp_kept = kept, kp_budget = b\<rparr> (fst (scanned ! i)) = Inr st"
    and s: "s = (out @ [\<lparr>dp_prefixes = kp_prefixes st, dp_nullable = snd (scanned ! i)\<rparr>], kp_kept st, kp_budget st)"
    using r by (cases z) (auto simp: keep_alt_def res_bind_Inr_iff)
  have kept: "\<forall>h\<in>set (fst (scanned ! i)). head_kept contest (rivals_of deep exits i) (contested ! i) (deep ! i) (kp_prefixes st) h"
    using keep_heads_result [OF st] by simp
  have "\<exists>p. p \<noteq> [] \<and> prefix p (t # w) \<and> join '' '' p \<in> join '' '' ` set (kp_prefixes st)" if tw: "t # w \<in> ?S" for t w
  proof -
    have "t \<in> set (fst (scanned ! i))" using h tw by (auto simp: heads_cover_def)
    then have hk: "head_kept contest (rivals_of deep exits i) (contested ! i) (deep ! i) (kp_prefixes st) t" using kept by blast
    show ?thesis
    proof (cases "t \<in> set (contested ! i)")
      case False
      then have "join '' '' [t] \<in> join '' '' ` set (kp_prefixes st)" using hk by (simp add: head_kept_def)
      then show ?thesis by (intro exI [of _ "[t]"]) simp
    next
      case True
      then obtain p where p: "p \<in> set (deep ! i)" "p \<noteq> []" "prefix p (t # w)"
        using d tw unfolding deep_cover_def fst_conv snd_conv by blast
      let ?q = "take (depth_of contest p (rivals_of deep exits i)) p"
      have "hd p = t" using p(2,3) by (cases p) auto
      then have "join '' '' ?q \<in> join '' '' ` set (kp_prefixes st)" using hk True p(1) by (simp add: head_kept_def)
      moreover have "?q \<noteq> []" using p(2) depth_positive [OF p(2), of contest "rivals_of deep exits i"] by simp
      moreover have "prefix ?q (t # w)" using take_is_prefix p(3) by (rule prefix_order.trans)
      ultimately show ?thesis by blast
    qed
  qed
  then have all: "\<forall>w\<in>?S. w \<noteq> [] \<longrightarrow> (\<exists>p. p \<noteq> [] \<and> prefix p w \<and> join '' '' p \<in> join '' '' ` set (kp_prefixes st))"
    by (metis neq_Nil_conv)
  have "dispatched g tk cs alt \<lparr>dp_prefixes = kp_prefixes st, dp_nullable = snd (scanned ! i)\<rparr>"
    using all h by (simp add: dispatched_def heads_cover_def)
  then show ?thesis using s by blast
qed

lemma dispatch_complete:
  assumes r: "dispatch_prefixes_of alts g tk k contest exits cs b = Inr (ds, b')" and d: "dispatchable g tk cs rank" and k: "0 < k"
    and alts: "list_all (list_all is_leaf) alts" "alts_refs alts \<subseteq> set (names (productions g))"
  shows "list_all2 (dispatched g tk cs) alts ds"
proof -
  have alt: "list_all is_leaf a" "seq_refs a \<subseteq> set (names (productions g))" if "a \<in> set alts" for a
  proof -
    show "list_all is_leaf a" using alts(1) that by (simp add: list_all_iff)
    show "seq_refs a \<subseteq> set (names (productions g))" using alts(2) that by blast
  qed
  obtain scanned b1 where scanned: "res_fold (scan_heads g tk cs) ([], b) alts = Inr (scanned, b1)"
    and r2: "(let heads = map fst scanned;
              contested = map (contested_heads contest exits heads) [0..<length alts]
          in res_bind (res_fold (scan_deep g tk cs k) ([], b1) (zip alts contested))
               (\<lambda>(deep, b2).
                  res_bind (res_fold (keep_alt contest exits scanned contested deep) ([], 0, b2) [0..<length alts])
                    (\<lambda>(out, kept, b3). Inr (out, b_keep (b_held b) kept b3)))) = Inr (ds, b')"
    using r by (auto simp: dispatch_prefixes_of_def res_bind_Inr_iff)
  define contested where "contested = map (contested_heads contest exits (map fst scanned)) [0..<length alts]"
  obtain deep b2 z where deep: "res_fold (scan_deep g tk cs k) ([], b1) (zip alts contested) = Inr (deep, b2)"
    and kept: "res_fold (keep_alt contest exits scanned contested deep) ([], 0, b2) [0..<length alts] = Inr (ds, z)"
    using r2 by (auto simp: Let_def contested_def [symmetric] res_bind_Inr_iff)
  have "\<exists>ys. scanned = [] @ ys \<and> list_all2 (heads_cover g tk cs) alts ys"
    by (rule appending_fold [OF _ scanned]) (use scan_heads_covers [OF _ d] alt in blast)
  then have h: "list_all2 (heads_cover g tk cs) alts scanned" by simp
  have lc: "length contested = length alts" by (simp add: contested_def)
  have "\<exists>ys. deep = [] @ ys \<and> list_all2 (deep_cover g tk cs) (zip alts contested) ys"
    by (rule appending_fold [OF _ deep]) (use scan_deep_covers [OF _ d k] alt set_zip_leftD in fastforce)
  then have dc: "list_all2 (deep_cover g tk cs) (zip alts contested) deep" by simp
  have "\<exists>ys. ds = [] @ ys \<and> list_all2 (\<lambda>i y. dispatched g tk cs (alts ! i) y) [0..<length alts] ys"
  proof (rule appending_fold [OF _ kept])
    fix out z i s
    assume i: "i \<in> set [0..<length alts]" and "keep_alt contest exits scanned contested deep (out, z) i = Inr s"
    moreover have "heads_cover g tk cs (alts ! i) (scanned ! i)" using h i by (simp add: list_all2_conv_all_nth)
    moreover have "deep_cover g tk cs (alts ! i, contested ! i) (deep ! i)"
      using dc i lc by (simp add: list_all2_conv_all_nth)
    ultimately show "\<exists>y z'. s = (out @ [y], z') \<and> dispatched g tk cs (alts ! i) y" by (metis keep_alt_dispatched)
  qed
  then show ?thesis by (simp add: list_all2_conv_all_nth)
qed

end
