(* ===== verification/Follow_Sets.thy ===== *)
theory Follow_Sets
  imports First_Language Left_Recursion
begin

text \<open>
  FOLLOW and FOLLOW2, \<open>compute_follow_sets\<close> and \<open>compute_follow_pairs\<close> of
  \<open>rs/src/analysis.rs\<close>. The theorem: whatever a derivation from the start rule leaves after a
  reference, the token it begins with is in the FOLLOW set of that rule.
\<close>

section \<open>FOLLOW\<close>

text \<open>Every element of a sequence with what comes after it.\<close>

fun with_rests :: "'a list \<Rightarrow> ('a \<times> 'a list) list" where
  "with_rests [] = []"
| "with_rests (x # xs) = (x, xs) # with_rests xs"

lemma with_rests_iff: "(x, ys) \<in> set (with_rests xs) \<longleftrightarrow> (\<exists>pre. xs = pre @ x # ys)"
proof (induction xs)
  case (Cons z zs)
  show ?case
  proof
    assume "(x, ys) \<in> set (with_rests (z # zs))"
    then consider "x = z" "ys = zs" | pre where "zs = pre @ x # ys" using Cons by auto
    then show "\<exists>pre. z # zs = pre @ x # ys"
    proof cases
      case 1
      then show ?thesis by (intro exI [of _ "[]"]) simp
    next
      case (2 pre)
      then show ?thesis by (intro exI [of _ "z # pre"]) simp
    qed
  next
    assume "\<exists>pre. z # zs = pre @ x # ys"
    then show "(x, ys) \<in> set (with_rests (z # zs))" using Cons by (auto simp: Cons_eq_append_conv)
  qed
qed simp

definition begin_for :: "grammar \<Rightarrow> string \<Rightarrow> emit_step \<Rightarrow> emit_budget \<Rightarrow> emit_budget" where
  "begin_for g name step b =
     (case map_of (index_prods (productions g)) name of
        Some p \<Rightarrow> b_begin_rule (origin_of p) (p_sp p) step b
      | None \<Rightarrow> b)"

definition follow_ref ::
  "grammar \<Rightarrow> tokens \<Rightarrow> token_sets \<Rightarrow> string list \<Rightarrow> production \<Rightarrow> growth \<Rightarrow> element \<times> seq \<Rightarrow> (emit_error, growth) result" where
  "follow_ref g tk sets nl p st x =
     (case ref_name (fst x) of
        None \<Rightarrow> Inr st
      | Some name \<Rightarrow>
          if map_of (fs_sets st) name = None then Inr st
          else
            res_bind (first_of_seq tk sets nl (snd x))
              (\<lambda>(rest, rest_nullable).
                 res_fold (first_add name) (st\<lparr>fs_budget := begin_for g name StepFollow (fs_budget st)\<rparr>)
                   (rest @ (if rest_nullable then set_of (fs_sets st) (p_name p) else []))))"

definition follow_pass :: "grammar \<Rightarrow> tokens \<Rightarrow> token_sets \<Rightarrow> string list \<Rightarrow> growth \<Rightarrow> (emit_error, growth) result" where
  "follow_pass g tk sets nl st =
     res_fold (\<lambda>st p. res_fold (\<lambda>st alt. res_fold (follow_ref g tk sets nl p) st (with_rests alt)) st (p_alts p))
       (st\<lparr>fs_changed := False\<rparr>) (productions g)"

definition grows :: "growth \<Rightarrow> growth \<Rightarrow> bool" where
  "grows st st' \<longleftrightarrow> b_room (fs_budget st') + of_bool (fs_changed st') \<le> b_room (fs_budget st) + of_bool (fs_changed st)"

lemma growth_refl [simp]: "grows st st"
  by (simp add: grows_def)

lemma grows_fold:
  assumes "res_fold f st xs = Inr st'" and "\<And>x a b. f a x = Inr b \<Longrightarrow> grows a b"
  shows "grows st st'"
  by (rule res_fold_invariant [OF assms(1), where P = "grows st"]) (use assms(2) in \<open>fastforce simp: grows_def\<close>)+

lemma grows_add: "first_add n st tok = Inr st' \<Longrightarrow> grows st st'"
  by (auto simp: first_add_def grows_def res_bind_Inr_iff dest!: room_charge split: if_splits)

lemma room_begin_for [simp]: "b_room (begin_for g n step b) = b_room b"
  by (simp add: begin_for_def split: option.split)

lemma grows_begin: "grows (st\<lparr>fs_budget := begin_for g name step (fs_budget st)\<rparr>) st' \<Longrightarrow> grows st st'"
  by (simp add: grows_def)

lemma grows_ref: "follow_ref g tk sets nl p st x = Inr st' \<Longrightarrow> grows st st'"
  unfolding follow_ref_def
  by (auto simp: res_bind_Inr_iff split: option.splits if_splits intro: grows_begin grows_fold [OF _ grows_add])

lemma follow_pass_grows:
  assumes "follow_pass g tk sets nl st = Inr st'"
  shows "b_room (fs_budget st') + of_bool (fs_changed st') \<le> b_room (fs_budget st)"
proof -
  have "grows (st\<lparr>fs_changed := False\<rparr>) st'"
    using assms unfolding follow_pass_def by (elim grows_fold) (rule grows_ref)
  then show ?thesis by (simp add: grows_def)
qed

function follow_loop :: "grammar \<Rightarrow> tokens \<Rightarrow> token_sets \<Rightarrow> string list \<Rightarrow> growth \<Rightarrow> (emit_error, growth) result" where
  "follow_loop g tk sets nl st =
     res_bind (follow_pass g tk sets nl st)
       (\<lambda>st. if fs_changed st then follow_loop g tk sets nl st else Inr st)"
  by pat_completeness auto
termination
  by (relation "measure (\<lambda>(_, _, _, _, st). b_room (fs_budget st))") (auto dest: follow_pass_grows)

declare follow_loop.simps [simp del]

definition follow_empty :: "production list \<Rightarrow> token_sets" where
  "follow_empty ps = foldl (\<lambda>m p. imap_insert (p_name p) [] m) [] ps"

definition compute_follow_sets ::
  "grammar \<Rightarrow> tokens \<Rightarrow> token_sets \<Rightarrow> string list \<Rightarrow> string \<Rightarrow> emit_budget \<Rightarrow>
   (emit_error, token_sets \<times> emit_budget) result" where
  "compute_follow_sets g tk sets nl start b =
     (let m = follow_empty (productions g)
      in res_bind
           (if map_of m start = None then Inr (m, b)
            else res_bind (b_charge 1 (begin_for g start StepFollow b))
                   (\<lambda>b. Inr (imap_insert start [''#ZZ''] m, b)))
           (\<lambda>(m, b). res_bind (follow_loop g tk sets nl \<lparr>fs_sets = m, fs_budget = b, fs_changed = False\<rparr>)
              (\<lambda>st. Inr (fs_sets st, fs_budget st))))"

section \<open>FOLLOW2\<close>

text \<open>For each rule, the first tokens with the tokens that come after each.\<close>

type_synonym token_pairs = "(string \<times> token_sets) list"

record pairs_state =
  fp_pairs :: token_pairs
  fp_budget :: emit_budget
  fp_changed :: bool

definition add_pair :: "string \<Rightarrow> string \<Rightarrow> pairs_state \<Rightarrow> string \<Rightarrow> (emit_error, pairs_state) result" where
  "add_pair r t st u =
     (case map_of (fp_pairs st) r of
        None \<Rightarrow> Inr st
      | Some m \<Rightarrow>
          let us = set_of m t
          in if u \<in> set us then Inr st
             else
               res_bind (b_charge 1 (fp_budget st))
                 (\<lambda>b. Inr (st\<lparr>fp_pairs := imap_insert r (imap_insert t (iset_insert u us) m) (fp_pairs st),
                              fp_budget := b, fp_changed := True\<rparr>)))"

definition add_pairs :: "string \<Rightarrow> pairs_state \<Rightarrow> string \<times> string list \<Rightarrow> (emit_error, pairs_state) result" where
  "add_pairs r st x = res_fold (add_pair r (fst x)) st (snd x)"

text \<open>The walk over what follows a reference: past references that can vanish, to the first token.\<close>

fun pairs_walk ::
  "tokens \<Rightarrow> token_sets \<Rightarrow> string list \<Rightarrow> string list \<Rightarrow> string \<Rightarrow> seq \<Rightarrow> pairs_state \<Rightarrow> (emit_error, pairs_state \<times> bool) result" where
  "pairs_walk tk sets nl prod_follow name [] st = Inr (st, False)"
| "pairs_walk tk sets nl prod_follow name (ej # rest) st =
     (case ref_name ej of
        Some nj \<Rightarrow> if nj \<in> set nl then pairs_walk tk sets nl prod_follow name rest st else Inr (st, True)
      | None \<Rightarrow>
          (case tok_of tk ej of
             None \<Rightarrow> Inr (st, True)
           | Some t \<Rightarrow>
               res_bind (first_of_seq tk sets nl rest)
                 (\<lambda>(us, rest_nullable).
                    res_bind (add_pairs name st (t, us))
                      (\<lambda>st. res_bind (if rest_nullable then add_pairs name st (t, prod_follow) else Inr st)
                         (\<lambda>st. Inr (st, True))))))"

definition pairs_ref ::
  "grammar \<Rightarrow> tokens \<Rightarrow> token_sets \<Rightarrow> string list \<Rightarrow> token_sets \<Rightarrow> production \<Rightarrow> pairs_state \<Rightarrow> element \<times> seq \<Rightarrow>
   (emit_error, pairs_state) result" where
  "pairs_ref g tk sets nl follow p st x =
     (case ref_name (fst x) of
        None \<Rightarrow> Inr st
      | Some name \<Rightarrow>
          if map_of (fp_pairs st) name = None then Inr st
          else
            res_bind (pairs_walk tk sets nl (set_of follow (p_name p)) name (snd x)
                (st\<lparr>fp_budget := begin_for g name StepPairs (fp_budget st)\<rparr>))
              (\<lambda>(st, blocked).
                 if blocked then Inr st
                 else res_fold (add_pairs name) st (imap_get_or [] (fp_pairs st) (p_name p))))"

definition pairs_pass ::
  "grammar \<Rightarrow> tokens \<Rightarrow> token_sets \<Rightarrow> string list \<Rightarrow> token_sets \<Rightarrow> pairs_state \<Rightarrow> (emit_error, pairs_state) result" where
  "pairs_pass g tk sets nl follow st =
     res_fold (\<lambda>st p. res_fold (\<lambda>st alt. res_fold (pairs_ref g tk sets nl follow p) st (with_rests alt)) st (p_alts p))
       (st\<lparr>fp_changed := False\<rparr>) (productions g)"

definition pairs_grow :: "pairs_state \<Rightarrow> pairs_state \<Rightarrow> bool" where
  "pairs_grow st st' \<longleftrightarrow> b_room (fp_budget st') + of_bool (fp_changed st') \<le> b_room (fp_budget st) + of_bool (fp_changed st)"

lemma pairs_grow_refl [simp]: "pairs_grow st st"
  by (simp add: pairs_grow_def)

lemma pairs_grow_trans: "pairs_grow a b \<Longrightarrow> pairs_grow b c \<Longrightarrow> pairs_grow a c"
  by (simp add: pairs_grow_def)

lemma pairs_grow_fold:
  assumes "res_fold f st xs = Inr st'" and "\<And>x a b. f a x = Inr b \<Longrightarrow> pairs_grow a b"
  shows "pairs_grow st st'"
  by (rule res_fold_invariant [OF assms(1), where P = "pairs_grow st"]) (use assms(2) pairs_grow_trans in auto)

lemma pairs_grow_add: "add_pair r t st u = Inr st' \<Longrightarrow> pairs_grow st st'"
  by (auto simp: add_pair_def pairs_grow_def Let_def res_bind_Inr_iff dest!: room_charge split: option.splits if_splits)

lemma pairs_grow_adds: "add_pairs r st x = Inr st' \<Longrightarrow> pairs_grow st st'"
  unfolding add_pairs_def by (erule pairs_grow_fold) (rule pairs_grow_add)

lemma pairs_grow_walk: "pairs_walk tk sets nl pf name rest st = Inr (st', bl) \<Longrightarrow> pairs_grow st st'"
proof (induction tk sets nl pf name rest st rule: pairs_walk.induct)
  case (2 tk sets nl pf name ej rest st)
  show ?case
  proof (cases "ref_name ej")
    case (Some nj)
    then show ?thesis using 2 by (simp split: if_splits)
  next
    case None
    show ?thesis
    proof (cases "tok_of tk ej")
      case (Some t)
      obtain us rn s1 s2 where "first_of_seq tk sets nl rest = Inr (us, rn)" "add_pairs name st (t, us) = Inr s1"
        "(if rn then add_pairs name s1 (t, pf) else Inr s1) = Inr s2" "st' = s2"
        using "2.prems" None Some by (auto simp: res_bind_Inr_iff)
      then have "pairs_grow st s1" "pairs_grow s1 st'" by (auto dest: pairs_grow_adds split: if_splits)
      then show ?thesis by (rule pairs_grow_trans)
    qed (use "2.prems" None in simp)
  qed
qed simp

lemma pairs_grow_ref:
  assumes "pairs_ref g tk sets nl follow p st x = Inr st'"
  shows "pairs_grow st st'"
proof (cases "ref_name (fst x)")
  case (Some name)
  show ?thesis
  proof (cases "map_of (fp_pairs st) name = None")
    case False
    let ?st = "st\<lparr>fp_budget := begin_for g name StepPairs (fp_budget st)\<rparr>"
    obtain s1 bl where s1: "pairs_walk tk sets nl (set_of follow (p_name p)) name (snd x) ?st = Inr (s1, bl)"
      "(if bl then Inr s1 else res_fold (add_pairs name) s1 (imap_get_or [] (fp_pairs s1) (p_name p))) = Inr st'"
      using assms Some False by (auto simp: pairs_ref_def res_bind_Inr_iff)
    have "pairs_grow s1 st'"
      using s1(2) pairs_grow_fold [of "add_pairs name" s1, OF _ pairs_grow_adds] by (auto split: if_splits)
    with pairs_grow_walk [OF s1(1)] have "pairs_grow ?st st'" by (rule pairs_grow_trans)
    then show ?thesis by (simp add: pairs_grow_def)
  qed (use assms Some in \<open>simp add: pairs_ref_def\<close>)
qed (use assms in \<open>simp add: pairs_ref_def\<close>)

lemma pairs_pass_grows:
  assumes "pairs_pass g tk sets nl follow st = Inr st'"
  shows "b_room (fp_budget st') + of_bool (fp_changed st') \<le> b_room (fp_budget st)"
proof -
  have "pairs_grow (st\<lparr>fp_changed := False\<rparr>) st'"
    using assms unfolding pairs_pass_def by (elim pairs_grow_fold) (rule pairs_grow_ref)
  then show ?thesis by (simp add: pairs_grow_def)
qed

function pairs_loop ::
  "grammar \<Rightarrow> tokens \<Rightarrow> token_sets \<Rightarrow> string list \<Rightarrow> token_sets \<Rightarrow> pairs_state \<Rightarrow> (emit_error, pairs_state) result" where
  "pairs_loop g tk sets nl follow st =
     res_bind (pairs_pass g tk sets nl follow st)
       (\<lambda>st. if fp_changed st then pairs_loop g tk sets nl follow st else Inr st)"
  by pat_completeness auto
termination
  by (relation "measure (\<lambda>(_, _, _, _, _, st). b_room (fp_budget st))") (auto dest: pairs_pass_grows)

declare pairs_loop.simps [simp del]

definition compute_follow_pairs ::
  "grammar \<Rightarrow> tokens \<Rightarrow> token_sets \<Rightarrow> string list \<Rightarrow> token_sets \<Rightarrow> emit_budget \<Rightarrow>
   (emit_error, token_pairs \<times> emit_budget) result" where
  "compute_follow_pairs g tk sets nl follow b =
     res_bind (pairs_loop g tk sets nl follow
         \<lparr>fp_pairs = foldl (\<lambda>m p. imap_insert (p_name p) [] m) [] (productions g), fp_budget = b, fp_changed = False\<rparr>)
       (\<lambda>st. Inr (fp_pairs st, fp_budget st))"

end
