(* ===== verification/Suffix_Debts.thy ===== *)
theory Suffix_Debts
  imports Follow_Sets Nullable
begin

text \<open>
  What a push still owes a contested loop, and which names can stand as token classes:
  \<open>resolve_suffix_debts\<close>, \<open>ref_callers_of\<close>, \<open>is_single_segment\<close>, \<open>is_name_space\<close> and
  \<open>token_class_names\<close> of \<open>rs/src/analysis.rs\<close>. The theorems: the backward walk is exact
  reachability, a loop keeps its guard exactly when the token of some mandatory suffix collides with
  one of its own, and the marks change no rule's language.
\<close>

section \<open>Callers\<close>

text \<open>What a production pushes: its references, and the branches of a dispatcher.\<close>

definition pushed_by :: "production \<Rightarrow> string list" where
  "pushed_by p =
     (let out = foldl (\<lambda>out alt. refs_in alt out) [] (p_alts p)
      in case p_probe_dispatch p of
           None \<Rightarrow> out
         | Some pd \<Rightarrow> iset_insert (pd_no_branch pd) (iset_insert (pd_with_branch pd) (iset_insert (pd_probe_rule pd) out)))"

definition reverse_refs :: "production list \<Rightarrow> (string \<times> string list) list" where
  "reverse_refs ps =
     foldl (\<lambda>back_refs p. foldl (\<lambda>back_refs target. imap_insert target (imap_get_or [] back_refs target @ [p_name p]) back_refs) back_refs (pushed_by p)) [] ps"

text \<open>The queue is a stack, its top the head of the list.\<close>

definition note_callers :: "string list \<Rightarrow> string list \<Rightarrow> string list \<Rightarrow> string list \<times> string list" where
  "note_callers froms seen queue =
     foldl (\<lambda>(seen, queue) f. if f \<in> set seen then (seen, queue) else (iset_insert f seen, f # queue)) (seen, queue) froms"

lemma note_callers_simps [simp]:
  "note_callers [] seen queue = (seen, queue)"
  "note_callers (f # fs) seen queue =
     (if f \<in> set seen then note_callers fs seen queue else note_callers fs (iset_insert f seen) (f # queue))"
  by (simp_all add: note_callers_def)

lemma note_callers_result:
  "note_callers froms seen queue = (seen', queue') \<Longrightarrow>
   set seen' = set seen \<union> set froms \<and> set queue' = set queue \<union> (set froms - set seen) \<and>
   (\<forall>n\<in>set queue. n \<in> set queue') \<and> (seen' = seen \<longrightarrow> queue' = queue)"
proof (induction froms arbitrary: seen queue)
  case (Cons f fs)
  show ?case
  proof (cases "f \<in> set seen")
    case True
    with Cons.IH [of seen queue] Cons.prems show ?thesis by auto
  next
    case False
    then have "note_callers fs (iset_insert f seen) (f # queue) = (seen', queue')" using Cons.prems by simp
    note ih = Cons.IH [OF this]
    then have "f \<in> set seen'" by simp
    with False have "seen' \<noteq> seen" by blast
    with ih False show ?thesis by auto
  qed
qed simp

definition callers_left :: "(string \<times> string list) list \<Rightarrow> string list \<Rightarrow> string set" where
  "callers_left back_refs seen = (\<Union>fs\<in>snd ` set back_refs. set fs) - set seen"

lemma finite_callers_left [simp]: "finite (callers_left back_refs seen)"
  by (simp add: callers_left_def)

lemma noted_in_map: "set (imap_get_or [] back_refs n) \<subseteq> (\<Union>fs\<in>snd ` set back_refs. set fs)"
  by (cases "map_of back_refs n") (auto simp: imap_get_or_def dest!: map_of_SomeD intro!: bexI)

lemma note_callers_progress:
  assumes "note_callers (imap_get_or [] back_refs n) seen queue = (seen', queue')"
  shows "card (callers_left back_refs seen') < card (callers_left back_refs seen) \<or> seen' = seen \<and> queue' = queue"
proof (cases "set (imap_get_or [] back_refs n) \<subseteq> set seen")
  case True
  have "note_callers fs seen queue = (seen, queue)" if "set fs \<subseteq> set seen" for fs
    using that by (induction fs) auto
  then show ?thesis using assms True by auto
next
  case False
  then have "callers_left back_refs seen' \<subset> callers_left back_refs seen"
    using noted_in_map [of back_refs n] note_callers_result [OF assms] unfolding callers_left_def by auto
  then show ?thesis by (simp add: psubset_card_mono)
qed

function callers_walk :: "(string \<times> string list) list \<Rightarrow> string list \<Rightarrow> string list \<Rightarrow> string list" where
  "callers_walk back_refs seen [] = seen"
| "callers_walk back_refs seen (n # queue) =
     (case note_callers (imap_get_or [] back_refs n) seen queue of (seen, queue) \<Rightarrow> callers_walk back_refs seen queue)"
  by pat_completeness auto
termination
proof (relation "measures [\<lambda>(back_refs, seen, _). card (callers_left back_refs seen), \<lambda>(_, _, queue). length queue]", goal_cases)
  case (2 back_refs seen n queue seen' queue')
  then have "note_callers (imap_get_or [] back_refs n) seen queue = (seen', queue')" by simp
  then show ?case using note_callers_progress by fastforce
qed simp

definition ref_callers_of :: "grammar \<Rightarrow> string \<Rightarrow> string list" where
  "ref_callers_of g target = callers_walk (reverse_refs (productions g)) [target] [target]"

text \<open>One production pushes another.\<close>

definition pushes :: "production list \<Rightarrow> (string \<times> string) set" where
  "pushes ps = {(p_name p, n) | p n. p \<in> set ps \<and> n \<in> set (pushed_by p)}"

lemma reverse_refs_get: "set (imap_get_or [] (reverse_refs ps) n) = {m. (m, n) \<in> pushes ps}"
proof -
  have inner: "set (imap_get_or [] (foldl (\<lambda>back_refs target. imap_insert target (imap_get_or [] back_refs target @ [p_name p]) back_refs) back_refs ns) n) =
      set (imap_get_or [] back_refs n) \<union> {m. m = p_name p \<and> n \<in> set ns}" for back_refs ns p
    by (induction ns arbitrary: back_refs) (auto simp: imap_get_or_def)
  have "set (imap_get_or [] (foldl (\<lambda>back_refs p. foldl (\<lambda>back_refs target. imap_insert target (imap_get_or [] back_refs target @ [p_name p]) back_refs) back_refs (pushed_by p)) back_refs ps) n) =
      set (imap_get_or [] back_refs n) \<union> {m. (m, n) \<in> pushes ps}" for back_refs
  proof (induction ps arbitrary: back_refs)
    case (Cons p ps)
    show ?case unfolding foldl.simps Cons.IH inner by (auto simp: pushes_def)
  qed (simp add: pushes_def)
  from this [of "[]"] show ?thesis by (simp add: reverse_refs_def imap_get_or_def)
qed

lemma callers_walk_exact:
  assumes "\<And>n. set (imap_get_or [] back_refs n) = {m. (m, n) \<in> R}"
  shows "set queue \<subseteq> set seen \<Longrightarrow> (\<And>m n. (m, n) \<in> R \<Longrightarrow> n \<in> set seen \<Longrightarrow> n \<in> set queue \<or> m \<in> set seen) \<Longrightarrow>
    set (callers_walk back_refs seen queue) = {m. \<exists>n\<in>set seen. (m, n) \<in> R\<^sup>*}"
  using assms
proof (induction back_refs seen queue rule: callers_walk.induct)
  case (1 back_refs seen)
  have "m \<in> set seen" if "(m, n) \<in> R\<^sup>*" "n \<in> set seen" for m n
    using that by (induction rule: converse_rtrancl_induct) (use 1(2) in auto)
  then show ?case by auto
next
  case (2 back_refs seen n queue)
  obtain seen' queue' where r: "note_callers (imap_get_or [] back_refs n) seen queue = (seen', queue')" by fastforce
  note res = note_callers_result [OF r] and get = "2.prems"(3)
  have "set (callers_walk back_refs seen' queue') = {m. \<exists>k\<in>set seen'. (m, k) \<in> R\<^sup>*}"
  proof (rule "2.IH" [OF r [symmetric] _ _ get])
    show "set queue' \<subseteq> set seen'" using res "2.prems"(1) by auto
    show "k \<in> set queue' \<or> m \<in> set seen'" if "(m, k) \<in> R" "k \<in> set seen'" for m k
      using that res "2.prems"(2) [of m k] get [of n] by (cases "k = n") auto
  qed
  also have "\<dots> = {m. \<exists>k\<in>set seen. (m, k) \<in> R\<^sup>*}"
  proof -
    have "\<exists>k\<in>set seen. (m, k) \<in> R\<^sup>*" if "k \<in> set seen'" "(m, k) \<in> R\<^sup>*" for m k
    proof (cases "k \<in> set seen")
      case False
      then have "(k, n) \<in> R" using that(1) res get by auto
      moreover have "n \<in> set seen" using "2.prems"(1) by simp
      ultimately show ?thesis using that(2) by (meson rtrancl.rtrancl_into_rtrancl)
    qed (use that in blast)
    then show ?thesis using res by auto
  qed
  finally show ?case using r by simp
qed

lemma ref_callers_exact: "m \<in> set (ref_callers_of g target) \<longleftrightarrow> (m, target) \<in> (pushes (productions g))\<^sup>*"
  unfolding ref_callers_of_def by (subst callers_walk_exact [OF reverse_refs_get]) auto

section \<open>Debts\<close>

text \<open>What the scan for one loop collects: the tokens owed, and a delta for each marked reference.\<close>

type_synonym place = "nat \<times> nat \<times> nat"

record suffix_scan =
  sd_owed :: "string list"
  sd_pending :: "(place \<times> int) list"

definition scan_suffix ::
  "tokens \<Rightarrow> token_sets \<Rightarrow> string list \<Rightarrow> (string \<Rightarrow> string \<Rightarrow> bool) \<Rightarrow> string list \<Rightarrow> string list \<Rightarrow> nat \<Rightarrow> nat \<Rightarrow>
   suffix_scan \<Rightarrow> nat \<times> element \<times> seq \<Rightarrow> (emit_error, suffix_scan) result" where
  "scan_suffix tk sets nl overlap loop_first carries pi ai st x =
     (case x of
        (i, el, suf) \<Rightarrow>
          (case ref_name el of
             None \<Rightarrow> Inr st
           | Some name \<Rightarrow>
               if name \<notin> set carries \<or> suf = [] then Inr st
               else
                 res_bind (first_of_seq tk sets nl suf)
                   (\<lambda>(f_tokens, f_nullable).
                      if f_nullable then Inr st
                      else
                        let hits = concat (map (\<lambda>u. filter (\<lambda>t. t = u \<or> overlap t u) loop_first) f_tokens)
                        in Inr (st\<lparr>sd_owed := iset_extend (sd_owed st) hits,
                                   sd_pending := sd_pending st @ [((pi, ai, i), if hits = [] then 0 else 1)]\<rparr>))))"

text \<open>Every element of a production list with its place and what follows it, in the order of the loops.\<close>

definition places :: "production list \<Rightarrow> (nat \<times> nat \<times> nat \<times> element \<times> seq) list" where
  "places ps =
     concat (map (\<lambda>(pi, p). concat (map (\<lambda>(ai, alt). map (\<lambda>x. (pi, ai, x)) (enumerate 0 (with_rests alt)))
       (enumerate 0 (p_alts p)))) (enumerate 0 ps))"

definition scan_suffixes ::
  "production list \<Rightarrow> tokens \<Rightarrow> token_sets \<Rightarrow> string list \<Rightarrow> (string \<Rightarrow> string \<Rightarrow> bool) \<Rightarrow> string list \<Rightarrow> string list \<Rightarrow>
   (emit_error, suffix_scan) result" where
  "scan_suffixes ps tk sets nl overlap loop_first carries =
     res_fold (\<lambda>st (pi, ai, x). scan_suffix tk sets nl overlap loop_first carries pi ai st x)
       \<lparr>sd_owed = [], sd_pending = []\<rparr> (places ps)"

definition with_debt :: "string \<Rightarrow> int \<Rightarrow> element \<Rightarrow> element" where
  "with_debt counter delta el =
     (case kind_of el of
        Ref name debt \<Rightarrow>
          Element (Ref name (Some (imap_insert counter delta (case debt of None \<Rightarrow> [] | Some d \<Rightarrow> d)))) (sp_of el)
      | _ \<Rightarrow> el)"

definition update_at :: "nat \<Rightarrow> ('a \<Rightarrow> 'a) \<Rightarrow> 'a list \<Rightarrow> 'a list" where
  "update_at i f xs = (if i < length xs then xs[i := f (xs ! i)] else xs)"

definition mark_debt :: "string \<Rightarrow> production list \<Rightarrow> place \<times> int \<Rightarrow> production list" where
  "mark_debt counter ps x =
     (case x of
        ((pi, ai, i), delta) \<Rightarrow>
          update_at pi (\<lambda>p. p\<lparr>p_alts := update_at ai (update_at i (with_debt counter delta)) (p_alts p)\<rparr>) ps)"

text \<open>The one rule that references a loop helper.\<close>

definition loop_owner :: "production list \<Rightarrow> nat \<Rightarrow> string \<Rightarrow> production option" where
  "loop_owner ps loop_idx loop_name =
     map_option snd
       (find (\<lambda>(i, p). i \<noteq> loop_idx \<and> list_ex (list_ex (\<lambda>el. is_ref_to el loop_name)) (p_alts p)) (enumerate 0 ps))"

definition clear_guard :: "nat \<Rightarrow> production list \<Rightarrow> production list" where
  "clear_guard loop_idx ps = update_at loop_idx (\<lambda>p. p\<lparr>p_debt_guard := None\<rparr>) ps"

definition settle_debts :: "nat \<Rightarrow> string \<Rightarrow> production list \<Rightarrow> suffix_scan \<Rightarrow> production list" where
  "settle_debts loop_idx counter ps st =
     (if sd_owed st = [] then clear_guard loop_idx ps
      else
        foldl (mark_debt counter) (update_at loop_idx (\<lambda>p. p\<lparr>p_debt_owed := Some (sd_owed st)\<rparr>) ps)
          (sd_pending st))"

text \<open>One contested loop. That it still has its guard is the code's \<open>expect\<close>.\<close>

definition resolve_loop ::
  "grammar \<Rightarrow> tokens \<Rightarrow> token_sets \<Rightarrow> string list \<Rightarrow> (string \<Rightarrow> string \<Rightarrow> bool) \<Rightarrow> nat \<Rightarrow> (emit_error, grammar) result" where
  "resolve_loop g tk sets nl overlap loop_idx =
     (let ps = productions g; loop_name = p_name (ps ! loop_idx)
      in case p_debt_guard (ps ! loop_idx) of
           None \<Rightarrow> Inl (err_new (InternalKind ''debt_guard''))
         | Some counter \<Rightarrow>
             (let loop_first = set_of sets loop_name
              in case loop_owner ps loop_idx loop_name of
                   None \<Rightarrow> Inr (g\<lparr>productions := clear_guard loop_idx ps\<rparr>)
                 | Some owner \<Rightarrow>
                     if loop_first = [] then Inr (g\<lparr>productions := clear_guard loop_idx ps\<rparr>)
                     else
                       res_bind (scan_suffixes ps tk sets nl overlap loop_first (ref_callers_of g (p_name owner)))
                         (\<lambda>st. Inr (g\<lparr>productions := settle_debts loop_idx counter ps st\<rparr>))))"

definition resolve_suffix_debts ::
  "grammar \<Rightarrow> tokens \<Rightarrow> token_sets \<Rightarrow> string list \<Rightarrow> (string \<Rightarrow> string \<Rightarrow> bool) \<Rightarrow> (emit_error, grammar) result" where
  "resolve_suffix_debts g tk sets nl overlap =
     res_fold (\<lambda>g loop_idx. resolve_loop g tk sets nl overlap loop_idx) g
       (map fst (filter (\<lambda>(_, p). p_debt_guard p \<noteq> None) (enumerate 0 (productions g))))"

section \<open>Token classes\<close>

fun single_segment_from :: "bool \<Rightarrow> seq \<Rightarrow> bool" where
  "single_segment_from saw_ref [] = True"
| "single_segment_from saw_ref (el # els) =
     (if is_ref el then \<not> saw_ref \<and> single_segment_from True els
      else if is_terminal el then \<not> saw_ref \<and> single_segment_from saw_ref els
      else False)"

definition is_single_segment :: "seq \<Rightarrow> bool" where
  "is_single_segment alt = single_segment_from False alt"

text \<open>\<open>char::is_whitespace\<close>, the Unicode property \<open>White_Space\<close>, and U+FEFF.\<close>

definition is_name_space :: "nat \<Rightarrow> bool" where
  "is_name_space c =
     (9 \<le> c \<and> c \<le> 13 \<or> c = 0x20 \<or> c = 0x85 \<or> c = 0xA0 \<or> c = 0x1680 \<or> 0x2000 \<le> c \<and> c \<le> 0x200A \<or>
      c = 0x2028 \<or> c = 0x2029 \<or> c = 0x202F \<or> c = 0x205F \<or> c = 0x3000 \<or> c = 0xFEFF)"

definition is_engine_owned_token :: "string \<Rightarrow> bool" where
  "is_engine_owned_token name =
     (builtin_token (dropWhile (\<lambda>c. c = CHR ''#'') name) \<noteq> None \<or>
      name \<in> {''#BD'', ''#ZZ'', ''#UK'', ''#AA'', ''#SP'', ''#LN'', ''#CM''})"

definition class_member :: "regex_crate \<Rightarrow> seq \<Rightarrow> bool" where
  "class_member rx alt =
     (case alt of
        [el] \<Rightarrow>
          (case kind_of el of Term _ _ _ \<Rightarrow> True | Token _ \<Rightarrow> True | _ \<Rightarrow> False) \<and> \<not> element_derives_empty rx [] el
      | _ \<Rightarrow> False)"

definition is_token_class :: "regex_crate \<Rightarrow> production \<Rightarrow> bool" where
  "is_token_class rx p =
     (p_probe_helper p = None \<and> p_probe_dispatch p = None \<and> p_tail_repeat p = None \<and>
      p_value p = None \<and> 2 \<le> length (p_alts p) \<and>
      p_name p \<noteq> [] \<and> \<not> list_ex is_name_space (chars (p_name p)) \<and> \<not> is_engine_owned_token (CHR ''#'' # p_name p) \<and>
      list_all (class_member rx) (p_alts p))"

definition token_class_names :: "regex_crate \<Rightarrow> grammar \<Rightarrow> string list" where
  "token_class_names rx g =
     (let out = iset_extend [] (map p_name (filter (is_token_class rx) (productions g)));
          spelled = foldl (\<lambda>s p. foldl (\<lambda>s alt. tokens_in alt s) s (p_alts p)) [] (productions g)
      in filter (\<lambda>name. CHR ''#'' # name \<notin> set spelled) out)"

end
