(* ===== verification/Debts_Exact.thy ===== *)
theory Debts_Exact
  imports Suffix_Debts
begin

text \<open>
  What \<open>resolve_suffix_debts\<close> settles. Marking references and dropping guards leaves every
  question the pass asks of the grammar unanswered differently, so each loop is settled by the
  answer the grammar gave at the start, and the language is the one it was.
\<close>

section \<open>What the marks leave alone\<close>

definition bare :: "element \<Rightarrow> element" where
  "bare el = (case kind_of el of Ref n _ \<Rightarrow> Element (Ref n None) (sp_of el) | _ \<Rightarrow> el)"

definition bare_prod :: "production \<Rightarrow> production" where
  "bare_prod p = p\<lparr>p_alts := map (map bare) (p_alts p), p_debt_guard := None, p_debt_owed := None\<rparr>"

lemma bare_simps [simp]:
  "ref_name (bare el) = ref_name el" "is_terminal (bare el) = is_terminal el" "tok_name tk (bare el) = tok_name tk el"
  "kind_name (bare el) = kind_name el" "is_ref_to (bare el) n = is_ref_to el n" "refs_in_el (bare el) out = refs_in_el el out"
  "elang T L (bare el) = elang T L el" "bare (with_debt c d el) = bare el" "is_leaf (bare el) = is_leaf el"
  by (cases el; cases "kind_of el"; simp add: bare_def ref_name_def is_terminal_def tok_name_def tok_of_def kind_name_def
      is_ref_to_def with_debt_def is_leaf_def is_ref_def)+

lemma p_name_bare [simp]: "p_name (bare_prod p) = p_name p"
  by (simp add: bare_prod_def)

lemma p_alts_bare [simp]: "p_alts (bare_prod p) = map (map bare) (p_alts p)"
  by (simp add: bare_prod_def)

lemma refs_in_bare [simp]: "refs_in (map bare alt) out = refs_in alt out"
  by (simp add: refs_in_def foldl_map)

lemma pushed_by_bare [simp]: "pushed_by (bare_prod p) = pushed_by p"
  by (simp add: pushed_by_def foldl_map) (simp add: bare_prod_def)

lemma ref_callers_bare: "ref_callers_of (g\<lparr>productions := map bare_prod ps\<rparr>) n = ref_callers_of (g\<lparr>productions := ps\<rparr>) n"
  by (simp add: ref_callers_of_def reverse_refs_def foldl_map)

lemma first_of_seq_from_bare: "first_of_seq_from tk sets nl out (map bare sq) = first_of_seq_from tk sets nl out sq"
  by (induction tk sets nl out sq rule: first_of_seq_from.induct) (auto simp: Let_def split: option.split)

lemma first_of_seq_bare [simp]: "first_of_seq tk sets nl (map bare sq) = first_of_seq tk sets nl sq"
  by (simp add: first_of_seq_def first_of_seq_from_bare)

lemma glang_bare: "glang T (map bare_prod ps) = glang T ps"
proof -
  have "slang T L (map bare alt) = slang T L alt" for L alt by (simp add: slang_def comp_def)
  then have "alang T L (map (map bare) alts) = alang T L alts" for L alts by (simp add: alang_def)
  then show ?thesis by (simp add: glang_def models_def fun_eq_iff)
qed

lemma with_rests_map: "with_rests (map f xs) = map (\<lambda>(x, ys). (f x, map f ys)) (with_rests xs)"
  by (induction xs) auto

lemma enumerate_map': "enumerate k (map f xs) = map (\<lambda>(i, x). (i, f x)) (enumerate k xs)"
  by (induction xs arbitrary: k) auto

lemma places_bare:
  "places (map bare_prod ps) = map (\<lambda>(pi, ai, i, el, suf). (pi, ai, i, bare el, map bare suf)) (places ps)"
  by (simp add: places_def enumerate_map' with_rests_map comp_def map_concat case_prod_unfold)

lemma scan_bare: "scan_suffixes (map bare_prod ps) tk sets nl overlap lf carries = scan_suffixes ps tk sets nl overlap lf carries"
proof -
  have key: "(\<lambda>st (pi, ai, x). scan_suffix tk sets nl overlap lf carries pi ai st x) st (case y of (pi, ai, i, el, suf) \<Rightarrow> (pi, ai, i, bare el, map bare suf))
    = (\<lambda>st (pi, ai, x). scan_suffix tk sets nl overlap lf carries pi ai st x) st y" for st y
    by (cases y) (simp add: scan_suffix_def split: option.split)
  have fold: "res_fold f st (map h ys) = res_fold f st ys" if "\<And>st y. f st (h y) = f st y"
    for f :: "suffix_scan \<Rightarrow> 'x \<Rightarrow> (emit_error, suffix_scan) result" and h :: "'x \<Rightarrow> 'x" and st ys
    by (induction ys arbitrary: st) (simp_all add: that)
  show ?thesis unfolding scan_suffixes_def places_bare by (rule fold) (rule key)
qed

lemma find_map: "find P (map f xs) = map_option f (find (P \<circ> f) xs)"
  by (induction xs) auto

lemma owner_bare: "map_option p_name (loop_owner (map bare_prod ps) i n) = map_option p_name (loop_owner ps i n)"
  by (simp add: loop_owner_def enumerate_map' find_map comp_def case_prod_unfold option.map_comp list.pred_map list_ex_iff)

section \<open>The answer for one loop\<close>

definition loop_verdict ::
  "production list \<Rightarrow> tokens \<Rightarrow> token_sets \<Rightarrow> string list \<Rightarrow> (string \<Rightarrow> string \<Rightarrow> bool) \<Rightarrow> nat \<Rightarrow> (emit_error, suffix_scan) result" where
  "loop_verdict ps tk sets nl overlap i =
     (case map_option p_name (loop_owner ps i (p_name (ps ! i))) of
        None \<Rightarrow> Inr \<lparr>sd_owed = [], sd_pending = []\<rparr>
      | Some owner \<Rightarrow>
          if set_of sets (p_name (ps ! i)) = [] then Inr \<lparr>sd_owed = [], sd_pending = []\<rparr>
          else scan_suffixes ps tk sets nl overlap (set_of sets (p_name (ps ! i))) (ref_callers_of (grammar_new ps) owner))"

lemma callers_only_productions: "ref_callers_of (grammar_new (productions g)) n = ref_callers_of g n"
  by (simp add: ref_callers_of_def grammar_new_def)

lemma resolve_loop_verdict:
  assumes "p_debt_guard (productions g ! i) = Some c"
  shows "resolve_loop g tk sets nl overlap i =
    res_bind (loop_verdict (productions g) tk sets nl overlap i)
      (\<lambda>st. Inr (g\<lparr>productions := settle_debts i c (productions g) st\<rparr>))"
  using assms
  by (simp add: resolve_loop_def loop_verdict_def Let_def settle_debts_def callers_only_productions split: option.split)

lemma verdict_bare:
  assumes "i < length ps"
  shows "loop_verdict (map bare_prod ps) tk sets nl overlap i = loop_verdict ps tk sets nl overlap i"
proof -
  have "ref_callers_of (grammar_new (map bare_prod ps)) n = ref_callers_of (grammar_new ps) n" for n
    using ref_callers_bare [where g = "grammar_new ps" and ps = ps] by (simp add: grammar_new_def)
  then show ?thesis
    unfolding loop_verdict_def nth_map [OF assms] owner_bare p_name_bare scan_bare by (simp split: option.split)
qed

definition same_bare :: "production list \<Rightarrow> production list \<Rightarrow> bool" where
  "same_bare ps qs \<longleftrightarrow> map bare_prod ps = map bare_prod qs"

lemma verdict_same:
  assumes "same_bare ps qs" and "i < length ps"
  shows "loop_verdict ps tk sets nl overlap i = loop_verdict qs tk sets nl overlap i"
proof -
  have "length qs = length ps" using assms(1) map_eq_imp_length_eq by (metis same_bare_def)
  then show ?thesis using verdict_bare [of i ps] verdict_bare [of i qs] assms by (simp add: same_bare_def)
qed

lemma map_update_at:
  assumes "\<And>x. f (h x) = f x" shows "map f (update_at i h xs) = map f xs"
  by (simp add: update_at_def map_update assms list_update_same_conv)

lemma mark_bare: "map bare_prod (mark_debt c ps x) = map bare_prod ps"
  unfolding mark_debt_def
  by (cases x) (auto simp: bare_prod_def map_update_at intro!: map_update_at)

lemma settle_bare: "map bare_prod (settle_debts i c ps st) = map bare_prod ps"
proof -
  have marks: "map bare_prod (foldl (mark_debt c) qs xs) = map bare_prod qs" for xs qs
    by (induction xs arbitrary: qs) (simp_all add: mark_bare)
  show ?thesis by (auto simp: settle_debts_def marks clear_guard_def bare_prod_def intro!: map_update_at)
qed

section \<open>What one loop changes\<close>

text \<open>The debt of the reference at a place, on one counter.\<close>

definition debt_in :: "string \<Rightarrow> element \<Rightarrow> int option" where
  "debt_in c el = (case kind_of el of Ref _ (Some d) \<Rightarrow> map_of d c | _ \<Rightarrow> None)"

definition element_at :: "production list \<Rightarrow> place \<Rightarrow> element option" where
  "element_at ps q =
     (case q of (pi, ai, i) \<Rightarrow>
        if pi < length ps \<and> ai < length (p_alts (ps ! pi)) \<and> i < length (p_alts (ps ! pi) ! ai)
        then Some (p_alts (ps ! pi) ! ai ! i) else None)"

definition debt_at :: "production list \<Rightarrow> place \<Rightarrow> string \<Rightarrow> int option" where
  "debt_at ps q c = (case element_at ps q of Some el \<Rightarrow> debt_in c el | None \<Rightarrow> None)"

lemma debt_in_with [simp]: "ref_name el = Some n \<Longrightarrow> debt_in c' (with_debt c d el) = (if c' = c then Some d else debt_in c' el)"
  by (cases el; cases "kind_of el") (auto simp: debt_in_def with_debt_def ref_name_def split: option.splits)

lemma ref_with_debt [simp]: "ref_name (with_debt c d el) = ref_name el"
  by (cases el; cases "kind_of el") (auto simp: with_debt_def ref_name_def)

lemma element_at_mark:
  "element_at (mark_debt c ps (q, d)) q' = (if q' = q then map_option (with_debt c d) (element_at ps q') else element_at ps q')"
  by (cases q; cases q') (auto simp: element_at_def mark_debt_def update_at_def nth_list_update)

lemma element_at_marks:
  assumes "distinct (map fst xs)"
  shows "element_at (foldl (mark_debt c) ps xs) q =
    (case map_of xs q of None \<Rightarrow> element_at ps q | Some d \<Rightarrow> map_option (with_debt c d) (element_at ps q))"
  using assms
proof (induction xs arbitrary: ps)
  case (Cons x xs)
  obtain r d where x: "x = (r, d)" by fastforce
  have "map_of xs r = None" using Cons.prems x by (simp add: map_of_eq_None_iff)
  then show ?case using Cons x by (auto simp: element_at_mark split: option.splits)
qed simp

lemma guards_mark [simp]:
  "map p_debt_guard (foldl (mark_debt c) ps xs) = map p_debt_guard ps"
  "map p_debt_owed (foldl (mark_debt c) ps xs) = map p_debt_owed ps"
  by (induction xs arbitrary: ps) (auto simp: mark_debt_def map_update_at split: prod.split)

lemma length_settle [simp]: "length (settle_debts i c ps st) = length ps"
  using map_eq_imp_length_eq [OF settle_bare] .

lemma length_marks [simp]: "length (foldl (mark_debt c) ps xs) = length ps"
  using map_eq_imp_length_eq [OF guards_mark(1)] .

lemma guard_marks [simp]:
  "j < length ps \<Longrightarrow> p_debt_guard (foldl (mark_debt c) ps xs ! j) = p_debt_guard (ps ! j)"
  "j < length ps \<Longrightarrow> p_debt_owed (foldl (mark_debt c) ps xs ! j) = p_debt_owed (ps ! j)"
  using guards_mark [of c ps xs] by (metis length_marks nth_map)+

lemma settle_guard:
  assumes "j < length ps"
  shows "p_debt_guard (settle_debts i c ps st ! j) = (if j = i \<and> sd_owed st = [] then None else p_debt_guard (ps ! j))"
    and "p_debt_owed (settle_debts i c ps st ! j) = (if j = i \<and> sd_owed st \<noteq> [] then Some (sd_owed st) else p_debt_owed (ps ! j))"
  using assms by (auto simp: settle_debts_def clear_guard_def update_at_def nth_list_update)

lemma element_at_settle:
  assumes "distinct (map fst (sd_pending st))"
  shows "element_at (settle_debts i c ps st) q =
    (if sd_owed st = [] then element_at ps q
     else case map_of (sd_pending st) q of None \<Rightarrow> element_at ps q | Some d \<Rightarrow> map_option (with_debt c d) (element_at ps q))"
proof -
  have same: "element_at (update_at i f ps) q = element_at ps q" if "\<And>p. p_alts (f p) = p_alts p" for f
    by (cases q) (simp add: element_at_def update_at_def nth_list_update that split: prod.split)
  show ?thesis by (simp add: settle_debts_def clear_guard_def element_at_marks [OF assms] same cong: option.case_cong)
qed

section \<open>What the scan collects\<close>

lemma in_enumerate: "(i, x) \<in> set (enumerate k xs) \<longleftrightarrow> k \<le> i \<and> i < k + length xs \<and> x = xs ! (i - k)"
  by (auto simp: in_set_enumerate_eq)

lemma length_with_rests [simp]: "length (with_rests xs) = length xs"
  by (induction xs) auto

lemma nth_with_rests: "i < length xs \<Longrightarrow> with_rests xs ! i = (xs ! i, drop (Suc i) xs)"
  by (induction xs arbitrary: i) (auto simp: nth_Cons split: nat.split)

lemma in_paired:
  "(i, z) \<in> set (concat (map (\<lambda>(i, x). map (Pair i) (h x)) (enumerate 0 xs))) \<longleftrightarrow> i < length xs \<and> z \<in> set (h (xs ! i))"
  by (force simp: in_enumerate)

lemma distinct_paired:
  "(\<And>x. x \<in> set xs \<Longrightarrow> distinct (h x)) \<Longrightarrow> distinct (concat (map (\<lambda>(i, x). map (Pair i) (h x)) (enumerate k xs)))"
  by (induction xs arbitrary: k) (auto simp: distinct_map in_enumerate inj_on_def)

lemma places_paired:
  "places ps = concat (map (\<lambda>(pi, p). map (Pair pi)
     (concat (map (\<lambda>(ai, alt). map (Pair ai) (enumerate 0 (with_rests alt))) (enumerate 0 (p_alts p))))) (enumerate 0 ps))"
  by (simp add: places_def map_concat comp_def case_prod_unfold)

lemma in_places:
  "(pi, ai, i, el, suf) \<in> set (places ps) \<longleftrightarrow>
   element_at ps (pi, ai, i) = Some el \<and> suf = drop (Suc i) (p_alts (ps ! pi) ! ai)"
  unfolding places_paired in_paired by (auto simp: element_at_def in_enumerate nth_with_rests)

abbreviation place_of :: "nat \<times> nat \<times> nat \<times> element \<times> seq \<Rightarrow> place" where
  "place_of \<equiv> \<lambda>(pi, ai, i, _). (pi, ai, i)"

lemma places_of: "map (\<lambda>x. (a, b, fst x)) (enumerate 0 xs) = map (\<lambda>i. (a, b, i)) [0..<length xs]"
  using arg_cong [OF map_fst_enumerate [of 0 xs], of "map (\<lambda>i. (a, b, i))"] by (simp add: comp_def del: map_fst_enumerate)

lemma distinct_places: "distinct (map place_of (places ps))"
proof -
  have "map place_of (places ps) =
      concat (map (\<lambda>(pi, p). map (Pair pi) (concat (map (\<lambda>(ai, alt). map (Pair ai) [0..<length alt])
        (enumerate 0 (p_alts p))))) (enumerate 0 ps))"
    by (simp add: places_def map_concat comp_def case_prod_unfold places_of)
  then show ?thesis by (simp only:) (intro distinct_paired, simp)
qed

text \<open>A push that must come back to its frame, and the loop tokens its suffix can begin with.\<close>

definition must_return :: "tokens \<Rightarrow> token_sets \<Rightarrow> string list \<Rightarrow> string list \<Rightarrow> element \<Rightarrow> seq \<Rightarrow> string list \<Rightarrow> bool" where
  "must_return tk sets nl carries el suf out \<longleftrightarrow>
     (\<exists>n. ref_name el = Some n \<and> n \<in> set carries) \<and> suf \<noteq> [] \<and> first_of_seq tk sets nl suf = Inr (out, False)"

definition loop_hits :: "(string \<Rightarrow> string \<Rightarrow> bool) \<Rightarrow> string list \<Rightarrow> string list \<Rightarrow> string set" where
  "loop_hits overlap loop_first out = {t \<in> set loop_first. \<exists>u\<in>set out. t = u \<or> overlap t u}"

definition owed_by ::
  "tokens \<Rightarrow> token_sets \<Rightarrow> string list \<Rightarrow> (string \<Rightarrow> string \<Rightarrow> bool) \<Rightarrow> string list \<Rightarrow> string list \<Rightarrow>
   nat \<times> nat \<times> nat \<times> element \<times> seq \<Rightarrow> string set" where
  "owed_by tk sets nl overlap lf carries x =
     (case x of (_, _, _, el, suf) \<Rightarrow> {t. \<exists>out. must_return tk sets nl carries el suf out \<and> t \<in> loop_hits overlap lf out})"

definition marked_by ::
  "tokens \<Rightarrow> token_sets \<Rightarrow> string list \<Rightarrow> (string \<Rightarrow> string \<Rightarrow> bool) \<Rightarrow> string list \<Rightarrow> string list \<Rightarrow>
   nat \<times> nat \<times> nat \<times> element \<times> seq \<Rightarrow> (place \<times> int) set" where
  "marked_by tk sets nl overlap lf carries x =
     (case x of (pi, ai, i, el, suf) \<Rightarrow>
        {(q, d). \<exists>out. q = (pi, ai, i) \<and> must_return tk sets nl carries el suf out \<and>
           d = (if loop_hits overlap lf out = {} then 0 else 1)})"

lemma scan_suffix_result:
  assumes "scan_suffix tk sets nl overlap lf carries pi ai st (i, el, suf) = Inr st'"
  shows "set (sd_owed st') = set (sd_owed st) \<union> owed_by tk sets nl overlap lf carries (pi, ai, i, el, suf)"
    and "set (sd_pending st') = set (sd_pending st) \<union> marked_by tk sets nl overlap lf carries (pi, ai, i, el, suf)"
    and "map fst (sd_pending st') = map fst (sd_pending st) \<or> map fst (sd_pending st') = map fst (sd_pending st) @ [(pi, ai, i)]"
proof -
  have h: "set (concat (map (\<lambda>u. filter (\<lambda>t. t = u \<or> overlap t u) lf) out)) = loop_hits overlap lf out" for out
    by (auto simp: loop_hits_def)
  have e: "concat (map (\<lambda>u. filter (\<lambda>t. t = u \<or> overlap t u) lf) out) = [] \<longleftrightarrow> loop_hits overlap lf out = {}" for out
    unfolding h [symmetric] by (rule set_empty [symmetric])
  have cases: "(\<exists>out. must_return tk sets nl carries el suf out \<and> set (sd_owed st') = set (sd_owed st) \<union> loop_hits overlap lf out \<and>
      sd_pending st' = sd_pending st @ [((pi, ai, i), if loop_hits overlap lf out = {} then 0 else 1)]) \<or>
    (\<nexists>out. must_return tk sets nl carries el suf out) \<and> st' = st"
    using assms
    by (auto simp: scan_suffix_def must_return_def res_bind_Inr_iff Let_def h e simp del: set_concat concat_eq_Nil_conv
        split: option.splits if_splits)
  have det: "out = out'" if "must_return tk sets nl carries el suf out" "must_return tk sets nl carries el suf out'" for out out'
    using that by (simp add: must_return_def)
  show "set (sd_owed st') = set (sd_owed st) \<union> owed_by tk sets nl overlap lf carries (pi, ai, i, el, suf)"
    using cases det by (fastforce simp: owed_by_def)
  show "set (sd_pending st') = set (sd_pending st) \<union> marked_by tk sets nl overlap lf carries (pi, ai, i, el, suf)"
    using cases
  proof
    assume "\<exists>out. must_return tk sets nl carries el suf out \<and> set (sd_owed st') = set (sd_owed st) \<union> loop_hits overlap lf out \<and>
      sd_pending st' = sd_pending st @ [((pi, ai, i), if loop_hits overlap lf out = {} then 0 else 1)]"
    then obtain out where o: "must_return tk sets nl carries el suf out"
      "sd_pending st' = sd_pending st @ [((pi, ai, i), if loop_hits overlap lf out = {} then 0 else 1)]" by blast
    have "must_return tk sets nl carries el suf = (\<lambda>x. x = out)" using o(1) det by blast
    then show ?thesis by (simp add: marked_by_def o(2))
  qed (simp add: marked_by_def)
  show "map fst (sd_pending st') = map fst (sd_pending st) \<or> map fst (sd_pending st') = map fst (sd_pending st) @ [(pi, ai, i)]"
    using cases by auto
qed

lemma scan_fold_result:
  "res_fold (\<lambda>st (pi, ai, x). scan_suffix tk sets nl overlap lf carries pi ai st x) st xs = Inr st' \<Longrightarrow>
   set (sd_owed st') = set (sd_owed st) \<union> (\<Union>x\<in>set xs. owed_by tk sets nl overlap lf carries x) \<and>
   set (sd_pending st') = set (sd_pending st) \<union> (\<Union>x\<in>set xs. marked_by tk sets nl overlap lf carries x) \<and>
   (distinct (map fst (sd_pending st) @ map place_of xs) \<longrightarrow> distinct (map fst (sd_pending st')))"
proof (induction xs arbitrary: st)
  case (Cons x xs)
  obtain pi ai i el suf where x: "x = (pi, ai, i, el, suf)" by (metis prod_cases5)
  obtain s1 where s1: "scan_suffix tk sets nl overlap lf carries pi ai st (i, el, suf) = Inr s1"
    and rest: "res_fold (\<lambda>st (pi, ai, x). scan_suffix tk sets nl overlap lf carries pi ai st x) s1 xs = Inr st'"
    using Cons.prems x by (auto simp: res_bind_Inr_iff)
  note ih = Cons.IH [OF rest] and r = scan_suffix_result [OF s1]
  have "distinct (map fst (sd_pending s1) @ map place_of xs)" if "distinct (map fst (sd_pending st) @ map place_of (x # xs))"
    using r(3) by (rule disjE) (use that in \<open>simp_all add: x del: set_map\<close>)
  then show ?case using ih r(1,2) by (simp add: x Un_assoc)
qed simp

lemma scan_result:
  assumes "scan_suffixes ps tk sets nl overlap lf carries = Inr st"
  shows "t \<in> set (sd_owed st) \<longleftrightarrow>
      (\<exists>pi ai i el out. element_at ps (pi, ai, i) = Some el \<and>
         must_return tk sets nl carries el (drop (Suc i) (p_alts (ps ! pi) ! ai)) out \<and> t \<in> loop_hits overlap lf out)"
    and "((pi, ai, i), d) \<in> set (sd_pending st) \<longleftrightarrow>
      (\<exists>el out. element_at ps (pi, ai, i) = Some el \<and> must_return tk sets nl carries el (drop (Suc i) (p_alts (ps ! pi) ! ai)) out \<and>
         d = (if loop_hits overlap lf out = {} then 0 else 1))"
    and "distinct (map fst (sd_pending st))"
proof -
  note r = scan_fold_result [OF assms [unfolded scan_suffixes_def]]
  have o: "t \<in> set (sd_owed st) \<longleftrightarrow> (\<exists>pi ai i el suf. (pi, ai, i, el, suf) \<in> set (places ps) \<and>
      t \<in> owed_by tk sets nl overlap lf carries (pi, ai, i, el, suf))"
    unfolding conjunct1 [OF r] by (simp add: Bex_def split_paired_Ex)
  then show "t \<in> set (sd_owed st) \<longleftrightarrow>
      (\<exists>pi ai i el out. element_at ps (pi, ai, i) = Some el \<and>
         must_return tk sets nl carries el (drop (Suc i) (p_alts (ps ! pi) ! ai)) out \<and> t \<in> loop_hits overlap lf out)"
    by (auto simp: in_places owed_by_def)
  have m: "((pi, ai, i), d) \<in> set (sd_pending st) \<longleftrightarrow> (\<exists>pj aj j el suf. (pj, aj, j, el, suf) \<in> set (places ps) \<and>
      ((pi, ai, i), d) \<in> marked_by tk sets nl overlap lf carries (pj, aj, j, el, suf))"
    unfolding conjunct1 [OF conjunct2 [OF r]] by (simp add: Bex_def split_paired_Ex)
  then show "((pi, ai, i), d) \<in> set (sd_pending st) \<longleftrightarrow>
      (\<exists>el out. element_at ps (pi, ai, i) = Some el \<and> must_return tk sets nl carries el (drop (Suc i) (p_alts (ps ! pi) ! ai)) out \<and>
         d = (if loop_hits overlap lf out = {} then 0 else 1))"
    by (auto simp: in_places marked_by_def)
  show "distinct (map fst (sd_pending st))" using r distinct_places [of ps] by simp
qed

section \<open>Every loop\<close>

text \<open>What is known of the grammar once the loops \<open>done\<close> are settled.\<close>

definition settled ::
  "production list \<Rightarrow> tokens \<Rightarrow> token_sets \<Rightarrow> string list \<Rightarrow> (string \<Rightarrow> string \<Rightarrow> bool) \<Rightarrow> nat set \<Rightarrow> production list \<Rightarrow> bool" where
  "settled ps tk sets nl overlap is qs \<longleftrightarrow>
     same_bare ps qs \<and>
     (\<forall>i<length ps. \<forall>c. p_debt_guard (ps ! i) = Some c \<longrightarrow>
        (if i \<in> is
         then \<exists>st. loop_verdict ps tk sets nl overlap i = Inr st \<and>
           p_debt_guard (qs ! i) = (if sd_owed st = [] then None else Some c) \<and>
           (sd_owed st \<noteq> [] \<longrightarrow> p_debt_owed (qs ! i) = Some (sd_owed st) \<and>
              (\<forall>(q, d)\<in>set (sd_pending st). debt_at qs q c = Some d))
         else p_debt_guard (qs ! i) = Some c))"

lemma settledD:
  "settled ps tk sets nl overlap is qs \<Longrightarrow> i < length ps \<Longrightarrow> p_debt_guard (ps ! i) = Some c \<Longrightarrow> i \<in> is \<Longrightarrow>
   \<exists>st. loop_verdict ps tk sets nl overlap i = Inr st \<and>
     p_debt_guard (qs ! i) = (if sd_owed st = [] then None else Some c) \<and>
     (sd_owed st \<noteq> [] \<longrightarrow> p_debt_owed (qs ! i) = Some (sd_owed st) \<and>
        (\<forall>(q, d)\<in>set (sd_pending st). debt_at qs q c = Some d))"
  by (simp add: settled_def)

lemma element_at_bare: "element_at (map bare_prod ps) q = map_option bare (element_at ps q)"
  by (cases q) (simp add: element_at_def cong: conj_cong)

lemma element_ref_same: "same_bare ps qs \<Longrightarrow> map_option ref_name (element_at ps q) = map_option ref_name (element_at qs q)"
  using element_at_bare [of ps q] element_at_bare [of qs q]
  by (cases "element_at ps q"; cases "element_at qs q") (auto simp: same_bare_def dest: arg_cong [of _ _ ref_name])

lemma verdict_pending:
  assumes "loop_verdict ps tk sets nl overlap i = Inr st"
  shows "distinct (map fst (sd_pending st))"
    and "(q, d) \<in> set (sd_pending st) \<Longrightarrow> \<exists>el n. element_at ps q = Some el \<and> ref_name el = Some n"
proof -
  show "distinct (map fst (sd_pending st))"
    using assms by (auto simp: loop_verdict_def dest: scan_result(3) split: option.splits if_splits)
  show "\<exists>el n. element_at ps q = Some el \<and> ref_name el = Some n" if "(q, d) \<in> set (sd_pending st)"
    using assms that
    by (cases q) (auto simp: loop_verdict_def scan_result(2) must_return_def split: option.splits if_splits)
qed

lemma debt_at_settle:
  assumes v: "loop_verdict ps tk sets nl overlap i = Inr st" and same: "same_bare ps qs"
  shows "sd_owed st \<noteq> [] \<Longrightarrow> (q, d) \<in> set (sd_pending st) \<Longrightarrow> debt_at (settle_debts i c qs st) q c = Some d"
    and "c' \<noteq> c \<Longrightarrow> debt_at (settle_debts i c qs st) q c' = debt_at qs q c'"
proof -
  note dp = verdict_pending(1) [OF v]
  have ref: "\<exists>el n. element_at qs q = Some el \<and> ref_name el = Some n" if "(q, d) \<in> set (sd_pending st)" for q d
    using verdict_pending(2) [OF v that] element_ref_same [OF same, of q] by (cases "element_at qs q") (auto dest: sym)
  show "debt_at (settle_debts i c qs st) q c = Some d" if "sd_owed st \<noteq> []" "(q, d) \<in> set (sd_pending st)"
    using ref [OF that(2)] that dp by (auto simp: debt_at_def element_at_settle [OF dp])
  show "debt_at (settle_debts i c qs st) q c' = debt_at qs q c'" if "c' \<noteq> c"
  proof (cases "map_of (sd_pending st) q")
    case (Some d)
    then show ?thesis using ref [OF map_of_SomeD [OF Some]] that by (auto simp: debt_at_def element_at_settle [OF dp])
  qed (simp add: debt_at_def element_at_settle [OF dp])
qed

lemma resolve_loop_settles:
  assumes r: "resolve_loop (g\<lparr>productions := qs\<rparr>) tk sets nl overlap i = Inr g'" and s: "settled ps tk sets nl overlap is qs"
    and i: "i < length ps" "i \<notin> is" "p_debt_guard (ps ! i) = Some c"
    and counters: "\<And>j. j < length ps \<Longrightarrow> p_debt_guard (ps ! j) = Some c \<Longrightarrow> j = i"
  shows "\<exists>rs. g' = g\<lparr>productions := rs\<rparr> \<and> settled ps tk sets nl overlap (insert i is) rs"
proof -
  have same: "same_bare ps qs" using s by (simp add: settled_def)
  then have len: "length qs = length ps" unfolding same_bare_def by (metis length_map)
  have gi: "p_debt_guard (qs ! i) = Some c" using s i by (auto simp: settled_def)
  obtain st where v0: "loop_verdict qs tk sets nl overlap i = Inr st" and g': "g' = g\<lparr>productions := settle_debts i c qs st\<rparr>"
    using r resolve_loop_verdict [of "g\<lparr>productions := qs\<rparr>" i c] gi by (auto simp: res_bind_Inr_iff)
  have v: "loop_verdict ps tk sets nl overlap i = Inr st" using v0 verdict_same [OF same i(1)] by simp
  let ?rs = "settle_debts i c qs st"
  have "settled ps tk sets nl overlap (insert i is) ?rs"
    unfolding settled_def
  proof (intro conjI allI impI)
    show "same_bare ps ?rs" using same by (simp add: same_bare_def settle_bare)
    fix j c' assume j: "j < length ps" "p_debt_guard (ps ! j) = Some c'"
    show "if j \<in> insert i is
         then \<exists>st. loop_verdict ps tk sets nl overlap j = Inr st \<and>
           p_debt_guard (?rs ! j) = (if sd_owed st = [] then None else Some c') \<and>
           (sd_owed st \<noteq> [] \<longrightarrow> p_debt_owed (?rs ! j) = Some (sd_owed st) \<and>
              (\<forall>(q, d)\<in>set (sd_pending st). debt_at ?rs q c' = Some d))
         else p_debt_guard (?rs ! j) = Some c'"
    proof (cases "j = i")
      case True
      then have "c' = c" using j(2) i(3) by simp
      then show ?thesis using True v gi i(1) len debt_at_settle(1) [OF v same, of _ _ c] by (auto simp: settle_guard)
    next
      case False
      then have "c' \<noteq> c" using counters j by blast
      then have d: "debt_at ?rs q c' = debt_at qs q c'" for q using debt_at_settle(2) [OF v same] by simp
      have o: "p_debt_guard (?rs ! j) = p_debt_guard (qs ! j)" "p_debt_owed (?rs ! j) = p_debt_owed (qs ! j)"
        using j(1) len False by (simp_all add: settle_guard)
      show ?thesis unfolding o d using s j False by (simp add: settled_def)
    qed
  qed
  then show ?thesis using g' by blast
qed

lemma resolve_settles:
  assumes counters: "\<And>i j c. i < length ps \<Longrightarrow> j < length ps \<Longrightarrow> p_debt_guard (ps ! i) = Some c \<Longrightarrow> p_debt_guard (ps ! j) = Some c \<Longrightarrow> j = i"
  shows "res_fold (\<lambda>g i. resolve_loop g tk sets nl overlap i) (g\<lparr>productions := qs\<rparr>) xs = Inr g' \<Longrightarrow>
    settled ps tk sets nl overlap is qs \<Longrightarrow> distinct xs \<Longrightarrow> set xs \<inter> is = {} \<Longrightarrow>
    (\<forall>i\<in>set xs. i < length ps \<and> p_debt_guard (ps ! i) \<noteq> None) \<Longrightarrow>
    settled ps tk sets nl overlap (is \<union> set xs) (productions g')"
proof (induction xs arbitrary: qs "is")
  case (Cons i xs)
  obtain g1 where g1: "resolve_loop (g\<lparr>productions := qs\<rparr>) tk sets nl overlap i = Inr g1"
    "res_fold (\<lambda>g i. resolve_loop g tk sets nl overlap i) g1 xs = Inr g'"
    using Cons.prems(1) by (auto simp: res_bind_Inr_iff)
  obtain c where c: "i < length ps" "p_debt_guard (ps ! i) = Some c" "i \<notin> is" using Cons.prems(4,5) by auto
  obtain rs where rs: "g1 = g\<lparr>productions := rs\<rparr>" "settled ps tk sets nl overlap (insert i is) rs"
    using resolve_loop_settles [OF g1(1) Cons.prems(2) c(1,3,2) counters [OF c(1) _ c(2)]] by blast
  have "settled ps tk sets nl overlap (insert i is \<union> set xs) (productions g')"
    by (rule Cons.IH [OF g1(2) [unfolded rs(1)] rs(2)]) (use Cons.prems(3,4,5) in auto)
  then show ?case by simp
qed auto

text \<open>No two loops share a counter.\<close>

definition counters_distinct :: "production list \<Rightarrow> bool" where
  "counters_distinct ps = distinct (List.map_filter p_debt_guard ps)"

lemma counters_distinctD:
  "counters_distinct ps \<Longrightarrow> i < length ps \<Longrightarrow> j < length ps \<Longrightarrow> p_debt_guard (ps ! i) = Some c \<Longrightarrow>
   p_debt_guard (ps ! j) = Some c \<Longrightarrow> j = i"
proof (induction ps arbitrary: i j)
  case (Cons p ps)
  have tail: "counters_distinct ps"
    using Cons.prems(1) by (auto simp: counters_distinct_def List.map_filter_simps split: option.splits)
  have new: "p_debt_guard (ps ! k) \<noteq> Some c" if "k < length ps" "p_debt_guard p = Some c" for k
    using Cons.prems(1) that(2) bspec [OF _ nth_mem [OF that(1)], of "\<lambda>x. p_debt_guard x \<noteq> Some c"]
    by (force simp: counters_distinct_def List.map_filter_simps List.map_filter_def)
  show ?case
    using Cons.IH [OF tail] Cons.prems(2-) new by (auto simp: nth_Cons split: nat.splits)
qed simp

lemma debts_settled:
  assumes r: "resolve_suffix_debts g tk sets nl overlap = Inr g'" and counters: "counters_distinct (productions g)"
  shows "settled (productions g) tk sets nl overlap {i. i < length (productions g) \<and> p_debt_guard (productions g ! i) \<noteq> None} (productions g')"
proof -
  let ?is = "map fst (filter (\<lambda>(_, p). p_debt_guard p \<noteq> None) (enumerate 0 (productions g)))"
  have mem: "set ?is = {i. i < length (productions g) \<and> p_debt_guard (productions g ! i) \<noteq> None}"
    by (force simp: in_enumerate)
  have s0: "settled (productions g) tk sets nl overlap {} (productions g)" by (simp add: settled_def same_bare_def)
  have "settled (productions g) tk sets nl overlap ({} \<union> set ?is) (productions g')"
    by (rule resolve_settles [where g = g and qs = "productions g", OF counters_distinctD [OF counters] _ s0])
      (use r in \<open>auto simp: resolve_suffix_debts_def in_enumerate intro!: distinct_map_filter distinct_enumerate\<close>)
  then show ?thesis unfolding mem by simp
qed

lemma first_of_seq_total: "list_all is_leaf sq \<Longrightarrow> \<exists>r. first_of_seq tk sets nl sq = Inr r"
proof -
  have "list_all is_leaf sq \<Longrightarrow> \<exists>r. first_of_seq_from tk sets nl out sq = Inr r" for out
    by (induction tk sets nl out sq rule: first_of_seq_from.induct) (auto simp: Let_def elim!: leaf_cases)
  then show "list_all is_leaf sq \<Longrightarrow> \<exists>r. first_of_seq tk sets nl sq = Inr r" by (simp add: first_of_seq_def)
qed

lemma debts_keep_language: "resolve_suffix_debts g tk sets nl overlap = Inr g' \<Longrightarrow> glang T (productions g') = glang T (productions g)"
proof -
  have loop: "map bare_prod (productions b) = map bare_prod (productions a)"
    if "resolve_loop a tk sets nl overlap i = Inr b" for a b i
    using that
    by (auto simp: resolve_loop_def Let_def res_bind_Inr_iff settle_bare clear_guard_def bare_prod_def intro!: map_update_at
        split: option.splits if_splits)
  assume "resolve_suffix_debts g tk sets nl overlap = Inr g'"
  then have "map bare_prod (productions g') = map bare_prod (productions g)"
    unfolding resolve_suffix_debts_def
    by (rule res_fold_invariant [where P = "\<lambda>b. map bare_prod (productions b) = map bare_prod (productions g)"]) (auto dest: loop)
  then show ?thesis using glang_bare by metis
qed

text \<open>
  With exact FIRST sets: a push whose suffix must consume, and can begin with a token that collides
  with one the loop begins with, keeps the loop's guard, is counted in what is owed, and carries a
  debt of one.
\<close>

lemma debts_not_missed:
  assumes r: "resolve_suffix_debts g tk sets nl overlap = Inr g'" and counters: "counters_distinct (productions g)"
    and leaf: "all_elements is_leaf (productions g)"
    and ex: "exact_first tk (map (classed cls) (productions g)) sets nl"
    and i: "i < length (productions g)" "p_debt_guard (productions g ! i) = Some c"
    and owner: "loop_owner (productions g) i (p_name (productions g ! i)) = Some owner"
    and q: "element_at (productions g) (pi, ai, k) = Some el" "ref_name el = Some n"
    and reach: "(n, p_name owner) \<in> (pushes (productions g))\<^sup>*"
    and suf: "suf = drop (Suc k) (p_alts (productions g ! pi) ! ai)"
    and must: "[] \<notin> slang (tok_words tk) (tlang tk (map (classed cls) (productions g))) suf"
    and u: "u # w \<in> slang (tok_words tk) (tlang tk (map (classed cls) (productions g))) suf"
    and t: "t \<in> set (set_of sets (p_name (productions g ! i)))" "t = u \<or> overlap t u"
  shows "p_debt_guard (productions g' ! i) = Some c \<and>
    (\<exists>ts. p_debt_owed (productions g' ! i) = Some ts \<and> t \<in> set ts) \<and> debt_at (productions g') (pi, ai, k) c = Some 1"
proof -
  let ?ps = "productions g"
  note s = debts_settled [OF r counters]
  obtain st where v: "loop_verdict ?ps tk sets nl overlap i = Inr st"
    and out: "p_debt_guard (productions g' ! i) = (if sd_owed st = [] then None else Some c)"
      "sd_owed st \<noteq> [] \<longrightarrow> p_debt_owed (productions g' ! i) = Some (sd_owed st) \<and>
         (\<forall>(q, d)\<in>set (sd_pending st). debt_at (productions g') q c = Some d)"
    using settledD [OF s i] i by auto
  have ne: "set_of sets (p_name (?ps ! i)) \<noteq> []" using t(1) by auto
  then have scan: "scan_suffixes ?ps tk sets nl overlap (set_of sets (p_name (?ps ! i))) (ref_callers_of g (p_name owner)) = Inr st"
    using v owner by (simp add: loop_verdict_def callers_only_productions)
  have carries: "n \<in> set (ref_callers_of g (p_name owner))" using reach by (simp add: ref_callers_exact)
  have sne: "suf \<noteq> []" using must by auto
  have pl: "(pi, ai, k, el, suf) \<in> set (places ?ps)" using q(1) suf by (simp add: in_places)
  have lsuf: "list_all is_leaf suf"
  proof -
    have "p_alts (?ps ! pi) ! ai \<in> set (p_alts (?ps ! pi))" "?ps ! pi \<in> set ?ps"
      using q(1) by (auto simp: element_at_def split: if_splits)
    then have "list_all is_leaf (p_alts (?ps ! pi) ! ai)" using leaf by (auto simp: list_all_iff)
    then show ?thesis unfolding suf by (auto simp: list_all_iff dest: in_set_dropD)
  qed
  obtain fs nb where f: "first_of_seq tk sets nl suf = Inr (fs, nb)"
    using first_of_seq_total [OF lsuf] by (metis surj_pair)
  note fr = first_of_seq_result [OF f lsuf ex leaves_classed [OF leaf]]
  have mr: "must_return tk sets nl (ref_callers_of g (p_name owner)) el suf fs"
    using f fr(1) must sne q(2) carries by (simp add: must_return_def)
  have hit: "t \<in> loop_hits overlap (set_of sets (p_name (?ps ! i))) fs"
    using t fr(2) [OF u] by (auto simp: loop_hits_def)
  have owed: "t \<in> set (sd_owed st)" using scan_result(1) [OF scan] q(1) mr hit suf by blast
  moreover have "((pi, ai, k), 1) \<in> set (sd_pending st)" using scan_result(2) [OF scan] q(1) mr hit suf by fastforce
  ultimately show ?thesis using out by auto
qed

end
