(* ===== verification/Follow_Language.thy ===== *)
theory Follow_Language
  imports Follow_Sets
begin

text \<open>
  FOLLOW against derivations: a sentential form of the start rule is what its expansions lead to,
  and after a reference in one stands nothing that the FOLLOW set of its rule does not name.
\<close>

inductive sentential :: "production list \<Rightarrow> string \<Rightarrow> seq \<Rightarrow> bool" for ps start where
  sentential_start: "ref_name el = Some start \<Longrightarrow> sentential ps start [el]"
| sentential_step: "sentential ps start (a @ el # b) \<Longrightarrow> ref_name el = Some (p_name p) \<Longrightarrow> p \<in> set ps \<Longrightarrow>
    alt \<in> set (p_alts p) \<Longrightarrow> sentential ps start (a @ alt @ b)"

section \<open>What every step keeps, and what an idle pass leaves\<close>

lemma follow_ref_keeps:
  assumes "follow_ref g tk sets nl p st x = Inr st'" and "P st"
    and add: "\<And>n t a b. P a \<Longrightarrow> first_add n a t = Inr b \<Longrightarrow> P b" and budget: "\<And>a c. P a \<Longrightarrow> P (a\<lparr>fs_budget := c\<rparr>)"
  shows "P st'"
proof -
  have "P b" if "res_fold (first_add n) (st\<lparr>fs_budget := c\<rparr>) ts = Inr b" for n ts b c
    by (rule res_fold_invariant [OF that]) (use assms(2) add budget in auto)
  then show ?thesis using assms(1,2) by (auto simp: follow_ref_def res_bind_Inr_iff split: option.splits if_splits)
qed

lemma follow_loop_keeps:
  assumes add: "\<And>n t a b. P a \<Longrightarrow> first_add n a t = Inr b \<Longrightarrow> P b" and budget: "\<And>a c. P a \<Longrightarrow> P (a\<lparr>fs_budget := c\<rparr>)"
    and flag: "\<And>a c. P a \<Longrightarrow> P (a\<lparr>fs_changed := c\<rparr>)"
  shows "follow_loop g tk sets nl st = Inr st' \<Longrightarrow> P st \<Longrightarrow> P st'"
proof (induction g tk sets nl st rule: follow_loop.induct)
  case (1 g tk sets nl st)
  obtain s1 where s1: "follow_pass g tk sets nl st = Inr s1" "(if fs_changed s1 then follow_loop g tk sets nl s1 else Inr s1) = Inr st'"
    using "1.prems"(1) by (subst (asm) follow_loop.simps) (auto simp: res_bind_Inr_iff)
  have ref: "P b" if "follow_ref g tk sets nl p a x = Inr b" "P a" for p a x b
    by (rule follow_ref_keeps [OF that add budget])
  have alt: "P b" if "res_fold (follow_ref g tk sets nl p) a (with_rests alt) = Inr b" "P a" for p a alt b
    by (rule res_fold_invariant [OF that(1), of P, OF that(2)]) (rule ref)
  have prod: "P b" if "res_fold (\<lambda>st alt. res_fold (follow_ref g tk sets nl p) st (with_rests alt)) a (p_alts p) = Inr b" "P a" for p a b
    by (rule res_fold_invariant [OF that(1), of P, OF that(2)]) (rule alt)
  have "P s1"
    by (rule res_fold_invariant [OF s1(1) [unfolded follow_pass_def], of P]) (use "1.prems"(2) flag prod in auto)
  then show ?case using "1.IH" [OF s1(1)] s1(2) by (auto split: if_splits)
qed

lemma fold_same:
  assumes "\<And>x a b. x \<in> set xs \<Longrightarrow> f a x = Inr b \<Longrightarrow> \<not> fs_changed b \<Longrightarrow> fs_sets b = fs_sets a \<and> \<not> fs_changed a \<and> P (fs_sets a) x"
  shows "res_fold f st xs = Inr st' \<Longrightarrow> \<not> fs_changed st' \<Longrightarrow>
    fs_sets st' = fs_sets st \<and> \<not> fs_changed st \<and> (\<forall>x\<in>set xs. P (fs_sets st) x)"
  using assms
proof (induction xs arbitrary: st)
  case (Cons x xs)
  obtain s1 where s1: "f st x = Inr s1" "res_fold f s1 xs = Inr st'" using Cons.prems(1) by (auto simp: res_bind_Inr_iff)
  have ih: "fs_sets st' = fs_sets s1 \<and> \<not> fs_changed s1 \<and> (\<forall>x\<in>set xs. P (fs_sets s1) x)"
    by (rule Cons.IH [OF s1(2) Cons.prems(2)]) (use Cons.prems(3) in auto)
  then have "fs_sets s1 = fs_sets st \<and> \<not> fs_changed st \<and> P (fs_sets st) x" using Cons.prems(3) [OF _ s1(1)] by simp
  with ih show ?case by auto
qed simp

definition ref_closed ::
  "tokens \<Rightarrow> token_sets \<Rightarrow> string list \<Rightarrow> production \<Rightarrow> token_sets \<Rightarrow> element \<times> seq \<Rightarrow> bool" where
  "ref_closed tk sets nl p follow x \<longleftrightarrow>
     (\<forall>n. ref_name (fst x) = Some n \<longrightarrow> map_of follow n \<noteq> None \<longrightarrow>
        (\<exists>out nb. first_of_seq tk sets nl (snd x) = Inr (out, nb) \<and> set out \<subseteq> set (set_of follow n) \<and>
           (nb \<longrightarrow> set (set_of follow (p_name p)) \<subseteq> set (set_of follow n))))"

lemma follow_ref_same:
  assumes "follow_ref g tk sets nl p st x = Inr st'" and "\<not> fs_changed st'"
  shows "fs_sets st' = fs_sets st \<and> \<not> fs_changed st \<and> ref_closed tk sets nl p (fs_sets st) x"
proof (cases "ref_name (fst x)")
  case (Some n)
  show ?thesis
  proof (cases "map_of (fs_sets st) n = None")
    case False
    obtain out nb where o: "first_of_seq tk sets nl (snd x) = Inr (out, nb)"
      "res_fold (first_add n) (st\<lparr>fs_budget := begin_for g n StepFollow (fs_budget st)\<rparr>)
         (out @ (if nb then set_of (fs_sets st) (p_name p) else [])) = Inr st'"
      using assms(1) Some False by (auto simp: follow_ref_def res_bind_Inr_iff)
    have "st' = st\<lparr>fs_budget := begin_for g n StepFollow (fs_budget st)\<rparr> \<and>
        set (out @ (if nb then set_of (fs_sets st) (p_name p) else [])) \<subseteq> set (set_of (fs_sets st) n)"
      using adds_unchanged [OF o(2) assms(2)] by simp
    then show ?thesis using Some o(1) assms(2) by (auto simp: ref_closed_def)
  qed (use assms Some in \<open>auto simp: follow_ref_def ref_closed_def\<close>)
qed (use assms in \<open>auto simp: follow_ref_def ref_closed_def\<close>)

definition follow_closed :: "tokens \<Rightarrow> token_sets \<Rightarrow> string list \<Rightarrow> production list \<Rightarrow> token_sets \<Rightarrow> bool" where
  "follow_closed tk sets nl ps follow \<longleftrightarrow>
     (\<forall>p\<in>set ps. \<forall>alt\<in>set (p_alts p). \<forall>x\<in>set (with_rests alt). ref_closed tk sets nl p follow x)"

lemma pass_same:
  assumes "follow_pass g tk sets nl st = Inr st'" and "\<not> fs_changed st'"
  shows "fs_sets st' = fs_sets st \<and> follow_closed tk sets nl (productions g) (fs_sets st)"
proof -
  have alt: "fs_sets b = fs_sets a \<and> \<not> fs_changed a \<and> (\<forall>x\<in>set (with_rests alt). ref_closed tk sets nl p (fs_sets a) x)"
    if "res_fold (follow_ref g tk sets nl p) a (with_rests alt) = Inr b" "\<not> fs_changed b" for p a b alt
    by (rule fold_same [OF _ that]) (rule follow_ref_same)
  have prod: "fs_sets b = fs_sets a \<and> \<not> fs_changed a \<and>
      (\<forall>alt\<in>set (p_alts p). \<forall>x\<in>set (with_rests alt). ref_closed tk sets nl p (fs_sets a) x)"
    if "res_fold (\<lambda>st alt. res_fold (follow_ref g tk sets nl p) st (with_rests alt)) a (p_alts p) = Inr b" "\<not> fs_changed b" for p a b
    by (rule fold_same [OF _ that]) (rule alt)
  have "fs_sets st' = fs_sets (st\<lparr>fs_changed := False\<rparr>) \<and> \<not> fs_changed (st\<lparr>fs_changed := False\<rparr>) \<and>
      (\<forall>p\<in>set (productions g). \<forall>alt\<in>set (p_alts p). \<forall>x\<in>set (with_rests alt). ref_closed tk sets nl p (fs_sets (st\<lparr>fs_changed := False\<rparr>)) x)"
    by (rule fold_same [OF _ assms(1) [unfolded follow_pass_def] assms(2)]) (rule prod)
  then show ?thesis by (simp add: follow_closed_def)
qed

lemma follow_loop_closed: "follow_loop g tk sets nl st = Inr st' \<Longrightarrow> follow_closed tk sets nl (productions g) (fs_sets st')"
proof (induction g tk sets nl st rule: follow_loop.induct)
  case (1 g tk sets nl st)
  obtain s1 where s1: "follow_pass g tk sets nl st = Inr s1" "(if fs_changed s1 then follow_loop g tk sets nl s1 else Inr s1) = Inr st'"
    using "1.prems"(1) by (subst (asm) follow_loop.simps) (auto simp: res_bind_Inr_iff)
  show ?case
  proof (cases "fs_changed s1")
    case True
    then show ?thesis using "1.IH" [OF s1(1) True] s1(2) by simp
  next
    case False
    then show ?thesis using pass_same [OF s1(1) False] s1(2) by simp
  qed
qed

section \<open>FOLLOW covers every derivation\<close>

lemma follow_empty_keys: "map_of (follow_empty ps) n = (if n \<in> set (names ps) then Some [] else None)"
proof -
  have "map_of (foldl (\<lambda>m p. imap_insert (p_name p) [] m) m ps) n = (if n \<in> set (names ps) then Some [] else map_of m n)" for m :: token_sets
    by (induction ps arbitrary: m) auto
  then show ?thesis by (simp add: follow_empty_def)
qed

lemma follow_computed:
  assumes "compute_follow_sets g tk sets nl start b = Inr (follow, b')"
  shows "follow_closed tk sets nl (productions g) follow"
    and "n \<in> set (names (productions g)) \<Longrightarrow> map_of follow n \<noteq> None"
    and "start \<in> set (names (productions g)) \<Longrightarrow> ''#ZZ'' \<in> set (set_of follow start)"
proof -
  let ?m = "follow_empty (productions g)"
  obtain m c st where m: "(if map_of ?m start = None then Inr (?m, b)
        else res_bind (b_charge 1 (begin_for g start StepFollow b)) (\<lambda>b. Inr (imap_insert start [''#ZZ''] ?m, b))) = Inr (m, c)"
    and st: "follow_loop g tk sets nl \<lparr>fs_sets = m, fs_budget = c, fs_changed = False\<rparr> = Inr st" "follow = fs_sets st"
    using assms by (auto simp: compute_follow_sets_def Let_def res_bind_Inr_iff)
  show "follow_closed tk sets nl (productions g) follow" using follow_loop_closed [OF st(1)] by (simp add: st(2))
  have key: "map_of m n \<noteq> None" if "n \<in> set (names (productions g))" for n
    using m that by (auto simp: follow_empty_keys res_bind_Inr_iff split: if_splits)
  show "map_of follow n \<noteq> None" if "n \<in> set (names (productions g))"
    unfolding st(2)
    by (rule follow_loop_keeps [where P = "\<lambda>s. map_of (fs_sets s) n \<noteq> None", OF _ _ _ st(1)])
      (use key [OF that] in \<open>auto simp: first_add_def res_bind_Inr_iff split: if_splits\<close>)
  show "''#ZZ'' \<in> set (set_of follow start)" if "start \<in> set (names (productions g))"
    unfolding st(2)
  proof (rule follow_loop_keeps [where P = "\<lambda>s. ''#ZZ'' \<in> set (set_of (fs_sets s) start)", OF _ _ _ st(1)])
    have "m = imap_insert start [''#ZZ''] ?m" using m that by (auto simp: follow_empty_keys res_bind_Inr_iff split: if_splits)
    then show "''#ZZ'' \<in> set (set_of (fs_sets \<lparr>fs_sets = m, fs_budget = c, fs_changed = False\<rparr>) start)" by (simp add: set_of_insert)
  qed (auto simp: first_add_def res_bind_Inr_iff set_of_insert split: if_splits)
qed

lemma classed_refs:
  assumes "x @ el # y \<in> set (p_alts (classed cls p))" and "ref_name el = Some n"
  shows "x @ el # y \<in> set (p_alts p)"
proof (cases "map_of cls (p_name p)")
  case (Some s)
  then have "x = [] \<and> el = el_token s" using assms(1) by (auto simp: classed_def append_eq_Cons_conv)
  then show ?thesis using assms(2) by (simp add: el_token_def el_of_def ref_name_def)
qed (use assms in \<open>simp add: classed_def\<close>)

lemma follow_covers:
  assumes f: "compute_follow_sets g tk sets nl start b = Inr (follow, b')"
    and ex: "exact_first tk (map (classed cls) (productions g)) sets nl"
    and leaf: "all_elements is_leaf (productions g)" and cl: "closed (productions g)"
    and s: "sentential (map (classed cls) (productions g)) start form" and start: "start \<in> set (names (productions g))"
  shows "form = u @ el # v \<Longrightarrow> ref_name el = Some n \<Longrightarrow>
    w \<in> slang (tok_words tk) (tlang tk (map (classed cls) (productions g))) v \<Longrightarrow> hd (w @ [''#ZZ'']) \<in> set (set_of follow n)"
  using s
proof (induction arbitrary: u el v n w rule: sentential.induct)
  case (sentential_start e)
  then have "n = start" "w = []" by (auto simp: Cons_eq_append_conv)
  then show ?case using follow_computed(3) [OF f start] by simp
next
  case (sentential_step a e b p alt)
  let ?qs = "map (classed cls) (productions g)"
  let ?S = "slang (tok_words tk) (tlang tk ?qs)"
  note lq = leaves_classed [OF leaf, of cls]
  obtain p0 where p0: "p0 \<in> set (productions g)" "p = classed cls p0" using sentential_step.hyps(3) by auto
  have alt_sub: "?S alt \<subseteq> tlang tk ?qs (p_name p)" by (rule glang_alt [OF sentential_step.hyps(3,4)])
  note ere = elang_ref [OF sentential_step.hyps(2), of "tok_words tk" "tlang tk ?qs"]
  from sentential_step.prems(1) consider
      (left) c where "a = u @ el # c" "v = c @ alt @ b"
    | (mid) x y where "alt = x @ el # y" "v = y @ b"
    | (right) c where "b = c @ el # v"
    by (auto simp: append_eq_append_conv2 append_eq_Cons_conv Cons_eq_append_conv)
  then show ?case
  proof cases
    case left
    have "?S (c @ alt @ b) \<subseteq> ?S (c @ e # b)" by (simp add: ere) (intro conc_mono order_refl alt_sub)
    then have "w \<in> ?S (c @ e # b)" using sentential_step.prems(3) left by blast
    moreover have "a @ e # b = u @ el # (c @ e # b)" using left by simp
    ultimately show ?thesis using sentential_step.IH sentential_step.prems(2) by blast
  next
    case right
    then have "a @ e # b = (a @ e # c) @ el # v" by simp
    then show ?thesis using sentential_step.IH sentential_step.prems(2,3) by blast
  next
    case mid
    have mem: "x @ el # y \<in> set (p_alts p0)"
      using classed_refs [of x el y cls p0] sentential_step.hyps(4) sentential_step.prems(2) mid(1) p0(2) by simp
    then have "n \<in> seq_refs (x @ el # y)" using sentential_step.prems(2) by (cases el; cases "kind_of el") (auto simp: ref_name_def)
    then have "n \<in> set (names (productions g))" using cl p0(1) mem by (fastforce simp: closed_def)
    then have key: "map_of follow n \<noteq> None" by (rule follow_computed(2) [OF f])
    have "(el, y) \<in> set (with_rests (x @ el # y))" by (auto simp: with_rests_iff)
    then have "ref_closed tk sets nl p0 follow (el, y)"
      using follow_computed(1) [OF f] p0(1) mem by (auto simp: follow_closed_def)
    then obtain out nb where o: "first_of_seq tk sets nl y = Inr (out, nb)" "set out \<subseteq> set (set_of follow n)"
      "nb \<longrightarrow> set (set_of follow (p_name p0)) \<subseteq> set (set_of follow n)"
      using key sentential_step.prems(2) by (auto simp: ref_closed_def)
    have "list_all is_leaf (x @ el # y)" using leaf p0(1) mem by (auto simp: list_all_iff)
    then have ly: "list_all is_leaf y" by simp
    note fr = first_of_seq_result [OF o(1) ly ex lq]
    obtain wy wb where w: "w = wy @ wb" "wy \<in> ?S y" "wb \<in> ?S b" using sentential_step.prems(3) mid(2) by (auto elim: concE)
    show ?thesis
    proof (cases wy)
      case Nil
      then have "nb" using fr(1) w(2) by simp
      moreover have "hd (wb @ [''#ZZ'']) \<in> set (set_of follow (p_name p))"
        by (rule sentential_step.IH [OF refl sentential_step.hyps(2) w(3)])
      ultimately show ?thesis using o(3) Nil w(1) p0(2) by auto
    next
      case (Cons t wy')
      then have "t \<in> set out" using fr(2) w(2) by blast
      then show ?thesis using o(2) Cons w(1) by auto
    qed
  qed
qed

end
