(* ===== verification/Analysis_Results.thy ===== *)
theory Analysis_Results
  imports Dispatch_Cover Debts_Exact Follow_Language
begin

text \<open>
  The results on the token analyses of \<open>rs/src/analysis.rs\<close>: exact FIRST sets, covering FOLLOW sets,
  a dispatch that misses no word, and suffix debts that miss no collision. Each is shown on a
  grammar of three rules, one of them a guarded loop.
\<close>

section \<open>An example\<close>

definition analysis_rules :: "production list" where
  "analysis_rules =
     [prod_new ''s'' [[el_reference ''e'', el_token ''#X'']],
      prod_new ''e'' [[el_token ''#A'', el_reference ''l'']],
      (prod_new ''l'' [[el_token ''#X'', el_reference ''l''], []])\<lparr>p_debt_guard := Some ''c''\<rparr>]"

definition analysis_grammar :: grammar where "analysis_grammar = grammar_new analysis_rules"

definition no_tokens :: tokens where "no_tokens = \<lparr>tk_literals = [], tk_regex = []\<rparr>"

lemma productions_example [simp]: "productions analysis_grammar = analysis_rules"
  by (simp add: analysis_grammar_def grammar_new_def)

lemma first_loop_step:
  "first_pass tk cls ps st = Inr st' \<Longrightarrow> first_loop tk cls ps st = (if fs_changed st' then first_loop tk cls ps st' else Inr st')"
  by (simp add: first_loop.simps)

lemma follow_loop_step:
  "follow_pass g tk sets nl st = Inr st' \<Longrightarrow>
   follow_loop g tk sets nl st = (if fs_changed st' then follow_loop g tk sets nl st' else Inr st')"
  by (simp add: follow_loop.simps)

lemmas leaf_simps =
  prod_new_def default_production_def el_reference_def el_token_def el_of_def is_terminal_def tok_name_def tok_of_def ref_name_def

lemmas first_evaluate =
  leaf_simps first_seed_def first_pass_def first_prod_def first_alt_def first_add_def imap_get_or_def iset_insert_def
  b_charge_def b_room_def MAX_EMIT_UNITS_def b_begin_rule_def b_begin_def origin_of_def

lemma first_example:
  "\<exists>b. compute_first_sets analysis_grammar no_tokens [] budget_new =
     Inr ([(''s'', [''#A'']), (''e'', [''#A'']), (''l'', [''#X''])], [''l''], b)"
  by (simp add: compute_first_sets_def analysis_rules_def budget_new_def first_evaluate first_loop_step)

definition example_first :: token_sets where
  "example_first = [(''s'', [''#A'']), (''e'', [''#A'']), (''l'', [''#X''])]"

lemma follow_example:
  "\<exists>b. compute_follow_sets analysis_grammar no_tokens example_first [''l''] ''s'' budget_new =
     Inr ([(''s'', [''#ZZ'']), (''e'', [''#X'']), (''l'', [''#X''])], b)"
  by (simp add: compute_follow_sets_def follow_empty_def analysis_rules_def budget_new_def first_evaluate follow_loop_step
      follow_pass_def follow_ref_def begin_for_def index_prods_def first_of_seq_def example_first_def)

definition example_choice :: "seq list" where
  "example_choice = [[el_reference ''e''], [el_token ''#A'', el_token ''#Y'']]"

definition example_rank :: "string \<Rightarrow> nat" where
  "example_rank n = (if n = ''s'' then 1 else 0)"

lemma dispatch_example:
  "\<exists>b. dispatch_prefixes_of example_choice analysis_grammar no_tokens 2 (=) [] [] budget_new =
     Inr ([\<lparr>dp_prefixes = [[''#A'', ''#X''], [''#A'']], dp_nullable = False\<rparr>,
           \<lparr>dp_prefixes = [[''#A'', ''#Y'']], dp_nullable = False\<rparr>], b)"
  by (simp add: dispatch_prefixes_of_def example_choice_def budget_new_def scan_heads_def enumerate_alt_def alt_prefixes_raw_def
      prefixes_walk.simps(2) leaf_simps b_hold_def b_room_def MAX_EMIT_UNITS_def extend_path_def added_token_def expands_to_def
      find_prod_def analysis_rules_def path_start_def sub_paths_at_def put_path_def admits_def b_settle_def b_keep_def heads_of_def
      iset_extend_def iset_insert_def contested_heads_def scan_deep_def keep_alt_def keep_head_def keep_prefix_def depth_of_def
      rivals_of_def collide_def no_tokens_def Let_def)

definition example_debts :: grammar where
  "example_debts = analysis_grammar\<lparr>productions :=
     [prod_new ''s'' [[Element (Ref ''e'' (Some [(''c'', 1)])) None, el_token ''#X'']],
      prod_new ''e'' [[el_token ''#A'', el_reference ''l'']],
      (prod_new ''l'' [[el_token ''#X'', el_reference ''l''], []])\<lparr>p_debt_guard := Some ''c'', p_debt_owed := Some [''#X'']\<rparr>]\<rparr>"

lemma debts_example:
  "resolve_suffix_debts analysis_grammar no_tokens example_first [''l''] (=) = Inr example_debts"
  by (simp add: resolve_suffix_debts_def resolve_loop_def analysis_rules_def loop_owner_def scan_suffixes_def places_def
      scan_suffix_def settle_debts_def mark_debt_def update_at_def with_debt_def ref_callers_of_def reverse_refs_def pushed_by_def
      refs_in_def is_ref_to_def first_of_seq_def iset_extend_def iset_insert_def imap_get_or_def example_first_def leaf_simps example_debts_def
      no_tokens_def Let_def)

lemma example_facts:
  "all_elements is_leaf (productions analysis_grammar)" "closed (productions analysis_grammar)"
  "distinct (names (productions analysis_grammar))" "counters_distinct (productions analysis_grammar)"
  "map (classed []) (productions analysis_grammar) = productions analysis_grammar"
  by (simp_all add: analysis_rules_def prod_new_def default_production_def el_token_def el_of_def is_leaf_def is_ref_def
      is_terminal_def el_reference_def closed_def counters_distinct_def List.map_filter_simps classed_def)

lemma example_words:
  "[] \<in> tlang no_tokens analysis_rules ''l''" "[''#A''] \<in> tlang no_tokens analysis_rules ''e''"
  "[''#A'', ''#X''] \<in> tlang no_tokens analysis_rules ''s''"
proof -
  let ?T = "tok_words no_tokens" and ?L = "tlang no_tokens analysis_rules"
  have tok: "elang ?T ?L (el_token t) = {[t]}" for t
    by (subst elang_terminal) (simp_all add: leaf_simps)
  have alt: "slang ?T ?L alt \<subseteq> ?L (p_name p)" if "p \<in> set analysis_rules" "alt \<in> set (p_alts p)" for p alt
    by (rule glang_alt [OF that])
  have "slang ?T ?L [] \<subseteq> ?L ''l''"
    using alt [of "analysis_rules ! 2" "[]"] by (simp add: analysis_rules_def prod_new_def default_production_def)
  then show l: "[] \<in> ?L ''l''" by simp
  have "slang ?T ?L [el_token ''#A'', el_reference ''l''] \<subseteq> ?L ''e''"
    using alt [of "analysis_rules ! 1" "[el_token ''#A'', el_reference ''l'']"]
    by (simp add: analysis_rules_def prod_new_def default_production_def)
  moreover have "[''#A''] @ [] \<in> slang ?T ?L [el_token ''#A'', el_reference ''l'']"
    using l by (simp only: slang_simps tok elang_reference conc_empty_word) (rule concI, auto)
  ultimately show e: "[''#A''] \<in> ?L ''e''" by auto
  have "slang ?T ?L [el_reference ''e'', el_token ''#X''] \<subseteq> ?L ''s''"
    using alt [of "analysis_rules ! 0" "[el_reference ''e'', el_token ''#X'']"]
    by (simp add: analysis_rules_def prod_new_def default_production_def)
  moreover have "[''#A''] @ [''#X''] \<in> slang ?T ?L [el_reference ''e'', el_token ''#X'']"
    using e by (simp only: slang_simps tok elang_reference conc_empty_word) (rule concI, auto)
  ultimately show "[''#A'', ''#X''] \<in> ?L ''s''" by auto
qed

lemma example_productive: "productive (tok_words no_tokens) (productions analysis_grammar)"
  using example_words by (auto simp: productive_def analysis_rules_def prod_new_def default_production_def)

lemma example_dispatchable: "dispatchable analysis_grammar no_tokens [] example_rank"
  unfolding dispatchable_def
proof (intro conjI)
  show "ranked analysis_grammar no_tokens (Some []) example_rank"
    by (auto simp: ranked_def leads_below_def analysis_rules_def prod_new_def default_production_def Cons_eq_append_conv example_rank_def
        elang_terminal leaf_simps tok_words_def)
  show "list_all (\<lambda>p. p_alts p \<noteq> []) (productions analysis_grammar)"
    by (simp add: analysis_rules_def prod_new_def default_production_def)
qed (rule example_facts)+

section \<open>Properties\<close>

text \<open>
  C4: FIRST and nullability are exact. On a desugared, closed grammar whose rules all derive
  something, the nullable rules are exactly those that derive the empty word, and the FIRST set of a
  rule holds exactly the tokens its words begin with, a token class standing for its set.
\<close>

theorem first_sets_exact:
  assumes "compute_first_sets g tk cls b = Inr (sets, nl, b')" and "all_elements is_leaf (productions g)"
    and "closed (map (classed cls) (productions g))" and "productive (tok_words tk) (map (classed cls) (productions g))"
  shows "(n \<in> set nl \<longleftrightarrow> [] \<in> tlang tk (map (classed cls) (productions g)) n) \<and>
    (t \<in> set (set_of sets n) \<longleftrightarrow> (\<exists>w. t # w \<in> tlang tk (map (classed cls) (productions g)) n))"
  using first_computed [OF assms(1,2)] leads_head [OF _ leaves_classed [OF assms(2)] assms(3,4)]
    head_leads [OF leaves_classed [OF assms(2)]]
  unfolding exact_first_def by blast

lemma first_sets_exact_witness:
  "(''l'' \<in> set [''l''] \<longleftrightarrow> [] \<in> tlang no_tokens (productions analysis_grammar) ''l'') \<and>
   (''#A'' \<in> set (set_of example_first ''l'') \<longleftrightarrow> (\<exists>w. ''#A'' # w \<in> tlang no_tokens (productions analysis_grammar) ''l''))"
proof -
  obtain b where "compute_first_sets analysis_grammar no_tokens [] budget_new = Inr (example_first, [''l''], b)"
    using first_example unfolding example_first_def by blast
  from first_sets_exact [OF this example_facts(1), unfolded example_facts(5), OF example_facts(2) example_productive]
  show ?thesis .
qed

text \<open>
  C5: FOLLOW covers. Take any sentential form derived from the start rule and any reference in it:
  the token that what follows the reference begins with, or the end of the source where nothing
  does, is in the FOLLOW set of that rule.
\<close>

theorem follow_sets_cover:
  assumes "compute_first_sets g tk cls b0 = Inr (sets, nl, b1)" and "compute_follow_sets g tk sets nl start b = Inr (follow, b')"
    and "all_elements is_leaf (productions g)" and "closed (productions g)" and "start \<in> set (names (productions g))"
    and "sentential (map (classed cls) (productions g)) start (u @ el # v)" and "ref_name el = Some n"
    and "w \<in> slang (tok_words tk) (tlang tk (map (classed cls) (productions g))) v"
  shows "hd (w @ [''#ZZ'']) \<in> set (set_of follow n)"
  by (rule follow_covers [OF assms(2) first_computed [OF assms(1,3)] assms(3,4,6,5) refl assms(7,8)])

lemma follow_sets_cover_witness:
  "hd ([''#X''] @ [''#ZZ'']) \<in> set (set_of [(''s'', [''#ZZ'']), (''e'', [''#X'']), (''l'', [''#X''])] ''e'')"
proof -
  obtain b0 where f: "compute_first_sets analysis_grammar no_tokens [] budget_new = Inr (example_first, [''l''], b0)"
    using first_example unfolding example_first_def by blast
  obtain b where fo: "compute_follow_sets analysis_grammar no_tokens example_first [''l''] ''s'' budget_new =
     Inr ([(''s'', [''#ZZ'']), (''e'', [''#X'']), (''l'', [''#X''])], b)"
    using follow_example by blast
  have st: "sentential analysis_rules ''s'' ([] @ [el_reference ''e'', el_token ''#X''] @ [])"
    by (rule sentential.sentential_step [where el = "el_reference ''s''" and p = "analysis_rules ! 0"])
      (auto simp: analysis_rules_def prod_new_def default_production_def ref_name_def intro!: sentential.sentential_start)
  show ?thesis
    by (rule follow_sets_cover [OF f fo example_facts(1,2), where el = "el_reference ''e''" and u = "[]" and v = "[el_token ''#X'']"])
      (use st in \<open>simp_all add: classed_def tok_words_def leaf_simps analysis_rules_def\<close>)
qed

text \<open>
  C6: Dispatch misses nothing. Where no rule can lead back to itself, every non-empty word of an
  alternative of a choice begins with tokens that spell one of the prefixes that alternative is
  dispatched on, and a non-empty alternative is flagged nullable exactly when it derives the empty
  word, whatever the contests and exits the prefixes were cut against.
\<close>

theorem dispatch_misses_nothing:
  assumes "dispatch_prefixes_of alts g tk k contest exits cs b = Inr (ds, b')" and "dispatchable g tk cs rank" and "0 < k"
    and "list_all (list_all is_leaf) alts" and "alts_refs alts \<subseteq> set (names (productions g))"
  shows "list_all2 (dispatched g tk cs) alts ds"
  by (rule dispatch_complete [OF assms])

lemma dispatch_misses_nothing_witness:
  "list_all2 (dispatched analysis_grammar no_tokens []) example_choice
     [\<lparr>dp_prefixes = [[''#A'', ''#X''], [''#A'']], dp_nullable = False\<rparr>,
      \<lparr>dp_prefixes = [[''#A'', ''#Y'']], dp_nullable = False\<rparr>]"
proof -
  obtain b where "dispatch_prefixes_of example_choice analysis_grammar no_tokens 2 (=) [] [] budget_new =
     Inr ([\<lparr>dp_prefixes = [[''#A'', ''#X''], [''#A'']], dp_nullable = False\<rparr>,
           \<lparr>dp_prefixes = [[''#A'', ''#Y'']], dp_nullable = False\<rparr>], b)"
    using dispatch_example by blast
  from dispatch_misses_nothing [OF this example_dispatchable] show ?thesis
    by (simp add: example_choice_def is_leaf_def leaf_simps is_ref_def analysis_rules_def)
qed

text \<open>
  C7: No collision is missed. Take a contested loop, the rule it belongs to, and a push that can
  reach that rule from a sequence whose rest must consume. If a word of the rest begins with a token
  that collides with one the loop begins with, then the loop keeps its guard, that token is counted
  in what is owed, and the push carries a debt of one on the loop's counter.
\<close>

theorem suffix_debts_not_missed:
  assumes "compute_first_sets g tk cls b = Inr (sets, nl, b')" and "resolve_suffix_debts g tk sets nl overlap = Inr g'"
    and "counters_distinct (productions g)" and "all_elements is_leaf (productions g)"
    and "i < length (productions g)" and "p_debt_guard (productions g ! i) = Some c"
    and "loop_owner (productions g) i (p_name (productions g ! i)) = Some owner"
    and "element_at (productions g) (pi, ai, k) = Some el" and "ref_name el = Some n"
    and "(n, p_name owner) \<in> (pushes (productions g))\<^sup>*"
    and "[] \<notin> slang (tok_words tk) (tlang tk (map (classed cls) (productions g))) (drop (Suc k) (p_alts (productions g ! pi) ! ai))"
    and "u # w \<in> slang (tok_words tk) (tlang tk (map (classed cls) (productions g))) (drop (Suc k) (p_alts (productions g ! pi) ! ai))"
    and "t \<in> set (set_of sets (p_name (productions g ! i)))" and "t = u \<or> overlap t u"
  shows "p_debt_guard (productions g' ! i) = Some c \<and>
    (\<exists>ts. p_debt_owed (productions g' ! i) = Some ts \<and> t \<in> set ts) \<and> debt_at (productions g') (pi, ai, k) c = Some 1"
  by (rule debts_not_missed [OF assms(2-4) first_computed [OF assms(1,4)] assms(5-10) refl assms(11-14)])

lemma suffix_debts_not_missed_witness:
  "p_debt_guard (productions example_debts ! 2) = Some ''c'' \<and>
   (\<exists>ts. p_debt_owed (productions example_debts ! 2) = Some ts \<and> ''#X'' \<in> set ts) \<and>
   debt_at (productions example_debts) (0, 0, 0) ''c'' = Some 1"
proof -
  obtain b where f: "compute_first_sets analysis_grammar no_tokens [] budget_new = Inr (example_first, [''l''], b)"
    using first_example unfolding example_first_def by blast
  show ?thesis
    by (rule suffix_debts_not_missed [OF f debts_example example_facts(4,1), where n = "''e''" and u = "''#X''" and w = "[]"
          and el = "el_reference ''e''" and owner = "analysis_rules ! 1"])
      (simp_all add: analysis_rules_def loop_owner_def element_at_def leaf_simps is_ref_to_def elang_terminal classed_def example_first_def
        imap_get_or_def tok_words_def)
qed

end
