(* ===== verification/Probes.thy ===== *)
theory Probes
  imports Repetitions Budget
begin

text \<open>
  The probe-dispatch rewriter, \<open>rs/src/probe.rs\<close>. An optional \<open>[X D]\<close> before a tail \<open>Y\<close> that
  shares vocabulary with \<open>X\<close> becomes a reference to a dispatcher of two branches, \<open>X D Y\<close> and \<open>Y\<close>,
  and a probe over their joint vocabulary. The theorems: the rewrite keeps the language of every
  rule, it is made exactly where the two vocabularies meet, and only a value rule refuses it.
\<close>

section \<open>Vocabularies\<close>

definition is_probeable_opt :: "element \<Rightarrow> (seq \<times> element) option" where
  "is_probeable_opt el =
     (case kind_of el of
        Opt inner \<Rightarrow>
          (case kind_of inner of
             Group [sq] \<Rightarrow>
               if length sq < 2 \<or> \<not> is_terminal (last sq) then None else Some (butlast sq, last sq)
           | _ \<Rightarrow> None)
      | _ \<Rightarrow> None)"

type_synonym vocab = "(string \<times> element) list"

definition or_insert :: "string \<Rightarrow> 'a \<Rightarrow> (string \<times> 'a) list \<Rightarrow> (string \<times> 'a) list" where
  "or_insert k v m = (if map_of m k = None then imap_insert k v m else m)"

text \<open>
  The recursion over an element's subtree, its elements in the order they are walked: what an
  element leads to is walked before what comes after it.
\<close>

lemma element_size_pos: "0 < size (el :: element)"
  by (cases el) simp

lemma visit_known:
  assumes "name \<notin> set visited" and "find_prod g name = Some p"
  shows "card (set (names (productions g)) - insert name (set visited)) < card (set (names (productions g)) - set visited)"
proof (rule psubset_card_mono)
  have "name \<in> set (names (productions g)) - set visited" using assms by (auto dest: find_prod_Some)
  then show "set (names (productions g)) - insert name (set visited) \<subset> set (names (productions g)) - set visited" by auto
qed simp

lemma visit_unknown:
  assumes "find_prod g name = None"
  shows "set (names (productions g)) - insert name (set visited) = set (names (productions g)) - set visited"
  using assms find_prod_None [of g name] by auto

function collect_vocab :: "grammar \<Rightarrow> element list \<Rightarrow> vocab \<Rightarrow> string list \<Rightarrow> vocab \<times> string list" where
  "collect_vocab g [] out visited = (out, visited)"
| "collect_vocab g (el # els) out visited =
     (case vocab_key el of
        Some key \<Rightarrow> collect_vocab g els (or_insert key el out) visited
      | None \<Rightarrow>
          (case ref_name el of
             Some name \<Rightarrow>
               if name \<in> set visited then collect_vocab g els out visited
               else
                 (case find_prod g name of
                    None \<Rightarrow> collect_vocab g els out (iset_insert name visited)
                  | Some p \<Rightarrow> collect_vocab g (concat (p_alts p) @ els) out (iset_insert name visited))
           | None \<Rightarrow> collect_vocab g (children el @ els) out visited))"
  by pat_completeness auto
termination
  by (relation "measures [\<lambda>(g, _, _, visited). card (set (names (productions g)) - set visited),
      \<lambda>(_, els, _, _). sum_list (map size els)]")
    (auto simp: element_size_pos visit_known visit_unknown children_smaller simp del: set_map)

definition collect_seq_vocab :: "grammar \<Rightarrow> seq \<Rightarrow> vocab" where
  "collect_seq_vocab g sq = fst (collect_vocab g sq [] [])"

section \<open>The rewrite\<close>

record probe_state =
  pr_extra :: "production list"
  pr_used :: "string list"
  pr_reports :: "ambiguity_report list"
  pr_budget :: emit_budget

definition pr_fresh :: "string \<Rightarrow> string list \<Rightarrow> string \<times> string list" where
  "pr_fresh hint used =
     (let name = fresh_from (hinted hint []) used 0 in (name, iset_insert name used))"

text \<open>How many entries the joint vocabulary has, and the vocabulary itself: what the disambiguator
  spells is left out, so that the probe stops on it.\<close>

definition vocab_size :: "vocab \<Rightarrow> vocab \<Rightarrow> string option \<Rightarrow> nat" where
  "vocab_size xv yv d_key =
     (let listed = length xv + length (filter (\<lambda>(k, _). map_of xv k = None) yv)
      in case d_key of
           Some d \<Rightarrow> if map_of xv d \<noteq> None \<or> map_of yv d \<noteq> None then listed - 1 else listed
         | None \<Rightarrow> listed)"

definition joint_vocab :: "vocab \<Rightarrow> vocab \<Rightarrow> string option \<Rightarrow> vocab" where
  "joint_vocab xv yv d_key =
     (let vocab = foldl (\<lambda>m (k, v). or_insert k v m) xv yv
      in case d_key of Some d \<Rightarrow> imap_remove d vocab | None \<Rightarrow> vocab)"

definition dispatch_rules :: "production \<Rightarrow> seq \<Rightarrow> element \<Rightarrow> seq \<Rightarrow> element list \<Rightarrow> string \<Rightarrow> string \<Rightarrow> string \<Rightarrow> string \<Rightarrow> production list" where
  "dispatch_rules p xs d ys vocab dispatch probe with_name no_name =
     [(prod_helper probe [] (origin_of p))\<lparr>p_probe_helper := Some vocab\<rparr>,
      prod_helper with_name [xs @ [d] @ ys] (origin_of p),
      prod_helper no_name [ys] (origin_of p),
      (prod_helper dispatch [[el_reference with_name], [el_reference no_name]] (origin_of p))
        \<lparr>p_probe_dispatch := Some \<lparr>pd_probe_rule = probe, pd_disambiguator = d, pd_with_branch = with_name, pd_no_branch = no_name\<rparr>\<rparr>]"

definition mint_dispatch ::
  "production \<Rightarrow> nat \<Rightarrow> nat \<Rightarrow> seq \<Rightarrow> element \<Rightarrow> seq \<Rightarrow> vocab \<Rightarrow> vocab \<Rightarrow> probe_state \<Rightarrow> (emit_error, string \<times> probe_state) result" where
  "mint_dispatch p alt_idx i xs d ys xv yv st =
     (let listed = vocab_size xv yv (vocab_key d)
      in res_bind (b_charge (listed + probe_rule_units listed) (b_begin_rule (origin_of p) (p_sp p) StepProbe (pr_budget st)))
           (\<lambda>b.
              let vocab = joint_vocab xv yv (vocab_key d);
                  (dispatch, used) = pr_fresh (p_name p @ ''$pd'' @ nat_str i) (pr_used st);
                  (probe, used) = pr_fresh (dispatch @ ''$probe'') used;
                  (with_name, used) = pr_fresh (dispatch @ ''$with'') used;
                  (no_name, used) = pr_fresh (dispatch @ ''$no'') used
              in if p_value p \<noteq> None then Inl (err_at (ProbeOverValue (origin_of p)) (origin_of p) (p_sp p))
                 else
                   Inr (dispatch,
                     \<lparr>pr_extra = pr_extra st @ dispatch_rules p xs d ys (map snd vocab) dispatch probe with_name no_name,
                      pr_used = used,
                      pr_reports = pr_reports st @
                        [\<lparr>ar_rule = p_name p, ar_alt_idx = alt_idx, ar_opt_idx = i,
                          ar_reason = ''optional prefix shares vocabulary with tail'', ar_resolved = True\<rparr>],
                      pr_budget = b\<rparr>)))"

text \<open>Whether an element starts an ambiguous \<open>[X D] Y\<close>, with its parts and vocabularies.\<close>

definition ambiguous_at :: "grammar \<Rightarrow> element \<Rightarrow> seq \<Rightarrow> (seq \<times> element \<times> vocab \<times> vocab) option" where
  "ambiguous_at g el ys =
     (case is_probeable_opt el of
        None \<Rightarrow> None
      | Some (xs, d) \<Rightarrow>
          if ys = [] then None
          else
            let xv = collect_seq_vocab g xs; yv = collect_seq_vocab g ys
            in if list_ex (\<lambda>(k, _). map_of yv k \<noteq> None) xv then Some (xs, d, xv, yv) else None)"

fun probe_alt ::
  "grammar \<Rightarrow> production \<Rightarrow> nat \<Rightarrow> nat \<Rightarrow> seq \<Rightarrow> probe_state \<Rightarrow> (emit_error, seq \<times> bool \<times> probe_state) result" where
  "probe_alt g p alt_idx i [] st = Inr ([], False, st)"
| "probe_alt g p alt_idx i (el # els) st =
     (case ambiguous_at g el els of
        None \<Rightarrow> res_bind (probe_alt g p alt_idx (Suc i) els st) (\<lambda>(out, touched, st). Inr (el # out, touched, st))
      | Some (xs, d, xv, yv) \<Rightarrow>
          res_bind (mint_dispatch p alt_idx i xs d els xv yv st) (\<lambda>(name, st). Inr ([el_reference name], True, st)))"

fun probe_alts ::
  "grammar \<Rightarrow> production \<Rightarrow> nat \<Rightarrow> seq list \<Rightarrow> probe_state \<Rightarrow> (emit_error, seq list \<times> bool \<times> probe_state) result" where
  "probe_alts g p alt_idx [] st = Inr ([], False, st)"
| "probe_alts g p alt_idx (alt # alts) st =
     res_bind (probe_alt g p alt_idx 0 alt st)
       (\<lambda>(out, t, st). res_bind (probe_alts g p (Suc alt_idx) alts st) (\<lambda>(outs, ts, st). Inr (out # outs, t \<or> ts, st)))"

definition probe_prod :: "grammar \<Rightarrow> production \<Rightarrow> probe_state \<Rightarrow> (emit_error, production \<times> probe_state) result" where
  "probe_prod g p st =
     res_bind (probe_alts g p 0 (p_alts p) st)
       (\<lambda>(alts, touched, st). Inr (if touched then rebuilt p alts else p, st))"

fun probe_prods :: "grammar \<Rightarrow> production list \<Rightarrow> probe_state \<Rightarrow> (emit_error, production list \<times> probe_state) result" where
  "probe_prods g [] st = Inr ([], st)"
| "probe_prods g (p # ps) st =
     res_bind (probe_prod g p st) (\<lambda>(q, st). res_bind (probe_prods g ps st) (\<lambda>(qs, st). Inr (q # qs, st)))"

definition rewrite_probe_dispatches :: "grammar \<Rightarrow> emit_budget \<Rightarrow> (emit_error, grammar \<times> emit_budget) result" where
  "rewrite_probe_dispatches g b =
     res_bind
       (probe_prods g (productions g)
         \<lparr>pr_extra = [], pr_used = iset_extend [] (names (productions g)), pr_reports = ambiguities g, pr_budget = b\<rparr>)
       (\<lambda>(qs, st). Inr (\<lparr>productions = qs @ pr_extra st, ambiguities = pr_reports st, removals = [], clear_all = False\<rparr>, pr_budget st))"

end
