(* ===== verification/Probes_Language.thy ===== *)
theory Probes_Language
  imports Probes Language
begin

text \<open>
  The probe rewrite keeps every language. What a step mints can be given a meaning whatever the
  names before it mean; and whatever solves what was minted gives the rewritten alternative the
  language of the one it replaces.
\<close>

section \<open>One dispatcher\<close>

lemma pr_fresh_result: "pr_fresh hint used = (name, used') \<Longrightarrow> name \<notin> set used \<and> set used' = insert name (set used)"
  using fresh_hinted [of hint "[]" used 0] by (auto simp: pr_fresh_def Let_def)

lemma mint_dispatch_parts:
  assumes "mint_dispatch p alt_idx i xs d ys xv yv st = Inr (dispatch, st')"
  obtains probe with_name no_name vocab where
    "pr_extra st' = pr_extra st @ dispatch_rules p xs d ys vocab dispatch probe with_name no_name"
    and "distinct [probe, with_name, no_name, dispatch]" and "{probe, with_name, no_name, dispatch} \<inter> set (pr_used st) = {}"
    and "set (pr_used st') = set (pr_used st) \<union> {probe, with_name, no_name, dispatch}" and "p_value p = None"
proof -
  obtain dn u1 where 1: "pr_fresh (p_name p @ ''$pd'' @ nat_str i) (pr_used st) = (dn, u1)" by fastforce
  obtain pn u2 where 2: "pr_fresh (dn @ ''$probe'') u1 = (pn, u2)" by fastforce
  obtain wn u3 where 3: "pr_fresh (dn @ ''$with'') u2 = (wn, u3)" by fastforce
  obtain nn u4 where 4: "pr_fresh (dn @ ''$no'') u3 = (nn, u4)" by fastforce
  note f = pr_fresh_result [OF 1] pr_fresh_result [OF 2] pr_fresh_result [OF 3] pr_fresh_result [OF 4]
  have r: "dispatch = dn" "p_value p = None" "pr_used st' = u4"
    "pr_extra st' = pr_extra st @ dispatch_rules p xs d ys (map snd (joint_vocab xv yv (vocab_key d))) dn pn wn nn"
    using assms unfolding mint_dispatch_def Let_def 1 2 3 4 prod.case by (auto simp: res_bind_Inr_iff split: if_splits)
  show ?thesis
    by (rule that [of _ pn wn nn]) (use f r in auto)
qed

lemma solves_dispatch:
  "solves T L (dispatch_rules p xs d ys vocab dispatch probe with_name no_name) \<longleftrightarrow>
   L probe = {} \<and> L with_name = slang T L (xs @ [d] @ ys) \<and> L no_name = slang T L ys \<and> L dispatch = L with_name \<union> L no_name"
  by (auto simp: dispatch_rules_def alang_def)

section \<open>What is minted\<close>

text \<open>
  From one state to the next: the rules added are named apart from all before them, mention only
  taken names, and can be solved over any meaning of the names before them.
\<close>

definition refs_within :: "string set \<Rightarrow> production list \<Rightarrow> bool" where
  "refs_within N ps \<longleftrightarrow> (\<forall>p\<in>set ps. alts_refs (p_alts p) \<subseteq> N)"

lemma refs_within_simps [simp]:
  "refs_within N []" "refs_within N (p # ps) \<longleftrightarrow> alts_refs (p_alts p) \<subseteq> N \<and> refs_within N ps"
  "refs_within N (ps @ qs) \<longleftrightarrow> refs_within N ps \<and> refs_within N qs"
  by (simp_all add: refs_within_def ball_Un)

lemma refs_within_mono: "refs_within N ps \<Longrightarrow> N \<subseteq> N' \<Longrightarrow> refs_within N' ps"
  unfolding refs_within_def by (meson order_trans)

lemma closed_within: "closed ps \<longleftrightarrow> refs_within (set (names ps)) ps"
  by (simp add: closed_def refs_within_def)

definition mints :: "'a terminals \<Rightarrow> probe_state \<Rightarrow> probe_state \<Rightarrow> production list \<Rightarrow> bool" where
  "mints T st st' new \<longleftrightarrow>
     pr_extra st' = pr_extra st @ new \<and> set (pr_used st') = set (pr_used st) \<union> set (names new) \<and>
     distinct (names new) \<and> set (names new) \<inter> set (pr_used st) = {} \<and>
     (\<forall>E. \<exists>E'. (\<forall>n\<in>set (pr_used st). E' n = E n) \<and> solves T E' new) \<and>
     refs_within (set (pr_used st')) new"

lemma mints_refl: "mints T st st []"
  by (auto simp: mints_def)

lemma mints_used: "mints T st st' new \<Longrightarrow> set (pr_used st) \<subseteq> set (pr_used st')"
  by (auto simp: mints_def)

lemma solves_agree:
  assumes "solves T E new" and "set (names new) \<subseteq> N" and "refs_within N new" and "\<forall>n\<in>N. E' n = E n"
  shows "solves T E' new"
  unfolding solves_def
proof
  fix p assume p: "p \<in> set new"
  have "alang T E' (p_alts p) = alang T E (p_alts p)" using assms(3,4) p unfolding refs_within_def by (intro alang_cong) blast
  moreover have "p_name p \<in> N" using assms(2) p by auto
  ultimately show "E' (p_name p) = alang T E' (p_alts p)" using assms p by (simp add: solves_def)
qed

lemma mints_trans:
  assumes "mints T st s1 n1" and "mints T s1 s2 n2" shows "mints T st s2 (n1 @ n2)"
proof -
  have "\<exists>E'. (\<forall>n\<in>set (pr_used st). E' n = E n) \<and> solves T E' (n1 @ n2)" for E
  proof -
    obtain E1 where E1: "\<forall>n\<in>set (pr_used st). E1 n = E n" "solves T E1 n1" using assms(1) unfolding mints_def by blast
    obtain E2 where E2: "\<forall>n\<in>set (pr_used s1). E2 n = E1 n" "solves T E2 n2" using assms(2) unfolding mints_def by blast
    have "solves T E2 n1"
      by (rule solves_agree [OF E1(2) _ _ E2(1)]) (use assms(1) in \<open>auto simp: mints_def\<close>)
    then show ?thesis using E1 E2 mints_used [OF assms(1)] by (intro exI [of _ E2]) auto
  qed
  moreover have "refs_within (set (pr_used s2)) n1"
    using assms mints_used [OF assms(2)] by (auto simp: mints_def intro: refs_within_mono)
  ultimately show ?thesis using assms by (auto simp: mints_def Un_assoc simp del: set_map)
qed

lemma mint_dispatch_mints:
  assumes m: "mint_dispatch p alt_idx i xs d ys xv yv st = Inr (dispatch, st')" and refs: "seq_refs (xs @ [d] @ ys) \<subseteq> set (pr_used st)"
  shows "\<exists>new. mints T st st' new \<and> (\<forall>L. solves T L new \<longrightarrow> L dispatch = slang T L (xs @ [d] @ ys) \<union> slang T L ys) \<and>
    dispatch \<in> set (pr_used st')"
proof (rule mint_dispatch_parts [OF m], goal_cases)
  case (1 probe with_name no_name vocab)
  let ?new = "dispatch_rules p xs d ys vocab dispatch probe with_name no_name"
  have "\<exists>E'. (\<forall>n\<in>set (pr_used st). E' n = E n) \<and> solves T E' ?new" for E
  proof -
    let ?w = "slang T E (xs @ [d] @ ys)" and ?n = "slang T E ys"
    define E' where "E' = E(probe := {}, with_name := ?w, no_name := ?n, dispatch := ?w \<union> ?n)"
    have same: "E' n = E n" if "n \<in> set (pr_used st)" for n using 1(3) that by (auto simp: E'_def)
    have keep: "slang T E' z = slang T E z" if "seq_refs z \<subseteq> set (pr_used st)" for z
      by (rule slang_cong) (use same that in blast)
    have "slang T E' (xs @ [d] @ ys) = ?w" by (rule keep [OF refs])
    moreover have "slang T E' ys = ?n" by (rule keep) (use refs in auto)
    ultimately have "solves T E' ?new" using 1(2) unfolding solves_dispatch by (simp add: E'_def)
    then show ?thesis using same by blast
  qed
  moreover have "names ?new = [probe, with_name, no_name, dispatch]" by (simp add: dispatch_rules_def)
  moreover have "refs_within (set (pr_used st')) ?new"
    using 1(4) refs by (auto simp: dispatch_rules_def el_reference_def el_of_def)
  ultimately have "mints T st st' ?new" using 1(1,2,3,4) by (auto simp: mints_def)
  then show ?case using 1(4) unfolding solves_dispatch by (intro exI [of _ ?new]) (auto simp: solves_dispatch)
qed

section \<open>Alternatives, rules, grammars\<close>

lemma probeable_lang: "is_probeable_opt el = Some (xs, d) \<Longrightarrow> elang T L el = insert [] (slang T L (xs @ [d])) \<and> el_refs el = seq_refs (xs @ [d])"
proof -
  assume a: "is_probeable_opt el = Some (xs, d)"
  obtain inner sq where k: "kind_of el = Opt inner" "kind_of inner = Group [sq]" "xs = butlast sq" "d = last sq" "2 \<le> length sq"
    using a by (auto simp: is_probeable_opt_def split: kind.splits list.splits if_splits)
  then obtain sp sp' where el: "el = Element (Opt inner) sp" "inner = Element (Group [sq]) sp'" "xs = butlast sq" "d = last sq" "2 \<le> length sq"
    by (cases el; cases inner) auto
  have "xs @ [d] = sq" using el(3-5) by (cases sq rule: rev_cases) auto
  then show ?thesis using el(1,2) by (auto simp: alang_def)
qed

lemma ambiguous_lang:
  assumes "ambiguous_at g el ys = Some (xs, d, xv, yv)"
  shows "slang T L (el # ys) = slang T L (xs @ [d] @ ys) \<union> slang T L ys" and "seq_refs (xs @ [d] @ ys) = seq_refs (el # ys)"
proof -
  have p: "is_probeable_opt el = Some (xs, d)"
    using assms by (auto simp: ambiguous_at_def Let_def split: option.splits if_splits)
  note q = probeable_lang [OF p, of T L]
  have e: "elang T L el = slang T L (xs @ [d]) \<union> {[]}" using q by auto
  have "slang T L (el # ys) = conc (slang T L (xs @ [d]) \<union> {[]}) (slang T L ys)" by (simp only: slang_simps e)
  also have "\<dots> = slang T L (xs @ [d] @ ys) \<union> slang T L ys"
    by (simp only: conc_Un conc_empty_word slang_append append_assoc [symmetric])
  finally show "slang T L (el # ys) = slang T L (xs @ [d] @ ys) \<union> slang T L ys" .
  show "seq_refs (xs @ [d] @ ys) = seq_refs (el # ys)" using q by auto
qed

lemma probe_alt_keeps:
  "probe_alt g p ai i alt st = Inr (out, touched, st') \<Longrightarrow> seq_refs alt \<subseteq> set (pr_used st) \<Longrightarrow>
   \<exists>new. mints T st st' new \<and> (\<forall>L. solves T L new \<longrightarrow> slang T L out = slang T L alt) \<and> seq_refs out \<subseteq> set (pr_used st') \<and>
     (\<not> touched \<longrightarrow> out = alt)"
proof (induction g p ai i alt st arbitrary: out touched st' rule: probe_alt.induct)
  case (1 g p ai i st)
  then show ?case using mints_refl by (intro exI [of _ "[]"]) auto
next
  case (2 g p ai i el els st)
  show ?case
  proof (cases "ambiguous_at g el els")
    case None
    then obtain out' where o: "probe_alt g p ai (Suc i) els st = Inr (out', touched, st')" "out = el # out'"
      using "2.prems"(1) by (auto simp: res_bind_Inr_iff)
    obtain new where n: "mints T st st' new" "\<forall>L. solves T L new \<longrightarrow> slang T L out' = slang T L els"
      "seq_refs out' \<subseteq> set (pr_used st')" "\<not> touched \<longrightarrow> out' = els"
      using "2.IH" [OF None o(1)] "2.prems"(2) by auto
    have "seq_refs (el # out') \<subseteq> set (pr_used st')" using n(3) "2.prems"(2) mints_used [OF n(1)] by auto
    then show ?thesis using n o(2) by (intro exI [of _ new]) simp
  next
    case (Some z)
    obtain xs d xv yv where z: "z = (xs, d, xv, yv)" by (metis prod_cases4)
    obtain name where m: "mint_dispatch p ai i xs d els xv yv st = Inr (name, st')" "out = [el_reference name]" touched
      using "2.prems"(1) Some z by (auto simp: res_bind_Inr_iff)
    note a = ambiguous_lang [OF Some [unfolded z]]
    obtain new where n: "mints T st st' new" "\<forall>L. solves T L new \<longrightarrow> L name = slang T L (xs @ [d] @ els) \<union> slang T L els"
      "name \<in> set (pr_used st')"
      using mint_dispatch_mints [OF m(1)] a(2) "2.prems"(2) by metis
    have "slang T L out = slang T L (el # els)" if "solves T L new" for L
      unfolding a(1) using n(2) that m(2) by simp
    then show ?thesis using n m by (intro exI [of _ new]) (auto simp: el_reference_def el_of_def)
  qed
qed

lemma probe_alts_keeps:
  "probe_alts g p ai alts st = Inr (outs, touched, st') \<Longrightarrow> alts_refs alts \<subseteq> set (pr_used st) \<Longrightarrow>
   \<exists>new. mints T st st' new \<and> (\<forall>L. solves T L new \<longrightarrow> alang T L outs = alang T L alts) \<and> alts_refs outs \<subseteq> set (pr_used st') \<and>
     (\<not> touched \<longrightarrow> outs = alts)"
proof (induction g p ai alts st arbitrary: outs touched st' rule: probe_alts.induct)
  case (1 g p ai st)
  then show ?case using mints_refl by (intro exI [of _ "[]"]) auto
next
  case (2 g p ai alt alts st)
  obtain out t s1 outs' ts where o: "probe_alt g p ai 0 alt st = Inr (out, t, s1)" "probe_alts g p (Suc ai) alts s1 = Inr (outs', ts, st')"
    "outs = out # outs'" "touched = (t \<or> ts)"
    using "2.prems"(1) by (auto simp: res_bind_Inr_iff) blast+
  obtain n1 where n1: "mints T st s1 n1" "\<forall>L. solves T L n1 \<longrightarrow> slang T L out = slang T L alt" "seq_refs out \<subseteq> set (pr_used s1)"
    "\<not> t \<longrightarrow> out = alt"
    using probe_alt_keeps [OF o(1), of T] "2.prems"(2) by auto
  have "alts_refs alts \<subseteq> alts_refs (alt # alts)" by auto
  then have "alts_refs alts \<subseteq> set (pr_used s1)" using "2.prems"(2) mints_used [OF n1(1)] by (meson order_trans)
  then obtain n2 where n2: "mints T s1 st' n2" "\<forall>L. solves T L n2 \<longrightarrow> alang T L outs' = alang T L alts"
    "alts_refs outs' \<subseteq> set (pr_used st')" "\<not> ts \<longrightarrow> outs' = alts"
    using "2.IH" [OF o(1) refl refl o(2)] by auto
  have "alang T L outs = alang T L (alt # alts)" if "solves T L (n1 @ n2)" for L
    using n1(2) n2(2) that o(3) by (simp add: alang_def)
  then show ?case
    using mints_trans [OF n1(1) n2(1)] n1(3,4) n2(3,4) mints_used [OF n2(1)] o(3,4) by (intro exI [of _ "n1 @ n2"]) auto
qed

lemma probe_prods_keeps:
  "probe_prods g ps st = Inr (qs, st') \<Longrightarrow> refs_within (set (pr_used st)) ps \<Longrightarrow>
   \<exists>new. mints T st st' new \<and> names qs = names ps \<and> refs_within (set (pr_used st')) qs \<and>
     (\<forall>L. solves T L new \<longrightarrow> map (\<lambda>q. alang T L (p_alts q)) qs = map (\<lambda>p. alang T L (p_alts p)) ps)"
proof (induction g ps st arbitrary: qs st' rule: probe_prods.induct)
  case (1 g st)
  then show ?case using mints_refl by (intro exI [of _ "[]"]) auto
next
  case (2 g p ps st)
  obtain q s1 qs' where o: "probe_prod g p st = Inr (q, s1)" "probe_prods g ps s1 = Inr (qs', st')" "qs = q # qs'"
    using "2.prems"(1) by (auto simp: res_bind_Inr_iff)
  obtain alts touched where a: "probe_alts g p 0 (p_alts p) st = Inr (alts, touched, s1)" "q = (if touched then rebuilt p alts else p)"
    using o(1) by (auto simp: probe_prod_def res_bind_Inr_iff)
  obtain n1 where n1: "mints T st s1 n1" "\<forall>L. solves T L n1 \<longrightarrow> alang T L alts = alang T L (p_alts p)" "\<not> touched \<longrightarrow> alts = p_alts p"
    "alts_refs alts \<subseteq> set (pr_used s1)"
    using probe_alts_keeps [OF a(1), of T] "2.prems"(2) by auto
  have "refs_within (set (pr_used s1)) ps" using "2.prems"(2) mints_used [OF n1(1)] by (auto intro: refs_within_mono)
  then obtain n2 where n2: "mints T s1 st' n2" "names qs' = names ps"
    "refs_within (set (pr_used st')) qs'"
    "\<forall>L. solves T L n2 \<longrightarrow> map (\<lambda>q. alang T L (p_alts q)) qs' = map (\<lambda>p. alang T L (p_alts p)) ps"
    using "2.IH" [OF o(1) refl o(2)] by auto
  have "alts_refs (p_alts q) = alts_refs alts" "\<And>L. solves T L n1 \<Longrightarrow> alang T L (p_alts q) = alang T L (p_alts p)" "p_name q = p_name p"
    using a(2) n1(2,3) by simp_all
  moreover have "alts_refs alts \<subseteq> set (pr_used st')" using n1(4) mints_used [OF n2(1)] by (rule order_trans)
  ultimately show ?case
    using mints_trans [OF n1(1) n2(1)] n2(2-4) o(3) by (intro exI [of _ "n1 @ n2"]) simp
qed

lemma probe_keeps:
  assumes r: "rewrite_probe_dispatches g b = Inr (g', b')" and d: "distinct (names (productions g))" and cl: "closed (productions g)"
  shows "distinct (names (productions g')) \<and> closed (productions g') \<and> set (names (productions g)) \<subseteq> set (names (productions g')) \<and>
    (\<forall>n\<in>set (names (productions g)). glang T (productions g') n = glang T (productions g) n)"
proof -
  let ?ps = "productions g"
  let ?st = "\<lparr>pr_extra = [], pr_used = iset_extend [] (names ?ps), pr_reports = ambiguities g, pr_budget = b\<rparr>"
  obtain qs st where q: "probe_prods g ?ps ?st = Inr (qs, st)" "productions g' = qs @ pr_extra st"
    using r by (auto simp: rewrite_probe_dispatches_def res_bind_Inr_iff)
  have refs: "refs_within (set (pr_used ?st)) ?ps" using cl by (simp add: closed_within)
  obtain new where m: "mints T ?st st new" and nq: "names qs = names ?ps"
    and rq: "refs_within (set (pr_used st)) qs"
    and l: "\<And>L. solves T L new \<Longrightarrow> map (\<lambda>q. alang T L (p_alts q)) qs = map (\<lambda>p. alang T L (p_alts p)) ?ps"
    using probe_prods_keeps [OF q(1) refs, of T] by blast
  have g': "productions g' = qs @ new" using q(2) m by (simp add: mints_def)
  have used: "set (pr_used st) = set (names (productions g'))"
    using m nq by (simp add: mints_def g' del: set_map)
  have dg: "distinct (names (productions g'))"
    using m d nq by (auto simp: mints_def g' simp del: set_map)
  have cg: "closed (productions g')"
    unfolding closed_within used [symmetric] using rq m by (auto simp: mints_def g')
  have pair: "solves T L qs \<longleftrightarrow> solves T L ?ps" if "solves T L new" for L
  proof -
    have "solves T L rs \<longleftrightarrow> map L (names rs) = map (\<lambda>q. alang T L (p_alts q)) rs" for rs
      by (induction rs) auto
    then show ?thesis using l [OF that] nq by metis
  qed
  have "glang T (productions g') n = glang T ?ps n" if n: "n \<in> set (names ?ps)" for n
  proof (rule equalityI)
    have "\<forall>E. \<exists>E'. (\<forall>n\<in>set (pr_used ?st). E' n = E n) \<and> solves T E' new" using m unfolding mints_def by blast
    then obtain E where E0: "\<forall>n\<in>set (pr_used ?st). E n = glang T ?ps n" "solves T E new" by meson
    have E: "\<forall>n\<in>set (names ?ps). E n = glang T ?ps n" "solves T E new" using E0 by simp_all
    have "solves T E ?ps"
      by (rule solves_agree [OF glang_solves [OF d], where N = "set (names ?ps)"]) (use cl E(1) in \<open>auto simp: closed_within\<close>)
    then have "solves T E (productions g')" using pair [OF E(2)] E(2) by (simp add: g')
    then have "glang T (productions g') n \<subseteq> E n" by (rule glang_least [OF solves_models])
    then show "glang T (productions g') n \<subseteq> glang T ?ps n" using E(1) n by blast
    have "solves T (glang T (productions g')) (qs @ new)" using glang_solves [OF dg] by (simp add: g')
    then have "solves T (glang T (productions g')) ?ps" using pair [of "glang T (productions g')"] by simp
    then show "glang T ?ps n \<subseteq> glang T (productions g') n" by (rule glang_least [OF solves_models])
  qed
  then show ?thesis using dg cg by (simp add: g' nq)
qed

section \<open>Vocabularies are exact\<close>

text \<open>A terminal lies below an element, references followed.\<close>

inductive reaches :: "grammar \<Rightarrow> element \<Rightarrow> element \<Rightarrow> bool" for g where
  reach_terminal: "vocab_key t = Some k \<Longrightarrow> reaches g t t"
| reach_child: "c \<in> set (children el) \<Longrightarrow> reaches g c t \<Longrightarrow> reaches g el t"
| reach_ref: "ref_name el = Some n \<Longrightarrow> find_prod g n = Some p \<Longrightarrow> c \<in> set (concat (p_alts p)) \<Longrightarrow> reaches g c t \<Longrightarrow> reaches g el t"

definition reached_keys :: "grammar \<Rightarrow> element set \<Rightarrow> string set" where
  "reached_keys g els = {k. \<exists>el\<in>els. \<exists>t. reaches g el t \<and> vocab_key t = Some k}"

lemma vocab_shape:
  "vocab_key el = Some k \<Longrightarrow> children el = [] \<and> ref_name el = None"
  "ref_name el = Some n \<Longrightarrow> children el = [] \<and> vocab_key el = None"
  by (cases el; cases "kind_of el"; simp add: vocab_key_def children_def ref_name_def)+

lemma or_insert_keys [simp]: "fst ` set (or_insert k v m) = insert k (fst ` set m)"
proof -
  have "fst ` set (imap_insert k v m) = insert k (fst ` set m)"
    using arg_cong [OF imap_insert_keys [of k v m], of set] by (auto split: if_splits)
  then show ?thesis by (auto simp: or_insert_def map_of_eq_None_iff)
qed

lemma distinct_or_insert: "distinct (map fst m) \<Longrightarrow> distinct (map fst (or_insert k v m))"
  by (simp add: or_insert_def distinct_imap_insert)

lemma collect_sound:
  "collect_vocab g els out visited = (out', visited') \<Longrightarrow> fst ` set out' \<subseteq> fst ` set out \<union> reached_keys g (set els)"
proof (induction g els out visited rule: collect_vocab.induct)
  case (2 g el els out visited)
  have mono: "reached_keys g (set els) \<subseteq> reached_keys g (set (el # els))" by (auto simp: reached_keys_def)
  show ?case
  proof (cases "vocab_key el")
    case (Some k)
    then have "k \<in> reached_keys g (set (el # els))" by (auto simp: reached_keys_def intro: reach_terminal)
    then show ?thesis using "2.IH"(5) [OF Some] "2.prems" Some mono by auto
  next
    case None
    show ?thesis
    proof (cases "ref_name el")
      case (Some n)
      show ?thesis
      proof (cases "n \<in> set visited \<or> find_prod g n = None")
        case True
        then show ?thesis using "2.IH"(2,3) [OF None Some] "2.prems" None Some mono by (auto split: if_splits)
      next
        case False
        then obtain p where p: "n \<notin> set visited" "find_prod g n = Some p" by auto
        have "reached_keys g (set (concat (p_alts p) @ els)) \<subseteq> reached_keys g (set (el # els))"
          using reach_ref [OF Some p(2)] by (auto simp: reached_keys_def)
        then show ?thesis using "2.IH"(4) [OF None Some p] "2.prems" None Some p by auto
      qed
    next
      case none: None
      have "reached_keys g (set (children el @ els)) \<subseteq> reached_keys g (set (el # els))"
        using reach_child by (fastforce simp: reached_keys_def)
      then show ?thesis using "2.IH"(1) [OF None none] "2.prems" None none by auto
    qed
  qed
qed simp

abbreviation keys_of :: "vocab \<Rightarrow> string set" where
  "keys_of out \<equiv> fst ` set out"

inductive accounted :: "string set \<Rightarrow> string set \<Rightarrow> element set \<Rightarrow> element \<Rightarrow> bool" for K V P where
  account_pending: "el \<in> P \<Longrightarrow> accounted K V P el"
| account_key: "vocab_key el = Some k \<Longrightarrow> k \<in> K \<Longrightarrow> accounted K V P el"
| account_ref: "ref_name el = Some n \<Longrightarrow> n \<in> V \<Longrightarrow> accounted K V P el"
| account_node: "vocab_key el = None \<Longrightarrow> ref_name el = None \<Longrightarrow> (\<And>c. c \<in> set (children el) \<Longrightarrow> accounted K V P c) \<Longrightarrow>
   accounted K V P el"

lemma accounted_step:
  assumes "accounted K V P x" and "\<And>y. y \<in> P \<Longrightarrow> accounted K' V' P' y" and "K \<subseteq> K'" and "V \<subseteq> V'"
  shows "accounted K' V' P' x"
  using assms(1) by (induction rule: accounted.induct) (use assms(2-4) in \<open>auto intro: accounted.intros\<close>)

definition rules_accounted :: "grammar \<Rightarrow> string set \<Rightarrow> string set \<Rightarrow> element set \<Rightarrow> bool" where
  "rules_accounted g K V P \<longleftrightarrow>
     (\<forall>n\<in>V. \<forall>p. find_prod g n = Some p \<longrightarrow> (\<forall>c\<in>set (concat (p_alts p)). accounted K V P c))"

text \<open>A step of the walk accounts for the element it takes.\<close>

lemma walk_step:
  assumes "\<And>y. y \<in> P \<Longrightarrow> accounted K' V' P' y" and "K \<subseteq> K'" and "V \<subseteq> V'"
    and "\<And>n p c. n \<in> V' - V \<Longrightarrow> find_prod g n = Some p \<Longrightarrow> c \<in> set (concat (p_alts p)) \<Longrightarrow> accounted K' V' P' c"
  shows "(\<forall>x. accounted K V P x \<longrightarrow> accounted K' V' P' x) \<and> (rules_accounted g K V P \<longrightarrow> rules_accounted g K' V' P')"
  using accounted_step [OF _ assms(1-3)] assms(4) unfolding rules_accounted_def by blast

lemma collect_complete:
  "collect_vocab g els out visited = (out', visited') \<Longrightarrow>
   (\<forall>x. accounted (keys_of out) (set visited) (set els) x \<longrightarrow> accounted (keys_of out') (set visited') {} x) \<and>
   (rules_accounted g (keys_of out) (set visited) (set els) \<longrightarrow> rules_accounted g (keys_of out') (set visited') {})"
proof (induction g els out visited rule: collect_vocab.induct)
  case (2 g el els out visited)
  note IH = "2.IH"
  show ?case
  proof (cases "vocab_key el")
    case (Some k)
    have c: "collect_vocab g els (or_insert k el out) visited = (out', visited')" using "2.prems" Some by simp
    have "accounted (keys_of (or_insert k el out)) (set visited) (set els) y" if "y \<in> set (el # els)" for y
      using that Some by (auto intro: accounted.intros)
    then have "(\<forall>x. accounted (keys_of out) (set visited) (set (el # els)) x \<longrightarrow> accounted (keys_of (or_insert k el out)) (set visited) (set els) x) \<and>
        (rules_accounted g (keys_of out) (set visited) (set (el # els)) \<longrightarrow> rules_accounted g (keys_of (or_insert k el out)) (set visited) (set els))"
      by (rule walk_step) (use Some in auto)
    with IH(5) [OF Some c] show ?thesis by blast
  next
    case None
    show ?thesis
    proof (cases "ref_name el")
      case (Some n)
      consider (old) "n \<in> set visited" | (undefined) "n \<notin> set visited" "find_prod g n = None"
        | (new) p where "n \<notin> set visited" "find_prod g n = Some p" by (cases "find_prod g n") auto
      then show ?thesis
      proof cases
        case old
        then have c: "collect_vocab g els out visited = (out', visited')" using "2.prems" None Some by simp
        have "accounted (keys_of out) (set visited) (set els) y" if "y \<in> set (el # els)" for y
          using that Some old by (auto intro: accounted.intros)
    then have "(\<forall>x. accounted (keys_of out) (set visited) (set (el # els)) x \<longrightarrow> accounted (keys_of out) (set visited) (set els) x) \<and>
        (rules_accounted g (keys_of out) (set visited) (set (el # els)) \<longrightarrow> rules_accounted g (keys_of out) (set visited) (set els))"
      by (rule walk_step) (use Some in auto)
    with IH(2) [OF None Some old c] show ?thesis by blast
      next
        case undefined
        then have c: "collect_vocab g els out (iset_insert n visited) = (out', visited')" using "2.prems" None Some by simp
        have "accounted (keys_of out) (set (iset_insert n visited)) (set els) y" if "y \<in> set (el # els)" for y
          using that Some by (auto intro: accounted.intros)
    then have "(\<forall>x. accounted (keys_of out) (set visited) (set (el # els)) x \<longrightarrow> accounted (keys_of out) (set (iset_insert n visited)) (set els) x) \<and>
        (rules_accounted g (keys_of out) (set visited) (set (el # els)) \<longrightarrow> rules_accounted g (keys_of out) (set (iset_insert n visited)) (set els))"
      by (rule walk_step) (use undefined(2) in auto)
    with IH(3) [OF None Some undefined c] show ?thesis by blast
      next
        case (new p)
        then have c: "collect_vocab g (concat (p_alts p) @ els) out (iset_insert n visited) = (out', visited')"
          using "2.prems" None Some by simp
        have "accounted (keys_of out) (set (iset_insert n visited)) (set (concat (p_alts p) @ els)) y"
          if "y \<in> set (el # els) \<or> y \<in> set (concat (p_alts p))" for y
          using that Some by (auto intro: accounted.intros)
        then have "(\<forall>x. accounted (keys_of out) (set visited) (set (el # els)) x \<longrightarrow>
              accounted (keys_of out) (set (iset_insert n visited)) (set (concat (p_alts p) @ els)) x) \<and>
            (rules_accounted g (keys_of out) (set visited) (set (el # els)) \<longrightarrow>
              rules_accounted g (keys_of out) (set (iset_insert n visited)) (set (concat (p_alts p) @ els)))"
          by (intro walk_step) (use new(2) account_pending [of _ "set (concat (p_alts p) @ els)"] in \<open>force+\<close>)
        with IH(4) [OF None Some new c] show ?thesis by blast
      qed
    next
      case none: None
      have c: "collect_vocab g (children el @ els) out visited = (out', visited')" using "2.prems" None none by simp
      have kids: "accounted (keys_of out) (set visited) (set (children el @ els)) y" if "y \<in> set (children el @ els)" for y
        using that by (rule account_pending)
      then have "accounted (keys_of out) (set visited) (set (children el @ els)) el"
        using None none by (auto intro: account_node)
      then have "accounted (keys_of out) (set visited) (set (children el @ els)) y" if "y \<in> set (el # els)" for y
        using that kids by auto
    then have "(\<forall>x. accounted (keys_of out) (set visited) (set (el # els)) x \<longrightarrow> accounted (keys_of out) (set visited) (set (children el @ els)) x) \<and>
        (rules_accounted g (keys_of out) (set visited) (set (el # els)) \<longrightarrow> rules_accounted g (keys_of out) (set visited) (set (children el @ els)))"
      by (rule walk_step) (use None in auto)
    with IH(1) [OF None none c] show ?thesis by blast
    qed
  qed
qed simp

lemma reached_collected:
  assumes "reaches g el t" and "rules_accounted g K V {}" and "vocab_key t = Some k"
  shows "accounted K V {} el \<Longrightarrow> k \<in> K"
  using assms(1,3)
proof (induction rule: reaches.induct)
  case (reach_terminal t k')
  from reach_terminal.prems(1) show ?case
    by (cases rule: accounted.cases) (use reach_terminal in \<open>auto dest: vocab_shape\<close>)
next
  case (reach_child c el t)
  then show ?case by (auto elim!: accounted.cases dest: vocab_shape)
next
  case (reach_ref el n p c t)
  have "n \<in> V" using reach_ref.prems(1) reach_ref.hyps(1) vocab_shape(2) [OF reach_ref.hyps(1)] by (auto elim: accounted.cases)
  then have "accounted K V {} c" using assms(2) reach_ref.hyps(2,3) by (auto simp: rules_accounted_def)
  then show ?case using reach_ref.IH reach_ref.prems(2) by blast
qed

lemma collect_seq_keys: "fst ` set (collect_seq_vocab g sq) = reached_keys g (set sq)"
proof -
  obtain out visited where c: "collect_vocab g sq [] [] = (out, visited)" by fastforce
  have "rules_accounted g (keys_of []) (set []) (set sq)" by (simp add: rules_accounted_def)
  then have r: "rules_accounted g (keys_of out) (set visited) {}" using collect_complete [OF c] by blast
  have "accounted (keys_of out) (set visited) {} el" if "el \<in> set sq" for el
    using collect_complete [OF c] account_pending [OF that] by blast
  then have "reached_keys g (set sq) \<subseteq> fst ` set out" using reached_collected [OF _ r] by (auto simp: reached_keys_def)
  then show ?thesis using collect_sound [OF c] by (auto simp: collect_seq_vocab_def c)
qed

lemma collect_distinct: "distinct (map fst out) \<Longrightarrow> collect_vocab g els out visited = (out', visited') \<Longrightarrow> distinct (map fst out')"
  by (induction g els out visited rule: collect_vocab.induct) (auto split: option.splits if_splits intro: distinct_or_insert)

lemma fold_keys: "fst ` set (foldl (\<lambda>m (k, v). or_insert k v m) xv yv) = fst ` set xv \<union> fst ` set yv"
  by (induction yv arbitrary: xv) (simp_all add: case_prod_unfold)

lemma joint_keys: "fst ` set (joint_vocab xv yv dk) = (fst ` set xv \<union> fst ` set yv) - set_option dk"
proof -
  have "fst ` set (foldl (\<lambda>m (k, v). or_insert k v m) xv yv) = fst ` set xv \<union> fst ` set yv"
    by (rule fold_keys)
  then show ?thesis by (auto simp: joint_vocab_def Let_def set_imap_remove split: option.split)
qed

lemma joint_size:
  assumes "distinct (map fst xv)" and "distinct (map fst yv)"
  shows "length (joint_vocab xv yv dk) = vocab_size xv yv dk"
proof -
  let ?j = "foldl (\<lambda>m (k, v). or_insert k v m) xv yv"
  have d: "distinct (map fst ?j)"
    using assms(1) by (induction yv arbitrary: xv) (auto intro: distinct_or_insert)
  have keys: "fst ` set ?j = fst ` set xv \<union> fst ` set yv" by (rule fold_keys)
  have "length ?j = card (fst ` set xv \<union> fst ` set yv)" using distinct_card [OF d] keys by simp
  also have "\<dots> = card (fst ` set xv) + card (fst ` set yv - fst ` set xv)"
    by (subst card_Un_disjoint [symmetric]) (auto intro: arg_cong [of _ _ card])
  also have "card (fst ` set xv) = length xv" using distinct_card [OF assms(1)] by simp
  also have "fst ` set yv - fst ` set xv = fst ` set (filter (\<lambda>(k, _). map_of xv k = None) yv)"
    by (force simp: map_of_eq_None_iff)
  also have "card (fst ` set (filter (\<lambda>(k, _). map_of xv k = None) yv)) = length (filter (\<lambda>(k, _). map_of xv k = None) yv)"
    using distinct_card [OF distinct_map_filter [OF assms(2), of "\<lambda>(k, _). map_of xv k = None"]] by simp
  finally have len: "length ?j = length xv + length (filter (\<lambda>(k, _). map_of xv k = None) yv)" .
  have rem: "length (imap_remove k m) = (if k \<in> fst ` set m then length m - 1 else length m)" if "distinct (map fst m)" for k :: string and m :: vocab
    using that by (induction m) (force simp: imap_remove_def filter_id_conv dest: length_pos_if_in_set)+
  show ?thesis
    by (cases dk) (auto simp: joint_vocab_def vocab_size_def Let_def len rem [OF d] keys map_of_eq_None_iff simp del: not_None_eq)
qed

section \<open>Results\<close>

text \<open>
  C8: The probe rewrite keeps the language of every rule of a closed grammar: a dispatcher derives
  what its two branches derive together, and so what the optional and its tail derived.
\<close>

theorem probe_rewrite_language:
  assumes "rewrite_probe_dispatches g b = Inr (g', b')" and "distinct (names (productions g))" and "closed (productions g)"
    and "n \<in> set (names (productions g))"
  shows "glang T (productions g') n = glang T (productions g) n"
  using probe_keeps [OF assms(1-3)] assms(4) by blast

definition probe_example :: grammar where
  "probe_example = grammar_new
     [prod_new ''s'' [[el_opt (el_group [[el_reference ''u'', el_token ''#AT'']]), el_reference ''u'']],
      prod_new ''u'' [[el_token ''#X''], [el_token ''#X'', el_reference ''u'']]]"

definition probed_example :: "production list" where
  "probed_example =
     [prod_new ''s'' [[el_reference ''s$pd0'']], prod_new ''u'' [[el_token ''#X''], [el_token ''#X'', el_reference ''u'']]] @
     dispatch_rules (prod_new ''s'' []) [el_reference ''u''] (el_token ''#AT'') [el_reference ''u''] [el_token ''#X'']
       ''s$pd0'' ''s$pd0$probe'' ''s$pd0$with'' ''s$pd0$no''"

lemma probe_example_run: "\<exists>b g'. rewrite_probe_dispatches probe_example budget_new = Inr (g', b) \<and> productions g' = probed_example"
  by (simp add: rewrite_probe_dispatches_def probe_prod_def ambiguous_at_def is_probeable_opt_def collect_seq_vocab_def vocab_key_def
      ref_name_def children_def find_prod_def or_insert_def mint_dispatch_def vocab_size_def joint_vocab_def imap_remove_def b_charge_def b_room_def
      b_begin_rule_def b_begin_def probe_rule_units_def budget_new_def MAX_EMIT_UNITS_def pr_fresh_def fresh_from_def hinted_def
      nat_str.simps digit_char_def iset_insert_def iset_extend_def dispatch_rules_def rebuilt_def prod_helper_def origin_of_def
      probe_example_def probed_example_def grammar_new_def prod_new_def default_production_def el_opt_def el_group_def el_reference_def
      el_token_def el_of_def is_terminal_def Let_def)

lemma probe_rewrite_language_witness: "glang literal_terminals probed_example ''s'' = glang literal_terminals (productions probe_example) ''s''"
proof -
  obtain b g' where r: "rewrite_probe_dispatches probe_example budget_new = Inr (g', b)" "productions g' = probed_example"
    using probe_example_run by blast
  have "glang literal_terminals (productions g') ''s'' = glang literal_terminals (productions probe_example) ''s''"
    by (rule probe_rewrite_language [OF r(1)])
      (auto simp: probe_example_def grammar_new_def prod_new_def default_production_def closed_def el_opt_def el_group_def el_reference_def
        el_token_def el_of_def)
  then show ?thesis by (simp add: r(2))
qed

lemma ambiguous_exact:
  "case ambiguous_at g el ys of
     None \<Rightarrow> \<nexists>xs d. is_probeable_opt el = Some (xs, d) \<and> ys \<noteq> [] \<and> reached_keys g (set xs) \<inter> reached_keys g (set ys) \<noteq> {}
   | Some (xs, d, xv, yv) \<Rightarrow>
       is_probeable_opt el = Some (xs, d) \<and> ys \<noteq> [] \<and> reached_keys g (set xs) \<inter> reached_keys g (set ys) \<noteq> {} \<and>
       fst ` set (joint_vocab xv yv (vocab_key d)) = (reached_keys g (set xs) \<union> reached_keys g (set ys)) - set_option (vocab_key d) \<and>
       length (joint_vocab xv yv (vocab_key d)) = vocab_size xv yv (vocab_key d)"
proof -
  have d: "distinct (map fst (collect_seq_vocab g sq))" for sq
    using collect_distinct [of "[]" g sq "[]"] by (cases "collect_vocab g sq [] []") (simp add: collect_seq_vocab_def)
  have shared: "list_ex (\<lambda>(k, _). map_of (collect_seq_vocab g ys) k \<noteq> None) (collect_seq_vocab g xs) \<longleftrightarrow>
      reached_keys g (set xs) \<inter> reached_keys g (set ys) \<noteq> {}" for xs ys
    unfolding collect_seq_keys [symmetric] by (auto simp: list_ex_iff map_of_eq_None_iff simp del: not_None_eq) force+
  show ?thesis
  proof (cases "is_probeable_opt el")
    case None
    then show ?thesis by (simp add: ambiguous_at_def)
  next
    case (Some z)
    obtain xs d where z: "z = (xs, d)" by fastforce
    let ?xv = "collect_seq_vocab g xs" and ?yv = "collect_seq_vocab g ys"
    have e: "ambiguous_at g el ys = (if ys \<noteq> [] \<and> reached_keys g (set xs) \<inter> reached_keys g (set ys) \<noteq> {} then Some (xs, d, ?xv, ?yv) else None)"
      unfolding ambiguous_at_def Some z option.case prod.case Let_def shared by simp
    show ?thesis
      by (cases "ys \<noteq> [] \<and> reached_keys g (set xs) \<inter> reached_keys g (set ys) \<noteq> {}")
        (simp_all add: e Some z joint_keys collect_seq_keys joint_size [OF d d])
  qed
qed

text \<open>
  C9: A dispatcher is made exactly where it is needed. An element and its tail are taken for an
  ambiguous prefix exactly when the element is an optional that ends in a terminal and some terminal
  key can be reached from both sides, references followed; the probe then reads exactly the keys
  either side reaches but the disambiguator's, and the budget is charged for exactly that many.
\<close>

theorem probe_vocabulary_exact:
  "case ambiguous_at g el ys of
     None \<Rightarrow> \<nexists>xs d. is_probeable_opt el = Some (xs, d) \<and> ys \<noteq> [] \<and> reached_keys g (set xs) \<inter> reached_keys g (set ys) \<noteq> {}
   | Some (xs, d, xv, yv) \<Rightarrow>
       is_probeable_opt el = Some (xs, d) \<and> ys \<noteq> [] \<and> reached_keys g (set xs) \<inter> reached_keys g (set ys) \<noteq> {} \<and>
       fst ` set (joint_vocab xv yv (vocab_key d)) = (reached_keys g (set xs) \<union> reached_keys g (set ys)) - set_option (vocab_key d) \<and>
       length (joint_vocab xv yv (vocab_key d)) = vocab_size xv yv (vocab_key d)"
  by (rule ambiguous_exact)

end
