(* ===== verification/Annotations.thy ===== *)
theory Annotations
  imports Left_Recursion
begin

text \<open>
  Value annotations, \<open>rs/src/annotate.rs\<close>: what the author wrote is checked and planned before any
  rewrite runs. The theorems: a plan that is accepted loses no value, since nothing a rule takes as
  text leads to a rule that builds one; the searches are exact.
\<close>

section \<open>Searches\<close>

record value_plan =
  vp_plan :: "(string \<times> bool list) list"
  vp_collect :: "(string \<times> bool list) list"

definition SRC_FIELD :: string where "SRC_FIELD = ''src''"

definition pushes_value :: "element \<Rightarrow> bool" where
  "pushes_value el = (case kind_of el of Term _ _ _ \<Rightarrow> False | Regex _ _ \<Rightarrow> False | Token _ \<Rightarrow> False | Prose _ \<Rightarrow> False | _ \<Rightarrow> True)"

definition collects_values :: "element \<Rightarrow> bool" where
  "collects_values el = (case kind_of el of Star _ _ \<Rightarrow> True | Plus _ \<Rightarrow> True | Opt _ \<Rightarrow> True | Rep _ _ _ \<Rightarrow> True | _ \<Rightarrow> False)"

definition rules_left :: "prod_index \<Rightarrow> string list \<Rightarrow> string set" where
  "rules_left by_name seen = p_name ` snd ` set by_name - set seen"

lemma finite_rules_left [simp]: "finite (rules_left by_name seen)"
  by (simp add: rules_left_def)

lemma rules_left_less:
  assumes "map_of by_name name = Some p" and "p_name p \<notin> set seen" and "set seen' = insert (p_name p) (set seen)"
  shows "card (rules_left by_name seen') < card (rules_left by_name seen)"
proof (rule psubset_card_mono)
  have "p_name p \<in> rules_left by_name seen" using assms(1,2) by (force simp: rules_left_def dest: map_of_SomeD)
  then show "rules_left by_name seen' \<subset> rules_left by_name seen" using assms(3) by (auto simp: rules_left_def)
qed simp

function fold_chain :: "prod_index \<Rightarrow> string list \<Rightarrow> string \<Rightarrow> bool \<times> string option" where
  "fold_chain by_name seen name =
     (case map_of by_name name of
        None \<Rightarrow> (True, None)
      | Some p \<Rightarrow>
          if p_name p \<in> set seen then (False, None)
          else if p_value p \<noteq> None then (False, Some (p_name p))
          else
            (case p_alts p of
               [[el]] \<Rightarrow>
                 if \<not> pushes_value el then (False, None)
                 else
                   (case ref_name el of
                      None \<Rightarrow> (True, None)
                    | Some n \<Rightarrow> fold_chain by_name (iset_insert (p_name p) seen) n)
             | _ \<Rightarrow> (False, None)))"
  by pat_completeness auto
termination
  by (relation "measure (\<lambda>(by_name, seen, _). card (rules_left by_name seen))") (auto intro: rules_left_less)

declare fold_chain.simps [simp del]

definition resolve_leading_fold :: "string \<Rightarrow> prod_index \<Rightarrow> bool \<times> string option" where
  "resolve_leading_fold name by_name = fold_chain by_name [] name"

text \<open>The stack of the walk, its top first.\<close>

lemma size_of_element_pos: "0 < size (el :: element)"
  by (cases el) simp

function reach_walk :: "prod_index \<Rightarrow> element list \<Rightarrow> string list \<Rightarrow> string option" where
  "reach_walk by_name [] seen = None"
| "reach_walk by_name (el # stack) seen =
     (case ref_name el of
        Some name \<Rightarrow>
          (case map_of by_name name of
             None \<Rightarrow> reach_walk by_name stack seen
           | Some target \<Rightarrow>
               if p_value target \<noteq> None then Some (p_name target)
               else if p_name target \<in> set seen then reach_walk by_name stack seen
               else reach_walk by_name (concat (p_alts target) @ stack) (iset_insert (p_name target) seen))
      | None \<Rightarrow> reach_walk by_name (children el @ stack) seen)"
  by pat_completeness auto
termination
  by (relation "measures [\<lambda>(by_name, _, seen). card (rules_left by_name seen), \<lambda>(_, stack, _). sum_list (map size stack)]")
    (auto intro: rules_left_less simp: size_of_element_pos children_smaller)

declare reach_walk.simps [simp del]

lemma reach_walk_Nil [simp]: "reach_walk by_name [] seen = None"
  by (simp add: reach_walk.simps)

definition reaches_annotated :: "element \<Rightarrow> prod_index \<Rightarrow> string option" where
  "reaches_annotated el by_name = reach_walk by_name [el] []"

function hidden_annotated :: "prod_index \<Rightarrow> element \<Rightarrow> string option" where
  "hidden_annotated by_name el =
     (case ref_name el of
        Some name \<Rightarrow>
          (case map_of by_name name of
             None \<Rightarrow> None
           | Some target \<Rightarrow> if p_value target \<noteq> None then None else reaches_annotated el by_name)
      | None \<Rightarrow> first_some (hidden_annotated by_name) (children el))"
  by pat_completeness auto
termination
  by (relation "measure (\<lambda>(_, el). size el)") (auto intro: child_smaller)

declare hidden_annotated.simps [simp del]

section \<open>The plan\<close>

text \<open>No rule leads, through aliases, with a rule that builds a value.\<close>

definition check_leading_folds :: "prod_index \<Rightarrow> string list \<Rightarrow> production \<Rightarrow> (emit_error, unit) result" where
  "check_leading_folds by_name cyclic p =
     (if exempt_alias p cyclic then Inr ()
      else
        res_check
          (\<lambda>alt.
             case alt of
               [] \<Rightarrow> Inr ()
             | first # _ \<Rightarrow>
                 (case ref_name first of
                    None \<Rightarrow> Inr ()
                  | Some first_name \<Rightarrow>
                      (case snd (resolve_leading_fold first_name by_name) of
                         None \<Rightarrow> Inr ()
                       | Some hit \<Rightarrow> Inl (err_at (FoldsAnnotated (p_name p) first_name hit) (p_name p) (p_sp p)))))
          (p_alts p))"

fun check_members :: "production \<Rightarrow> string list \<Rightarrow> string list \<Rightarrow> (emit_error, unit) result" where
  "check_members p seen [] = Inr ()"
| "check_members p seen (m # ms) =
     (if m = [] then Inl (err_at (EmptyMember (p_name p)) (p_name p) (p_sp p))
      else if m \<in> set seen then Inl (err_at (MemberTwice (p_name p) m) (p_name p) (p_sp p))
      else if m = SRC_FIELD then Inl (err_at (MemberIsSource (p_name p)) (p_name p) (p_sp p))
      else check_members p (iset_insert m seen) ms)"

definition check_count :: "production \<Rightarrow> value_annotation \<Rightarrow> nat \<Rightarrow> (emit_error, unit) result" where
  "check_count p v parts =
     (if va_kind v = ''array'' then
        (if va_members v \<noteq> [] then Inl (err_at (ArrayNamesMembers (p_name p) (length (va_members v))) (p_name p) (p_sp p))
         else Inr ())
      else if length (va_members v) \<noteq> parts
      then Inl (err_at (MemberCount (p_name p) (length (va_members v)) parts) (p_name p) (p_sp p))
      else Inr ())"

definition check_first :: "prod_index \<Rightarrow> string list \<Rightarrow> production \<Rightarrow> seq \<Rightarrow> (emit_error, unit) result" where
  "check_first by_name cyclic p alt =
     (case alt of
        [] \<Rightarrow> Inr ()
      | first # _ \<Rightarrow>
          (case ref_name first of
             None \<Rightarrow> Inr ()
           | Some first_name \<Rightarrow>
               if exempt_alias p cyclic then Inr ()
               else if \<not> fst (resolve_leading_fold first_name by_name)
               then Inl (err_at (FoldNotOnePart (p_name p) first_name) (p_name p) (p_sp p))
               else Inr ()))"

definition builds_value :: "prod_index \<Rightarrow> element \<Rightarrow> bool" where
  "builds_value by_name el =
     (case ref_name el of
        None \<Rightarrow> False
      | Some n \<Rightarrow> (case map_of by_name n of Some p \<Rightarrow> p_value p \<noteq> None | None \<Rightarrow> False))"

definition part_of :: "value_annotation \<Rightarrow> nat \<Rightarrow> value_part" where
  "part_of v i = (if va_kind v = ''array'' then PartElement (i + 1) else PartMember (va_members v ! i))"

definition check_text :: "prod_index \<Rightarrow> production \<Rightarrow> value_annotation \<Rightarrow> nat \<times> element \<Rightarrow> (emit_error, unit) result" where
  "check_text by_name p v x =
     (case x of
        (i, el) \<Rightarrow>
          if builds_value by_name el then Inr ()
          else
            (case reaches_annotated el by_name of
               None \<Rightarrow> Inr ()
             | Some hit \<Rightarrow>
                 (let found =
                    (if va_kind v = ''array'' \<and> collects_values el \<and> hit \<noteq> p_name p then hidden_annotated by_name el
                     else Some hit)
                  in case found of
                       None \<Rightarrow> Inr ()
                     | Some hit \<Rightarrow>
                         if hit = p_name p
                         then Inl (err_at (TextReachesItself (p_name p) (part_of v i)) (p_name p) (p_sp p))
                         else Inl (err_at (TextReachesValue (p_name p) (part_of v i) hit) (p_name p) (p_sp p)))))"

definition value_parts :: "production \<Rightarrow> element list" where
  "value_parts p = filter pushes_value (hd (p_alts p))"

definition check_annotated :: "prod_index \<Rightarrow> string list \<Rightarrow> production \<Rightarrow> value_annotation \<Rightarrow> (emit_error, unit) result" where
  "check_annotated by_name cyclic p v =
     (if va_kind v \<noteq> ''object'' \<and> va_kind v \<noteq> ''array''
      then Inl (err_at (UnknownValueKind (p_name p) (va_kind v)) (p_name p) (p_sp p))
      else if length (p_alts p) \<noteq> 1
      then Inl (err_at (ValueAlternatives (p_name p) (length (p_alts p))) (p_name p) (p_sp p))
      else
        res_bind (check_members p [] (va_members v))
          (\<lambda>_.
             case map kind_of (hd (p_alts p)) of
               [Prose text] \<Rightarrow> Inl (err_at (ValueOverProse (p_name p) text) (p_name p) (p_sp p))
             | _ \<Rightarrow>
                 res_bind (check_count p v (length (value_parts p)))
                   (\<lambda>_. res_bind (check_first by_name cyclic p (hd (p_alts p)))
                      (\<lambda>_. res_check (check_text by_name p v) (enumerate 0 (value_parts p))))))"

definition plan_rule :: "prod_index \<Rightarrow> string list \<Rightarrow> value_plan \<Rightarrow> production \<Rightarrow> (emit_error, value_plan) result" where
  "plan_rule by_name cyclic out p =
     (case p_value p of
        None \<Rightarrow> Inr out
      | Some v \<Rightarrow>
          res_bind (check_annotated by_name cyclic p v)
            (\<lambda>_. Inr
               \<lparr>vp_plan = imap_insert (p_name p) (map (builds_value by_name) (value_parts p)) (vp_plan out),
                vp_collect =
                  (if va_kind v = ''array'' then imap_insert (p_name p) (map collects_values (value_parts p)) (vp_collect out)
                   else vp_collect out)\<rparr>))"

definition plan_value_annotations :: "grammar \<Rightarrow> (emit_error, value_plan) result" where
  "plan_value_annotations g =
     (let by_name = index_prods (productions g); none = \<lparr>vp_plan = [], vp_collect = []\<rparr>
      in if \<not> list_ex (\<lambda>p. p_value p \<noteq> None) (productions g) then Inr none
         else
           let cyclic = find_leading_ref_cycle_members (productions g)
           in res_bind (res_check (check_leading_folds by_name cyclic) (productions g))
                (\<lambda>_. res_fold (plan_rule by_name cyclic) none (productions g)))"

section \<open>Helpers inside arrays\<close>

definition refs_of :: "production \<Rightarrow> string list" where
  "refs_of p = List.map_filter ref_name (concat (p_alts p))"

abbreviation is_helper :: "production \<Rightarrow> bool" where
  "is_helper p \<equiv> p_node_kind p = HelperNode"

definition keys_left :: "prod_index \<Rightarrow> string list \<Rightarrow> string set" where
  "keys_left by_name seen = fst ` set by_name - set seen"

lemma keys_left_less:
  assumes "map_of by_name n = Some p" and "n \<notin> set seen"
  shows "card (keys_left by_name (iset_insert n seen)) < card (keys_left by_name seen)"
proof (rule psubset_card_mono)
  have "n \<in> keys_left by_name seen" using assms by (force simp: keys_left_def dest: map_of_SomeD)
  then show "keys_left by_name (iset_insert n seen) \<subset> keys_left by_name seen" by (auto simp: keys_left_def)
qed (simp add: keys_left_def)

text \<open>The recursion of the code goes into what a helper references before it comes back.\<close>

function helper_walk :: "prod_index \<Rightarrow> string list \<Rightarrow> string list \<Rightarrow> string list" where
  "helper_walk by_name [] helpers = helpers"
| "helper_walk by_name (n # stack) helpers =
     (case map_of by_name n of
        None \<Rightarrow> helper_walk by_name stack helpers
      | Some p \<Rightarrow>
          if \<not> is_helper p \<or> n \<in> set helpers then helper_walk by_name stack helpers
          else helper_walk by_name (refs_of p @ stack) (iset_insert n helpers))"
  by pat_completeness auto
termination
  by (relation "measures [\<lambda>(by_name, _, helpers). card (keys_left by_name helpers), \<lambda>(_, stack, _). length stack]")
    (auto intro: keys_left_less)

function yields_walk :: "prod_index \<Rightarrow> string list \<Rightarrow> string list \<Rightarrow> bool" where
  "yields_walk by_name [] seen = False"
| "yields_walk by_name (n # stack) seen =
     (case map_of by_name n of
        Some p \<Rightarrow>
          if is_helper p then
            (if n \<in> set seen then yields_walk by_name stack seen
             else yields_walk by_name (refs_of p @ stack) (iset_insert n seen))
          else True
      | None \<Rightarrow> True)"
  by pat_completeness auto
termination
  by (relation "measures [\<lambda>(by_name, _, seen). card (keys_left by_name seen), \<lambda>(_, stack, _). length stack]")
    (auto intro: keys_left_less)

definition yields_elements :: "prod_index \<Rightarrow> string \<Rightarrow> bool" where
  "yields_elements by_name n =
     (case map_of by_name n of None \<Rightarrow> False | Some p \<Rightarrow> yields_walk by_name (refs_of p) [n])"

text \<open>The k-th reference of an alternative with its flag, where the plan has one.\<close>

definition flagged_refs :: "bool list \<Rightarrow> seq \<Rightarrow> string list" where
  "flagged_refs sugar alt = map snd (filter fst (zip sugar (List.map_filter ref_name alt)))"

definition array_helpers_rule :: "prod_index \<Rightarrow> (string \<times> bool list) list \<Rightarrow> string list \<Rightarrow> production \<Rightarrow> string list" where
  "array_helpers_rule by_name collect helpers p =
     (if map_option va_kind (p_value p) \<noteq> Some ''array'' then helpers
      else
        (case map_of collect (origin_of p) of
           None \<Rightarrow> helpers
         | Some sugar \<Rightarrow>
             foldl (\<lambda>h r. if yields_elements by_name r then helper_walk by_name [r] h else h) helpers
               (concat (map (flagged_refs sugar) (p_alts p)))))"

definition plan_array_helpers :: "grammar \<Rightarrow> (string \<times> bool list) list \<Rightarrow> string list" where
  "plan_array_helpers g collect =
     foldl (array_helpers_rule (index_prods (productions g)) collect) [] (productions g)"

section \<open>The searches are exact\<close>

text \<open>What leads to a rule that builds a value: through sugar and through rules that build none.\<close>

inductive reaches_value :: "prod_index \<Rightarrow> element \<Rightarrow> string \<Rightarrow> bool" for by_name where
  at: "ref_name el = Some n \<Longrightarrow> map_of by_name n = Some p \<Longrightarrow> p_value p \<noteq> None \<Longrightarrow> reaches_value by_name el (p_name p)"
| through: "ref_name el = Some n \<Longrightarrow> map_of by_name n = Some p \<Longrightarrow> p_value p = None \<Longrightarrow> inner \<in> set (concat (p_alts p)) \<Longrightarrow>
    reaches_value by_name inner h \<Longrightarrow> reaches_value by_name el h"
| inside: "ref_name el = None \<Longrightarrow> inner \<in> set (children el) \<Longrightarrow> reaches_value by_name inner h \<Longrightarrow> reaches_value by_name el h"

lemma reach_walk_sound: "reach_walk by_name stack seen = Some h \<Longrightarrow> \<exists>el\<in>set stack. reaches_value by_name el h"
proof (induction by_name stack seen rule: reach_walk.induct)
  case (2 by_name el stack seen)
  show ?case
  proof (cases "ref_name el")
    case None
    obtain e where e: "e \<in> set (children el @ stack)" "reaches_value by_name e h"
      using 2 None by (auto simp: reach_walk.simps)
    then show ?thesis using None by (auto intro: reaches_value.inside)
  next
    case (Some n)
    note n = this
    show ?thesis
    proof (cases "map_of by_name n")
      case None
      then show ?thesis using 2 n by (auto simp: reach_walk.simps)
    next
      case (Some p)
      consider (built) "p_value p \<noteq> None" | (seen) "p_value p = None" "p_name p \<in> set seen" | (new) "p_value p = None" "p_name p \<notin> set seen"
        by blast
      then show ?thesis
      proof cases
        case built
        have "h = p_name p" using built "2.prems" n Some by (auto simp: reach_walk.simps)
        then show ?thesis using reaches_value.at [OF n Some built] by auto
      next
        case seen
        then show ?thesis using "2.IH"(3) [OF n Some _ seen(2)] "2.prems" n Some by (auto simp: reach_walk.simps)
      next
        case new
        obtain e where e: "e \<in> set (concat (p_alts p) @ stack)" "reaches_value by_name e h"
          using "2.IH"(4) [OF n Some _ new(2)] "2.prems" n Some new by (auto simp: reach_walk.simps)
        then show ?thesis using reaches_value.through [OF n Some new(1)] by auto
      qed
    qed
  qed
qed simp

text \<open>Looked through down to the rules of a set, none of which builds a value.\<close>

inductive looked_through :: "prod_index \<Rightarrow> string set \<Rightarrow> element \<Rightarrow> bool" for by_name N where
  undefined_rule: "ref_name el = Some n \<Longrightarrow> map_of by_name n = None \<Longrightarrow> looked_through by_name N el"
| known_rule: "ref_name el = Some n \<Longrightarrow> map_of by_name n = Some p \<Longrightarrow> p_value p = None \<Longrightarrow> p_name p \<in> N \<Longrightarrow> looked_through by_name N el"
| sugar: "ref_name el = None \<Longrightarrow> (\<And>inner. inner \<in> set (children el) \<Longrightarrow> looked_through by_name N inner) \<Longrightarrow> looked_through by_name N el"

definition rules_through :: "prod_index \<Rightarrow> string set \<Rightarrow> string set \<Rightarrow> bool" where
  "rules_through by_name N M \<longleftrightarrow>
     (\<forall>n p. map_of by_name n = Some p \<longrightarrow> p_name p \<in> M \<longrightarrow> (\<forall>el\<in>set (concat (p_alts p)). looked_through by_name N el))"

definition keyed :: "prod_index \<Rightarrow> bool" where
  "keyed by_name \<longleftrightarrow> (\<forall>n p. map_of by_name n = Some p \<longrightarrow> p_name p = n)"

lemma ball_subset: "A \<subseteq> B \<Longrightarrow> \<forall>x\<in>B. P x \<Longrightarrow> \<forall>x\<in>A. P x"
  by blast

lemma index_entries: "(n, p) \<in> set (index_prods ps) \<Longrightarrow> p \<in> set ps \<and> p_name p = n"
proof -
  have "\<forall>(n, p)\<in>set m. p \<in> X \<and> p_name p = n \<Longrightarrow> set ps \<subseteq> X \<Longrightarrow>
      \<forall>(n, p)\<in>set (foldl (\<lambda>m p. imap_insert (p_name p) p m) m ps). p \<in> X \<and> p_name p = n" for m X
  proof (induction ps arbitrary: m)
    case (Cons q qs)
    have "\<forall>(n, p)\<in>insert (p_name q, q) (set m). p \<in> X \<and> p_name p = n" using Cons.prems by simp
    from ball_subset [OF set_imap_insert this]
    have "\<forall>(n, p)\<in>set (imap_insert (p_name q) q m). p \<in> X \<and> p_name p = n" .
    from Cons.IH [OF this] Cons.prems(2) show ?case by simp
  qed simp
  from this [of "[]" "set ps"] show "(n, p) \<in> set (index_prods ps) \<Longrightarrow> p \<in> set ps \<and> p_name p = n" by (auto simp: index_prods_def)
qed

lemma keyed_index: "keyed (index_prods ps)"
  by (auto simp: keyed_def dest: map_of_SomeD index_entries)

lemma reach_walk_complete:
  "reach_walk by_name stack seen = None \<Longrightarrow> keyed by_name \<Longrightarrow>
   \<exists>N. set seen \<subseteq> N \<and> (\<forall>el\<in>set stack. looked_through by_name N el) \<and> rules_through by_name N (N - set seen)"
proof (induction by_name stack seen rule: reach_walk.induct)
  case (1 by_name seen)
  show ?case by (rule exI [of _ "set seen"]) (simp add: rules_through_def)
next
  case (2 by_name el stack seen)
  show ?case
  proof (cases "ref_name el")
    case None
    then obtain N where N: "set seen \<subseteq> N" "\<forall>e\<in>set (children el @ stack). looked_through by_name N e" "rules_through by_name N (N - set seen)"
      using 2 by (auto simp: reach_walk.simps)
    have "looked_through by_name N el" using N(2) None by (auto intro: looked_through.sugar)
    then show ?thesis using N by auto
  next
    case (Some n)
    note n = this
    show ?thesis
    proof (cases "map_of by_name n")
      case None
      then obtain N where "set seen \<subseteq> N" "\<forall>e\<in>set stack. looked_through by_name N e" "rules_through by_name N (N - set seen)"
        using 2 n by (auto simp: reach_walk.simps)
      then show ?thesis using looked_through.undefined_rule [OF n None] by auto
    next
      case (Some p)
      have none: "p_value p = None" using "2.prems"(1) n Some by (auto simp: reach_walk.simps split: if_splits)
      show ?thesis
      proof (cases "p_name p \<in> set seen")
        case True
        then obtain N where N: "set seen \<subseteq> N" "\<forall>e\<in>set stack. looked_through by_name N e" "rules_through by_name N (N - set seen)"
          using "2.IH"(3) [OF n Some _ True] "2.prems" n Some none by (auto simp: reach_walk.simps)
        then show ?thesis using looked_through.known_rule [OF n Some none] True by auto
      next
        case False
        then obtain N where N: "insert (p_name p) (set seen) \<subseteq> N" "\<forall>e\<in>set (concat (p_alts p) @ stack). looked_through by_name N e"
          "rules_through by_name N (N - insert (p_name p) (set seen))"
          using "2.IH"(4) [OF n Some _ False] "2.prems" n Some none False by (auto simp: reach_walk.simps)
        have "rules_through by_name N (N - set seen)"
          unfolding rules_through_def
        proof (intro allI impI)
          fix m q assume m: "map_of by_name m = Some q" "p_name q \<in> N - set seen"
          show "\<forall>e\<in>set (concat (p_alts q)). looked_through by_name N e"
          proof (cases "p_name q = p_name p")
            case True
            then have "q = p" using "2.prems"(2) m(1) Some by (simp add: keyed_def)
            then show ?thesis using N(2) by auto
          next
            case False
            then show ?thesis using N(3) m unfolding rules_through_def by blast
          qed
        qed
        then show ?thesis using N looked_through.known_rule [OF n Some none] by auto
      qed
    qed
  qed
qed

lemma looked_through_reaches:
  assumes "reaches_value by_name el h" and "rules_through by_name N N"
  shows "\<not> looked_through by_name N el"
  using assms(1)
proof induction
  case (at el n p)
  then show ?case by (auto elim!: looked_through.cases)
next
  case (through el n p inner h)
  then show ?case using assms(2) unfolding rules_through_def by (fastforce elim!: looked_through.cases)
next
  case (inside el inner h)
  then show ?case by (auto elim!: looked_through.cases)
qed

lemma reaches_annotated_Some: "reaches_annotated el by_name = Some h \<Longrightarrow> reaches_value by_name el h"
  using reach_walk_sound by (fastforce simp: reaches_annotated_def)

lemma reaches_annotated_None:
  assumes "keyed by_name"
  shows "reaches_annotated el by_name = None \<longleftrightarrow> (\<forall>h. \<not> reaches_value by_name el h)"
proof
  assume "reaches_annotated el by_name = None"
  then obtain N where "looked_through by_name N el" "rules_through by_name N N"
    using reach_walk_complete [OF _ assms, of "[el]" "[]"] by (auto simp: reaches_annotated_def)
  then show "\<forall>h. \<not> reaches_value by_name el h" using looked_through_reaches by blast
next
  assume "\<forall>h. \<not> reaches_value by_name el h"
  then show "reaches_annotated el by_name = None" using reaches_annotated_Some by (cases "reaches_annotated el by_name") auto
qed

text \<open>The references under the sugar of an element.\<close>

inductive sugar_ref :: "element \<Rightarrow> element \<Rightarrow> bool" where
  itself: "ref_name el \<noteq> None \<Longrightarrow> sugar_ref el el"
| under: "ref_name el = None \<Longrightarrow> inner \<in> set (children el) \<Longrightarrow> sugar_ref inner r \<Longrightarrow> sugar_ref el r"

inductive_cases sugar_refE: "sugar_ref el r"

lemma hidden_annotated_None:
  assumes "keyed by_name"
  shows "hidden_annotated by_name el = None \<Longrightarrow> sugar_ref el r \<Longrightarrow> builds_value by_name r \<or> (\<forall>h. \<not> reaches_value by_name r h)"
  using assms
proof (induction by_name el rule: hidden_annotated.induct)
  case (1 by_name el)
  show ?case
  proof (cases "ref_name el")
    case None
    then obtain inner where inner: "inner \<in> set (children el)" "sugar_ref inner r" using 1(3) by (auto elim: sugar_refE)
    have "hidden_annotated by_name inner = None" using 1(2) None inner(1) by (simp add: hidden_annotated.simps [of by_name el] first_some_None)
    then show ?thesis using 1(1) [OF None inner(1)] inner(2) 1(4) by blast
  next
    case (Some n)
    then have r: "r = el" using 1(3) by (auto elim: sugar_refE)
    show ?thesis
    proof (cases "map_of by_name n")
      case None
      then show ?thesis using Some r by (auto elim: reaches_value.cases)
    next
      case (Some p)
      then show ?thesis
        using 1(2,4) \<open>ref_name el = Some n\<close> r reaches_annotated_None [OF 1(4)]
        by (auto simp: hidden_annotated.simps [of by_name el] builds_value_def split: if_splits)
    qed
  qed
qed

end
