(* ===== verification/Value_Plans.thy ===== *)
theory Value_Plans
  imports Annotations
begin

text \<open>
  What an accepted value plan promises, and what the array helpers are. The chain of aliases the
  fold follows never comes back to itself before it ends, so the walk that stops at a rule it has
  seen misses no rule that builds a value.
\<close>

section \<open>Leading folds\<close>

text \<open>Where a chain of aliases ends at a rule that builds a value, and after how many.\<close>

inductive folds_to :: "prod_index \<Rightarrow> nat \<Rightarrow> string \<Rightarrow> string \<Rightarrow> bool" for by_name where
  arrives: "map_of by_name n = Some p \<Longrightarrow> p_value p \<noteq> None \<Longrightarrow> folds_to by_name 0 n (p_name p)"
| follows: "map_of by_name n = Some p \<Longrightarrow> p_value p = None \<Longrightarrow> p_alts p = [[el]] \<Longrightarrow> ref_name el = Some m \<Longrightarrow>
    folds_to by_name k m h \<Longrightarrow> folds_to by_name (Suc k) n h"

inductive_cases folds_toE: "folds_to by_name k n h"

lemma folds_to_unique: "folds_to by_name k n h \<Longrightarrow> folds_to by_name k' n h' \<Longrightarrow> k = k' \<and> h = h'"
proof (induction arbitrary: k' h' rule: folds_to.induct)
  case (arrives n p)
  then show ?case by (auto elim: folds_toE)
next
  case (follows n p el m k h)
  obtain l where "k' = Suc l" "folds_to by_name l m h'" using follows.prems follows.hyps by (cases rule: folds_to.cases) auto
  then show ?case using follows.IH by blast
qed

lemma ref_pushes: "ref_name el = Some n \<Longrightarrow> pushes_value el"
  by (auto simp: pushes_value_def ref_name_def split: kind.splits)

lemma fold_chain_complete:
  assumes "folds_to by_name k n h" and "keyed by_name" and "\<forall>s\<in>set seen. \<exists>l>k. folds_to by_name l s h"
  shows "fold_chain by_name seen n = (False, Some h)"
  using assms
proof (induction arbitrary: seen rule: folds_to.induct)
  case (arrives n p)
  have "folds_to by_name 0 n (p_name p)" using folds_to.arrives [OF arrives.hyps] .
  then have "p_name p \<notin> set seen" using arrives.prems arrives.hyps(1) folds_to_unique unfolding keyed_def by blast
  then show ?case using arrives.hyps by (simp add: fold_chain.simps)
next
  case (follows n p el m k h)
  have here: "folds_to by_name (Suc k) n h" using folds_to.follows follows.hyps by blast
  have name: "p_name p = n" using follows.prems(1) follows.hyps(1) by (simp add: keyed_def)
  have new: "p_name p \<notin> set seen" using follows.prems(2) here folds_to_unique name by blast
  have "\<forall>s\<in>set (iset_insert (p_name p) seen). \<exists>l>k. folds_to by_name l s h"
    using follows.prems(2) here name by (auto dest: Suc_lessD)
  from follows.IH [OF follows.prems(1) this] show ?case
    using follows.hyps new ref_pushes by (simp add: fold_chain.simps [of by_name seen n])
qed

lemma fold_chain_sound: "snd (fold_chain by_name seen n) = Some h \<Longrightarrow> \<exists>k. folds_to by_name k n h"
proof (induction by_name seen n rule: fold_chain.induct)
  case (1 by_name seen n)
  obtain p where p: "map_of by_name n = Some p" "p_name p \<notin> set seen"
    using 1(2) by (auto simp: fold_chain.simps [of by_name seen n] split: option.splits if_splits)
  show ?case
  proof (cases "p_value p")
    case (Some v)
    then show ?thesis using 1(2) p by (auto simp: fold_chain.simps [of by_name seen n] intro: folds_to.arrives)
  next
    case None
    obtain el m where el: "p_alts p = [[el]]" "pushes_value el" "ref_name el = Some m"
      "snd (fold_chain by_name (iset_insert (p_name p) seen) m) = Some h"
      using 1(2) p None by (auto simp: fold_chain.simps [of by_name seen n] split: option.splits if_splits list.splits)
    then show ?thesis using 1(1) [OF p(1,2) _ el(1) _ _ _ _ el(3,4)] None p(1) folds_to.follows by (metis (no_types, lifting))
  qed
qed

lemma resolve_leading_fold_hit:
  "keyed by_name \<Longrightarrow> snd (resolve_leading_fold n by_name) = Some h \<longleftrightarrow> (\<exists>k. folds_to by_name k n h)"
  unfolding resolve_leading_fold_def using fold_chain_sound fold_chain_complete [of by_name _ n h "[]"] by fastforce

lemma check_leading_folds_Inr:
  assumes "keyed by_name"
  shows "check_leading_folds by_name cyclic p = Inr () \<longleftrightarrow>
    exempt_alias p cyclic \<or>
    (\<forall>first rest n k h. first # rest \<in> set (p_alts p) \<longrightarrow> ref_name first = Some n \<longrightarrow> \<not> folds_to by_name k n h)"
proof -
  have none: "snd (resolve_leading_fold n by_name) = None \<longleftrightarrow> (\<forall>k h. \<not> folds_to by_name k n h)" for n
    using resolve_leading_fold_hit [OF assms, of n] by (cases "snd (resolve_leading_fold n by_name)") fastforce+
  have "(case alt of [] \<Rightarrow> Inr ()
        | first # _ \<Rightarrow> (case ref_name first of None \<Rightarrow> Inr ()
            | Some n \<Rightarrow> (case snd (resolve_leading_fold n by_name) of None \<Rightarrow> Inr () | Some hit \<Rightarrow> Inl (f n hit)))) = Inr () \<longleftrightarrow>
      (\<forall>first rest n k h. alt = first # rest \<longrightarrow> ref_name first = Some n \<longrightarrow> \<not> folds_to by_name k n h)"
    for alt and f :: "string \<Rightarrow> string \<Rightarrow> emit_error"
    using none by (auto split: list.split option.split) (metis option.distinct(1))+
  then show ?thesis unfolding check_leading_folds_def by (auto simp: res_check_Inr)
qed

section \<open>Accepted annotations\<close>

definition well_annotated :: "production \<Rightarrow> value_annotation \<Rightarrow> bool" where
  "well_annotated p v \<longleftrightarrow>
     length (p_alts p) = 1 \<and> distinct (va_members v) \<and> [] \<notin> set (va_members v) \<and> SRC_FIELD \<notin> set (va_members v) \<and>
     (if va_kind v = ''array'' then va_members v = []
      else va_kind v = ''object'' \<and> length (va_members v) = length (value_parts p))"

text \<open>A part taken as text hides no value; under an array sugar is collected, and asked part by part.\<close>

definition keeps_values :: "prod_index \<Rightarrow> value_annotation \<Rightarrow> element \<Rightarrow> bool" where
  "keeps_values by_name v el \<longleftrightarrow>
     builds_value by_name el \<or> (\<forall>h. \<not> reaches_value by_name el h) \<or>
     va_kind v = ''array'' \<and> collects_values el \<and>
     (\<forall>r. sugar_ref el r \<longrightarrow> builds_value by_name r \<or> (\<forall>h. \<not> reaches_value by_name r h))"

lemma check_members_Inr:
  "check_members p seen ms = Inr () \<longleftrightarrow> distinct ms \<and> set ms \<inter> set seen = {} \<and> [] \<notin> set ms \<and> SRC_FIELD \<notin> set ms"
  by (induction p seen ms rule: check_members.induct) auto

lemma check_text_Inr:
  assumes "check_text by_name p v (i, el) = Inr ()" and "keyed by_name"
  shows "keeps_values by_name v el"
proof (cases "reaches_annotated el by_name")
  case None
  then show ?thesis using reaches_annotated_None [OF assms(2)] by (simp add: keeps_values_def)
next
  case (Some h)
  show ?thesis
  proof (cases "builds_value by_name el")
    case False
    then have "va_kind v = ''array'' \<and> collects_values el \<and> hidden_annotated by_name el = None"
      using assms(1) Some by (auto simp: check_text_def Let_def split: if_splits option.splits)
    then show ?thesis using hidden_annotated_None [OF assms(2)] unfolding keeps_values_def by blast
  qed (simp add: keeps_values_def)
qed

lemma check_annotated_Inr:
  assumes "check_annotated by_name cyclic p v = Inr ()" and "keyed by_name"
  shows "well_annotated p v" and "el \<in> set (value_parts p) \<Longrightarrow> keeps_values by_name v el"
proof -
  have c: "check_members p [] (va_members v) = Inr ()" "check_count p v (length (value_parts p)) = Inr ()"
    "res_check (check_text by_name p v) (enumerate 0 (value_parts p)) = Inr ()" "length (p_alts p) = 1"
    "va_kind v = ''object'' \<or> va_kind v = ''array''"
    using assms(1) by (auto simp: check_annotated_def res_bind_Inr_iff split: if_splits list.splits kind.splits)
  show "well_annotated p v"
    using c by (auto simp: well_annotated_def check_members_Inr check_count_def split: if_splits)
  show "keeps_values by_name v el" if "el \<in> set (value_parts p)"
  proof -
    obtain i where "i < length (value_parts p)" "value_parts p ! i = el" using \<open>el \<in> set (value_parts p)\<close> unfolding in_set_conv_nth by blast
    then have "(i, el) \<in> set (enumerate 0 (value_parts p))" by (simp add: in_set_enumerate_eq)
    then show ?thesis using c(3) check_text_Inr [OF _ assms(2)] by (auto simp: res_check_Inr)
  qed
qed

lemma plan_rules_check:
  "res_fold (plan_rule by_name cyclic) out ps = Inr out' \<Longrightarrow> p \<in> set ps \<Longrightarrow> p_value p = Some v \<Longrightarrow>
   check_annotated by_name cyclic p v = Inr ()"
  by (induction ps arbitrary: out) (auto simp: plan_rule_def res_bind_Inr_iff split: option.splits)

lemma plan_rules_other:
  "res_fold (plan_rule by_name cyclic) out ps = Inr out' \<Longrightarrow> n \<notin> set (names ps) \<Longrightarrow>
   map_of (vp_plan out') n = map_of (vp_plan out) n \<and> map_of (vp_collect out') n = map_of (vp_collect out) n"
proof (induction ps arbitrary: out)
  case (Cons q qs)
  obtain out1 where out1: "plan_rule by_name cyclic out q = Inr out1" "res_fold (plan_rule by_name cyclic) out1 qs = Inr out'"
    using Cons.prems(1) by (auto simp: res_bind_Inr_iff)
  have "map_of (vp_plan out1) n = map_of (vp_plan out) n \<and> map_of (vp_collect out1) n = map_of (vp_collect out) n"
    using out1(1) Cons.prems(2) by (auto simp: plan_rule_def res_bind_Inr_iff split: option.splits)
  then show ?case using Cons.IH [OF out1(2)] Cons.prems(2) by simp
qed simp

lemma plan_rules_own:
  assumes "res_fold (plan_rule by_name cyclic) out ps = Inr out'" and "distinct (names ps)" and "p \<in> set ps" and "p_value p = Some v"
    and "map_of (vp_collect out) (p_name p) = None"
  shows "map_of (vp_plan out') (p_name p) = Some (map (builds_value by_name) (value_parts p)) \<and>
    map_of (vp_collect out') (p_name p) = (if va_kind v = ''array'' then Some (map collects_values (value_parts p)) else None)"
  using assms
proof (induction ps arbitrary: out)
  case (Cons q qs)
  obtain out1 where out1: "plan_rule by_name cyclic out q = Inr out1" "res_fold (plan_rule by_name cyclic) out1 qs = Inr out'"
    using Cons.prems(1) by (auto simp: res_bind_Inr_iff)
  show ?case
  proof (cases "p = q")
    case True
    then have "map_of (vp_plan out1) (p_name p) = Some (map (builds_value by_name) (value_parts p)) \<and>
        map_of (vp_collect out1) (p_name p) = (if va_kind v = ''array'' then Some (map collects_values (value_parts p)) else None)"
      using out1(1) Cons.prems(4,5) by (auto simp: plan_rule_def res_bind_Inr_iff)
    then show ?thesis using plan_rules_other [OF out1(2), of "p_name p"] Cons.prems(2) True by simp
  next
    case False
    have "p_name q \<notin> p_name ` set qs" using Cons.prems(2) by simp
    then have p: "p \<in> set qs" "p_name p \<noteq> p_name q" using False Cons.prems(3) by (auto, metis imageI)
    then have "map_of (vp_collect out1) (p_name p) = None"
      using out1(1) Cons.prems(5) by (auto simp: plan_rule_def res_bind_Inr_iff split: option.splits)
    then show ?thesis using Cons.IH [OF out1(2) _ p(1) Cons.prems(4)] Cons.prems(2) by simp
  qed
qed simp

lemma plan_value_annotations_Inr:
  assumes "plan_value_annotations g = Inr out" and "p \<in> set (productions g)" and "p_value p = Some v"
  shows "res_check (check_leading_folds (index_prods (productions g)) (find_leading_ref_cycle_members (productions g))) (productions g) = Inr ()"
    and "res_fold (plan_rule (index_prods (productions g)) (find_leading_ref_cycle_members (productions g)))
      \<lparr>vp_plan = [], vp_collect = []\<rparr> (productions g) = Inr out"
proof -
  have ex: "\<not> \<not> list_ex (\<lambda>p. p_value p \<noteq> None) (productions g)" using assms(2,3) by (auto simp: list_ex_iff)
  note r = assms(1) [unfolded plan_value_annotations_def Let_def if_not_P [OF ex] res_bind_Inr_iff]
  show "res_check (check_leading_folds (index_prods (productions g)) (find_leading_ref_cycle_members (productions g))) (productions g) = Inr ()"
    and "res_fold (plan_rule (index_prods (productions g)) (find_leading_ref_cycle_members (productions g)))
      \<lparr>vp_plan = [], vp_collect = []\<rparr> (productions g) = Inr out"
    using r by auto
qed

lemma index_prods_member: "map_of (index_prods ps) n = Some p \<Longrightarrow> p \<in> set ps"
  using index_entries map_of_SomeD by fastforce

lemma folds_to_annotated: "folds_to (index_prods ps) k n h \<Longrightarrow> \<exists>p\<in>set ps. p_value p \<noteq> None"
  by (induction rule: folds_to.induct) (auto dest: index_prods_member)

lemma planned_leading_folds:
  assumes "plan_value_annotations g = Inr out" and "p \<in> set (productions g)"
    and "\<not> exempt_alias p (find_leading_ref_cycle_members (productions g))" and "first # rest \<in> set (p_alts p)" and "ref_name first = Some n"
  shows "\<not> folds_to (index_prods (productions g)) k n h"
proof
  assume f: "folds_to (index_prods (productions g)) k n h"
  obtain q v where "q \<in> set (productions g)" "p_value q = Some v" using folds_to_annotated [OF f] by auto
  note c = plan_value_annotations_Inr(1) [OF assms(1) this]
  have "check_leading_folds (index_prods (productions g)) (find_leading_ref_cycle_members (productions g)) p = Inr ()"
    using c assms(2) by (simp add: res_check_Inr)
  then show False using check_leading_folds_Inr [OF keyed_index] assms(3-5) f by blast
qed

section \<open>Array helpers\<close>

text \<open>The helpers an alternative leads into, and whether a rule of the author's stands among them.\<close>

inductive helper_from :: "prod_index \<Rightarrow> string \<Rightarrow> string \<Rightarrow> bool" for by_name where
  helper_here: "map_of by_name n = Some p \<Longrightarrow> is_helper p \<Longrightarrow> helper_from by_name n n"
| helper_below: "map_of by_name n = Some p \<Longrightarrow> is_helper p \<Longrightarrow> m \<in> set (refs_of p) \<Longrightarrow> helper_from by_name m h \<Longrightarrow> helper_from by_name n h"

definition authored_ref :: "prod_index \<Rightarrow> string \<Rightarrow> bool" where
  "authored_ref by_name n \<longleftrightarrow> (case map_of by_name n of Some p \<Rightarrow> \<not> is_helper p | None \<Rightarrow> True)"

inductive has_element :: "prod_index \<Rightarrow> string \<Rightarrow> bool" for by_name where
  element_here: "map_of by_name n = Some p \<Longrightarrow> m \<in> set (refs_of p) \<Longrightarrow> authored_ref by_name m \<Longrightarrow> has_element by_name n"
| element_below: "map_of by_name n = Some p \<Longrightarrow> m \<in> set (refs_of p) \<Longrightarrow> \<not> authored_ref by_name m \<Longrightarrow> has_element by_name m \<Longrightarrow> has_element by_name n"

definition helpers_closed :: "prod_index \<Rightarrow> string set \<Rightarrow> string set \<Rightarrow> bool" where
  "helpers_closed by_name N M \<longleftrightarrow>
     (\<forall>n\<in>M. \<forall>p. map_of by_name n = Some p \<longrightarrow> (\<forall>m\<in>set (refs_of p). \<not> authored_ref by_name m \<longrightarrow> m \<in> N))"

declare helper_walk.simps(2) [simp del]
declare yields_walk.simps(2) [simp del]

lemma helper_walk_sound: "h \<in> set (helper_walk by_name stack helpers) \<Longrightarrow> h \<in> set helpers \<or> (\<exists>n\<in>set stack. helper_from by_name n h)"
proof (induction by_name stack helpers rule: helper_walk.induct)
  case (2 by_name n stack helpers)
  then show ?case
    by (auto simp: helper_walk.simps(2) [of by_name n] split: option.splits if_splits intro: helper_from.intros)
qed simp

lemma helper_walk_complete:
  "set helpers \<subseteq> set (helper_walk by_name stack helpers) \<and>
   (\<forall>n\<in>set stack. \<not> authored_ref by_name n \<longrightarrow> n \<in> set (helper_walk by_name stack helpers)) \<and>
   helpers_closed by_name (set (helper_walk by_name stack helpers)) (set (helper_walk by_name stack helpers) - set helpers)"
proof (induction by_name stack helpers rule: helper_walk.induct)
  case (1 by_name helpers)
  show ?case by (simp add: helpers_closed_def)
next
  case (2 by_name n stack helpers)
  show ?case
  proof (cases "map_of by_name n")
    case None
    then show ?thesis using 2(1) by (auto simp: helper_walk.simps(2) [of by_name n] authored_ref_def)
  next
    case (Some p)
    show ?thesis
    proof (cases "\<not> is_helper p \<or> n \<in> set helpers")
      case True
      then show ?thesis using 2(2) [OF Some] Some by (auto simp: helper_walk.simps(2) [of by_name n] authored_ref_def)
    next
      case False
      let ?r = "set (helper_walk by_name (refs_of p @ stack) (iset_insert n helpers))"
      have r: "set (helper_walk by_name (n # stack) helpers) = ?r" using Some False by (simp add: helper_walk.simps(2) [of by_name n])
      have ih: "insert n (set helpers) \<subseteq> ?r" "\<forall>m\<in>set (refs_of p) \<union> set stack. \<not> authored_ref by_name m \<longrightarrow> m \<in> ?r"
        "helpers_closed by_name ?r (?r - insert n (set helpers))"
        using 2(3) [OF Some False] by auto
      have "helpers_closed by_name ?r (?r - set helpers)"
        unfolding helpers_closed_def
      proof (intro ballI allI impI)
        fix a q m assume a: "a \<in> ?r - set helpers" "map_of by_name a = Some q" "m \<in> set (refs_of q)" "\<not> authored_ref by_name m"
        show "m \<in> ?r"
        proof (cases "a = n")
          case True
          then show ?thesis using a Some ih(2) by auto
        next
          case False
          then show ?thesis using a ih(3) unfolding helpers_closed_def by blast
        qed
      qed
      then show ?thesis using ih unfolding r by auto
    qed
  qed
qed

lemma helper_from_closed:
  assumes "helper_from by_name n h" and "helpers_closed by_name N N"
  shows "n \<in> N \<Longrightarrow> h \<in> N"
  using assms(1)
proof induction
  case (helper_below n p m h)
  have "\<not> authored_ref by_name m" using helper_below.hyps(4) by (auto simp: authored_ref_def elim: helper_from.cases)
  then show ?case using assms(2) helper_below unfolding helpers_closed_def by blast
qed

lemma helper_walk_exact:
  assumes "helpers_closed by_name (set helpers) (set helpers)"
  shows "set (helper_walk by_name [n] helpers) = set helpers \<union> {h. helper_from by_name n h}"
    and "helpers_closed by_name (set (helper_walk by_name [n] helpers)) (set (helper_walk by_name [n] helpers))"
proof -
  let ?r = "set (helper_walk by_name [n] helpers)"
  note c = helper_walk_complete [of helpers by_name "[n]"]
  show closed: "helpers_closed by_name ?r ?r"
    using c assms unfolding helpers_closed_def by blast
  have "h \<in> ?r" if "helper_from by_name n h" for h
  proof -
    have "\<not> authored_ref by_name n" using that by (auto simp: authored_ref_def elim: helper_from.cases)
    then show ?thesis using helper_from_closed [OF that closed] c by auto
  qed
  then show "?r = set helpers \<union> {h. helper_from by_name n h}"
    using c helper_walk_sound [of _ by_name "[n]" helpers] by auto
qed

lemma yields_walk_sound:
  "yields_walk by_name stack seen \<Longrightarrow> \<exists>m\<in>set stack. authored_ref by_name m \<or> has_element by_name m"
proof (induction by_name stack seen rule: yields_walk.induct)
  case (2 by_name n stack seen)
  show ?case
  proof (cases "authored_ref by_name n")
    case False
    then obtain p where p: "map_of by_name n = Some p" "is_helper p" by (auto simp: authored_ref_def split: option.splits)
    show ?thesis
    proof (cases "n \<in> set seen")
      case True
      then show ?thesis using "2.IH"(1) [OF p True] "2.prems" p by (auto simp: yields_walk.simps(2) [of by_name n])
    next
      case False
      then obtain m where m: "m \<in> set (refs_of p @ stack)" "authored_ref by_name m \<or> has_element by_name m"
        using "2.IH"(2) [OF p False] "2.prems" p by (auto simp: yields_walk.simps(2) [of by_name n])
      then show ?thesis using has_element.intros [OF p(1)] by auto
    qed
  qed simp
qed simp

definition helper_in :: "prod_index \<Rightarrow> string set \<Rightarrow> string \<Rightarrow> bool" where
  "helper_in by_name N m \<longleftrightarrow> \<not> authored_ref by_name m \<and> m \<in> N"

definition refs_helpers :: "prod_index \<Rightarrow> string set \<Rightarrow> string \<Rightarrow> bool" where
  "refs_helpers by_name N n \<longleftrightarrow> (\<forall>p. map_of by_name n = Some p \<longrightarrow> (\<forall>m\<in>set (refs_of p). helper_in by_name N m))"

lemma yields_walk_complete:
  "\<not> yields_walk by_name stack seen \<Longrightarrow>
   \<exists>N. set seen \<subseteq> N \<and> (\<forall>m\<in>set stack. helper_in by_name N m) \<and> (\<forall>n\<in>N - set seen. refs_helpers by_name N n)"
proof (induction by_name stack seen rule: yields_walk.induct)
  case (1 by_name seen)
  show ?case by (rule exI [of _ "set seen"]) simp
next
  case (2 by_name n stack seen)
  then obtain p where p: "map_of by_name n = Some p" "is_helper p"
    by (auto simp: yields_walk.simps(2) [of by_name n] split: option.splits if_splits)
  have n: "\<not> authored_ref by_name n" using p by (simp add: authored_ref_def)
  show ?case
  proof (cases "n \<in> set seen")
    case True
    then have "\<not> yields_walk by_name stack seen" using "2.prems" p by (simp add: yields_walk.simps(2) [of by_name n])
    from "2.IH"(1) [OF p True this] obtain N where "set seen \<subseteq> N" "\<forall>m\<in>set stack. helper_in by_name N m" "\<forall>n\<in>N - set seen. refs_helpers by_name N n"
      by blast
    then show ?thesis using True n by (intro exI [of _ N]) (auto simp: helper_in_def)
  next
    case False
    then have "\<not> yields_walk by_name (refs_of p @ stack) (iset_insert n seen)" using "2.prems" p by (simp add: yields_walk.simps(2) [of by_name n])
    from "2.IH"(2) [OF p False this] obtain N where N: "insert n (set seen) \<subseteq> N"
      "\<forall>m\<in>set (refs_of p @ stack). helper_in by_name N m" "\<forall>a\<in>N - insert n (set seen). refs_helpers by_name N a"
      unfolding set_iset_insert by blast
    have "refs_helpers by_name N n" using N(2) p by (simp add: refs_helpers_def)
    then have "\<forall>a\<in>N - set seen. refs_helpers by_name N a" using N(3) by blast
    then show ?thesis using N n by (intro exI [of _ N]) (auto simp: helper_in_def)
  qed
qed

lemma has_element_closed:
  assumes "has_element by_name n" and "\<forall>n\<in>N. refs_helpers by_name N n"
  shows "n \<notin> N"
  using assms(1) by induction (use assms(2) in \<open>auto simp: refs_helpers_def helper_in_def\<close>)

lemma yields_elements_exact: "yields_elements by_name n \<longleftrightarrow> has_element by_name n"
proof (cases "map_of by_name n")
  case None
  then show ?thesis by (auto simp: yields_elements_def elim: has_element.cases)
next
  case (Some p)
  show ?thesis
  proof
    assume "yields_elements by_name n"
    then obtain m where "m \<in> set (refs_of p)" "authored_ref by_name m \<or> has_element by_name m"
      using yields_walk_sound Some by (fastforce simp: yields_elements_def)
    then show "has_element by_name n" using has_element.intros [OF Some] by blast
  next
    assume h: "has_element by_name n"
    show "yields_elements by_name n"
    proof (rule ccontr)
      assume "\<not> yields_elements by_name n"
      then have "\<not> yields_walk by_name (refs_of p) [n]" using Some by (simp add: yields_elements_def)
      from yields_walk_complete [OF this] obtain N where N: "n \<in> N" "\<forall>m\<in>set (refs_of p). helper_in by_name N m" "\<forall>a\<in>N - {n}. refs_helpers by_name N a"
        by auto
      have "refs_helpers by_name N n" using N(2) Some by (simp add: refs_helpers_def)
      then have "\<forall>a\<in>N. refs_helpers by_name N a" using N(3) by blast
      from has_element_closed [OF h this] N(1) show False by blast
    qed
  qed
qed

definition helpers_done :: "prod_index \<Rightarrow> string list \<Rightarrow> bool" where
  "helpers_done by_name hs \<longleftrightarrow> helpers_closed by_name (set hs) (set hs)"

lemma helper_walk_done:
  assumes "helpers_done by_name helpers"
  shows "set (helper_walk by_name [n] helpers) = set helpers \<union> {h. helper_from by_name n h}"
    and "helpers_done by_name (helper_walk by_name [n] helpers)"
  using helper_walk_exact assms unfolding helpers_done_def by blast+

lemma helper_fold_exact:
  "helpers_done by_name hs \<Longrightarrow>
   set (foldl (\<lambda>h r. if yields_elements by_name r then helper_walk by_name [r] h else h) hs rs) =
     set hs \<union> {h. \<exists>r\<in>set rs. has_element by_name r \<and> helper_from by_name r h} \<and>
   helpers_done by_name (foldl (\<lambda>h r. if yields_elements by_name r then helper_walk by_name [r] h else h) hs rs)"
proof (induction rs arbitrary: hs)
  case (Cons r rs)
  show ?case
  proof (cases "has_element by_name r")
    case True
    then show ?thesis
      using Cons.IH [OF helper_walk_done(2) [OF Cons.prems, of r]] helper_walk_done(1) [OF Cons.prems, of r]
      by (simp add: yields_elements_exact) blast
  next
    case False
    then show ?thesis using Cons.IH [OF Cons.prems] by (simp add: yields_elements_exact)
  qed
qed simp

text \<open>The references of an annotated array that are sugar to collect.\<close>

definition collected_refs :: "(string \<times> bool list) list \<Rightarrow> production \<Rightarrow> string set" where
  "collected_refs collect p =
     {r. \<exists>sugar alt k. map_option va_kind (p_value p) = Some ''array'' \<and> map_of collect (origin_of p) = Some sugar \<and>
        alt \<in> set (p_alts p) \<and> k < length sugar \<and> sugar ! k \<and> k < length (List.map_filter ref_name alt) \<and>
        r = List.map_filter ref_name alt ! k}"

lemma set_flagged_refs:
  "set (flagged_refs sugar alt) =
     {r. \<exists>k. k < length sugar \<and> sugar ! k \<and> k < length (List.map_filter ref_name alt) \<and> r = List.map_filter ref_name alt ! k}"
  by (force simp: flagged_refs_def set_zip)

lemma array_helpers_rule_exact:
  assumes "helpers_done by_name hs"
  shows "set (array_helpers_rule by_name collect hs p) =
      set hs \<union> {h. \<exists>r\<in>collected_refs collect p. has_element by_name r \<and> helper_from by_name r h}"
    and "helpers_done by_name (array_helpers_rule by_name collect hs p)"
proof -
  have r: "(\<Union>alt\<in>set (p_alts p). set (flagged_refs sugar alt)) = collected_refs collect p"
    if "map_option va_kind (p_value p) = Some ''array''" "map_of collect (origin_of p) = Some sugar" for sugar
    using that by (auto simp: collected_refs_def set_flagged_refs)
  show "set (array_helpers_rule by_name collect hs p) =
      set hs \<union> {h. \<exists>r\<in>collected_refs collect p. has_element by_name r \<and> helper_from by_name r h}"
  proof (cases "map_option va_kind (p_value p) = Some ''array'' \<and> map_of collect (origin_of p) \<noteq> None")
    case True
    then obtain sugar where s: "map_option va_kind (p_value p) = Some ''array''" "map_of collect (origin_of p) = Some sugar" by auto
    show ?thesis using helper_fold_exact [OF assms, THEN conjunct1, of "concat (map (flagged_refs sugar) (p_alts p))"]
      unfolding r [OF s, symmetric] array_helpers_rule_def s by simp
  next
    case False
    then show ?thesis by (auto simp: array_helpers_rule_def collected_refs_def split: option.splits)
  qed
  show "helpers_done by_name (array_helpers_rule by_name collect hs p)"
    using helper_fold_exact [OF assms, THEN conjunct2] assms by (auto simp: array_helpers_rule_def split: option.split)
qed

lemma array_helpers_fold:
  "helpers_done by_name hs \<Longrightarrow>
   set (foldl (array_helpers_rule by_name collect) hs ps) =
     set hs \<union> {h. \<exists>p\<in>set ps. \<exists>r\<in>collected_refs collect p. has_element by_name r \<and> helper_from by_name r h}"
proof (induction ps arbitrary: hs)
  case (Cons p ps)
  show ?case
    using Cons.IH [OF array_helpers_rule_exact(2) [OF Cons.prems, of collect p]] array_helpers_rule_exact(1) [OF Cons.prems, of collect p]
    by auto
qed simp

section \<open>Results\<close>

text \<open>
  C12: An accepted plan loses no value. Every part of an annotated rule that pushes builds a value
  itself, or leads to no rule that builds one, through whatever sugar and rules it leads; or it is
  sugar an array collects, and then the same holds of each reference inside it.
\<close>

theorem value_plan_keeps:
  assumes "plan_value_annotations g = Inr out" and "p \<in> set (productions g)" and "p_value p = Some v" and "el \<in> set (value_parts p)"
  shows "keeps_values (index_prods (productions g)) v el"
  using check_annotated_Inr(2) [OF plan_rules_check [OF plan_value_annotations_Inr(2) [OF assms(1-3)] assms(2,3)] keyed_index assms(4)] .

definition plan_example :: grammar where
  "plan_example = grammar_new
     [prod_new ''list'' [[el_token ''#LB'', el_star (el_reference ''item''), el_token ''#RB'']]
        \<lparr>p_value := Some \<lparr>va_kind = ''array'', va_members = []\<rparr>\<rparr>,
      prod_new ''item'' [[el_token ''#I'', el_reference ''key'']] \<lparr>p_value := Some (va_object [''name''])\<rparr>,
      prod_new ''key'' [[el_token ''#K'']],
      prod_new ''word'' [[el_reference ''key'', el_token ''#C'']]]"

lemmas plan_eval =
  plan_value_annotations_def index_prods_def Let_def list_ex_iff check_leading_folds_def exempt_alias_def ref_name_def
  resolve_leading_fold_def fold_chain.simps plan_rule_def check_annotated_def value_parts_def pushes_value_def check_count_def
  check_first_def check_text_def builds_value_def reaches_annotated_def reach_walk.simps hidden_annotated.simps collects_values_def
  children_def part_of_def va_object_def SRC_FIELD_def grammar_new_def prod_new_def default_production_def el_token_def el_star_def
  el_group_def el_reference_def el_of_def iset_insert_def

lemma plan_example_run:
  "plan_value_annotations plan_example = Inr
     \<lparr>vp_plan = [(''list'', [False]), (''item'', [False])], vp_collect = [(''list'', [True])]\<rparr>"
  unfolding plan_example_def by (simp add: plan_eval enumerate_eq_zip)

definition list_rule :: production where
  "list_rule = hd (productions plan_example)"

definition word_rule :: production where
  "word_rule = last (productions plan_example)"

lemma plan_example_rules:
  "list_rule \<in> set (productions plan_example)" "p_value list_rule = Some \<lparr>va_kind = ''array'', va_members = []\<rparr>"
  "value_parts list_rule = [el_star (el_reference ''item'')]" "p_name list_rule = ''list''"
  "word_rule \<in> set (productions plan_example)" "p_alts word_rule = [[el_reference ''key'', el_token ''#C'']]"
  "distinct (names (productions plan_example))"
  by (simp_all add: list_rule_def word_rule_def plan_example_def value_parts_def pushes_value_def grammar_new_def prod_new_def
      default_production_def el_token_def el_star_def el_reference_def el_of_def)

lemma value_plan_keeps_witness:
  "keeps_values (index_prods (productions plan_example)) \<lparr>va_kind = ''array'', va_members = []\<rparr> (el_star (el_reference ''item''))"
  by (rule value_plan_keeps [OF plan_example_run plan_example_rules(1,2)]) (simp add: plan_example_rules)

text \<open>
  C13: Where a plan is accepted, no rule the later pass may fold its leading reference into erases a
  value: whatever chain of aliases an alternative begins with, it does not end at a rule that
  builds one.
\<close>

theorem leading_folds_keep_values:
  assumes "plan_value_annotations g = Inr out" and "p \<in> set (productions g)"
    and "\<not> exempt_alias p (find_leading_ref_cycle_members (productions g))"
    and "first # rest \<in> set (p_alts p)" and "ref_name first = Some n"
  shows "\<not> folds_to (index_prods (productions g)) k n h"
  using planned_leading_folds [OF assms] .

lemma leading_folds_keep_values_witness: "\<not> folds_to (index_prods (productions plan_example)) 0 ''key'' ''item''"
proof (rule leading_folds_keep_values [OF plan_example_run plan_example_rules(5)])
  show "\<not> exempt_alias word_rule (find_leading_ref_cycle_members (productions plan_example))"
    by (simp add: exempt_alias_def plan_example_rules)
  show "el_reference ''key'' # [el_token ''#C''] \<in> set (p_alts word_rule)" by (simp add: plan_example_rules)
  show "ref_name (el_reference ''key'') = Some ''key''" by (simp add: ref_name_def el_reference_def el_of_def)
qed

text \<open>
  C14: What an accepted plan says of an annotated rule: the annotation is well formed, one flag
  tells of each part that pushes whether its own rule builds a value, and an array has one more
  for each that tells whether it is sugar to collect.
\<close>

theorem value_plan_exact:
  assumes "plan_value_annotations g = Inr out" and "distinct (names (productions g))" and "p \<in> set (productions g)" and "p_value p = Some v"
  shows "well_annotated p v \<and>
    map_of (vp_plan out) (p_name p) = Some (map (builds_value (index_prods (productions g))) (value_parts p)) \<and>
    map_of (vp_collect out) (p_name p) = (if va_kind v = ''array'' then Some (map collects_values (value_parts p)) else None)"
proof -
  note rules = plan_value_annotations_Inr(2) [OF assms(1,3,4)]
  have "well_annotated p v" using check_annotated_Inr(1) [OF plan_rules_check [OF rules assms(3,4)] keyed_index] .
  then show ?thesis using plan_rules_own [OF rules assms(2-4)] by simp
qed

lemma value_plan_exact_witness:
  "well_annotated list_rule \<lparr>va_kind = ''array'', va_members = []\<rparr> \<and>
   map_of [(''list'', [False]), (''item'', [False])] ''list'' = Some [False] \<and> map_of [(''list'', [True])] ''list'' = Some [True]"
  using value_plan_exact [OF plan_example_run plan_example_rules(7,1,2)]
  by (simp add: plan_example_rules)

text \<open>
  C15: The helpers that fill an annotated array are exactly those reached, through helpers alone, from
  a reference the plan collects, where a rule of the author's stands among them: a repetition of
  terminals alone fills nothing.
\<close>

theorem array_helpers_exact:
  "set (plan_array_helpers g collect) =
     {h. \<exists>p r. p \<in> set (productions g) \<and> r \<in> collected_refs collect p \<and>
        has_element (index_prods (productions g)) r \<and> helper_from (index_prods (productions g)) r h}"
proof -
  have "helpers_done (index_prods (productions g)) []" by (simp add: helpers_done_def helpers_closed_def)
  from array_helpers_fold [OF this, of collect "productions g"] show ?thesis by (auto simp: plan_array_helpers_def)
qed

text \<open>
  Whether an array that reaches itself through its own repetition is refused depends on what the
  repetition names first.
\<close>

definition self_example :: "element \<Rightarrow> element \<Rightarrow> grammar" where
  "self_example x y = grammar_new
     [prod_new ''a'' [[el_token ''#LB'', el_star (el_group [[x], [y]]), el_token ''#RB'']]
        \<lparr>p_value := Some \<lparr>va_kind = ''array'', va_members = []\<rparr>\<rparr>,
      prod_new ''q'' [[el_token ''#Q'']] \<lparr>p_value := Some (va_object [])\<rparr>]"

lemma self_reach_depends_on_order:
  "plan_value_annotations (self_example (el_reference ''q'') (el_reference ''a'')) =
     Inr \<lparr>vp_plan = [(''a'', [False]), (''q'', [])], vp_collect = [(''a'', [True])]\<rparr>"
  "plan_value_annotations (self_example (el_reference ''a'') (el_reference ''q'')) =
     Inl (err_at (TextReachesItself ''a'' (PartElement 1)) ''a'' None)"
  unfolding self_example_def by (simp_all add: plan_eval enumerate_eq_zip)

end
