(* ===== verification/Transduce.thy ===== *)
theory Transduce
  imports Spec_Transforms "HOL-Library.Char_ord"
begin

text \<open>
  The transducer part of an emitted grammar, \<open>rs/src/transduce.rs\<close>: what each rule's value
  actions do, the containers rules hand on when their close replaces them, and the alchemy text,
  or the first reason the documents are read whole. The text of a JSON value is serde's and a
  parameter, \<open>shown\<close>. The theorems: the containers handed on are exactly those a chain of
  replacements carries, a part is only made where no rule contradicts another, and a quoted string
  reads back.
\<close>

section \<open>Entries\<close>

datatype whole_why =
    NoDefinitionName string
  | BuildsDifferently string string
  | ActionUnread string string string
  | HandsOnUndefined string string string
  | HandsOnOther string string string string
  | HandsOnOwn string string string
  | NoKeywordName string
  | OpenReplaces string
  | TextHidesValue string string string
  | NoStartRule
  | StartUnannotated string

datatype transduce_part = TransduceText string string | TransduceWhole whole_why

datatype fills = FillsText | FillsValue

record td_entry =
  te_container :: "string option"
  te_continues :: bool
  te_member :: "string option"
  te_fills :: "fills option"

type_synonym td_entries = "(string \<times> td_entry) list"

definition td_entry_default :: td_entry where
  "td_entry_default = \<lparr>te_container = None, te_continues = False, te_member = None, te_fills = None\<rparr>"

definition VALUE_ACTIONS :: "string list" where
  "VALUE_ACTIONS = [''@object$'', ''@array$'', ''@key$'', ''@setval$'', ''@push$'', ''@value$'', ''@reset$'']"

definition td_is_symbol :: "string \<Rightarrow> bool" where
  "td_is_symbol name \<longleftrightarrow>
     (case name of
        [] \<Rightarrow> False
      | c # _ \<Rightarrow> (is_ascii_alphabetic c \<or> c = CHR ''_'') \<and>
          list_all (\<lambda>c. is_ascii_alphanumeric c \<or> c \<in> set ''_.$-'') name \<and> name \<notin> {''true'', ''false'', ''null''})"

definition td_escape :: "char \<Rightarrow> string" where
  "td_escape c =
     (if c = CHR 0x22 \<or> c = CHR 0x5C then [CHR 0x5C, c]
      else if (of_char c :: nat) < 32 then [CHR 0x5C, CHR ''u'', CHR ''0'', CHR ''0'', hex_lower (of_char c div 16), hex_lower (of_char c mod 16)]
      else [c])"

definition td_quoted :: "string \<Rightarrow> string" where
  "td_quoted text = [CHR 0x22] @ concat (map td_escape text) @ [CHR 0x22]"

definition json_get :: "json \<Rightarrow> string \<Rightarrow> json option" where
  "json_get v key = Option.bind (json_object v) (\<lambda>m. map_of m key)"

definition acts_of :: "(json \<Rightarrow> string) \<Rightarrow> alt_spec \<Rightarrow> (string \<times> json) list \<times> string" where
  "acts_of shown alt =
     (let acts =
        map (\<lambda>a. (a, case Option.bind (alt_k alt) (\<lambda>k. map_of k (tl a)) of Some v \<Rightarrow> v | None \<Rightarrow> JNull))
          (filter (\<lambda>a. a \<in> set VALUE_ACTIONS) (alt_actions alt))
      in (acts, concat (map (\<lambda>(a, cfg). a @ '' '' @ shown cfg @ '';'') acts)))"

definition spec_rule :: "'f grammar_spec \<Rightarrow> string \<Rightarrow> rule_spec option" where
  "spec_rule spec name = Option.bind (map_of (gs_rule spec) name) id"

definition spec_alts :: "'f grammar_spec \<Rightarrow> string \<Rightarrow> string \<Rightarrow> alt_spec list" where
  "spec_alts spec name side = (case spec_rule spec name of Some r \<Rightarrow> rule_alts r side | None \<Rightarrow> [])"

text \<open>The names of the rules that are defined, in byte order.\<close>

definition defined_names :: "'f grammar_spec \<Rightarrow> string list" where
  "defined_names spec = sort (map fst (filter (\<lambda>(_, rs). rs \<noteq> None) (gs_rule spec)))"

fun side_acts ::
    "(json \<Rightarrow> string) \<Rightarrow> string \<Rightarrow> string \<Rightarrow> ((string \<times> json) list \<times> string) option \<Rightarrow> alt_spec list
     \<Rightarrow> (whole_why, (string \<times> json) list) result" where
  "side_acts shown name side first [] = Inr (case first of None \<Rightarrow> [] | Some (acts, _) \<Rightarrow> acts)"
| "side_acts shown name side first (alt # alts) =
     (case first of
        None \<Rightarrow> side_acts shown name side (Some (acts_of shown alt)) alts
      | Some (_, signature) \<Rightarrow>
          if snd (acts_of shown alt) \<noteq> signature then Inl (BuildsDifferently name side)
          else side_acts shown name side first alts)"

definition entry_act :: "string \<Rightarrow> string \<Rightarrow> td_entry \<Rightarrow> string \<times> json \<Rightarrow> (whole_why, td_entry) result" where
  "entry_act name side entry x =
     (case x of
        (act, cfg) \<Rightarrow>
          let lit = Option.bind (json_get cfg ''lit'') json_str
          in if act \<in> {''@object$'', ''@array$''} \<and> side = ''open'' \<and> te_container entry = None
             then Inr (entry\<lparr>te_container := Some (if act = ''@object$'' then ''object'' else ''array'')\<rparr>)
             else if act = ''@key$'' \<and> side = ''open'' \<and> lit \<noteq> None \<and> te_member entry = None
             then Inr (entry\<lparr>te_member := lit\<rparr>)
             else if act \<in> {''@setval$'', ''@push$''} \<and> side = ''close'' \<and> te_fills entry = None
             then Inr (entry\<lparr>te_fills := Some (if json_get cfg ''src'' = Some (JBool True) then FillsText else FillsValue)\<rparr>)
             else Inl (ActionUnread name side act))"

definition side_entry :: "(json \<Rightarrow> string) \<Rightarrow> 'f grammar_spec \<Rightarrow> string \<Rightarrow> td_entry \<Rightarrow> string \<Rightarrow> (whole_why, td_entry) result" where
  "side_entry shown spec name entry side =
     res_bind (side_acts shown name side None (spec_alts spec name side)) (\<lambda>acts. res_fold (entry_act name side) entry acts)"

text \<open>A \<open>BTreeMap\<close>: its keys stay in byte order.\<close>

fun btree_insert :: "string \<Rightarrow> 'v \<Rightarrow> (string \<times> 'v) list \<Rightarrow> (string \<times> 'v) list" where
  "btree_insert k v [] = [(k, v)]"
| "btree_insert k v ((k', v') # m) =
     (if k = k' then (k, v) # m else if k < k' then (k, v) # (k', v') # m else (k', v') # btree_insert k v m)"

lemma map_of_btree_insert [simp]: "map_of (btree_insert k v m) k' = (if k' = k then Some v else map_of m k')"
  by (induction m) auto

definition add_entry :: "(json \<Rightarrow> string) \<Rightarrow> 'f grammar_spec \<Rightarrow> td_entries \<Rightarrow> string \<Rightarrow> (whole_why, td_entries) result" where
  "add_entry shown spec entries name =
     res_bind (res_fold (side_entry shown spec name) td_entry_default [''open'', ''close''])
       (\<lambda>entry. Inr
          (if te_container entry \<noteq> None \<or> te_member entry \<noteq> None \<or> te_fills entry \<noteq> None then btree_insert name entry entries
           else entries))"

definition own_entries :: "(json \<Rightarrow> string) \<Rightarrow> 'f grammar_spec \<Rightarrow> (whole_why, td_entries) result" where
  "own_entries shown spec = res_fold (add_entry shown spec) [] (defined_names spec)"

section \<open>Containers handed on\<close>

definition container_of :: "td_entries \<Rightarrow> string \<Rightarrow> string option" where
  "container_of entries name = Option.bind (map_of entries name) te_container"

definition nonempty_name :: "string option \<Rightarrow> string option" where
  "nonempty_name x = (case x of Some n \<Rightarrow> if n = [] then None else Some n | None \<Rightarrow> None)"

definition hand_alt :: "'f grammar_spec \<Rightarrow> string \<Rightarrow> string \<Rightarrow> td_entries \<times> bool \<Rightarrow> alt_spec \<Rightarrow> (whole_why, td_entries \<times> bool) result" where
  "hand_alt spec name container st alt =
     (case (nonempty_name (alt_r alt), st) of
        (None, _) \<Rightarrow> Inr st
      | (Some target_name, (entries, changed)) \<Rightarrow>
          if spec_rule spec target_name = None then Inl (HandsOnUndefined name container target_name)
          else
            let target = (case map_of entries target_name of Some e \<Rightarrow> e | None \<Rightarrow> td_entry_default)
            in (case te_container target of
                  None \<Rightarrow> Inr (btree_insert target_name (target\<lparr>te_container := Some container, te_continues := True\<rparr>) entries, True)
                | Some kind \<Rightarrow>
                    if kind \<noteq> container then Inl (HandsOnOther name container target_name kind)
                    else if \<not> te_continues target then Inl (HandsOnOwn name container target_name)
                    else Inr st))"

definition hand_rule :: "'f grammar_spec \<Rightarrow> td_entries \<times> bool \<Rightarrow> string \<Rightarrow> (whole_why, td_entries \<times> bool) result" where
  "hand_rule spec st name =
     (case container_of (fst st) name of
        None \<Rightarrow> Inr st
      | Some container \<Rightarrow> res_fold (hand_alt spec name container) st (spec_alts spec name ''close''))"

definition hand_pass :: "'f grammar_spec \<Rightarrow> td_entries \<Rightarrow> (whole_why, td_entries \<times> bool) result" where
  "hand_pass spec entries = res_fold (hand_rule spec) (entries, False) (defined_names spec)"

text \<open>Each pass that changes anything gives a container to a defined rule that had none.\<close>

definition containerless :: "'f grammar_spec \<Rightarrow> td_entries \<Rightarrow> string set" where
  "containerless spec entries = {n. spec_rule spec n \<noteq> None \<and> container_of entries n = None}"

lemma finite_containerless [simp]: "finite (containerless spec entries)"
proof (rule finite_subset)
  show "containerless spec entries \<subseteq> fst ` set (gs_rule spec)"
    by (force simp: containerless_def spec_rule_def dest: map_of_SomeD split: bind_splits)
qed simp

definition fewer_containerless :: "'f grammar_spec \<Rightarrow> td_entries \<times> bool \<Rightarrow> td_entries \<times> bool \<Rightarrow> bool" where
  "fewer_containerless spec st st' \<longleftrightarrow>
     containerless spec (fst st') \<subseteq> containerless spec (fst st) \<and>
     (snd st \<longrightarrow> snd st') \<and> (snd st' \<and> \<not> snd st \<longrightarrow> containerless spec (fst st') \<subset> containerless spec (fst st))"

lemma fewer_containerless_refl [simp]: "fewer_containerless spec st st"
  by (simp add: fewer_containerless_def)

lemma fewer_containerless_trans:
  "fewer_containerless spec st st' \<Longrightarrow> fewer_containerless spec st' st'' \<Longrightarrow> fewer_containerless spec st st''"
  unfolding fewer_containerless_def by blast

lemma hand_alt_fewer: "hand_alt spec name container st alt = Inr st' \<Longrightarrow> fewer_containerless spec st st'"
  by (auto simp: hand_alt_def Let_def fewer_containerless_def containerless_def container_of_def td_entry_default_def
      split: option.splits if_splits prod.splits bind_splits)

lemma res_fold_relation:
  assumes "res_fold f s xs = Inr t" and "\<And>s. R s s" and "\<And>s t u. R s t \<Longrightarrow> R t u \<Longrightarrow> R s u"
    and "\<And>s x t. x \<in> set xs \<Longrightarrow> f s x = Inr t \<Longrightarrow> R s t"
  shows "R s t"
  using assms(1,4)
proof (induction xs arbitrary: s)
  case Nil
  then show ?case using assms(2) by simp
next
  case (Cons x xs)
  then obtain s' where s': "f s x = Inr s'" "res_fold f s' xs = Inr t" by (auto simp: res_bind_Inr_iff)
  have "R s s'" by (rule Cons.prems(2) [OF _ s'(1)]) simp
  moreover have "R s' t" by (rule Cons.IH [OF s'(2)], rule Cons.prems(2)) simp_all
  ultimately show ?case by (rule assms(3))
qed

lemma hand_rule_fewer: "hand_rule spec st name = Inr st' \<Longrightarrow> fewer_containerless spec st st'"
  unfolding hand_rule_def
  by (auto split: option.splits intro: res_fold_relation [where R = "fewer_containerless spec"] fewer_containerless_trans hand_alt_fewer)

lemma hand_pass_fewer: "hand_pass spec entries = Inr st' \<Longrightarrow> fewer_containerless spec (entries, False) st'"
  unfolding hand_pass_def
  by (rule res_fold_relation [where R = "fewer_containerless spec"]) (auto intro: fewer_containerless_trans hand_rule_fewer)

function hand_loop :: "'f grammar_spec \<Rightarrow> td_entries \<Rightarrow> (whole_why, td_entries) result" where
  "hand_loop spec entries =
     res_bind (hand_pass spec entries) (\<lambda>(entries', changed). if changed then hand_loop spec entries' else Inr entries')"
  by pat_completeness auto
termination
  by (relation "measure (\<lambda>(spec, entries). card (containerless spec entries))")
    (auto dest!: hand_pass_fewer simp: fewer_containerless_def intro!: psubset_card_mono)

declare hand_loop.simps [simp del]

section \<open>Refusals\<close>

definition check_keywords :: "td_entries \<Rightarrow> (whole_why, unit) result" where
  "check_keywords entries =
     (case find (\<lambda>r. \<not> td_is_symbol r) (map fst entries) of Some bad \<Rightarrow> Inl (NoKeywordName bad) | None \<Rightarrow> Inr ())"

definition check_closes :: "'f grammar_spec \<Rightarrow> string \<times> td_entry \<Rightarrow> (whole_why, unit) result" where
  "check_closes spec x =
     (case x of
        (name, entry) \<Rightarrow>
          if te_container entry = None \<and> te_fills entry \<noteq> Some FillsText then Inr ()
          else if list_ex (\<lambda>alt. nonempty_name (alt_r alt) \<noteq> None) (spec_alts spec name ''open'') then Inl (OpenReplaces name)
          else Inr ())"

text \<open>The rules the alternates of a rule push and are replaced with.\<close>

definition alt_leads :: "alt_spec \<Rightarrow> string list" where
  "alt_leads alt = List.map_filter nonempty_name [alt_p alt, alt_r alt]"

definition rule_leads :: "'f grammar_spec \<Rightarrow> string \<Rightarrow> string list" where
  "rule_leads spec name = concat (map (\<lambda>side. concat (map alt_leads (spec_alts spec name side))) [''open'', ''close''])"

definition unseen_rules :: "'f grammar_spec \<Rightarrow> string list \<Rightarrow> string set" where
  "unseen_rules spec seen = {n. spec_rule spec n \<noteq> None \<and> n \<notin> set seen}"

lemma finite_unseen_rules [simp]: "finite (unseen_rules spec seen)"
proof (rule finite_subset)
  show "unseen_rules spec seen \<subseteq> fst ` set (gs_rule spec)"
    by (force simp: unseen_rules_def spec_rule_def dest: map_of_SomeD split: bind_splits)
qed simp

lemma unseen_rules_less:
  "spec_rule spec n = Some r \<Longrightarrow> n \<notin> set seen \<Longrightarrow> card (unseen_rules spec (iset_insert n seen)) < card (unseen_rules spec seen)"
  by (rule psubset_card_mono, rule finite_unseen_rules) (auto simp: unseen_rules_def)

function beneath_walk :: "'f grammar_spec \<Rightarrow> td_entries \<Rightarrow> string list \<Rightarrow> string list \<Rightarrow> string option" where
  "beneath_walk spec entries [] seen = None"
| "beneath_walk spec entries (name # stack) seen =
     (if name \<in> set seen then beneath_walk spec entries stack seen
      else
        (case spec_rule spec name of
           None \<Rightarrow> beneath_walk spec entries stack seen
         | Some _ \<Rightarrow>
             if map_of entries name \<noteq> None then Some name
             else beneath_walk spec entries (rule_leads spec name @ stack) (iset_insert name seen)))"
  by pat_completeness auto
termination
  by (relation "measures [\<lambda>(spec, _, _, seen). card (unseen_rules spec seen), \<lambda>(_, _, stack, _). length stack]")
    (auto intro: unseen_rules_less)

declare beneath_walk.simps(2) [simp del]

definition beneath :: "'f grammar_spec \<Rightarrow> td_entries \<Rightarrow> string \<Rightarrow> string option" where
  "beneath spec entries start = beneath_walk spec entries [start] []"

definition check_texts :: "'f grammar_spec \<Rightarrow> td_entries \<Rightarrow> string \<times> td_entry \<Rightarrow> (whole_why, unit) result" where
  "check_texts spec entries x =
     (case x of
        (name, entry) \<Rightarrow>
          if te_fills entry \<noteq> Some FillsText then Inr ()
          else
            res_check
              (\<lambda>alt.
                 case nonempty_name (alt_p alt) of
                   None \<Rightarrow> Inr ()
                 | Some pushed \<Rightarrow>
                     (case beneath spec entries pushed of
                        None \<Rightarrow> Inr ()
                      | Some found \<Rightarrow> Inl (TextHidesValue name pushed found)))
              (spec_alts spec name ''open''))"

text \<open>The first rule the start wrapper pushes.\<close>

definition start_of :: "'f grammar_spec \<Rightarrow> string option" where
  "start_of spec =
     Option.bind (Option.bind (Option.bind (map_of (gs_options spec) ''rule'') (\<lambda>r. json_get r ''start'')) json_str)
       (\<lambda>w. if spec_rule spec w = None then None else first_some (\<lambda>alt. nonempty_name (alt_p alt)) (spec_alts spec w ''open''))"

section \<open>The text\<close>

definition entry_fields :: "td_entry \<Rightarrow> string list" where
  "entry_fields e =
     (case te_container e of Some c \<Rightarrow> [''(entry :container :'' @ c @ '')''] | None \<Rightarrow> []) @
     (case te_member e of Some m \<Rightarrow> [''(entry :member '' @ td_quoted m @ '')''] | None \<Rightarrow> []) @
     (if te_fills e = Some FillsText then [''(entry :text true)''] else [])"

definition entry_line :: "string \<times> td_entry \<Rightarrow> string list" where
  "entry_line x =
     (case x of
        (rule, e) \<Rightarrow>
          if entry_fields e = [] then []
          else [''      entry :'' @ rule @ '' (record '' @ join '' '' (entry_fields e) @ '')''])"

definition transduce_lines :: "string \<Rightarrow> td_entries \<Rightarrow> string list" where
  "transduce_lines name entries =
     [''; The transducer part of the grammar '' @ name @ '': the JSON events of the value'',
      ''; its @object and @array annotations build, from its rule passes, as'',
      ''; tabnas-bnf wrote them from the value actions those annotations attach.'',
      ''def '' @ name @ ''-transduce [input]'',
      ''  transduce-tree'',
      ''    record''] @
     concat (map entry_line entries) @ [''    input'', []]"

definition transduce_entries :: "(json \<Rightarrow> string) \<Rightarrow> 'f grammar_spec \<Rightarrow> string \<Rightarrow> (whole_why, td_entries) result" where
  "transduce_entries shown spec name =
     (if \<not> td_is_symbol name then Inl (NoDefinitionName name)
      else
        res_bind (own_entries shown spec) (\<lambda>own.
        res_bind (hand_loop spec own) (\<lambda>entries.
        res_bind (check_keywords entries) (\<lambda>_.
        res_bind (res_check (check_closes spec) entries) (\<lambda>_.
        res_bind (res_check (check_texts spec entries) entries) (\<lambda>_.
          case start_of spec of
            None \<Rightarrow> Inl NoStartRule
          | Some start \<Rightarrow>
              (case map_of entries start of
                 None \<Rightarrow> Inl (StartUnannotated start)
               | Some root \<Rightarrow>
                   if te_container root \<noteq> None \<and> \<not> te_continues root then Inr entries else Inl (StartUnannotated start))))))))"

definition transduce_alc :: "(json \<Rightarrow> string) \<Rightarrow> 'f grammar_spec \<Rightarrow> string \<Rightarrow> transduce_part" where
  "transduce_alc shown spec name =
     (case transduce_entries shown spec name of
        Inl why \<Rightarrow> TransduceWhole why
      | Inr entries \<Rightarrow> TransduceText (name @ ''-transduce'') (join [CHR 0x0A] (transduce_lines name entries)))"

section \<open>What is handed on\<close>

definition hands_on :: "'f grammar_spec \<Rightarrow> (string \<times> string) set" where
  "hands_on spec = {(n, m). \<exists>alt\<in>set (spec_alts spec n ''close''). nonempty_name (alt_r alt) = Some m}"

definition continues :: "td_entries \<Rightarrow> string \<Rightarrow> bool" where
  "continues entries n \<longleftrightarrow> (case map_of entries n of Some e \<Rightarrow> te_continues e | None \<Rightarrow> False)"

lemma container_of_insert [simp]:
  "container_of (btree_insert k e m) n = (if n = k then te_container e else container_of m n)"
  by (simp add: container_of_def)

lemma continues_insert [simp]: "continues (btree_insert k e m) n \<longleftrightarrow> (if n = k then te_continues e else continues m n)"
  by (simp add: continues_def)

text \<open>Every container is the rule's own or comes down a chain of replacements from one that is.\<close>

definition handed :: "'f grammar_spec \<Rightarrow> td_entries \<Rightarrow> td_entries \<Rightarrow> bool" where
  "handed spec own entries \<longleftrightarrow>
     (\<forall>n c. container_of own n = Some c \<longrightarrow> container_of entries n = Some c) \<and>
     (\<forall>m c. container_of entries m = Some c \<longrightarrow>
        (\<exists>n. container_of own n = Some c \<and> (n, m) \<in> (hands_on spec)\<^sup>*) \<and> (continues entries m \<longleftrightarrow> container_of own m = None)) \<and>
     (\<forall>n. map_of own n \<noteq> None \<longrightarrow> map_of entries n \<noteq> None)"

lemma hand_alt_handed:
  assumes "hand_alt spec name c (entries, ch) alt = Inr (entries', ch')" and "alt \<in> set (spec_alts spec name ''close'')"
    and "handed spec own entries" and "container_of entries name = Some c"
  shows "handed spec own entries' \<and> container_of entries' name = Some c"
proof (cases "entries' = entries")
  case False
  then obtain m e where m: "nonempty_name (alt_r alt) = Some m" "container_of entries m = None"
    "entries' = btree_insert m (e\<lparr>te_container := Some c, te_continues := True\<rparr>) entries"
    using assms(1) by (auto simp: hand_alt_def Let_def container_of_def split: option.splits if_splits)
  obtain n where n: "container_of own n = Some c" "(n, name) \<in> (hands_on spec)\<^sup>*"
    using assms(3,4) unfolding handed_def by blast
  have "(name, m) \<in> hands_on spec" using m(1) assms(2) by (auto simp: hands_on_def)
  then have "(n, m) \<in> (hands_on spec)\<^sup>*" using n(2) by simp
  moreover have "container_of own m = None" using assms(3) m(2) unfolding handed_def by (cases "container_of own m") auto
  moreover have "m \<noteq> name" using m(2) assms(4) by auto
  ultimately show ?thesis using assms(3,4) n(1) m(3) unfolding handed_def by (auto simp: m(3))
qed (use assms in simp)

lemma hand_alts_handed:
  "res_fold (hand_alt spec name c) st alts = Inr st' \<Longrightarrow> set alts \<subseteq> set (spec_alts spec name ''close'') \<Longrightarrow>
   handed spec own (fst st) \<Longrightarrow> container_of (fst st) name = Some c \<Longrightarrow> handed spec own (fst st')"
proof (induction alts arbitrary: st)
  case (Cons alt alts)
  obtain e1 c1 where 1: "hand_alt spec name c (fst st, snd st) alt = Inr (e1, c1)" "res_fold (hand_alt spec name c) (e1, c1) alts = Inr st'"
    using Cons.prems(1) by (auto simp: res_bind_Inr_iff)
  have "handed spec own e1 \<and> container_of e1 name = Some c" using hand_alt_handed [OF 1(1)] Cons.prems by simp
  then show ?case using Cons.IH [OF 1(2)] Cons.prems(2) by simp
qed simp

lemma hand_pass_handed:
  assumes "hand_pass spec entries = Inr (entries', ch)" and "handed spec own entries"
  shows "handed spec own entries'"
proof -
  have "handed spec own (fst st')" if "res_fold (hand_rule spec) st ns = Inr st'" "handed spec own (fst st)" for st st' ns
    using that
  proof (induction ns arbitrary: st)
    case (Cons n ns)
    obtain st1 where 1: "hand_rule spec st n = Inr st1" "res_fold (hand_rule spec) st1 ns = Inr st'"
      using Cons.prems(1) by (auto simp: res_bind_Inr_iff)
    have "handed spec own (fst st1)"
      using 1(1) Cons.prems(2) by (auto simp: hand_rule_def split: option.splits intro: hand_alts_handed)
    then show ?case using Cons.IH [OF 1(2)] by simp
  qed simp
  from this [of "(entries, False)" "defined_names spec" "(entries', ch)"] assms show ?thesis by (simp add: hand_pass_def)
qed

text \<open>A pass that changes nothing finds every replacement already carrying the container on.\<close>

definition hands_right :: "'f grammar_spec \<Rightarrow> td_entries \<Rightarrow> string \<Rightarrow> alt_spec \<Rightarrow> bool" where
  "hands_right spec entries c alt \<longleftrightarrow>
     (\<forall>m. nonempty_name (alt_r alt) = Some m \<longrightarrow> spec_rule spec m \<noteq> None \<and> container_of entries m = Some c \<and> continues entries m)"

lemma hand_alts_still:
  "res_fold (hand_alt spec name c) st alts = Inr (entries, False) \<Longrightarrow> st = (entries, False) \<and> (\<forall>alt\<in>set alts. hands_right spec entries c alt)"
proof (induction alts arbitrary: st)
  case (Cons alt alts)
  obtain st1 where 1: "hand_alt spec name c st alt = Inr st1" "res_fold (hand_alt spec name c) st1 alts = Inr (entries, False)"
    using Cons.prems by (auto simp: res_bind_Inr_iff)
  have rest: "st1 = (entries, False)" "\<forall>alt\<in>set alts. hands_right spec entries c alt" using Cons.IH [OF 1(2)] by auto
  have "st = (entries, False) \<and> hands_right spec entries c alt"
    using 1(1) rest(1)
    by (auto simp: hand_alt_def hands_right_def Let_def container_of_def continues_def td_entry_default_def split: option.splits if_splits prod.splits)
  then show ?case using rest by simp
qed simp

lemma hand_pass_still:
  assumes "hand_pass spec entries = Inr (entries', False)"
  shows "entries' = entries"
    and "container_of entries n = Some c \<Longrightarrow> (n, m) \<in> hands_on spec \<Longrightarrow> spec_rule spec m \<noteq> None \<and> container_of entries m = Some c \<and> continues entries m"
proof -
  have still: "st = (entries', False) \<and>
      (\<forall>n\<in>set ns. \<forall>c. container_of entries' n = Some c \<longrightarrow> (\<forall>alt\<in>set (spec_alts spec n ''close''). hands_right spec entries' c alt))"
    if "res_fold (hand_rule spec) st ns = Inr (entries', False)" for st ns
    using that
  proof (induction ns arbitrary: st)
    case (Cons n ns)
    obtain st1 where 1: "hand_rule spec st n = Inr st1" "res_fold (hand_rule spec) st1 ns = Inr (entries', False)"
      using Cons.prems by (auto simp: res_bind_Inr_iff)
    have st1: "st1 = (entries', False)" using Cons.IH [OF 1(2)] by simp
    have "st = (entries', False) \<and> (\<forall>c. container_of entries' n = Some c \<longrightarrow> (\<forall>alt\<in>set (spec_alts spec n ''close''). hands_right spec entries' c alt))"
      using 1(1) st1 by (auto simp: hand_rule_def dest!: hand_alts_still split: option.splits)
    then show ?case using Cons.IH [OF 1(2)] by simp
  qed simp
  note all = still [OF assms [unfolded hand_pass_def]]
  then show same: "entries' = entries" by simp
  assume c: "container_of entries n = Some c" and e: "(n, m) \<in> hands_on spec"
  obtain alt where alt: "alt \<in> set (spec_alts spec n ''close'')" "nonempty_name (alt_r alt) = Some m" using e by (auto simp: hands_on_def)
  have "n \<in> set (defined_names spec)"
    using alt(1) by (force simp: spec_alts_def spec_rule_def defined_names_def dest: map_of_SomeD split: option.splits bind_splits)
  then have "hands_right spec entries c alt" using all c alt(1) same by blast
  then show "spec_rule spec m \<noteq> None \<and> container_of entries m = Some c \<and> continues entries m" using alt(2) by (simp add: hands_right_def)
qed

lemma hand_loop_exact:
  "hand_loop spec entries = Inr entries' \<Longrightarrow> handed spec own entries \<Longrightarrow>
   handed spec own entries' \<and>
   (\<forall>n c m. container_of entries' n = Some c \<longrightarrow> (n, m) \<in> hands_on spec \<longrightarrow>
      spec_rule spec m \<noteq> None \<and> container_of entries' m = Some c \<and> continues entries' m)"
proof (induction spec entries rule: hand_loop.induct)
  case (1 spec entries)
  obtain e ch where e: "hand_pass spec entries = Inr (e, ch)" "(if ch then hand_loop spec e else Inr e) = Inr entries'"
    using "1.prems"(1) by (auto simp: hand_loop.simps [of spec entries] res_bind_Inr_iff)
  have h: "handed spec own e" using hand_pass_handed [OF e(1) "1.prems"(2)] .
  show ?case
  proof (cases ch)
    case True
    then have "hand_loop spec e = Inr entries'" using e(2) by simp
    from "1.IH" [OF e(1) refl True this h] show ?thesis .
  next
    case False
    then have same: "e = entries'" "hand_pass spec entries = Inr (entries', False)" using e by auto
    have "entries = entries'" using hand_pass_still(1) [OF same(2)] by simp
    then show ?thesis using hand_pass_still(2) [OF same(2)] h same(1) by blast
  qed
qed

section \<open>What stands beneath\<close>

definition leads :: "'f grammar_spec \<Rightarrow> (string \<times> string) set" where
  "leads spec = {(n, m). m \<in> set (rule_leads spec n)}"

definition valueless :: "'f grammar_spec \<Rightarrow> td_entries \<Rightarrow> string \<Rightarrow> bool" where
  "valueless spec entries n \<longleftrightarrow> spec_rule spec n = None \<or> map_of entries n = None"

lemma beneath_walk_sound:
  "beneath_walk spec entries stack seen = Some m \<Longrightarrow> \<exists>n\<in>set stack. (n, m) \<in> (leads spec)\<^sup>* \<and> \<not> valueless spec entries m"
proof (induction spec entries stack seen rule: beneath_walk.induct)
  case (2 spec entries name stack seen)
  consider (skip) "name \<in> set seen \<or> spec_rule spec name = None" "beneath_walk spec entries stack seen = Some m"
    | (here) "m = name" "\<not> valueless spec entries name"
    | (down) r where "name \<notin> set seen" "spec_rule spec name = Some r" "map_of entries name = None"
        "beneath_walk spec entries (rule_leads spec name @ stack) (iset_insert name seen) = Some m"
    using "2.prems" by (auto simp: beneath_walk.simps(2) [of spec entries name] valueless_def split: if_splits option.splits)
  then show ?case
  proof cases
    case skip
    then show ?thesis using "2.IH"(1,2) by (cases "name \<in> set seen") auto
  next
    case here
    then show ?thesis by auto
  next
    case down
    obtain n where n: "n \<in> set (rule_leads spec name @ stack)" "(n, m) \<in> (leads spec)\<^sup>*" "\<not> valueless spec entries m"
      using "2.IH"(3) [OF down(1,2) _ down(4)] down(3) by auto
    show ?thesis
    proof (cases "n \<in> set stack")
      case False
      then have "(name, n) \<in> leads spec" using n(1) by (simp add: leads_def)
      then have "(name, m) \<in> (leads spec)\<^sup>*" using n(2) by simp
      then show ?thesis using n(3) by auto
    qed (use n in auto)
  qed
qed simp

lemma beneath_walk_complete:
  "beneath_walk spec entries stack seen = None \<Longrightarrow>
   \<exists>N. set seen \<subseteq> N \<and> set stack \<subseteq> N \<and> (\<forall>n\<in>N - set seen. valueless spec entries n \<and> set (rule_leads spec n) \<subseteq> N)"
proof (induction spec entries stack seen rule: beneath_walk.induct)
  case (1 spec entries seen)
  show ?case by (rule exI [of _ "set seen"]) simp
next
  case (2 spec entries name stack seen)
  consider (seen) "name \<in> set seen" "beneath_walk spec entries stack seen = None"
    | (undefined) "name \<notin> set seen" "spec_rule spec name = None" "beneath_walk spec entries stack seen = None"
    | (down) r where "name \<notin> set seen" "spec_rule spec name = Some r" "map_of entries name = None"
        "beneath_walk spec entries (rule_leads spec name @ stack) (iset_insert name seen) = None"
    using "2.prems" by (auto simp: beneath_walk.simps(2) [of spec entries name] split: if_splits option.splits)
  then show ?case
  proof cases
    case seen
    from "2.IH"(1) [OF seen] obtain N where N: "set seen \<subseteq> N" "set stack \<subseteq> N"
      "\<forall>n\<in>N - set seen. valueless spec entries n \<and> set (rule_leads spec n) \<subseteq> N" by blast
    show ?thesis by (rule exI [of _ N]) (use N seen in auto)
  next
    case undefined
    from "2.IH"(2) [OF undefined] obtain N where N: "set seen \<subseteq> N" "set stack \<subseteq> N"
      "\<forall>n\<in>N - set seen. valueless spec entries n \<and> set (rule_leads spec n) \<subseteq> N" by blast
    have none: "valueless spec entries name" "rule_leads spec name = []"
      using undefined(2) by (simp_all add: valueless_def rule_leads_def spec_alts_def)
    show ?thesis by (rule exI [of _ "insert name N"]) (use N none in auto)
  next
    case down
    have "\<not> map_of entries name \<noteq> None" using down(3) by simp
    from "2.IH"(3) [OF down(1,2) this down(4)] obtain N where N: "set (iset_insert name seen) \<subseteq> N" "set (rule_leads spec name @ stack) \<subseteq> N"
      "\<forall>n\<in>N - set (iset_insert name seen). valueless spec entries n \<and> set (rule_leads spec n) \<subseteq> N" by blast
    have "valueless spec entries name" using down(3) by (simp add: valueless_def)
    then have "\<forall>n\<in>N - set seen. valueless spec entries n \<and> set (rule_leads spec n) \<subseteq> N" using N by auto
    then show ?thesis using N(1,2) by (intro exI [of _ N]) auto
  qed
qed

lemma beneath_None: "beneath spec entries start = None \<longleftrightarrow> (\<forall>m. (start, m) \<in> (leads spec)\<^sup>* \<longrightarrow> valueless spec entries m)"
proof
  assume "beneath spec entries start = None"
  then have "beneath_walk spec entries [start] [] = None" by (simp add: beneath_def)
  from beneath_walk_complete [OF this] obtain N where N: "start \<in> N" "\<forall>n\<in>N. valueless spec entries n \<and> set (rule_leads spec n) \<subseteq> N"
    by auto
  have "m \<in> N" if "(start, m) \<in> (leads spec)\<^sup>*" for m
    using that by (induction rule: rtrancl_induct) (use N in \<open>auto simp: leads_def\<close>)
  then show "\<forall>m. (start, m) \<in> (leads spec)\<^sup>* \<longrightarrow> valueless spec entries m" using N(2) by blast
next
  assume a: "\<forall>m. (start, m) \<in> (leads spec)\<^sup>* \<longrightarrow> valueless spec entries m"
  show "beneath spec entries start = None"
  proof (cases "beneath spec entries start")
    case (Some m)
    then show ?thesis using beneath_walk_sound [of spec entries "[start]" "[]" m] a by (auto simp: beneath_def)
  qed
qed

section \<open>Results\<close>

lemma entry_act_continues: "entry_act name side entry x = Inr entry' \<Longrightarrow> te_continues entry' = te_continues entry"
  by (auto simp: entry_act_def Let_def split: prod.splits if_splits)

lemma own_entries_begin:
  assumes "own_entries shown spec = Inr own"
  shows "\<not> continues own n"
proof -
  have side: "\<not> te_continues entry \<Longrightarrow> side_entry shown spec name entry side = Inr entry' \<Longrightarrow> \<not> te_continues entry'" for name side entry entry'
  proof -
    assume e: "\<not> te_continues entry" "side_entry shown spec name entry side = Inr entry'"
    then obtain acts where "res_fold (entry_act name side) entry acts = Inr entry'" by (auto simp: side_entry_def res_bind_Inr_iff)
    from res_fold_invariant [where P = "\<lambda>e. \<not> te_continues e", OF this e(1)] show "\<not> te_continues entry'"
      by (simp add: entry_act_continues)
  qed
  have entry: "res_fold (side_entry shown spec name) td_entry_default [''open'', ''close''] = Inr e \<Longrightarrow> \<not> te_continues e" for name e
  proof -
    assume "res_fold (side_entry shown spec name) td_entry_default [''open'', ''close''] = Inr e"
    then obtain e1 where "side_entry shown spec name td_entry_default ''open'' = Inr e1" "side_entry shown spec name e1 ''close'' = Inr e"
      by (auto simp: res_bind_Inr_iff)
    then show "\<not> te_continues e" using side [of td_entry_default name "''open''" e1] side [of e1 name "''close''" e]
      by (simp add: td_entry_default_def)
  qed
  have add: "(\<forall>n. \<not> continues es n) \<Longrightarrow> add_entry shown spec es name = Inr es' \<Longrightarrow> \<forall>n. \<not> continues es' n" for es es' name
  proof -
    assume a: "\<forall>n. \<not> continues es n" "add_entry shown spec es name = Inr es'"
    obtain e where e: "res_fold (side_entry shown spec name) td_entry_default [''open'', ''close''] = Inr e"
      "es' = es \<or> es' = btree_insert name e es"
      using a(2) unfolding add_entry_def res_bind_Inr_iff by (auto split: if_splits)
    show "\<forall>n. \<not> continues es' n" using e(2) a(1) entry [OF e(1)] by (auto split: if_splits)
  qed
  have "\<forall>n. \<not> continues own n"
    using res_fold_invariant [where P = "\<lambda>es. \<forall>n. \<not> continues es n", OF assms [unfolded own_entries_def]] add by (simp add: continues_def)
  then show ?thesis by simp
qed

lemma own_handed: "own_entries shown spec = Inr own \<Longrightarrow> handed spec own own"
  using own_entries_begin [of shown spec own] unfolding handed_def by auto

text \<open>The alternates of a side build alike: they have one signature.\<close>

definition builds_alike :: "(json \<Rightarrow> string) \<Rightarrow> 'f grammar_spec \<Rightarrow> bool" where
  "builds_alike shown spec \<longleftrightarrow>
     (\<forall>n\<in>set (defined_names spec). \<forall>side\<in>{''open'', ''close''}. \<forall>a\<in>set (spec_alts spec n side). \<forall>b\<in>set (spec_alts spec n side).
        snd (acts_of shown a) = snd (acts_of shown b))"

lemma side_acts_alike:
  "side_acts shown name side (Some (acts, signature)) alts = Inr out \<Longrightarrow> \<forall>a\<in>set alts. snd (acts_of shown a) = signature"
  by (induction alts) (auto split: if_splits)

lemma own_entries_alike:
  assumes "own_entries shown spec = Inr own"
  shows "builds_alike shown spec"
proof -
  have sides: "\<forall>a\<in>set alts. \<forall>b\<in>set alts. snd (acts_of shown a) = snd (acts_of shown b)"
    if "side_acts shown name side None alts = Inr out" for name side alts out
  proof (cases alts)
    case (Cons a as)
    then have "side_acts shown name side (Some (fst (acts_of shown a), snd (acts_of shown a))) as = Inr out" using that by simp
    then show ?thesis using side_acts_alike Cons by fastforce
  qed simp
  have fold: "\<forall>n\<in>set ns. \<exists>e. res_fold (side_entry shown spec n) td_entry_default [''open'', ''close''] = Inr e"
    if "res_fold (add_entry shown spec) es ns = Inr es'" for ns es es'
    using that by (induction ns arbitrary: es) (fastforce simp: res_bind_Inr_iff add_entry_def)+
  show ?thesis
    unfolding builds_alike_def
  proof (intro ballI)
    fix n side a b
    assume n: "n \<in> set (defined_names spec)" and side: "side \<in> {''open'', ''close''}"
      and ab: "a \<in> set (spec_alts spec n side)" "b \<in> set (spec_alts spec n side)"
    obtain out where "side_acts shown n side None (spec_alts spec n side) = Inr out"
      using fold [OF assms [unfolded own_entries_def]] n side by (auto simp: res_bind_Inr_iff side_entry_def)
    then show "snd (acts_of shown a) = snd (acts_of shown b)" using sides ab by blast
  qed
qed

text \<open>
  What a part stands on: a container comes down every replacement of a rule that has one; a name can
  be written; a rule that ends a container or yields a text is not replaced by its open alternates;
  nothing beneath the rule a text pushes has an entry; the value is a container of the start rule's
  own.
\<close>

definition transducible :: "'f grammar_spec \<Rightarrow> td_entries \<Rightarrow> bool" where
  "transducible spec entries \<longleftrightarrow>
     (\<forall>n c m. container_of entries n = Some c \<longrightarrow> (n, m) \<in> hands_on spec \<longrightarrow> container_of entries m = Some c \<and> continues entries m) \<and>
     (\<forall>n e. map_of entries n = Some e \<longrightarrow>
        td_is_symbol n \<and>
        (te_container e \<noteq> None \<or> te_fills e = Some FillsText \<longrightarrow>
           (\<forall>alt\<in>set (spec_alts spec n ''open''). nonempty_name (alt_r alt) = None)) \<and>
        (te_fills e = Some FillsText \<longrightarrow>
           (\<forall>alt\<in>set (spec_alts spec n ''open''). \<forall>p m. nonempty_name (alt_p alt) = Some p \<longrightarrow> (p, m) \<in> (leads spec)\<^sup>* \<longrightarrow>
              valueless spec entries m))) \<and>
     (\<exists>start. start_of spec = Some start \<and> container_of entries start \<noteq> None \<and> \<not> continues entries start)"

lemma transduce_entries_Inr:
  assumes "transduce_entries shown spec name = Inr entries"
  obtains own where "own_entries shown spec = Inr own" "hand_loop spec own = Inr entries" "check_keywords entries = Inr ()"
    "res_check (check_closes spec) entries = Inr ()" "res_check (check_texts spec entries) entries = Inr ()"
    "\<exists>start. start_of spec = Some start \<and> container_of entries start \<noteq> None \<and> \<not> continues entries start"
proof -
  obtain own e where o: "own_entries shown spec = Inr own" "hand_loop spec own = Inr e" "check_keywords e = Inr ()"
      "res_check (check_closes spec) e = Inr ()" "res_check (check_texts spec e) e = Inr ()"
    and final: "(case start_of spec of
          None \<Rightarrow> Inl NoStartRule
        | Some start \<Rightarrow>
            (case map_of e start of
               None \<Rightarrow> Inl (StartUnannotated start)
             | Some root \<Rightarrow>
                 if te_container root \<noteq> None \<and> \<not> te_continues root then Inr e else Inl (StartUnannotated start))) = Inr entries"
    using assms by (auto simp: transduce_entries_def res_bind_Inr_iff split: if_splits)
  have "e = entries \<and> (\<exists>start. start_of spec = Some start \<and> container_of entries start \<noteq> None \<and> \<not> continues entries start)"
    using final by (auto simp: container_of_def continues_def split: option.splits if_splits)
  then show ?thesis using that o by blast
qed

lemma transduce_entries_transducible:
  assumes "transduce_entries shown spec name = Inr entries"
  shows "transducible spec entries \<and> builds_alike shown spec"
proof -
  obtain own where own: "own_entries shown spec = Inr own" "hand_loop spec own = Inr entries" "check_keywords entries = Inr ()"
    "res_check (check_closes spec) entries = Inr ()" "res_check (check_texts spec entries) entries = Inr ()"
    "\<exists>start. start_of spec = Some start \<and> container_of entries start \<noteq> None \<and> \<not> continues entries start"
    using transduce_entries_Inr [OF assms] .
  note hand = hand_loop_exact [OF own(2) own_handed [OF own(1)]]
  have entry: "td_is_symbol n \<and>
      (te_container e \<noteq> None \<or> te_fills e = Some FillsText \<longrightarrow> (\<forall>alt\<in>set (spec_alts spec n ''open''). nonempty_name (alt_r alt) = None)) \<and>
      (te_fills e = Some FillsText \<longrightarrow>
         (\<forall>alt\<in>set (spec_alts spec n ''open''). \<forall>p m. nonempty_name (alt_p alt) = Some p \<longrightarrow> (p, m) \<in> (leads spec)\<^sup>* \<longrightarrow>
            valueless spec entries m))"
    if "map_of entries n = Some e" for n e
  proof (intro conjI impI)
    have mem: "(n, e) \<in> set entries" using that by (rule map_of_SomeD)
    then show "td_is_symbol n" using own(3) by (fastforce simp: check_keywords_def find_None_iff split: option.splits)
    show "\<forall>alt\<in>set (spec_alts spec n ''open''). nonempty_name (alt_r alt) = None" if "te_container e \<noteq> None \<or> te_fills e = Some FillsText"
      using own(4) mem that unfolding res_check_Inr by (fastforce simp: check_closes_def list_ex_iff split: if_splits)
    show "\<forall>alt\<in>set (spec_alts spec n ''open''). \<forall>p m. nonempty_name (alt_p alt) = Some p \<longrightarrow> (p, m) \<in> (leads spec)\<^sup>* \<longrightarrow>
        valueless spec entries m" if "te_fills e = Some FillsText"
    proof (intro ballI allI impI)
      fix alt p m assume alt: "alt \<in> set (spec_alts spec n ''open'')" "nonempty_name (alt_p alt) = Some p" "(p, m) \<in> (leads spec)\<^sup>*"
      have "check_texts spec entries (n, e) = Inr ()" using own(5) mem unfolding res_check_Inr by blast
      then have "beneath spec entries p = None"
        using that alt(1,2) by (auto simp: check_texts_def res_check_Inr split: option.splits dest!: bspec)
      then show "valueless spec entries m" using alt(3) beneath_None by blast
    qed
  qed
  have "transducible spec entries" unfolding transducible_def using hand entry own(6) by blast
  then show ?thesis using own_entries_alike [OF own(1)] by simp
qed

text \<open>
  C16: A transducer part is made only of a grammar that builds one way: the alternates of a side have
  the same value actions, a container comes down every replacement of a rule that has one, no rule
  that must close is replaced on opening, no rule beneath a text builds a value, and the value is a
  container the start rule begins itself.
\<close>

theorem transducer_sound:
  assumes "transduce_alc shown spec name = TransduceText entry source"
  shows "\<exists>entries. transduce_entries shown spec name = Inr entries \<and> transducible spec entries \<and> builds_alike shown spec"
  using assms transduce_entries_transducible by (auto simp: transduce_alc_def split: sum.splits)

definition td_example :: "unit grammar_spec" where
  "td_example =
     \<lparr>gs_refs = [], gs_options = [(''rule'', JObj [(''start'', JStr ''w'')])],
      gs_rule =
        [(''w'', Some \<lparr>rs_open = [alt_set ''p'' (JStr ''list'') alt_new], rs_close = None\<rparr>),
         (''list'', Some
            \<lparr>rs_open = [alt_set_actions [''@array$''] (alt_set ''p'' (JStr ''item'') alt_new)],
             rs_close = Some
               [alt_set ''k'' (JObj [(''push$'', JObj [(''src'', JBool True)])]) (alt_set_actions [''@push$''] (alt_set ''r'' (JStr ''more'') alt_new)),
                alt_set ''k'' (JObj [(''push$'', JObj [(''src'', JBool True)])]) (alt_set_actions [''@push$''] alt_new)]\<rparr>),
         (''more'', Some \<lparr>rs_open = [alt_set ''p'' (JStr ''item'') alt_new], rs_close = Some [alt_set ''r'' (JStr ''more'') alt_new]\<rparr>),
         (''item'', Some \<lparr>rs_open = [alt_set ''s'' (JStr ''#N'') alt_new], rs_close = None\<rparr>)],
      gs_meta = None, gs_clear = False\<rparr>"

definition td_example_entries :: td_entries where
  "td_example_entries =
     [(''list'', \<lparr>te_container = Some ''array'', te_continues = False, te_member = None, te_fills = Some FillsText\<rparr>),
      (''more'', \<lparr>te_container = Some ''array'', te_continues = True, te_member = None, te_fills = None\<rparr>)]"

lemma td_example_run: "transduce_entries (\<lambda>_. []) td_example ''g'' = Inr td_example_entries"
  by code_simp

lemma td_example_own:
  "own_entries (\<lambda>_. []) td_example =
     Inr [(''list'', \<lparr>te_container = Some ''array'', te_continues = False, te_member = None, te_fills = Some FillsText\<rparr>)]"
  by code_simp

lemma transducer_sound_witness:
  "\<exists>entries. transduce_entries (\<lambda>_. []) td_example ''g'' = Inr entries \<and> transducible td_example entries \<and>
     builds_alike (\<lambda>_. []) td_example"
proof (rule transducer_sound)
  show "transduce_alc (\<lambda>_. []) td_example ''g'' =
      TransduceText ''g-transduce'' (join [CHR 0x0A] (transduce_lines ''g'' td_example_entries))"
    by (simp add: transduce_alc_def td_example_run)
qed

text \<open>
  C17: The containers handed on are exact: a rule has a container when a chain of replacements leads to
  it from a rule whose own alternates begin that container, and only then.
\<close>

theorem containers_exact:
  assumes "transduce_entries shown spec name = Inr entries" and "own_entries shown spec = Inr own"
  shows "container_of entries m = Some c \<longleftrightarrow> (\<exists>n. container_of own n = Some c \<and> (n, m) \<in> (hands_on spec)\<^sup>*)"
proof -
  obtain own' where "own_entries shown spec = Inr own'" "hand_loop spec own' = Inr entries" using transduce_entries_Inr [OF assms(1)] by metis
  then have loop: "hand_loop spec own = Inr entries" using assms(2) by simp
  note hand = hand_loop_exact [OF loop own_handed [OF assms(2)]]
  have "container_of entries m = Some c" if "(n, m) \<in> (hands_on spec)\<^sup>*" "container_of own n = Some c" for n
    using that(1)
  proof (induction rule: rtrancl_induct)
    case base
    then show ?case using hand that(2) unfolding handed_def by blast
  next
    case (step y z)
    then show ?case using hand by blast
  qed
  then show ?thesis using hand unfolding handed_def by blast
qed

lemma containers_exact_witness:
  "container_of td_example_entries ''more'' = Some ''array'' \<longleftrightarrow>
     (\<exists>n. container_of [(''list'', \<lparr>te_container = Some ''array'', te_continues = False, te_member = None, te_fills = Some FillsText\<rparr>)] n =
           Some ''array'' \<and> (n, ''more'') \<in> (hands_on td_example)\<^sup>*)"
  by (rule containers_exact [OF td_example_run td_example_own])

lemma td_quoted_roundtrip: "unquote CHR 0x22 (td_quoted s) = Some s"
proof -
  have "unquote_body CHR 0x22 (td_escape c @ r) = map_option ((#) c) (unquote_body CHR 0x22 r)" for c r
  proof (cases "td_escape c = [c]")
    case True
    then show ?thesis by (auto simp: td_escape_def split: if_splits)
  next
    case False
    let ?n = "of_char c :: nat"
    have n: "char_of (16 * (?n div 16) + ?n mod 16) = c" by simp
    have "?n < 32 \<Longrightarrow> ?n div 16 < 16" "?n mod 16 < 16" by auto
    then show ?thesis using False n by (auto simp: td_escape_def hex_lower_value split: if_splits)
  qed
  note escape = this
  have "unquote_body CHR 0x22 (concat (map td_escape s) @ [CHR 0x22]) = Some s"
    by (induction s) (simp_all add: escape del: unquote_body.simps(2), simp)
  then show ?thesis by (simp add: unquote_def td_quoted_def)
qed

end
