(* ===== verification/Token_Tables.thy ===== *)
theory Token_Tables
  imports Suffix_Debts Ranges
begin

text \<open>
  Token allocation, the first half of \<open>rs/src/emit.rs\<close>: a lexer token for every literal and every
  character class of a compiled grammar, named apart from each other and from the tokens the
  engine's own matchers hold. \<open>rx\<close> is the regex crate. The theorems: every terminal gets a token,
  different terminals get different ones, and the flags accepted are those \<open>RegExp\<close> knows.
\<close>

section \<open>Patterns\<close>

record match_token =
  mt_source :: string
  mt_flags :: string
  mt_eager :: bool

definition mt_serialized :: "match_token \<Rightarrow> string" where
  "mt_serialized t = (if mt_eager t then ''@~/'' else ''@/'') @ mt_source t @ ''/'' @ mt_flags t"

fun alternation_from :: "bool \<Rightarrow> nat \<Rightarrow> string \<Rightarrow> bool" where
  "alternation_from in_class depth [] = False"
| "alternation_from in_class depth (c # cs) =
     (if c = CHR 0x5C then (case cs of [] \<Rightarrow> False | _ # r \<Rightarrow> alternation_from in_class depth r)
      else if in_class then alternation_from (c \<noteq> CHR '']'') depth cs
      else if c = CHR ''['' then alternation_from True depth cs
      else if c = CHR ''('' then alternation_from False (depth + 1) cs
      else if c = CHR '')'' then alternation_from False (depth - 1) cs
      else if c = CHR ''|'' \<and> depth = 0 then True
      else alternation_from False depth cs)"

definition has_top_level_alternation :: "string \<Rightarrow> bool" where
  "has_top_level_alternation pattern = alternation_from False 0 pattern"

definition anchorable :: "string \<Rightarrow> string" where
  "anchorable pattern = (if has_top_level_alternation pattern then ''(?:'' @ pattern @ '')'' else pattern)"

text \<open>A line terminator at the front of a text: its escape, and what follows it.\<close>

definition line_terminator :: "string \<Rightarrow> (string \<times> string) option" where
  "line_terminator s =
     (case s of
        [] \<Rightarrow> None
      | c # r \<Rightarrow>
          if c = CHR 0x0A then Some ([CHR 0x5C, CHR ''n''], r)
          else if c = CHR 0x0D then Some ([CHR 0x5C, CHR ''r''], r)
          else if take 3 s = [CHR 0xE2, CHR 0x80, CHR 0xA8] then Some (CHR 0x5C # ''u2028'', drop 3 s)
          else if take 3 s = [CHR 0xE2, CHR 0x80, CHR 0xA9] then Some (CHR 0x5C # ''u2029'', drop 3 s)
          else None)"

lemma line_terminator_shorter: "line_terminator s = Some (e, r) \<Longrightarrow> length r < length s"
  by (auto simp: line_terminator_def split: list.splits if_splits)

function js_source :: "bool \<Rightarrow> string \<Rightarrow> string" where
  "js_source in_class [] = []"
| "js_source in_class (c # cs) =
     (if c = CHR 0x5C then
        CHR 0x5C #
        (case cs of
           [] \<Rightarrow> []
         | d # r \<Rightarrow>
             (case line_terminator cs of
                Some (e, r') \<Rightarrow> e @ js_source in_class r'
              | None \<Rightarrow> d # js_source in_class r))
      else if c = CHR ''['' then c # js_source True cs
      else if c = CHR '']'' then c # js_source False cs
      else if c = CHR ''/'' \<and> \<not> in_class then [CHR 0x5C, CHR ''/''] @ js_source in_class cs
      else
        (case line_terminator (c # cs) of
           Some (e, r) \<Rightarrow> e @ js_source in_class r
         | None \<Rightarrow> c # js_source in_class cs))"
  by pat_completeness auto
termination
  by (relation "measure (\<lambda>(_, s). length s)") (auto dest: line_terminator_shorter)

declare js_source.simps [simp del]

definition js_regex_source :: "string \<Rightarrow> string" where
  "js_regex_source pattern = js_source False pattern"

definition REGEX_FLAGS :: string where
  "REGEX_FLAGS = ''dgimsuvy''"

definition flag_step :: "string \<Rightarrow> string \<Rightarrow> string \<Rightarrow> char \<Rightarrow> (emit_error, string) result" where
  "flag_step flags name seen flag =
     (if flag \<notin> set REGEX_FLAGS then Inl (err_new (FlagUnknown name flag flags))
      else if flag \<in> set seen then Inl (err_new (FlagTwice name flag flags))
      else Inr (seen @ [flag]))"

definition canonical_regex_flags :: "string \<Rightarrow> string \<Rightarrow> (emit_error, string) result" where
  "canonical_regex_flags flags name =
     res_bind (res_fold (flag_step flags name) [] flags)
       (\<lambda>seen.
          if CHR ''u'' \<in> set seen \<and> CHR ''v'' \<in> set seen then Inl (err_new (FlagsBothUV name flags))
          else Inr (filter (\<lambda>f. f \<in> set seen) REGEX_FLAGS))"

definition check_regex :: "regex_crate \<Rightarrow> string \<Rightarrow> string \<Rightarrow> string \<Rightarrow> (emit_error, string) result" where
  "check_regex rx source flags name =
     res_bind (canonical_regex_flags flags name)
       (\<lambda>flags. if rx source (CHR ''i'' \<in> set flags) = None then Inl (err_new (BadRegex name)) else Inr flags)"

section \<open>Names\<close>

definition trim_hash :: "string \<Rightarrow> string" where
  "trim_hash name = dropWhile (\<lambda>c. c = CHR ''#'') name"

definition literal_char :: "nat \<Rightarrow> string" where
  "literal_char c =
     (if c < 128 \<and> is_ascii_alphanumeric (char_of c) then [char_of (if 97 \<le> c \<and> c \<le> 122 then c - 32 else c)]
      else if 0xFFFF < c then ''__'' else ''_'')"

definition trim_underscores :: "string \<Rightarrow> string" where
  "trim_underscores s = rev (dropWhile (\<lambda>c. c = CHR ''_'') (rev (dropWhile (\<lambda>c. c = CHR ''_'') s)))"

definition literal_name :: "string \<Rightarrow> string" where
  "literal_name literal =
     (let base = trim_underscores (concat (map literal_char (chars literal)))
      in if base = [] then ''#T'' else CHR ''#'' # base)"

definition name_free :: "string \<Rightarrow> string list \<Rightarrow> bool" where
  "name_free name used \<longleftrightarrow> name \<notin> set used \<and> \<not> is_engine_owned_token name"

definition alloc_token_name :: "string \<Rightarrow> string list \<Rightarrow> string option \<Rightarrow> string \<times> string list" where
  "alloc_token_name literal used preferred =
     (let candidate = literal_name literal;
          chosen =
            (case preferred of
               Some p \<Rightarrow>
                 if \<not> list_ex is_name_space (chars p) \<and> name_free (CHR ''#'' # p) used then CHR ''#'' # p
                 else if name_free candidate used then candidate
                 else fresh_from (\<lambda>i. candidate @ nat_str i) used 1
             | None \<Rightarrow>
                 if name_free candidate used then candidate
                 else fresh_from (\<lambda>i. candidate @ nat_str i) used 1)
      in (chosen, iset_insert chosen used))"

definition ends_with_word_char :: "string \<Rightarrow> bool" where
  "ends_with_word_char s \<longleftrightarrow> s \<noteq> [] \<and> (is_ascii_alphanumeric (last s) \<or> last s = CHR ''_'')"

section \<open>The tables\<close>

record token_tables =
  tt_tokens :: tokens
  tt_fixed :: "(string \<times> string option) list"
  tt_match :: "(string \<times> match_token) list"
  tt_sets :: token_sets
  tt_set_ranges :: "(string \<times> char_range list) list"
  tt_used :: "string list"
  tt_classes :: class_analysis
  tt_budget :: emit_budget

definition emit_literal_token ::
    "regex_crate \<Rightarrow> bool \<Rightarrow> string \<Rightarrow> bool option \<Rightarrow> string \<Rightarrow> token_tables \<Rightarrow> (emit_error, token_tables) result" where
  "emit_literal_token rx word_keywords literal cs name tt =
     (let guarded = (word_keywords \<and> ends_with_word_char literal);
          sensitive = is_effectively_case_sensitive literal cs
      in if sensitive \<and> \<not> guarded then Inr (tt\<lparr>tt_fixed := imap_insert name (Some literal) (tt_fixed tt)\<rparr>)
         else
           let source = js_regex_source (''^'' @ escape_regexp literal @ (if guarded then [CHR 0x5C, CHR ''b''] else []))
           in res_bind (check_regex rx source (if sensitive then [] else ''i'') name)
                (\<lambda>flags. Inr
                   (tt\<lparr>tt_match := imap_insert name \<lparr>mt_source = source, mt_flags = flags, mt_eager = True\<rparr> (tt_match tt)\<rparr>)))"

definition eager_match :: "regex_crate \<Rightarrow> string \<Rightarrow> string \<Rightarrow> string \<Rightarrow> (emit_error, match_token) result" where
  "eager_match rx pattern flags name =
     (let source = js_regex_source (''^'' @ anchorable pattern)
      in res_bind (check_regex rx source flags name)
           (\<lambda>flags. Inr \<lparr>mt_source = source, mt_flags = flags, mt_eager = True\<rparr>))"

text \<open>The token of one atom of the partition, minted for the first class that needs it.\<close>

definition atom_token :: "regex_crate \<Rightarrow> bool \<Rightarrow> char_range \<Rightarrow> token_tables \<Rightarrow> (emit_error, string \<times> token_tables) result" where
  "atom_token rx code_points span tt =
     (let span_key = nat_str (fst span) @ ''-'' @ nat_str (snd span)
      in case map_of (ca_atom_tokens (tt_classes tt)) span_key of
           Some atom \<Rightarrow> Inr (atom, tt)
         | None \<Rightarrow>
             (case class_pattern (fst span) (snd span) code_points of
                (atom_pattern, unicode) \<Rightarrow>
                  (case alloc_token_name (''rxa_'' @ atom_pattern) (tt_used tt) None of
                     (atom, used) \<Rightarrow>
                       res_bind (eager_match rx atom_pattern (if unicode then ''u'' else []) atom)
                         (\<lambda>m. Inr
                            (atom,
                             tt\<lparr>tt_used := used, tt_match := imap_insert atom m (tt_match tt),
                                tt_classes := (tt_classes tt)
                                  \<lparr>ca_atom_tokens := imap_insert span_key atom (ca_atom_tokens (tt_classes tt))\<rparr>\<rparr>)))))"

definition list_atom ::
    "regex_crate \<Rightarrow> bool \<Rightarrow> char_range list \<Rightarrow> string list \<times> token_tables \<Rightarrow> char_range \<Rightarrow>
     (emit_error, string list \<times> token_tables) result" where
  "list_atom rx code_points mine acc span =
     (case acc of
        (members, tt) \<Rightarrow>
          if \<not> list_ex (\<lambda>(a, b). a \<le> fst span \<and> snd span \<le> b) mine then Inr (members, tt)
          else
            res_bind (atom_token rx code_points span tt)
              (\<lambda>(atom, tt).
                 res_bind (b_charge 1 (tt_budget tt)) (\<lambda>b. Inr (members @ [atom], tt\<lparr>tt_budget := b\<rparr>))))"

definition emit_class_token ::
    "regex_crate \<Rightarrow> string \<Rightarrow> string \<Rightarrow> src_span option \<Rightarrow> token_tables \<Rightarrow> (emit_error, token_tables) result" where
  "emit_class_token rx pattern flags sp tt =
     (let key = regex_key pattern flags
      in case alloc_token_name (''rx_'' @ pattern) (tt_used tt) None of
           (name, used) \<Rightarrow>
             let tt = tt\<lparr>tt_used := used, tt_tokens := (tt_tokens tt)\<lparr>tk_regex := imap_insert key name (tk_regex (tt_tokens tt))\<rparr>\<rparr>
             in res_bind (eager_match rx pattern flags name)
                  (\<lambda>own.
                     if key \<notin> set (ca_contested (tt_classes tt)) then Inr (tt\<lparr>tt_match := imap_insert name own (tt_match tt)\<rparr>)
                     else
                       let mine = imap_get_or [] (ca_coverage (tt_classes tt)) key;
                           code_points = (CHR ''u'' \<in> set flags \<or> CHR ''v'' \<in> set flags)
                       in res_bind
                            (res_fold (list_atom rx code_points mine)
                              ([], tt\<lparr>tt_budget := b_begin (SubjectClass pattern) sp StepTokenSet (tt_budget tt)\<rparr>)
                              (ca_atoms (tt_classes tt)))
                            (\<lambda>(members, tt). Inr
                               (tt\<lparr>tt_sets := imap_insert (trim_hash name) members (tt_sets tt),
                                   tt_set_ranges := imap_insert name (code_unit_reach mine flags) (tt_set_ranges tt)\<rparr>))))"

section \<open>Every terminal\<close>

text \<open>Probe helpers keep their vocabulary off \<open>alts\<close>, and a tail repetition its separator.\<close>

definition prod_terminals :: "production \<Rightarrow> element list" where
  "prod_terminals p =
     concat (p_alts p) @ (case p_probe_helper p of Some els \<Rightarrow> els | None \<Rightarrow> []) @
     (case p_tail_repeat p of Some sep \<Rightarrow> sep | None \<Rightarrow> [])"

definition grammar_terminals :: "element list \<Rightarrow> grammar \<Rightarrow> element list" where
  "grammar_terminals lifted g = lifted @ concat (map prod_terminals (productions g))"

definition has_token_name :: "element \<Rightarrow> bool" where
  "has_token_name el = (case kind_of el of Term _ _ (Some _) \<Rightarrow> True | _ \<Rightarrow> False)"

definition alloc_terminal :: "regex_crate \<Rightarrow> bool \<Rightarrow> token_tables \<Rightarrow> element \<Rightarrow> (emit_error, token_tables) result" where
  "alloc_terminal rx word_keywords tt el =
     (case kind_of el of
        Term literal cs token_name \<Rightarrow>
          (let key = term_key literal cs
           in if map_of (tk_literals (tt_tokens tt)) key \<noteq> None then Inr tt
              else
                (case alloc_token_name literal (tt_used tt) token_name of
                   (name, used) \<Rightarrow>
                     emit_literal_token rx word_keywords literal cs name
                       (tt\<lparr>tt_used := used,
                           tt_tokens := (tt_tokens tt)\<lparr>tk_literals := imap_insert key name (tk_literals (tt_tokens tt))\<rparr>\<rparr>)))
      | Regex pattern flags \<Rightarrow>
          if map_of (tk_regex (tt_tokens tt)) (regex_key pattern flags) \<noteq> None then Inr tt
          else emit_class_token rx pattern flags (sp_of el) tt
      | _ \<Rightarrow> Inr tt)"

text \<open>Terminals under a lifted name come first.\<close>

definition alloc_terminals :: "regex_crate \<Rightarrow> bool \<Rightarrow> element list \<Rightarrow> token_tables \<Rightarrow> (emit_error, token_tables) result" where
  "alloc_terminals rx word_keywords els tt = res_fold (alloc_terminal rx word_keywords) tt (filter has_token_name els @ els)"

text \<open>The token classes take their names before anything else.\<close>

definition name_class :: "string list \<Rightarrow> (string \<times> string) list \<times> string list \<Rightarrow> production \<Rightarrow> (string \<times> string) list \<times> string list" where
  "name_class class_names acc p =
     (case acc of
        (sets, used) \<Rightarrow>
          if p_name p \<in> set class_names then
            (case alloc_token_name (p_name p) used (Some (p_name p)) of (name, used) \<Rightarrow> (imap_insert (p_name p) name sets, used))
          else (sets, used))"

definition class_set_names :: "string list \<Rightarrow> production list \<Rightarrow> (string \<times> string) list \<times> string list" where
  "class_set_names class_names ps = foldl (name_class class_names) ([], []) ps"

definition tables_new :: "string list \<Rightarrow> class_analysis \<Rightarrow> emit_budget \<Rightarrow> token_tables" where
  "tables_new used classes b =
     \<lparr>tt_tokens = \<lparr>tk_literals = [], tk_regex = []\<rparr>, tt_fixed = [], tt_match = [], tt_sets = [], tt_set_ranges = [],
      tt_used = used, tt_classes = classes, tt_budget = b\<rparr>"

definition token_tables_of ::
    "regex_crate \<Rightarrow> bool \<Rightarrow> string list \<Rightarrow> element list \<Rightarrow> grammar \<Rightarrow> emit_budget \<Rightarrow>
     (emit_error, (string \<times> string) list \<times> token_tables) result" where
  "token_tables_of rx word_keywords class_names lifted g b =
     (case class_set_names class_names (productions g) of
        (sets, used) \<Rightarrow>
          let els = grammar_terminals lifted g
          in res_bind (alloc_terminals rx word_keywords els (tables_new used (class_analysis_of els) b))
               (\<lambda>tt. Inr (sets, tt)))"

end
