(* ===== verification/Token_Names.thy ===== *)
theory Token_Names
  imports Token_Tables
begin

text \<open>
  What the token tables promise: every terminal has its token, different terminals have different
  ones, and none takes a name the engine's own matchers hold. The names run out of nothing: a
  number ends every one that had to be told apart, and no engine name ends in a digit.
\<close>

section \<open>Fresh names\<close>

lemma last_dropWhile: "dropWhile P xs \<noteq> [] \<Longrightarrow> last (dropWhile P xs) = last xs"
  by (induction xs) auto

lemma engine_owned_last: "is_engine_owned_token name \<Longrightarrow> \<not> is_ascii_digit (last name)"
proof -
  assume "is_engine_owned_token name"
  then consider (matcher) "builtin_token (trim_hash name) \<noteq> None" | (other) "name \<in> {''#BD'', ''#ZZ'', ''#UK'', ''#AA'', ''#SP'', ''#LN'', ''#CM''}"
    by (auto simp: is_engine_owned_token_def trim_hash_def)
  then show "\<not> is_ascii_digit (last name)"
  proof cases
    case matcher
    then have t: "trim_hash name \<in> {''TX'', ''NR'', ''ST'', ''VL''}"
      by (auto simp: builtin_token_def BUILTIN_TOKENS_def split: if_splits)
    have "trim_hash name \<noteq> []" using t by auto
    then have "last name = last (trim_hash name)" unfolding trim_hash_def by (rule last_dropWhile [symmetric])
    then show ?thesis using t by (auto simp: is_ascii_digit_def)
  next
    case other
    then show ?thesis by (auto simp: is_ascii_digit_def)
  qed
qed

lemma nat_str_last: "is_ascii_digit (last (pre @ nat_str n))"
proof -
  have "last (nat_str n) \<in> set (nat_str n)" by (rule last_in_set) simp
  then have "is_digit (last (nat_str n))" by (rule nat_str_digits)
  then show ?thesis by (auto simp: is_digit_def is_ascii_digit_def)
qed

lemma alloc_fresh:
  assumes "alloc_token_name literal used preferred = (name, used')"
  shows "name \<notin> set used" and "\<not> is_engine_owned_token name" and "set used' = insert name (set used)"
proof -
  let ?numbered = "fresh_from (\<lambda>i. literal_name literal @ nat_str i) used 1"
  have numbered: "?numbered \<notin> set used \<and> \<not> is_engine_owned_token ?numbered"
  proof
    show "?numbered \<notin> set used" using fresh_numbered [of "literal_name literal" "[]" used 1] by simp
    obtain j where "?numbered = literal_name literal @ nat_str j"
      using numbered.fresh_from_first [where pre = "literal_name literal" and post = "[]" and i = 1 and used = used] by auto
    then show "\<not> is_engine_owned_token ?numbered" using nat_str_last engine_owned_last by metis
  qed
  have "name \<notin> set used \<and> \<not> is_engine_owned_token name \<and> used' = iset_insert name used"
    using assms numbered by (auto simp: alloc_token_name_def Let_def name_free_def split: option.splits if_splits)
  then show "name \<notin> set used" "\<not> is_engine_owned_token name" "set used' = insert name (set used)" by auto
qed

section \<open>Flags\<close>

lemma flags_fold:
  "res_fold (flag_step flags name) seen fs = Inr out \<longleftrightarrow>
   set fs \<subseteq> set REGEX_FLAGS \<and> distinct fs \<and> set fs \<inter> set seen = {} \<and> out = seen @ fs"
  by (induction fs arbitrary: seen) (auto simp: flag_step_def res_bind_Inr_iff)

lemma canonical_flags: "(\<exists>out. canonical_regex_flags flags name = Inr out) \<longleftrightarrow> flags_ok flags"
  by (auto simp: canonical_regex_flags_def res_bind_Inr_iff flags_fold flags_ok_def REGEX_FLAGS_def list_all_iff)

lemma canonical_flags_result:
  "canonical_regex_flags flags name = Inr out \<Longrightarrow> set out = set flags \<and> subseq out REGEX_FLAGS"
proof -
  assume "canonical_regex_flags flags name = Inr out"
  then have o: "set flags \<subseteq> set REGEX_FLAGS" "out = filter (\<lambda>f. f \<in> set flags) REGEX_FLAGS"
    by (auto simp: canonical_regex_flags_def res_bind_Inr_iff flags_fold split: if_splits)
  then show "set out = set flags \<and> subseq out REGEX_FLAGS" by (auto simp: subseq_filter_left)
qed

section \<open>The invariant\<close>

definition token_names :: "token_tables \<Rightarrow> string list" where
  "token_names tt = map snd (tk_literals (tt_tokens tt)) @ map snd (tk_regex (tt_tokens tt)) @ map snd (ca_atom_tokens (tt_classes tt))"

definition names_apart :: "string list \<Rightarrow> token_tables \<Rightarrow> bool" where
  "names_apart classes tt \<longleftrightarrow>
     distinct (classes @ token_names tt) \<and> set (classes @ token_names tt) \<subseteq> set (tt_used tt) \<and>
     (\<forall>n\<in>set (tt_used tt). \<not> is_engine_owned_token n)"

lemma imap_insert_values: "map_of m k = None \<Longrightarrow> map snd (imap_insert k v m) = map snd m @ [v]"
  by (induction m) (auto split: if_splits)

definition same_names :: "token_tables \<Rightarrow> token_tables \<Rightarrow> bool" where
  "same_names tt tt' \<longleftrightarrow>
     tt_tokens tt' = tt_tokens tt \<and> tt_used tt' = tt_used tt \<and> tt_classes tt' = tt_classes tt"

lemma same_names_apart: "same_names tt tt' \<Longrightarrow> names_apart classes tt' = names_apart classes tt"
  by (simp add: same_names_def names_apart_def token_names_def)

lemma emit_literal_same: "emit_literal_token rx wk literal cs name tt = Inr tt' \<Longrightarrow> same_names tt tt'"
  by (auto simp: emit_literal_token_def same_names_def Let_def res_bind_Inr_iff split: if_splits)

lemma names_apart_add:
  assumes "names_apart classes tt" and "name \<notin> set (tt_used tt)" and "\<not> is_engine_owned_token name"
    and "set used = insert name (set (tt_used tt))" and "mset (token_names tt') = add_mset name (mset (token_names tt))"
    and "tt_used tt' = used"
  shows "names_apart classes tt'"
proof -
  have d: "distinct (classes @ token_names tt')"
  proof -
    have "name \<notin> set (classes @ token_names tt)" using assms(1,2) unfolding names_apart_def by blast
    moreover have "mset (classes @ token_names tt') = mset (name # classes @ token_names tt)" using assms(5) by simp
    ultimately show ?thesis using assms(1) mset_eq_imp_distinct_iff unfolding names_apart_def by (metis distinct.simps(2))
  qed
  have "set (token_names tt') = insert name (set (token_names tt))" using arg_cong [OF assms(5), of set_mset] by simp
  then show ?thesis using d assms(1,3,4,6) unfolding names_apart_def by auto
qed

lemma alloc_literal_apart:
  assumes "names_apart classes tt" and "map_of (tk_literals (tt_tokens tt)) key = None"
    and "alloc_token_name l (tt_used tt) preferred = (name, used)"
  shows "names_apart classes
    (tt\<lparr>tt_used := used, tt_tokens := (tt_tokens tt)\<lparr>tk_literals := imap_insert key name (tk_literals (tt_tokens tt))\<rparr>\<rparr>)"
  by (rule names_apart_add [OF assms(1) alloc_fresh [OF assms(3)]]) (simp_all add: token_names_def imap_insert_values assms(2))

lemma alloc_regex_apart:
  assumes "names_apart classes tt" and "map_of (tk_regex (tt_tokens tt)) key = None"
    and "alloc_token_name l (tt_used tt) preferred = (name, used)"
  shows "names_apart classes
    (tt\<lparr>tt_used := used, tt_tokens := (tt_tokens tt)\<lparr>tk_regex := imap_insert key name (tk_regex (tt_tokens tt))\<rparr>\<rparr>)"
  by (rule names_apart_add [OF assms(1) alloc_fresh [OF assms(3)]]) (simp_all add: token_names_def imap_insert_values assms(2))

lemma names_apart_other:
  assumes "names_apart classes tt" and "tt_tokens tt' = tt_tokens tt" and "tt_used tt' = tt_used tt" and "tt_classes tt' = tt_classes tt"
  shows "names_apart classes tt'"
  using assms by (simp add: names_apart_def token_names_def)

lemma atom_token_apart:
  assumes "atom_token rx cps span tt = Inr (atom, tt')" and "names_apart classes tt"
  shows "names_apart classes tt' \<and> tt_tokens tt' = tt_tokens tt"
proof (cases "map_of (ca_atom_tokens (tt_classes tt)) (nat_str (fst span) @ ''-'' @ nat_str (snd span))")
  case None
  obtain pat u where pat: "class_pattern (fst span) (snd span) cps = (pat, u)" by fastforce
  obtain name used where a: "alloc_token_name (''rxa_'' @ pat) (tt_used tt) None = (name, used)" by fastforce
  obtain m where tt': "tt' = tt\<lparr>tt_used := used, tt_match := imap_insert name m (tt_match tt),
      tt_classes := (tt_classes tt)\<lparr>ca_atom_tokens :=
        imap_insert (nat_str (fst span) @ ''-'' @ nat_str (snd span)) name (ca_atom_tokens (tt_classes tt))\<rparr>\<rparr>"
    using assms(1) None pat a by (auto simp: atom_token_def Let_def res_bind_Inr_iff)
  have "names_apart classes tt'"
    by (rule names_apart_add [OF assms(2) alloc_fresh [OF a]]) (simp_all add: tt' token_names_def imap_insert_values None [simplified])
  then show ?thesis by (simp add: tt')
qed (use assms in \<open>auto simp: atom_token_def\<close>)

lemma list_atoms_apart:
  "res_fold (list_atom rx cps mine) (members, tt) spans = Inr (members', tt') \<Longrightarrow> names_apart classes tt \<Longrightarrow>
   names_apart classes tt' \<and> tt_tokens tt' = tt_tokens tt"
proof (induction spans arbitrary: members tt)
  case (Cons span spans)
  obtain members1 tt1 where 1: "list_atom rx cps mine (members, tt) span = Inr (members1, tt1)"
    "res_fold (list_atom rx cps mine) (members1, tt1) spans = Inr (members', tt')"
    using Cons.prems(1) by (auto simp: res_bind_Inr_iff)
  have "names_apart classes tt1 \<and> tt_tokens tt1 = tt_tokens tt"
  proof (cases "tt1 = tt")
    case False
    then obtain atom tt2 b where "atom_token rx cps span tt = Inr (atom, tt2)" "tt1 = tt2\<lparr>tt_budget := b\<rparr>"
      using 1(1) by (auto simp: list_atom_def res_bind_Inr_iff split: if_splits)
    then show ?thesis using atom_token_apart Cons.prems(2) names_apart_other [of classes tt2 tt1] by auto
  qed (use Cons.prems(2) in simp)
  then show ?case using Cons.IH [OF 1(2)] by simp
qed simp

lemma emit_class_apart:
  assumes "emit_class_token rx pattern flags sp tt = Inr tt'" and "names_apart classes tt"
    and "map_of (tk_regex (tt_tokens tt)) (regex_key pattern flags) = None"
  shows "names_apart classes tt' \<and> tk_literals (tt_tokens tt') = tk_literals (tt_tokens tt) \<and>
    map_of (tk_regex (tt_tokens tt')) (regex_key pattern flags) \<noteq> None \<and>
    (\<forall>k. map_of (tk_regex (tt_tokens tt)) k \<noteq> None \<longrightarrow> map_of (tk_regex (tt_tokens tt')) k \<noteq> None)"
proof -
  obtain name used where a: "alloc_token_name (''rx_'' @ pattern) (tt_used tt) None = (name, used)" by fastforce
  let ?tt = "tt\<lparr>tt_used := used, tt_tokens := (tt_tokens tt)\<lparr>tk_regex := imap_insert (regex_key pattern flags) name (tk_regex (tt_tokens tt))\<rparr>\<rparr>"
  have apart: "names_apart classes ?tt" using alloc_regex_apart [OF assms(2,3) a] .
  have t: "names_apart classes tt' \<and> tt_tokens tt' = tt_tokens ?tt"
  proof (cases "regex_key pattern flags \<in> set (ca_contested (tt_classes ?tt))")
    case True
    obtain cps mine members tt1 where l:
      "res_fold (list_atom rx cps mine) ([], ?tt\<lparr>tt_budget := b_begin (SubjectClass pattern) sp StepTokenSet (tt_budget ?tt)\<rparr>)
         (ca_atoms (tt_classes ?tt)) = Inr (members, tt1)"
      "tt_tokens tt' = tt_tokens tt1" "tt_used tt' = tt_used tt1" "tt_classes tt' = tt_classes tt1"
      using assms(1) True a by (auto simp: emit_class_token_def Let_def res_bind_Inr_iff)
    have "names_apart classes (?tt\<lparr>tt_budget := b_begin (SubjectClass pattern) sp StepTokenSet (tt_budget ?tt)\<rparr>)"
      by (rule names_apart_other [OF apart]) simp_all
    from list_atoms_apart [OF l(1) this] show ?thesis using names_apart_other [of classes tt1 tt'] l(2-4) by simp
  next
    case False
    then have "tt_tokens tt' = tt_tokens ?tt \<and> tt_used tt' = tt_used ?tt \<and> tt_classes tt' = tt_classes ?tt"
      using assms(1) a by (auto simp: emit_class_token_def Let_def res_bind_Inr_iff)
    then show ?thesis using names_apart_other [OF apart, of tt'] by simp
  qed
  then show ?thesis by simp
qed

text \<open>A terminal with its token, and every terminal before it.\<close>

definition has_token :: "token_tables \<Rightarrow> element \<Rightarrow> bool" where
  "has_token tt el \<longleftrightarrow> (is_terminal el \<longrightarrow> tok_of (tt_tokens tt) el \<noteq> None)"

lemma alloc_terminal_step:
  assumes "alloc_terminal rx wk tt el = Inr tt'" and "names_apart classes tt"
  shows "names_apart classes tt' \<and> has_token tt' el \<and> (\<forall>e. has_token tt e \<longrightarrow> has_token tt' e)"
proof (cases "kind_of el")
  case (Term literal cs token_name)
  let ?key = "term_key literal cs"
  show ?thesis
  proof (cases "map_of (tk_literals (tt_tokens tt)) ?key")
    case None
    obtain name used where a: "alloc_token_name literal (tt_used tt) token_name = (name, used)" by fastforce
    let ?tt = "tt\<lparr>tt_used := used, tt_tokens := (tt_tokens tt)\<lparr>tk_literals := imap_insert ?key name (tk_literals (tt_tokens tt))\<rparr>\<rparr>"
    have same: "same_names ?tt tt'" using assms(1) Term None a emit_literal_same by (simp add: alloc_terminal_def Let_def)
    have "names_apart classes tt'" using alloc_literal_apart [OF assms(2) None a] same_names_apart [OF same] by simp
    moreover have "tt_tokens tt' = (tt_tokens tt)\<lparr>tk_literals := imap_insert ?key name (tk_literals (tt_tokens tt))\<rparr>"
      using same by (simp add: same_names_def)
    ultimately show ?thesis using Term by (auto simp: has_token_def tok_of_def split: kind.splits)
  next
    case (Some n)
    then show ?thesis using assms Term by (auto simp: alloc_terminal_def has_token_def tok_of_def)
  qed
next
  case (Regex pattern flags)
  show ?thesis
  proof (cases "map_of (tk_regex (tt_tokens tt)) (regex_key pattern flags)")
    case None
    have "emit_class_token rx pattern flags (sp_of el) tt = Inr tt'" using assms(1) Regex None by (simp add: alloc_terminal_def)
    from emit_class_apart [OF this assms(2) None] show ?thesis using Regex by (auto simp: has_token_def tok_of_def split: kind.splits)
  next
    case (Some n)
    then show ?thesis using assms Regex by (auto simp: alloc_terminal_def has_token_def tok_of_def)
  qed
qed (use assms in \<open>auto simp: alloc_terminal_def has_token_def tok_of_def is_terminal_def\<close>)

lemma alloc_terminals_step:
  "res_fold (alloc_terminal rx wk) tt els = Inr tt' \<Longrightarrow> names_apart classes tt \<Longrightarrow>
   names_apart classes tt' \<and> (\<forall>el\<in>set els. has_token tt' el) \<and> (\<forall>e. has_token tt e \<longrightarrow> has_token tt' e)"
proof (induction els arbitrary: tt)
  case (Cons el els)
  obtain tt1 where 1: "alloc_terminal rx wk tt el = Inr tt1" "res_fold (alloc_terminal rx wk) tt1 els = Inr tt'"
    using Cons.prems(1) by (auto simp: res_bind_Inr_iff)
  note step = alloc_terminal_step [OF 1(1) Cons.prems(2)]
  have "names_apart classes tt1" using step by blast
  from Cons.IH [OF 1(2) this] show ?case using step by auto
qed simp

lemma class_names_apart:
  assumes "class_set_names class_names ps = (sets, used)" and "distinct (names ps)"
  shows "distinct (map snd sets) \<and> set (map snd sets) \<subseteq> set used \<and> (\<forall>n\<in>set used. \<not> is_engine_owned_token n)"
proof -
  have "distinct (map snd sets') \<and> set (map snd sets') \<subseteq> set used' \<and> (\<forall>n\<in>set used'. \<not> is_engine_owned_token n)"
    if "foldl (name_class class_names) (sets0, used0) ps = (sets', used')" "distinct (names ps)" "fst ` set sets0 \<inter> set (names ps) = {}"
      "distinct (map snd sets0)" "set (map snd sets0) \<subseteq> set used0" "\<forall>n\<in>set used0. \<not> is_engine_owned_token n" for sets0 used0 sets' used'
    using that
  proof (induction ps arbitrary: sets0 used0)
    case (Cons p ps)
    show ?case
    proof (cases "p_name p \<in> set class_names")
      case True
      obtain name used1 where a: "alloc_token_name (p_name p) used0 (Some (p_name p)) = (name, used1)" by fastforce
      note f = alloc_fresh [OF a]
      have new: "map_of sets0 (p_name p) = None" using Cons.prems(3) by (auto simp: map_of_eq_None_iff)
      have keys: "fst ` set (imap_insert (p_name p) name sets0) \<subseteq> insert (p_name p) (fst ` set sets0)"
        using set_imap_insert [of "p_name p" name sets0] by force
      have vals: "map snd (imap_insert (p_name p) name sets0) = map snd sets0 @ [name]" by (rule imap_insert_values [OF new])
      have one: "name_class class_names (sets0, used0) p = (imap_insert (p_name p) name sets0, used1)" using True a by (simp add: name_class_def)
      show ?thesis
      proof (rule Cons.IH)
        show "foldl (name_class class_names) (imap_insert (p_name p) name sets0, used1) ps = (sets', used')"
          using Cons.prems(1) by (simp add: one)
        show "fst ` set (imap_insert (p_name p) name sets0) \<inter> set (names ps) = {}"
        proof -
          have "insert (p_name p) (fst ` set sets0) \<inter> set (names ps) = {}" using Cons.prems(2,3) by auto
          then show ?thesis using keys by blast
        qed
        show "distinct (map snd (imap_insert (p_name p) name sets0))" "set (map snd (imap_insert (p_name p) name sets0)) \<subseteq> set used1"
          unfolding vals using f Cons.prems(4,5) by auto
      qed (use Cons.prems(2,6) f in auto)
    next
      case False
      then show ?thesis using Cons by (simp add: name_class_def)
    qed
  qed simp
  from this [of "[]" "[]" sets used] assms show ?thesis by (simp add: class_set_names_def)
qed

lemma token_tables_names:
  assumes "token_tables_of rx wk class_names lifted g b = Inr (sets, tt)" and "distinct (names (productions g))"
  shows "names_apart (map snd sets) tt \<and> (\<forall>el\<in>set (grammar_terminals lifted g). has_token tt el)"
proof -
  obtain used where c: "class_set_names class_names (productions g) = (sets, used)"
    "alloc_terminals rx wk (grammar_terminals lifted g) (tables_new used (class_analysis_of (grammar_terminals lifted g)) b) = Inr tt"
    using assms(1) by (auto simp: token_tables_of_def Let_def res_bind_Inr_iff split: prod.splits)
  have "names_apart (map snd sets) (tables_new used (class_analysis_of (grammar_terminals lifted g)) b)"
    using class_names_apart [OF c(1) assms(2)]
    by (simp add: names_apart_def tables_new_def token_names_def class_analysis_of_def Let_def)
  from alloc_terminals_step [OF c(2) [unfolded alloc_terminals_def] this] show ?thesis by auto
qed

end
