(* ===== verification/Contest.thy ===== *)
theory Contest
  imports Token_Tables "HOL-Library.Char_ord"
begin

text \<open>
  Which tokens contest an input, \<open>ContestCtx\<close> of \<open>rs/src/emit.rs\<close>: whether two can claim one
  character, and whether the lexer can hand the same input to two dispatch heads. The memos are left
  out: a pair that is asked again while it is being answered still answers \<open>True\<close>, as the
  provisional entry does. Unicode case mapping is the parameters \<open>lower\<close> and \<open>upper\<close>.
\<close>

section \<open>Coverage\<close>

record contest_ctx =
  cc_fixed :: "(string \<times> string option) list"
  cc_match :: "(string \<times> match_token) list"
  cc_set_ranges :: "(string \<times> char_range list) list"
  cc_class_sets :: "(string \<times> string) list"
  cc_class_members :: token_sets
  cc_token_sets :: token_sets
  cc_literal_by_token :: "(string \<times> string \<times> bool) list"
  cc_word_keywords :: bool

text \<open>The pattern as written, without the emitter's own anchor and grouping.\<close>

definition pattern_of :: "match_token \<Rightarrow> string" where
  "pattern_of re =
     (let src = (if prefix ''^'' (mt_source re) then drop 1 (mt_source re) else mt_source re)
      in if prefix ''(?:'' src \<and> suffix '')'' (drop 3 src) then butlast (drop 3 src) else src)"

definition token_ranges_of :: "contest_ctx \<Rightarrow> string \<Rightarrow> char_range list option" where
  "token_ranges_of cc tok =
     (case map_of (cc_set_ranges cc) tok of
        Some spanned \<Rightarrow> Some (normalize_ranges spanned)
      | None \<Rightarrow>
          map_option normalize_ranges
            (case map_of (cc_fixed cc) tok of
               Some (Some lit) \<Rightarrow> (case chars lit of [] \<Rightarrow> None | c # _ \<Rightarrow> Some (code_unit_reach [(c, c)] []))
             | _ \<Rightarrow>
                 (case map_of (cc_match cc) tok of
                    None \<Rightarrow> None
                  | Some re \<Rightarrow>
                      map_option (\<lambda>r. code_unit_reach (if CHR ''i'' \<in> set (mt_flags re) then fold_case_ranges r else r) (mt_flags re))
                        (pattern_char_ranges (pattern_of re) (mt_flags re)))))"

section \<open>Overlap\<close>

text \<open>The two names of a pair, whichever is asked first.\<close>

definition pair_key :: "string \<Rightarrow> string \<Rightarrow> string \<times> string" where
  "pair_key a b = (if a < b then (a, b) else (b, a))"

definition members_or :: "token_sets \<Rightarrow> string \<Rightarrow> string \<Rightarrow> string list" where
  "members_or sets key a = (case map_of sets key of Some ms \<Rightarrow> ms | None \<Rightarrow> [a])"

definition asked :: "token_sets \<Rightarrow> string \<Rightarrow> string \<Rightarrow> string set" where
  "asked sets a b = insert a (insert b (\<Union> (set ` snd ` set sets)))"

definition unasked :: "token_sets \<Rightarrow> (string \<times> string) list \<Rightarrow> string \<Rightarrow> string \<Rightarrow> (string \<times> string) set" where
  "unasked sets pending a b = asked sets a b \<times> asked sets a b - set pending"

lemma finite_unasked [simp]: "finite (unasked sets pending a b)"
  by (simp add: unasked_def asked_def)

lemma members_or_asked: "x \<in> set (members_or sets key a) \<Longrightarrow> x = a \<or> x \<in> \<Union> (set ` snd ` set sets)"
  by (auto simp: members_or_def dest!: map_of_SomeD split: option.splits) force

lemma unasked_less:
  assumes "pair_key a b \<notin> set pending" and "x \<in> set (members_or sets k a)" and "y \<in> set (members_or sets k' b)"
  shows "card (unasked sets (pair_key a b # pending) x y) < card (unasked sets pending a b)"
proof (rule psubset_card_mono)
  have sub: "asked sets x y \<subseteq> asked sets a b" using members_or_asked assms(2,3) by (fastforce simp: asked_def)
  have "pair_key a b \<in> unasked sets pending a b" using assms(1) by (auto simp: unasked_def asked_def pair_key_def)
  then show "unasked sets (pair_key a b # pending) x y \<subset> unasked sets pending a b" using sub by (auto simp: unasked_def)
qed simp

function overlap_walk :: "contest_ctx \<Rightarrow> (string \<times> string) list \<Rightarrow> string \<Rightarrow> string \<Rightarrow> bool" where
  "overlap_walk cc pending a b =
     (if pair_key a b \<in> set pending then True
      else if map_of (cc_class_members cc) a \<noteq> None \<or> map_of (cc_class_members cc) b \<noteq> None then
        list_ex
          (\<lambda>x. list_ex (\<lambda>y. x = y \<or> overlap_walk cc (pair_key a b # pending) x y) (members_or (cc_class_members cc) b b))
          (members_or (cc_class_members cc) a a)
      else
        (case (token_ranges_of cc a, token_ranges_of cc b) of
           (Some ra, Some rb) \<Rightarrow> char_ranges_overlap ra rb
         | _ \<Rightarrow> False))"
  by pat_completeness auto
termination
  by (relation "measure (\<lambda>(cc, pending, a, b). card (unasked (cc_class_members cc) pending a b))") (auto intro: unasked_less)

declare overlap_walk.simps [simp del]

definition tokens_overlap :: "contest_ctx \<Rightarrow> string \<Rightarrow> string \<Rightarrow> bool" where
  "tokens_overlap cc a b = overlap_walk cc [] a b"

section \<open>Heads\<close>

definition folded_prefix :: "(string \<Rightarrow> string) \<Rightarrow> (string \<Rightarrow> string) \<Rightarrow> string \<Rightarrow> string \<Rightarrow> bool" where
  "folded_prefix lower upper short long \<longleftrightarrow> prefix (lower short) (lower long) \<or> prefix (upper short) (upper long)"

definition is_word_char :: "nat \<Rightarrow> bool" where
  "is_word_char c \<longleftrightarrow> c = cp CHR ''_'' \<or> is_ascii_alnum c"

definition is_word_literal :: "contest_ctx \<Rightarrow> string \<Rightarrow> bool" where
  "is_word_literal cc lit \<longleftrightarrow> cc_word_keywords cc \<and> ends_with_word_char lit"

definition literals_contest ::
    "(string \<Rightarrow> string) \<Rightarrow> (string \<Rightarrow> string) \<Rightarrow> contest_ctx \<Rightarrow> string \<times> bool \<Rightarrow> string \<times> bool \<Rightarrow> bool" where
  "literals_contest lower upper cc x y =
     (case (x, y) of
        ((la, sa), (lb, sb)) \<Rightarrow>
          (case (if length (chars la) \<le> length (chars lb) then (la, lb) else (lb, la)) of
             (short, long) \<Rightarrow>
               (if sa \<and> sb then prefix short long else folded_prefix lower upper short long) \<and>
               \<not> (is_word_literal cc la \<and> is_word_literal cc lb \<and>
                  length (chars short) < length (chars long) \<and> is_word_char (chars long ! length (chars short)))))"

text \<open>What the engine's own matchers take when the parser asks for them.\<close>

definition NUMBER_START :: "char_range list" where "NUMBER_START = [(0x2B, 0x2B), (0x2D, 0x2E), (0x30, 0x39)]"
definition QUOTE_START :: "char_range list" where "QUOTE_START = [(0x22, 0x22), (0x27, 0x27), (0x60, 0x60)]"

definition engine_token_meets :: "contest_ctx \<Rightarrow> string \<Rightarrow> string \<Rightarrow> bool" where
  "engine_token_meets cc eng other =
     (if eng = ''#TX'' then other = ''#NR'' \<or> other = ''#ST'' \<or> map_of (cc_match cc) other \<noteq> None
      else
        let meets = (\<lambda>starts. case token_ranges_of cc other of Some r \<Rightarrow> char_ranges_overlap starts r | None \<Rightarrow> False)
        in if eng = ''#NR'' then meets NUMBER_START else if eng = ''#ST'' then meets QUOTE_START else False)"

definition regex_head_is_exact :: "contest_ctx \<Rightarrow> string \<Rightarrow> bool" where
  "regex_head_is_exact cc tok =
     (case map_of (cc_match cc) tok of
        None \<Rightarrow> True
      | Some re \<Rightarrow>
          if CHR ''i'' \<in> set (mt_flags re) \<and>
             \<not> (case token_ranges_of cc tok of Some r \<Rightarrow> list_all (\<lambda>(_, hi). hi \<le> 0x7F) r | None \<Rightarrow> False)
          then False
          else if map_of (cc_literal_by_token cc) tok \<noteq> None then True
          else
            (case regex_head_atom_end (pattern_of re) of
               None \<Rightarrow> False
             | Some n \<Rightarrow>
                 if CHR ''u'' \<notin> set (mt_flags re) \<and> CHR ''v'' \<notin> set (mt_flags re) \<and>
                    sublist [BACKSLASH, cp CHR ''u'', cp CHR ''{''] (take n (chars (pattern_of re)))
                 then False
                 else drop n (chars (pattern_of re)) \<in> {[], [cp CHR ''+'']} \<and> token_ranges_of cc tok \<noteq> None))"

function heads_walk ::
    "(string \<Rightarrow> string) \<Rightarrow> (string \<Rightarrow> string) \<Rightarrow> contest_ctx \<Rightarrow> (string \<times> string) list \<Rightarrow> string \<Rightarrow> string \<Rightarrow> bool" where
  "heads_walk lower upper cc pending a b =
     (if a = b \<or> a = ''#AA'' \<or> b = ''#AA'' then True
      else if pair_key a b \<in> set pending then True
      else if map_of (cc_token_sets cc) (trim_hash a) \<noteq> None \<or> map_of (cc_token_sets cc) (trim_hash b) \<noteq> None then
        list_ex
          (\<lambda>x. list_ex (\<lambda>y. heads_walk lower upper cc (pair_key a b # pending) x y) (members_or (cc_token_sets cc) (trim_hash b) b))
          (members_or (cc_token_sets cc) (trim_hash a) a)
      else
        (case (map_of (cc_literal_by_token cc) a, map_of (cc_literal_by_token cc) b) of
           (Some x, Some y) \<Rightarrow> literals_contest lower upper cc x y
         | _ \<Rightarrow>
             \<not> regex_head_is_exact cc a \<or> \<not> regex_head_is_exact cc b \<or> tokens_overlap cc a b \<or>
             engine_token_meets cc a b \<or> engine_token_meets cc b a))"
  by pat_completeness auto
termination
  by (relation "measure (\<lambda>(lower, upper, cc, pending, a, b). card (unasked (cc_token_sets cc) pending a b))")
    (auto intro: unasked_less)

declare heads_walk.simps [simp del]

definition heads_contest :: "(string \<Rightarrow> string) \<Rightarrow> (string \<Rightarrow> string) \<Rightarrow> contest_ctx \<Rightarrow> string \<Rightarrow> string \<Rightarrow> bool" where
  "heads_contest lower upper cc a b = heads_walk lower upper cc [] a b"

text \<open>What a literal head covers: a token class what its members with a known coverage cover.\<close>

definition literal_head_ranges_of :: "contest_ctx \<Rightarrow> string \<Rightarrow> char_range list option" where
  "literal_head_ranges_of cc tok =
     (case map_of (cc_class_members cc) tok of
        None \<Rightarrow> token_ranges_of cc tok
      | Some members \<Rightarrow>
          let known = List.map_filter (token_ranges_of cc) members
          in if known = [] then None else Some (concat known))"

section \<open>The context of a compile\<close>

definition contest_new :: "token_tables \<Rightarrow> bool \<Rightarrow> contest_ctx" where
  "contest_new tt word_keywords =
     \<lparr>cc_fixed = tt_fixed tt, cc_match = tt_match tt, cc_set_ranges = tt_set_ranges tt, cc_class_sets = [],
      cc_class_members = [], cc_token_sets = [],
      cc_literal_by_token =
        foldl (\<lambda>m (key, name). imap_insert name (drop 3 key, prefix ''cs:'' key) m) [] (tk_literals (tt_tokens tt)),
      cc_word_keywords = word_keywords\<rparr>"

definition class_member_token ::
    "tokens \<Rightarrow> string list \<times> emit_budget \<Rightarrow> seq \<Rightarrow> (emit_error, string list \<times> emit_budget) result" where
  "class_member_token tk acc alt =
     (case acc of
        (members, b) \<Rightarrow>
          let tok = tok_name tk (hd alt)
          in if tok \<in> set members then Inr (members, b)
             else res_bind (b_charge 1 b) (\<lambda>b. Inr (members @ [tok], b)))"

definition class_set ::
    "(string \<times> string) list \<Rightarrow> contest_ctx \<times> token_tables \<Rightarrow> production \<Rightarrow> (emit_error, contest_ctx \<times> token_tables) result" where
  "class_set set_names acc p =
     (case acc of
        (cc, tt) \<Rightarrow>
          (case map_of set_names (p_name p) of
             None \<Rightarrow> Inr (cc, tt)
           | Some name \<Rightarrow>
               res_bind
                 (res_fold (class_member_token (tt_tokens tt))
                   ([], b_begin_rule (origin_of p) (p_sp p) StepTokenClass (tt_budget tt)) (p_alts p))
                 (\<lambda>(members, b).
                    let covered = map (token_ranges_of cc) members
                    in Inr
                      (cc\<lparr>cc_class_sets := imap_insert (p_name p) name (cc_class_sets cc),
                          cc_set_ranges :=
                            (if None \<in> set covered then cc_set_ranges cc
                             else imap_insert name (concat (map the covered)) (cc_set_ranges cc)),
                          cc_class_members := imap_insert name members (cc_class_members cc)\<rparr>,
                       tt\<lparr>tt_sets := imap_insert (trim_hash name) members (tt_sets tt), tt_budget := b\<rparr>))))"

definition contest_of ::
    "(string \<times> string) list \<Rightarrow> bool \<Rightarrow> production list \<Rightarrow> token_tables \<Rightarrow> (emit_error, contest_ctx \<times> token_tables) result" where
  "contest_of set_names word_keywords ps tt =
     res_bind (res_fold (class_set set_names) (contest_new tt word_keywords, tt) ps)
       (\<lambda>(cc, tt). Inr (cc\<lparr>cc_token_sets := tt_sets tt\<rparr>, tt))"

end
