(* ===== verification/Emit_Alts.thy ===== *)
theory Emit_Alts
  imports Contest Lookahead Token_Span
begin

text \<open>
  The alternates of an emitted rule, the middle of \<open>rs/src/emit.rs\<close>: the registry of actions, the
  segments of an alternative, the builders of values, the guards and the order of the entries a
  choice dispatches on. A rank, in the code a float that is a whole or a half, is here the whole
  number twice it. What panics in the code is an error value.
\<close>

section \<open>The registry\<close>

record 'f ref_registry =
  rr_refs :: "(string \<times> 'f ref_action) list"
  rr_counter :: nat
  rr_builtins :: bool
  rr_marks :: bool

abbreviation json_nat :: "nat \<Rightarrow> json" where
  "json_nat n \<equiv> JNum (NInt (int n))"

definition rr_register :: "'f ref_action \<Rightarrow> 'f ref_registry \<Rightarrow> string \<times> 'f ref_registry" where
  "rr_register action rr =
     (let name = ''@bnf_a'' @ nat_str (rr_counter rr)
      in (name, rr\<lparr>rr_counter := rr_counter rr + 1, rr_refs := imap_insert name action (rr_refs rr)\<rparr>))"

definition rr_action :: "'f ref_action \<Rightarrow> alt_spec \<times> 'f ref_registry \<Rightarrow> alt_spec \<times> 'f ref_registry" where
  "rr_action action x = (case rr_register action (snd x) of (name, rr) \<Rightarrow> (alt_set ''a'' (JStr name) (fst x), rr))"

definition rr_node ::
    "bool \<Rightarrow> string \<Rightarrow> node_kind \<Rightarrow> nat \<Rightarrow> alt_spec \<times> 'f ref_registry \<Rightarrow> alt_spec \<times> 'f ref_registry" where
  "rr_node init rule kind nterms x =
     (if rr_builtins (snd x) then
        (alt_set ''k''
           (JObj [(''node$'', JObj [(''init'', JBool init), (''rule'', JStr rule), (''kind'', JStr (node_kind_str kind)),
              (''nterms'', json_nat nterms)])])
           (alt_set ''a'' (JStr ''@node$'') (fst x)), snd x)
      else rr_action (RefNode init rule kind nterms) x)"

definition rr_capture :: "string \<Rightarrow> node_kind \<Rightarrow> alt_spec \<times> 'f ref_registry \<Rightarrow> alt_spec \<times> 'f ref_registry" where
  "rr_capture rule kind x =
     (if rr_builtins (snd x) then
        (alt_set ''k'' (JObj [(''capture$'', JObj [(''rule'', JStr rule), (''kind'', JStr (node_kind_str kind))])])
           (alt_set ''a'' (JStr ''@capture$'') (fst x)), snd x)
      else rr_action (RefCapture rule kind) x)"

definition rr_bubble :: "alt_spec \<times> 'f ref_registry \<Rightarrow> alt_spec \<times> 'f ref_registry" where
  "rr_bubble x =
     (if rr_builtins (snd x) then (alt_set ''a'' (JStr ''@bubble$'') (fst x), snd x) else rr_action RefBubble x)"

definition rr_fold :: "nat option \<Rightarrow> alt_spec \<times> 'f ref_registry \<Rightarrow> alt_spec \<times> 'f ref_registry" where
  "rr_fold c_n x =
     (if rr_builtins (snd x) then
        (alt_set ''k'' (JObj [(''fold$'', JObj (case c_n of Some n \<Rightarrow> [(''cN'', json_nat n)] | None \<Rightarrow> []))])
           (alt_set ''a'' (JStr ''@fold$'') (fst x)), snd x)
      else rr_action (RefFold (case c_n of Some n \<Rightarrow> n | None \<Rightarrow> 0)) x)"

section \<open>Segments and marks\<close>

record segment =
  sg_terms :: "string list"
  sg_ref :: "string option"
  sg_debt :: "debts option"

definition segment_default :: segment where
  "segment_default = \<lparr>sg_terms = [], sg_ref = None, sg_debt = None\<rparr>"

definition segment_step :: "tokens \<Rightarrow> segment list \<times> segment \<Rightarrow> element \<Rightarrow> (emit_error, segment list \<times> segment) result" where
  "segment_step tk acc el =
     (case acc of
        (segs, current) \<Rightarrow>
          if is_terminal el then Inr (segs, current\<lparr>sg_terms := sg_terms current @ [tok_name tk el]\<rparr>)
          else
            (case kind_of el of
               Ref name debt \<Rightarrow>
                 Inr (segs @ [current\<lparr>sg_ref := Some name, sg_debt := (if debt \<noteq> None then debt else sg_debt current)\<rparr>],
                      segment_default)
             | _ \<Rightarrow> Inl (err_new (InternalKind (kind_name el)))))"

definition segmentize :: "seq \<Rightarrow> tokens \<Rightarrow> (emit_error, segment list) result" where
  "segmentize alt tk =
     res_bind (res_fold (segment_step tk) ([], segment_default) alt)
       (\<lambda>(segs, current). Inr (if sg_terms current \<noteq> [] \<or> segs = [] then segs @ [current] else segs))"

definition strip_name :: "string \<Rightarrow> string" where
  "strip_name name = (let s = trim_hash name in if s = [] then ''_'' else s)"

definition alt_discriminator :: "seq \<Rightarrow> tokens \<Rightarrow> string" where
  "alt_discriminator alt tk =
     (case alt of
        [] \<Rightarrow> ''_''
      | el # _ \<Rightarrow>
          (case kind_of el of
             Term _ _ _ \<Rightarrow> strip_name (tok_name tk el)
           | Regex _ _ \<Rightarrow> strip_name (tok_name tk el)
           | Token name \<Rightarrow> strip_name name
           | Ref name _ \<Rightarrow> name
           | _ \<Rightarrow> ''_''))"

definition assign_marks :: "seq list \<Rightarrow> tokens \<Rightarrow> string list" where
  "assign_marks alts tk =
     snd (foldl
       (\<lambda>(seen, out) alt.
          let base = alt_discriminator alt tk; n = imap_get_or 0 seen base + 1
          in (imap_insert base n seen, out @ [if n = 1 then base else base @ ''~'' @ nat_str n]))
       ([], []) alts)"

text \<open>The item of a repeat loop, \<open>item self / (empty)\<close> as desugaring mints it.\<close>

definition loop_item_of :: "production \<Rightarrow> (emit_error, element) result" where
  "loop_item_of p =
     (case find (\<lambda>alt. alt \<noteq> []) (p_alts p) of
        Some [item, self] \<Rightarrow>
          if length (p_alts p) = 2 \<and> list_ex (\<lambda>alt. alt = []) (p_alts p) \<and> is_ref_to self (p_name p) \<and>
             \<not> (case kind_of item of Ref _ (Some _) \<Rightarrow> True | _ \<Rightarrow> False)
          then Inr item else Inl (err_new (LoopShape (p_name p)))
      | _ \<Rightarrow> Inl (err_new (LoopShape (p_name p))))"

definition debt_to_n :: "debts \<Rightarrow> (string \<times> json) list" where
  "debt_to_n debt = foldl (\<lambda>n (k, v). imap_insert k (JNum (NInt v)) n) [] debt"

section \<open>Values\<close>

text \<open>\<open>Map::remove\<close> under \<open>preserve_order\<close>: the last entry takes the place of the one removed.\<close>

definition swap_remove :: "string \<Rightarrow> (string \<times> json) list \<Rightarrow> (string \<times> json) list" where
  "swap_remove k m =
     (if map_of m k = None then m
      else if fst (last m) = k then butlast m
      else map (\<lambda>kv. if fst kv = k then last m else kv) (butlast m))"

definition use_value_actions :: "string list \<Rightarrow> (string \<times> json) list option \<Rightarrow> alt_spec \<Rightarrow> alt_spec" where
  "use_value_actions actions cfg spec =
     (let spec = alt_set_actions actions spec;
          spec = (case alt_k spec of None \<Rightarrow> spec | Some k \<Rightarrow> alt_set ''k'' (JObj (swap_remove ''capture$'' (swap_remove ''node$'' k))) spec);
          spec =
            (case cfg of
               None \<Rightarrow> spec
             | Some cfg \<Rightarrow>
                 alt_set ''k''
                   (JObj (foldl (\<lambda>k (key, value). imap_insert key value k) (case alt_k spec of Some k \<Rightarrow> k | None \<Rightarrow> []) cfg)) spec)
      in if alt_k spec = Some [] then alt_remove ''k'' spec else spec)"

definition src_cfg :: "string \<Rightarrow> (string \<times> json) list" where
  "src_cfg act = [(act, JObj [(''src'', JBool True)])]"

definition push_element :: "string list \<Rightarrow> string option \<Rightarrow> alt_spec \<Rightarrow> alt_spec" where
  "push_element value_rules elem spec =
     (case elem of
        None \<Rightarrow> use_value_actions [] None spec
      | Some n \<Rightarrow> use_value_actions [''@push$''] (if n \<in> set value_rules then None else Some (src_cfg ''push$'')) spec)"

definition peek_copy :: "alt_spec \<Rightarrow> string \<Rightarrow> nat \<Rightarrow> alt_spec" where
  "peek_copy base s b = alt_set ''b'' (json_nat b) (alt_set ''s'' (JStr s) base)"

definition descent_of :: "alt_spec \<Rightarrow> string option" where
  "descent_of o' = (case alt_p o' of Some p \<Rightarrow> Some p | None \<Rightarrow> alt_r o')"

section \<open>The emitter\<close>

text \<open>What the emitter reads, and what it writes.\<close>

record emit_env =
  ee_grammar :: grammar
  ee_tag :: string
  ee_tokens :: tokens
  ee_known :: "string list"
  ee_first :: token_sets
  ee_nullable :: "string list"
  ee_follow :: token_sets
  ee_pairs :: token_pairs
  ee_contest :: contest_ctx
  ee_heads :: "string \<Rightarrow> string \<Rightarrow> bool"
  ee_plan :: "(string \<times> bool list) list"
  ee_array_helpers :: "string list"
  ee_value_rules :: "string list"
  ee_literal_heads :: "string list"
  ee_class_heads :: "string list"

record 'f emitter =
  em_refs :: "'f ref_registry"
  em_prov :: "(string \<times> string) list option"
  em_rules :: "(string \<times> rule_spec option) list"
  em_budget :: emit_budget
  em_pre :: nat

definition record_prov :: "string \<Rightarrow> string \<Rightarrow> 'f emitter \<Rightarrow> 'f emitter" where
  "record_prov name origin st = st\<lparr>em_prov := map_option (imap_insert name origin) (em_prov st)\<rparr>"

definition em_charge :: "nat \<Rightarrow> 'f emitter \<Rightarrow> (emit_error, 'f emitter) result" where
  "em_charge n st = res_bind (b_charge n (em_budget st)) (\<lambda>b. Inr (st\<lparr>em_budget := b\<rparr>))"

text \<open>An alternate of the rule under way, charged as it is made.\<close>

definition made :: "alt_spec \<Rightarrow> 'f emitter \<Rightarrow> (emit_error, 'f emitter) result" where
  "made o' st = res_bind (em_charge (alt_units o') st) (\<lambda>st. Inr (st\<lparr>em_pre := em_pre st + alt_units o'\<rparr>))"

definition commit_rule :: "string \<Rightarrow> rule_spec \<Rightarrow> nat \<Rightarrow> 'f emitter \<Rightarrow> (emit_error, 'f emitter) result" where
  "commit_rule name rs pre st =
     (if rule_units rs < pre then Inl (err_new (UnitsBelow name (rule_units rs) pre))
      else res_bind (em_charge (rule_units rs - pre) st) (\<lambda>st. Inr (st\<lparr>em_rules := imap_insert name (Some rs) (em_rules st)\<rparr>)))"

definition segment_to_alt :: "emit_env \<Rightarrow> segment \<Rightarrow> bool \<Rightarrow> string \<Rightarrow> node_kind \<Rightarrow> 'f ref_registry \<Rightarrow> alt_spec \<times> 'f ref_registry" where
  "segment_to_alt env seg init_node rule_name kind rr =
     (let spec = alt_with_tag (ee_tag env);
          spec = (if sg_terms seg \<noteq> [] then alt_set ''s'' (JStr (join '' '' (sg_terms seg))) spec else spec);
          spec = (case sg_ref seg of Some r \<Rightarrow> alt_set ''p'' (JStr r) spec | None \<Rightarrow> spec);
          spec = (case sg_debt seg of Some debt \<Rightarrow> alt_set ''n'' (JObj (debt_to_n debt)) spec | None \<Rightarrow> spec);
          nterms = length (sg_terms seg)
      in if 0 < nterms \<or> init_node then rr_node init_node rule_name kind nterms (spec, rr) else (spec, rr))"

definition capture_close :: "emit_env \<Rightarrow> string \<Rightarrow> node_kind \<Rightarrow> string option \<Rightarrow> 'f ref_registry \<Rightarrow> alt_spec \<times> 'f ref_registry" where
  "capture_close env rule_name kind r rr =
     (case rr_capture rule_name kind ((case r of Some n \<Rightarrow> alt_set ''r'' (JStr n) alt_new | None \<Rightarrow> alt_new), rr) of
        (close, rr) \<Rightarrow> (alt_set ''g'' (JStr (ee_tag env)) close, rr))"

definition validate_refs :: "emit_env \<Rightarrow> string \<Rightarrow> seq \<Rightarrow> (emit_error, unit) result" where
  "validate_refs env rule_name alt =
     res_check
       (\<lambda>el. case ref_name el of
               Some name \<Rightarrow> if name \<in> set (ee_known env) then Inr () else Inl (err_at (UnknownRule rule_name name) rule_name (sp_of el))
             | None \<Rightarrow> Inr ()) alt"

section \<open>Guards\<close>

record entry =
  en_o :: alt_spec
  en_alt :: "seq option"

text \<open>The two-token guards of a contested repetition: what only the way out can go on with.\<close>

definition pair_guard ::
    "alt_spec \<Rightarrow> string \<Rightarrow> alt_spec list \<times> string list \<times> 'f emitter \<Rightarrow> string \<Rightarrow>
     (emit_error, alt_spec list \<times> string list \<times> 'f emitter) result" where
  "pair_guard base t acc u =
     (case acc of
        (out, seen, st) \<Rightarrow>
          let s = t @ '' '' @ u
          in if s \<in> set seen then Inr (out, seen, st)
             else res_bind (made (peek_copy base s 2) st) (\<lambda>st. Inr (out @ [peek_copy base s 2], iset_insert s seen, st)))"

definition pair_guards ::
    "emit_env \<Rightarrow> alt_spec \<Rightarrow> string list \<Rightarrow> alt_spec list \<times> string list \<times> 'f emitter \<Rightarrow> string \<times> string list \<Rightarrow>
     (emit_error, alt_spec list \<times> string list \<times> 'f emitter) result" where
  "pair_guards env base cont_first acc x =
     (case x of
        (t, us) \<Rightarrow>
          if us = [] \<or> token_ranges_of (ee_contest env) t = None \<or>
             \<not> list_ex (\<lambda>f. f \<noteq> t \<and> tokens_overlap (ee_contest env) t f) cont_first
          then Inr acc
          else res_fold (pair_guard base t) acc us)"

definition pair_exit_guards :: "emit_env \<Rightarrow> production \<Rightarrow> alt_spec \<Rightarrow> 'f emitter \<Rightarrow> (emit_error, alt_spec list \<times> 'f emitter) result" where
  "pair_exit_guards env p base st =
     (if \<not> p_repeat_helper p then Inr ([], st)
      else
        res_bind
          (res_fold (pair_guards env base (set_of (ee_first env) (p_name p))) ([], [], st)
            (case map_of (ee_pairs env) (p_name p) of Some pairs \<Rightarrow> pairs | None \<Rightarrow> []))
          (\<lambda>(out, _, st). Inr (out, st)))"

text \<open>The second tokens that only a literal-headed alternative can go on with, if all are known.\<close>

fun second_tokens :: "string list option \<Rightarrow> string \<Rightarrow> string list \<Rightarrow> prefix_path list \<Rightarrow> string list option" where
  "second_tokens fol f seconds [] = Some seconds"
| "second_tokens fol f seconds (p # paths) =
     (case pp_tokens p of
        [] \<Rightarrow> second_tokens fol f seconds paths
      | t # ts \<Rightarrow>
          if t \<noteq> f then second_tokens fol f seconds paths
          else
            (case ts of
               u # _ \<Rightarrow> second_tokens fol f (iset_insert u seconds) paths
             | [] \<Rightarrow>
                 (case fol of
                    Some fs \<Rightarrow> if fs = [] then None else second_tokens fol f (iset_extend seconds fs) paths
                  | None \<Rightarrow> None)))"

definition keyword_guard ::
    "alt_spec \<Rightarrow> string \<Rightarrow> int \<Rightarrow> alt_spec list \<times> 'f emitter \<Rightarrow> string \<Rightarrow> (emit_error, alt_spec list \<times> 'f emitter) result" where
  "keyword_guard o' f consumed acc u =
     (case acc of
        (guards, st) \<Rightarrow>
          let g = peek_copy o' (f @ '' '' @ u) (nat (max 0 (2 - consumed)))
          in res_bind (made g st) (\<lambda>st. Inr (guards @ [g], st)))"

definition synth_keyword_guards ::
    "emit_env \<Rightarrow> production \<Rightarrow> alt_spec \<Rightarrow> seq \<Rightarrow> string \<Rightarrow> int \<Rightarrow> 'f emitter \<Rightarrow>
     (emit_error, alt_spec list option \<times> 'f emitter) result" where
  "synth_keyword_guards env p o' alt f consumed st =
     res_bind
       (alt_prefixes_raw (ee_grammar env) (ee_tokens env) (Some (cc_class_sets (ee_contest env))) 2 [] None alt (em_budget st))
       (\<lambda>(paths, b).
          let st' = st\<lparr>em_budget := b_restore (b_held (em_budget st)) b\<rparr>
          in case second_tokens (map_of (ee_follow env) (p_name p)) f [] paths of
               None \<Rightarrow> Inr (None, st')
             | Some seconds \<Rightarrow>
                 if seconds = [] \<or> 16 < length seconds then Inr (None, st')
                 else res_bind (res_fold (keyword_guard o' f consumed) ([], st') seconds) (\<lambda>(guards, st). Inr (Some guards, st)))"

section \<open>The order of the entries\<close>

definition head_token :: "alt_spec \<Rightarrow> string option" where
  "head_token o' = (case alt_s o' of Some s \<Rightarrow> if s = [] then None else Some (takeWhile (\<lambda>c. c \<noteq> CHR '' '') s) | None \<Rightarrow> None)"

definition s_len :: "alt_spec \<Rightarrow> nat" where
  "s_len o' = (case alt_s o' of Some s \<Rightarrow> if s = [] then 0 else 1 + count_list s CHR '' '' | None \<Rightarrow> 0)"

text \<open>The entries a character class heads, with what it covers.\<close>

definition class_entries :: "emit_env \<Rightarrow> entry list \<Rightarrow> (nat \<times> char_range list) list" where
  "class_entries env entries =
     List.map_filter
       (\<lambda>(i, e).
          case head_token (en_o e) of
            Some f \<Rightarrow>
              if f \<in> set (ee_class_heads env) then map_option (Pair i) (token_ranges_of (ee_contest env) f) else None
          | None \<Rightarrow> None)
       (enumerate 0 entries)"

record placed =
  pl_o :: alt_spec
  pl_rank :: int
  pl_seq :: nat

definition put_placed :: "alt_spec \<Rightarrow> int \<Rightarrow> placed list \<Rightarrow> placed list" where
  "put_placed o' rank placed = placed @ [\<lparr>pl_o = o', pl_rank = rank, pl_seq = length placed\<rparr>]"

text \<open>The class entries a literal-headed one contests, but for those going the same way.\<close>

definition contesting :: "emit_env \<Rightarrow> entry list \<Rightarrow> (nat \<times> char_range list) list \<Rightarrow> entry \<Rightarrow> nat list" where
  "contesting env entries classes e =
     (case (head_token (en_o e), en_alt e) of
        (Some f, Some _) \<Rightarrow>
          (case (if f \<in> set (ee_literal_heads env) then literal_head_ranges_of (ee_contest env) f else None) of
             None \<Rightarrow> []
           | Some fr \<Rightarrow>
               map fst
                 (filter
                   (\<lambda>(c, cr). char_ranges_overlap fr cr \<and>
                      \<not> (descent_of (en_o e) \<noteq> None \<and> descent_of (en_o (entries ! c)) = descent_of (en_o e)))
                   classes))
      | _ \<Rightarrow> [])"

definition place_entry ::
    "emit_env \<Rightarrow> production \<Rightarrow> entry list \<Rightarrow> (nat \<times> char_range list) list \<Rightarrow> placed list \<times> 'f emitter \<Rightarrow> nat \<times> entry \<Rightarrow>
     (emit_error, placed list \<times> 'f emitter) result" where
  "place_entry env p entries classes acc x =
     (case (acc, x) of
        ((placed, st), (i, e)) \<Rightarrow>
          let rank = 2 * int i; hits = contesting env entries classes e
          in if hits = [] then Inr (put_placed (en_o e) rank placed, st)
             else
               let front = 2 * int (hd hits) - 1; behind = 2 * int (last hits) + 1
               in if 2 \<le> s_len (en_o e) then Inr (put_placed (en_o e) (min rank front) placed, st)
                  else
                    let consumed = 1 - int (case alt_b (en_o e) of Some b \<Rightarrow> b | None \<Rightarrow> 0)
                    in res_bind
                         (if consumed = 0 \<or> consumed = 1
                          then synth_keyword_guards env p (en_o e) (case en_alt e of Some alt \<Rightarrow> alt | None \<Rightarrow> [])
                                 (case head_token (en_o e) of Some f \<Rightarrow> f | None \<Rightarrow> []) consumed st
                          else Inr (None, st))
                         (\<lambda>(guards, st).
                            case guards of
                              None \<Rightarrow> Inr (put_placed (en_o e) rank placed, st)
                            | Some gs \<Rightarrow>
                                Inr (put_placed (en_o e) (max rank behind) (foldl (\<lambda>pl g. put_placed g (min rank front) pl) placed gs), st)))"

definition plain_place :: "nat \<times> entry \<Rightarrow> placed" where
  "plain_place x = (case x of (i, e) \<Rightarrow> \<lparr>pl_o = en_o e, pl_rank = 2 * int i, pl_seq = i\<rparr>)"

definition reorder_keyword_shadow ::
    "emit_env \<Rightarrow> production \<Rightarrow> entry list \<Rightarrow> 'f emitter \<Rightarrow> (emit_error, placed list \<times> 'f emitter) result" where
  "reorder_keyword_shadow env p entries st =
     (let classes = class_entries env entries
      in if classes = [] then Inr (map plain_place (enumerate 0 entries), st)
         else
           res_bind (res_fold (place_entry env p entries classes) ([], st) (enumerate 0 entries))
             (\<lambda>(placed, st). Inr (sort_key (\<lambda>pl. (pl_rank pl, pl_seq pl)) placed, st)))"

text \<open>Entries that class heads contest change places among themselves: the longer lookahead first,
  then the longer alternative.\<close>

definition class_range_of :: "emit_env \<Rightarrow> entry \<Rightarrow> char_range list option" where
  "class_range_of env e =
     (case (head_token (en_o e), en_alt e) of
        (Some f, Some _) \<Rightarrow> if f \<in> set (ee_class_heads env) then token_ranges_of (ee_contest env) f else None
      | _ \<Rightarrow> None)"

definition contested_slots :: "emit_env \<Rightarrow> entry list \<Rightarrow> nat list" where
  "contested_slots env entries =
     filter
       (\<lambda>i. case class_range_of env (entries ! i) of
              None \<Rightarrow> False
            | Some ri \<Rightarrow>
                list_ex
                  (\<lambda>j. j \<noteq> i \<and>
                     (case class_range_of env (entries ! j) of
                        None \<Rightarrow> False
                      | Some rj \<Rightarrow>
                          \<not> (descent_of (en_o (entries ! i)) \<noteq> None \<and> descent_of (en_o (entries ! j)) = descent_of (en_o (entries ! i))) \<and>
                          char_ranges_overlap ri rj))
                  [0..<length entries])
       [0..<length entries]"

definition span_of :: "emit_env \<Rightarrow> entry \<Rightarrow> nat" where
  "span_of env e =
     (case en_alt e of
        None \<Rightarrow> 0
      | Some alt \<Rightarrow> (case seq_token_span alt (ee_grammar env) of Some n \<Rightarrow> n | None \<Rightarrow> 10 ^ 9))"

definition specificity_permute :: "emit_env \<Rightarrow> entry list \<Rightarrow> entry list" where
  "specificity_permute env entries =
     (let idxs = contested_slots env entries
      in if length idxs < 2 then entries
         else
           let order = sort_key (\<lambda>i. (- int (s_len (en_o (entries ! i))), - int (span_of env (entries ! i)))) idxs
           in foldl (\<lambda>es (slot, i). es[slot := entries ! i]) entries (zip idxs order))"

section \<open>Contested heads\<close>

fun res_any :: "('a \<Rightarrow> ('e, bool) result) \<Rightarrow> 'a list \<Rightarrow> ('e, bool) result" where
  "res_any f [] = Inr False"
| "res_any f (x # xs) = res_bind (f x) (\<lambda>b. if b then Inr True else res_any f xs)"

definition env_first :: "emit_env \<Rightarrow> seq \<Rightarrow> (emit_error, string list option) result" where
  "env_first env alt = first_of_alt (ee_tokens env) (ee_first env) (ee_nullable env) alt"

definition contested_by_follow :: "emit_env \<Rightarrow> production \<Rightarrow> seq \<Rightarrow> (emit_error, bool) result" where
  "contested_by_follow env p alt =
     (if \<not> p_repeat_helper p then Inr False
      else
        res_bind (env_first env alt)
          (\<lambda>mine.
             case mine of
               None \<Rightarrow> Inr False
             | Some mine \<Rightarrow>
                 Inr (list_ex (\<lambda>t. list_ex (\<lambda>f. f = t \<or> tokens_overlap (ee_contest env) t f) (set_of (ee_follow env) (p_name p))) mine)))"

text \<open>Whether the head of an alternative meets that of another, \<open>meets\<close> being what one token asks of
  the other.\<close>

definition head_meets ::
    "(string \<Rightarrow> string \<Rightarrow> bool) \<Rightarrow> emit_env \<Rightarrow> nat \<Rightarrow> seq list \<Rightarrow> (emit_error, bool) result" where
  "head_meets meets env idx all =
     res_bind (env_first env (all ! idx))
       (\<lambda>mine.
          case mine of
            None \<Rightarrow> Inr False
          | Some mine \<Rightarrow>
              res_any
                (\<lambda>(j, other).
                   if j = idx \<or> other = [] then Inr False
                   else
                     res_bind (env_first env other)
                       (\<lambda>theirs.
                          case theirs of
                            None \<Rightarrow> Inr False
                          | Some theirs \<Rightarrow> Inr (list_ex (\<lambda>t. list_ex (meets t) theirs) mine)))
                (enumerate 0 all))"

definition alt_head_contested :: "emit_env \<Rightarrow> nat \<Rightarrow> seq list \<Rightarrow> (emit_error, bool) result" where
  "alt_head_contested env idx all = head_meets (tokens_overlap (ee_contest env)) env idx all"

definition alt_head_shares_token :: "emit_env \<Rightarrow> nat \<Rightarrow> seq list \<Rightarrow> (emit_error, bool) result" where
  "alt_head_shares_token env idx all =
     head_meets
       (\<lambda>t u. t = u \<or> t \<in> set (ee_class_heads env) \<and> u \<in> set (ee_class_heads env) \<and> tokens_overlap (ee_contest env) t u)
       env idx all"

text \<open>A branch that would eat a token an enclosing frame owes runs only at no debt.\<close>

definition guard_entry :: "string \<Rightarrow> string list \<Rightarrow> entry \<Rightarrow> entry" where
  "guard_entry guard owed e =
     (case en_alt e of
        None \<Rightarrow> e
      | Some alt \<Rightarrow>
          if alt = [] then e
          else if (case alt_s (en_o e) of Some s \<Rightarrow> takeWhile (\<lambda>c. c \<noteq> CHR '' '') s \<notin> set owed | None \<Rightarrow> False) then e
          else e\<lparr>en_o := alt_set ''c'' (JObj [(''n.'' @ guard, json_nat 0)]) (en_o e)\<rparr>)"

definition apply_debt_guard :: "production \<Rightarrow> entry list \<Rightarrow> entry list" where
  "apply_debt_guard p entries =
     (case (p_debt_guard p, p_debt_owed p) of
        (Some guard, Some owed) \<Rightarrow> map (guard_entry guard owed) entries
      | _ \<Rightarrow> entries)"

end
