(* ===== verification/Emit_Rules.thy ===== *)
theory Emit_Rules
  imports Emit_Alts
begin

text \<open>
  The rules of an emitted grammar, the second half of \<open>rs/src/emit.rs\<close>: probes and their
  dispatchers, tail repetitions, repeat loops, chains of segments, choices decided by one token and
  choices that dispatch, each with the handler of the code and the order its fields are written in.
\<close>

section \<open>Probes and tail repetitions\<close>

definition LOOP_COUNTER :: string where
  "LOOP_COUNTER = ''rep''"

definition sync_g :: "string \<Rightarrow> string \<Rightarrow> string" where
  "sync_g tag grp = tag @ '','' @ grp"

definition probe_helper_alt :: "emit_env \<Rightarrow> production \<Rightarrow> element \<Rightarrow> alt_spec option" where
  "probe_helper_alt env p el =
     map_option
       (\<lambda>tok. alt_set ''g'' (JStr (ee_tag env)) (alt_set ''r'' (JStr (p_name p)) (alt_set ''s'' (JStr tok) alt_new)))
       (tok_of (ee_tokens env) el)"

definition emit_probe_helper :: "emit_env \<Rightarrow> production \<Rightarrow> element list \<Rightarrow> 'f emitter \<Rightarrow> (emit_error, 'f emitter) result" where
  "emit_probe_helper env p elems st =
     commit_rule (p_name p)
       \<lparr>rs_open = List.map_filter (probe_helper_alt env p) elems @ [alt_with_tag (ee_tag env)], rs_close = None\<rparr>
       (probe_rule_units (length elems)) st"

text \<open>A dispatcher's alternate: its condition, what runs, and where it goes, in the order written.\<close>

definition phase_alt :: "emit_env \<Rightarrow> string \<Rightarrow> string option \<Rightarrow> string \<Rightarrow> string \<Rightarrow> (string \<times> json) list option \<Rightarrow> alt_spec" where
  "phase_alt env c a field rule k =
     (let o' = alt_set ''c'' (JStr c) alt_new;
          o' = (case a of Some act \<Rightarrow> alt_set ''a'' (JStr act) o' | None \<Rightarrow> o');
          o' = alt_set field (JStr rule) o';
          o' = (case k of Some cfg \<Rightarrow> alt_set ''k'' (JObj cfg) o' | None \<Rightarrow> o')
      in alt_set ''g'' (JStr (ee_tag env)) o')"

definition dispatch_rule_builtins :: "emit_env \<Rightarrow> production \<Rightarrow> probe_dispatch_spec \<Rightarrow> string \<Rightarrow> alt_spec \<Rightarrow> rule_spec" where
  "dispatch_rule_builtins env p pd tok bubble =
     \<lparr>rs_open =
        [phase_alt env ''@probePhase0$'' (Some ''@probeInit$'') ''p'' (pd_probe_rule pd) (Some [(''pd_d'', JStr tok)]),
         phase_alt env ''@probePhase1$'' None ''p'' (pd_with_branch pd) None,
         phase_alt env ''@probePhase2$'' None ''p'' (pd_no_branch pd) None],
      rs_close = Some [phase_alt env ''@probePhase0$'' (Some ''@probeDecide$'') ''r'' (p_name p) None, bubble]\<rparr>"

definition dispatch_rule_closures ::
    "emit_env \<Rightarrow> production \<Rightarrow> probe_dispatch_spec \<Rightarrow> string \<Rightarrow> alt_spec \<Rightarrow> 'f ref_registry \<Rightarrow> rule_spec \<times> 'f ref_registry" where
  "dispatch_rule_closures env p pd tok bubble rr =
     (let (init_mark, rr) = rr_register RefProbeInit rr;
          (decide, rr) = rr_register (RefProbeDecide tok) rr;
          (phase0, rr) = rr_register (RefProbePhase 0) rr;
          (phase1, rr) = rr_register (RefProbePhase 1) rr;
          (phase2, rr) = rr_register (RefProbePhase 2) rr;
          (close_phase0, rr) = rr_register (RefProbePhase 0) rr
      in (\<lparr>rs_open =
             [phase_alt env phase0 (Some init_mark) ''p'' (pd_probe_rule pd) None,
              phase_alt env phase1 None ''p'' (pd_with_branch pd) None,
              phase_alt env phase2 None ''p'' (pd_no_branch pd) None],
           rs_close = Some [phase_alt env close_phase0 (Some decide) ''r'' (p_name p) None, bubble]\<rparr>, rr))"

definition emit_probe_dispatch ::
    "emit_env \<Rightarrow> production \<Rightarrow> probe_dispatch_spec \<Rightarrow> 'f emitter \<Rightarrow> (emit_error, 'f emitter) result" where
  "emit_probe_dispatch env p pd st =
     (case tok_of (ee_tokens env) (pd_disambiguator pd) of
        None \<Rightarrow> Inl (err_new (ProbeUnresolved (p_name p) (kind_name (pd_disambiguator pd))))
      | Some tok \<Rightarrow>
          (case rr_bubble (alt_new, em_refs st) of
             (bubble, rr) \<Rightarrow>
               let bubble = alt_set ''g'' (JStr (ee_tag env)) bubble
               in if rr_builtins rr then commit_rule (p_name p) (dispatch_rule_builtins env p pd tok bubble) 0 (st\<lparr>em_refs := rr\<rparr>)
                  else
                    (case dispatch_rule_closures env p pd tok bubble rr of
                       (rs, rr) \<Rightarrow> commit_rule (p_name p) rs 0 (st\<lparr>em_refs := rr\<rparr>))))"

definition marks_of :: "production \<Rightarrow> 'f ref_registry \<Rightarrow> seq list \<Rightarrow> tokens \<Rightarrow> string list option" where
  "marks_of p rr alts tk = (if p_node_kind p = UserNode \<and> rr_marks rr then Some (assign_marks alts tk) else None)"

abbreviation marked :: "string option \<Rightarrow> alt_spec \<Rightarrow> alt_spec" where
  "marked m a \<equiv> a\<lparr>as_m := m\<rparr>"

definition emit_tail_repeat :: "emit_env \<Rightarrow> production \<Rightarrow> seq \<Rightarrow> 'f emitter \<Rightarrow> (emit_error, 'f emitter) result" where
  "emit_tail_repeat env p sep st =
     (case p_alts p of
        [] \<Rightarrow> Inl (err_new (InternalKind ''tail repeat''))
      | first # _ \<Rightarrow>
          res_bind (segmentize first (ee_tokens env)) (\<lambda>prefix_segs.
          res_bind (segmentize sep (ee_tokens env)) (\<lambda>sep_segs.
            let marks = marks_of p (em_refs st) [first, sep] (ee_tokens env);
                sep_terms = sg_terms (hd sep_segs);
                (open1, rr) = segment_to_alt env (hd prefix_segs) True (p_name p) (p_node_kind p) (em_refs st);
                (again, rr) =
                  rr_fold (Some (length sep_terms)) (alt_set ''r'' (JStr (p_name p)) (alt_set ''s'' (JStr (join '' '' sep_terms)) alt_new), rr);
                again = alt_set ''g'' (JStr (sync_g (ee_tag env) ''comma'')) again;
                (ending, rr) = rr_fold None (alt_new, rr);
                ending = alt_set ''g'' (JStr (ee_tag env)) ending
            in commit_rule (p_name p)
                 \<lparr>rs_open = [marked (map_option (\<lambda>m. m ! 0) marks) open1],
                  rs_close = Some [marked (map_option (\<lambda>m. m ! 1) marks) again, marked (map_option (\<lambda>_. ''_'') marks) ending]\<rparr>
                 0 (st\<lparr>em_refs := rr\<rparr>))))"

section \<open>Loops\<close>

definition counter_is :: "nat \<Rightarrow> json" where
  "counter_is n = JObj [(''n.'' @ LOOP_COUNTER, json_nat n)]"

definition counter_to :: "nat \<Rightarrow> json" where
  "counter_to n = JObj [(LOOP_COUNTER, json_nat n)]"

definition loop_entry :: "emit_env \<Rightarrow> production \<Rightarrow> bool \<Rightarrow> 'f ref_registry \<Rightarrow> alt_spec \<times> 'f ref_registry" where
  "loop_entry env p array_elem rr =
     (case rr_node True (p_name p) (p_node_kind p) 0
        (alt_set ''r'' (JStr (p_name p)) (alt_set ''n'' (counter_to 1) (alt_set ''c'' (counter_is 0) alt_new)), rr)
      of (o', rr) \<Rightarrow>
        let o' = alt_set ''g'' (JStr (ee_tag env)) o'
        in (if array_elem then use_value_actions [] None o' else o', rr))"

definition emit_repeat_loop ::
    "emit_env \<Rightarrow> production \<Rightarrow> string \<Rightarrow> element \<Rightarrow> bool \<Rightarrow> 'f emitter \<Rightarrow> (emit_error, 'f emitter) result" where
  "emit_repeat_loop env lp name item array_elem st =
     (case ref_name item of
        None \<Rightarrow> Inl (err_new (LoopTerminalItem (p_name lp)))
      | Some item_name \<Rightarrow>
          let step = name @ ''$step1'';
              st = record_prov step (origin_of lp) st;
              take_item = alt_set ''g'' (JStr (ee_tag env)) (alt_set ''n'' (counter_to 0) (alt_set ''p'' (JStr item_name) alt_new));
              (back, rr) = rr_capture name HelperNode (alt_set ''n'' (counter_to 1) (alt_set ''r'' (JStr step) alt_new), em_refs st);
              back = alt_set ''g'' (JStr (ee_tag env)) back;
              back =
                (if array_elem
                 then push_element (ee_value_rules env) (if item_name \<in> set (ee_array_helpers env) then None else Some item_name) back
                 else back);
              again = alt_set ''g'' (JStr (ee_tag env)) (alt_set ''r'' (JStr (p_name lp)) alt_new)
          in res_bind (commit_rule name \<lparr>rs_open = [take_item], rs_close = Some [back]\<rparr> 0 (st\<lparr>em_refs := rr\<rparr>))
               (commit_rule step \<lparr>rs_open = [again], rs_close = None\<rparr> 0))"

section \<open>Chains\<close>

definition chain_name :: "string \<Rightarrow> nat \<Rightarrow> string" where
  "chain_name head i = (if i = 0 then head else head @ ''$step'' @ nat_str i)"

definition member_at :: "segment list \<Rightarrow> value_annotation option \<Rightarrow> nat \<Rightarrow> nat option" where
  "member_at segs value i =
     (if value \<noteq> None \<and> i < length segs \<and> sg_ref (segs ! i) \<noteq> None
      then Some (length (filter (\<lambda>s. sg_ref s \<noteq> None) (take i segs))) else None)"

definition check_chain ::
    "string \<Rightarrow> src_span option \<Rightarrow> segment list \<Rightarrow> value_annotation option \<Rightarrow> bool list option \<Rightarrow> (emit_error, unit) result" where
  "check_chain rule sp segs value nested =
     (case value of
        None \<Rightarrow> Inr ()
      | Some v \<Rightarrow>
          let pushes = length (filter (\<lambda>s. sg_ref s \<noteq> None) segs)
          in if va_kind v \<noteq> ''object'' \<and> va_kind v \<noteq> ''array'' then Inl (err_at (UnknownValueKind rule (va_kind v)) rule sp)
             else if va_kind v = ''object'' \<and> length (va_members v) \<noteq> pushes
             then Inl (err_at (NamesBuild rule (length (va_members v)) pushes) rule sp)
             else if (case nested of Some ns \<Rightarrow> length ns \<noteq> pushes | None \<Rightarrow> False)
             then Inl (err_at (PartsBuild rule (length (the nested)) pushes) rule sp)
             else Inr ())"

text \<open>The value builders of one link: on its open alternate, and on its close alternates.\<close>

definition link_open_actions :: "value_annotation \<Rightarrow> nat option \<Rightarrow> nat \<Rightarrow> alt_spec \<Rightarrow> alt_spec" where
  "link_open_actions v m i head_alt =
     (let is_array = (va_kind v = ''array'');
          member_name = Option.bind m (\<lambda>m. if m < length (va_members v) then Some (va_members v ! m) else None);
          acts = (if i = 0 then [if is_array then ''@array$'' else ''@object$''] else []) @
            (if \<not> is_array \<and> member_name \<noteq> None then [''@key$''] else []);
          cfg = (case member_name of
                   Some n \<Rightarrow> if is_array then [] else [(''key$'', JObj [(''lit'', JStr n)])]
                 | None \<Rightarrow> [])
      in use_value_actions acts (Some cfg) head_alt)"

definition link_close_actions ::
    "emit_env \<Rightarrow> value_annotation \<Rightarrow> bool list option \<Rightarrow> segment \<Rightarrow> nat option \<Rightarrow> alt_spec list option \<Rightarrow> alt_spec list option" where
  "link_close_actions env v nested seg m close =
     (let is_array = (va_kind v = ''array'');
          fills = (is_array \<and> (case sg_ref seg of Some r \<Rightarrow> r \<in> set (ee_array_helpers env) | None \<Rightarrow> False))
      in case (if fills then None else m) of
           Some m \<Rightarrow>
             let is_nested = (case nested of Some ns \<Rightarrow> m < length ns \<and> ns ! m | None \<Rightarrow> False);
                 act = (if is_array then ''@push$'' else ''@setval$'');
                 cfg = (if is_nested then None else Some (src_cfg (if is_array then ''push$'' else ''setval$'')))
             in Some (map (use_value_actions [act] cfg) (case close of Some c \<Rightarrow> c | None \<Rightarrow> [alt_with_tag (ee_tag env)]))
         | None \<Rightarrow> map_option (map (use_value_actions [] None)) close)"

definition emit_link ::
    "emit_env \<Rightarrow> string \<Rightarrow> seq \<Rightarrow> node_kind \<Rightarrow> string option \<Rightarrow> value_annotation option \<Rightarrow> bool list option \<Rightarrow> bool \<Rightarrow>
     segment list \<Rightarrow> 'f emitter \<Rightarrow> nat \<times> segment \<Rightarrow> (emit_error, 'f emitter) result" where
  "emit_link env head_name alt head_kind origin value nested array_elem segs st x =
     (case x of
        (i, seg) \<Rightarrow>
          let name = chain_name head_name i;
              kind = (if i = 0 then head_kind else HelperNode);
              (head_alt, rr) = segment_to_alt env seg (i = 0) name kind (em_refs st);
              head_alt =
                (if i = 0 \<and> head_kind = UserNode \<and> rr_marks rr then marked (Some (alt_discriminator alt (ee_tokens env))) head_alt
                 else head_alt);
              st = (if 0 < i then (case origin of Some o' \<Rightarrow> record_prov name o' st | None \<Rightarrow> st) else st);
              (close, rr) =
                (if i \<noteq> length segs - 1
                 then (case capture_close env name kind (Some (chain_name head_name (i + 1))) rr of (c, rr) \<Rightarrow> (Some [c], rr))
                 else if sg_ref seg \<noteq> None
                 then (case capture_close env name kind None rr of (c, rr) \<Rightarrow> (Some [c], rr))
                 else (None, rr));
              elem = Option.bind (sg_ref seg) (\<lambda>r. if r \<in> set (ee_array_helpers env) then None else Some r);
              (head_alt, close) =
                (if array_elem
                 then (use_value_actions [] None head_alt, map_option (map (push_element (ee_value_rules env) elem)) close)
                 else (head_alt, close));
              (head_alt, close) =
                (case value of
                   None \<Rightarrow> (head_alt, close)
                 | Some v \<Rightarrow>
                     (link_open_actions v (member_at segs value i) i head_alt,
                      link_close_actions env v nested seg (member_at segs value i) close))
          in commit_rule name \<lparr>rs_open = [head_alt], rs_close = close\<rparr> 0 (st\<lparr>em_refs := rr\<rparr>))"

definition emit_chain ::
    "emit_env \<Rightarrow> string \<Rightarrow> seq \<Rightarrow> node_kind \<Rightarrow> string option \<Rightarrow> value_annotation option \<Rightarrow> bool list option \<Rightarrow>
     src_span option \<Rightarrow> bool \<Rightarrow> 'f emitter \<Rightarrow> (emit_error, 'f emitter) result" where
  "emit_chain env head_name alt head_kind origin value nested sp array_elem st =
     res_bind (segmentize alt (ee_tokens env)) (\<lambda>segs.
     res_bind (check_chain (case origin of Some o' \<Rightarrow> o' | None \<Rightarrow> head_name) sp segs value nested) (\<lambda>_.
       res_fold (emit_link env head_name alt head_kind origin value nested array_elem segs) st (enumerate 0 segs)))"

section \<open>Entries\<close>

text \<open>\<open>{ s, b, p, n?, a, k?, g }\<close>, and the like: one alternate for each text a choice peeks.\<close>

definition peek_alt ::
    "emit_env \<Rightarrow> string \<Rightarrow> string \<Rightarrow> (string \<times> json) list option \<Rightarrow> alt_spec \<Rightarrow> string option \<Rightarrow> string \<Rightarrow> nat \<Rightarrow> alt_spec" where
  "peek_alt env via rule n node_acts mark s b =
     (let o' = alt_set via (JStr rule) (alt_set ''b'' (json_nat b) (alt_set ''s'' (JStr s) alt_new));
          o' = (case n of Some d \<Rightarrow> alt_set ''n'' (JObj d) o' | None \<Rightarrow> o')
      in marked mark (alt_set ''g'' (JStr (ee_tag env)) (alt_assign_from node_acts o')))"

definition add_entry_of :: "seq option \<Rightarrow> entry list \<times> 'f emitter \<Rightarrow> alt_spec \<Rightarrow> (emit_error, entry list \<times> 'f emitter) result" where
  "add_entry_of alt acc o' =
     (case acc of (entries, st) \<Rightarrow> res_bind (made o' st) (\<lambda>st. Inr (entries @ [\<lparr>en_o = o', en_alt = alt\<rparr>], st)))"

text \<open>The peeks of an alternative that is references alone: its first tokens, or, when its head is
  contested, the prefixes that tell it apart.\<close>

definition peeks_of ::
    "emit_env \<Rightarrow> production \<Rightarrow> seq list \<Rightarrow> nat \<Rightarrow> string list \<Rightarrow> 'f emitter \<Rightarrow>
     (emit_error, (string \<times> nat) list \<times> 'f emitter) result" where
  "peeks_of env p ordered idx first_tokens st =
     res_bind (alt_head_contested env idx ordered) (\<lambda>here.
     res_bind (if here then Inr True else contested_by_follow env p (ordered ! idx)) (\<lambda>contested.
       if \<not> contested then Inr (map (\<lambda>tok. (tok, 1)) first_tokens, st)
       else
         res_bind
           (alt_prefixes (ee_grammar env) (ee_tokens env) (Some (cc_class_sets (ee_contest env))) LOOKAHEAD_K (ordered ! idx) (em_budget st))
           (\<lambda>(raw, b).
              let pfx = filter (\<lambda>p. p \<noteq> []) raw
              in Inr
                (if pfx \<noteq> [] \<and> length pfx \<le> 64 then map (\<lambda>p. (join '' '' p, length p)) pfx else map (\<lambda>tok. (tok, 1)) first_tokens,
                 st\<lparr>em_budget := b\<rparr>))))"

definition ref_only_entries ::
    "emit_env \<Rightarrow> production \<Rightarrow> seq list \<Rightarrow> nat \<Rightarrow> segment \<Rightarrow> string option \<Rightarrow> string list \<Rightarrow> entry list \<times> 'f emitter \<Rightarrow>
     (emit_error, entry list \<times> 'f emitter) result" where
  "ref_only_entries env p ordered idx seg mark first_tokens acc =
     (case acc of
        (entries, st) \<Rightarrow>
          let (node_acts, rr) = rr_node True (p_name p) (p_node_kind p) 0 (alt_new, em_refs st);
              st = st\<lparr>em_refs := rr\<rparr>;
              peek_base = b_held (em_budget st);
              debt = map_option debt_to_n (sg_debt seg);
              target = (case sg_ref seg of Some r \<Rightarrow> r | None \<Rightarrow> [])
          in res_bind (peeks_of env p ordered idx first_tokens st) (\<lambda>(peeks, st).
             res_bind
               (res_fold (add_entry_of (Some (ordered ! idx))) (entries, st)
                 (map (\<lambda>(s, b). peek_alt env ''p'' target debt node_acts mark s b) peeks))
               (\<lambda>(entries, st). Inr (entries, st\<lparr>em_budget := b_restore peek_base (em_budget st)\<rparr>))))"

text \<open>The alternate of one alternative; a loop's continue alternative re-enters the loop instead.\<close>

definition plain_alt :: "emit_env \<Rightarrow> production \<Rightarrow> element option \<Rightarrow> seq \<Rightarrow> segment \<Rightarrow> 'f ref_registry \<Rightarrow> alt_spec \<times> 'f ref_registry" where
  "plain_alt env p loop_item alt seg rr =
     (if loop_item = None then segment_to_alt env seg True (p_name p) (p_node_kind p) rr
      else if alt \<noteq> [] then
        (case segment_to_alt env \<lparr>sg_terms = sg_terms seg, sg_ref = None, sg_debt = None\<rparr> False (p_name p) (p_node_kind p) rr of
           (acts, rr) \<Rightarrow>
             let o' = (case alt_get acts ''g'' of Some g \<Rightarrow> alt_set ''g'' g alt_new | None \<Rightarrow> alt_new);
                 o' = (case alt_get acts ''s'' of Some s \<Rightarrow> alt_set ''s'' s o' | None \<Rightarrow> o')
             in (alt_assign_from (alt_remove ''s'' (alt_remove ''g'' acts)) (alt_set ''r'' (JStr (p_name p)) o'), rr))
      else segment_to_alt env seg False (p_name p) (p_node_kind p) rr)"

text \<open>The way out of a repetition, once for each token that may follow, its guards first.\<close>

definition exit_entries ::
    "emit_env \<Rightarrow> production \<Rightarrow> alt_spec \<Rightarrow> entry list \<times> 'f emitter \<Rightarrow> (emit_error, entry list \<times> 'f emitter) result" where
  "exit_entries env p o' acc =
     res_bind (res_fold (add_entry_of None) acc (map (\<lambda>tok. peek_copy o' tok 1) (set_of (ee_follow env) (p_name p))))
       (\<lambda>(entries, st).
          res_bind (pair_exit_guards env p o' st)
            (\<lambda>(guards, st). Inr (map (\<lambda>g. \<lparr>en_o = g, en_alt = None\<rparr>) guards @ entries, st)))"

text \<open>The first tokens of the reference an alternative ends in, where a sibling stops on its head.\<close>

definition ref_peek :: "emit_env \<Rightarrow> bool \<Rightarrow> seq list \<Rightarrow> nat \<Rightarrow> segment \<Rightarrow> (emit_error, string list option) result" where
  "ref_peek env needs_peek ordered idx seg =
     (case sg_ref seg of
        None \<Rightarrow> Inr None
      | Some r \<Rightarrow>
          if \<not> needs_peek \<or> sg_terms seg = [] \<or> r \<in> set (ee_nullable env) then Inr None
          else
            res_bind (alt_head_shares_token env idx ordered)
              (\<lambda>shares. Inr (if shares then Some (set_of (ee_first env) r) else None)))"

definition simple_alt ::
    "emit_env \<Rightarrow> production \<Rightarrow> element option \<Rightarrow> string list option \<Rightarrow> seq list \<Rightarrow> entry list \<times> 'f emitter \<Rightarrow> nat \<times> seq \<Rightarrow>
     (emit_error, entry list \<times> 'f emitter) result" where
  "simple_alt env p loop_item marks ordered acc x =
     (case (acc, x) of
        ((entries, st), (idx, alt)) \<Rightarrow>
          res_bind (segmentize alt (ee_tokens env)) (\<lambda>segs.
            let seg = hd segs;
                needs_peek = (1 < length ordered);
                is_ref_only = (alt \<noteq> [] \<and> list_all is_ref alt \<and> sg_terms seg = [] \<and> sg_ref seg \<noteq> None);
                mark = map_option (\<lambda>m. m ! idx) marks
            in res_bind (if needs_peek \<and> is_ref_only then env_first env alt else Inr None) (\<lambda>first_tokens.
               case first_tokens of
                 Some toks \<Rightarrow> ref_only_entries env p ordered idx seg mark toks (entries, st)
               | None \<Rightarrow>
                   (case plain_alt env p loop_item alt seg (em_refs st) of
                      (o', rr) \<Rightarrow>
                        let o' = marked mark o'
                        in res_bind
                             (if alt = [] \<and> p_repeat_helper p then exit_entries env p o' (entries, st\<lparr>em_refs := rr\<rparr>)
                              else Inr (entries, st\<lparr>em_refs := rr\<rparr>)) (\<lambda>(entries, st).
                           res_bind (ref_peek env needs_peek ordered idx seg) (\<lambda>peek.
                             case peek of
                               Some toks \<Rightarrow>
                                 if toks \<noteq> [] \<and> length toks \<le> 64
                                 then res_fold (add_entry_of (Some alt)) (entries, st)
                                        (map (\<lambda>tok. peek_copy o' (join '' '' (sg_terms seg @ [tok])) 1) toks)
                                 else add_entry_of (if alt = [] then None else Some alt) (entries, st) o'
                             | None \<Rightarrow> add_entry_of (if alt = [] then None else Some alt) (entries, st) o')))))) "

text \<open>Empty alternatives go last.\<close>

definition ordered_alts :: "production \<Rightarrow> seq list" where
  "ordered_alts p = filter (\<lambda>a. a \<noteq> []) (p_alts p) @ filter (\<lambda>a. a = []) (p_alts p)"

definition strip_values :: "bool \<Rightarrow> alt_spec \<Rightarrow> alt_spec" where
  "strip_values array_elem o' = (if array_elem then use_value_actions [] None o' else o')"

text \<open>Guards of debts, order of the entries, keyword guards.\<close>

definition placed_opens ::
    "emit_env \<Rightarrow> production \<Rightarrow> entry list \<Rightarrow> 'f emitter \<Rightarrow> (emit_error, alt_spec list \<times> 'f emitter) result" where
  "placed_opens env p entries st =
     res_bind (reorder_keyword_shadow env p (specificity_permute env (apply_debt_guard p entries)) st)
       (\<lambda>(placed, st). Inr (map pl_o placed, st))"

definition commit_loop :: "emit_env \<Rightarrow> production \<Rightarrow> bool \<Rightarrow> alt_spec list \<Rightarrow> 'f emitter \<Rightarrow> (emit_error, 'f emitter) result" where
  "commit_loop env p array_elem opens st =
     (case loop_entry env p array_elem (em_refs st) of
        (entry, rr) \<Rightarrow> commit_rule (p_name p) \<lparr>rs_open = entry # opens, rs_close = None\<rparr> (em_pre st) (st\<lparr>em_refs := rr\<rparr>))"

definition first_element ::
    "emit_env \<Rightarrow> seq list \<Rightarrow> (emit_error, string option) result" where
  "first_element env ordered =
     res_bind (res_map (\<lambda>alt. segmentize alt (ee_tokens env)) ordered)
       (\<lambda>segss. Inr
          (find (\<lambda>r. r \<notin> set (ee_array_helpers env))
            (List.map_filter (\<lambda>segs. case segs of [] \<Rightarrow> None | s # _ \<Rightarrow> sg_ref s) segss)))"

definition simple_close ::
    "emit_env \<Rightarrow> production \<Rightarrow> bool \<Rightarrow> bool \<Rightarrow> seq list \<Rightarrow> 'f emitter \<Rightarrow> (emit_error, alt_spec list option \<times> 'f emitter) result" where
  "simple_close env p marks array_elem ordered st =
     (if \<not> list_ex (list_ex is_ref) (p_alts p) then Inr (None, st)
      else
        (case capture_close env (p_name p) (p_node_kind p) None (em_refs st) of
           (c, rr) \<Rightarrow>
             let c = (if marks then marked (Some ''_'') c else c)
             in if array_elem
                then res_bind (first_element env ordered)
                       (\<lambda>elem. Inr (Some [push_element (ee_value_rules env) elem c], st\<lparr>em_refs := rr\<rparr>))
                else Inr (Some [c], st\<lparr>em_refs := rr\<rparr>)))"

definition emit_simple ::
    "emit_env \<Rightarrow> production \<Rightarrow> element option \<Rightarrow> bool \<Rightarrow> 'f emitter \<Rightarrow> (emit_error, 'f emitter) result" where
  "emit_simple env p loop_item array_elem st =
     (let ordered = ordered_alts p; marks = marks_of p (em_refs st) ordered (ee_tokens env)
      in res_bind (res_fold (simple_alt env p loop_item marks ordered) ([], st) (enumerate 0 ordered)) (\<lambda>(entries, st).
         res_bind (placed_opens env p entries st) (\<lambda>(opens, st).
           let opens = map (strip_values array_elem) opens
           in if loop_item \<noteq> None then commit_loop env p array_elem opens st
              else
                res_bind (simple_close env p (marks \<noteq> None) array_elem ordered st)
                  (\<lambda>(close, st). commit_rule (p_name p) \<lparr>rs_open = opens, rs_close = close\<rparr> (em_pre st) st))))"


section \<open>Choices that dispatch\<close>

text \<open>The ways out of a choice that may match nothing: one token that may follow it, or two.\<close>

definition exit_paths :: "emit_env \<Rightarrow> production \<Rightarrow> (emit_error, string list list) result" where
  "exit_paths env p =
     res_bind
       (res_any (\<lambda>alt. if alt = [] then Inr True else res_bind (env_first env alt) (\<lambda>f. Inr (f = None))) (p_alts p))
       (\<lambda>any_epsilon. Inr
          (if any_epsilon
           then map (\<lambda>t. [t]) (set_of (ee_follow env) (p_name p)) @
             concat (map (\<lambda>(t, us). map (\<lambda>u. [t, u]) us)
               (case map_of (ee_pairs env) (p_name p) of Some pairs \<Rightarrow> pairs | None \<Rightarrow> []))
           else []))"

definition impl_name :: "production \<Rightarrow> nat \<Rightarrow> string" where
  "impl_name p i = p_name p @ ''$alt'' @ nat_str i"

text \<open>What an alternative that may match nothing leaves for the end: its rule, the fields of its entry
  and its mark.\<close>

type_synonym nullable_impl = "string \<times> alt_spec \<times> string option"

text \<open>The rule of one alternative, and its entries: one for each prefix that tells it apart, or one
  for each of its first tokens.\<close>

definition dispatch_alt ::
    "emit_env \<Rightarrow> production \<Rightarrow> element option \<Rightarrow> string list option \<Rightarrow> bool \<Rightarrow> dispatch_prefixes list \<Rightarrow>
     entry list \<times> nullable_impl list \<times> 'f emitter \<Rightarrow> nat \<times> seq \<Rightarrow>
     (emit_error, entry list \<times> nullable_impl list \<times> 'f emitter) result" where
  "dispatch_alt env p loop_item marks array_elem dispatch acc x =
     (case (acc, x) of
        ((entries, nullables, st), (i, alt)) \<Rightarrow>
          if alt = [] then Inr (entries, nullables, st)
          else
            let impl = impl_name p i;
                mark = map_option (\<lambda>m. m ! i) marks;
                st = record_prov impl (origin_of p) st
            in res_bind
                 (case loop_item of
                    Some item \<Rightarrow> emit_repeat_loop env p impl item array_elem st
                  | None \<Rightarrow> emit_chain env impl alt HelperNode (Some (origin_of p)) None None None array_elem st)
                 (\<lambda>st.
                    let via = (if loop_item = None then ''p'' else ''r'');
                        (acts, rr) =
                          (if loop_item = None then rr_node True (p_name p) (p_node_kind p) 0 (alt_new, em_refs st)
                           else (alt_new, em_refs st));
                        st = st\<lparr>em_refs := rr\<rparr>;
                        nullables = (if dp_nullable (dispatch ! i) \<and> loop_item = None then nullables @ [(impl, acts, mark)] else nullables);
                        entry = peek_alt env via impl None acts mark
                    in if dp_prefixes (dispatch ! i) \<noteq> []
                       then
                         res_bind
                           (res_fold (add_entry_of (Some alt)) (entries, st)
                              (map (\<lambda>q. entry (join '' '' q) (length q)) (dp_prefixes (dispatch ! i))))
                           (\<lambda>(entries, st). Inr (entries, nullables, st))
                       else
                         res_bind (env_first env alt) (\<lambda>toks.
                           case toks of
                             None \<Rightarrow> Inl (err_at (NullableAlternative (p_name p) i) (p_name p) (p_sp p))
                           | Some toks \<Rightarrow>
                               res_bind (res_fold (add_entry_of (Some alt)) (entries, st) (map (\<lambda>tok. entry tok 1) toks))
                                 (\<lambda>(entries, st). Inr (entries, nullables, st)))))"

text \<open>The empty derivations, issued again: a peek for each token that may follow, then a fallback.\<close>

definition reissue_alts :: "emit_env \<Rightarrow> production \<Rightarrow> nullable_impl \<Rightarrow> alt_spec list" where
  "reissue_alts env p x =
     (case x of
        (impl, acts, mark) \<Rightarrow>
          map (\<lambda>tok. peek_alt env ''p'' impl None acts mark tok 1) (set_of (ee_follow env) (p_name p)) @
          [marked mark (alt_set ''g'' (JStr (ee_tag env)) (alt_assign_from acts (alt_set ''p'' (JStr impl) alt_new)))])"

definition reissue ::
    "emit_env \<Rightarrow> production \<Rightarrow> nullable_impl list \<Rightarrow> entry list \<times> 'f emitter \<Rightarrow> (emit_error, entry list \<times> 'f emitter) result" where
  "reissue env p nullables acc = res_fold (add_entry_of None) acc (concat (map (reissue_alts env p) nullables))"

text \<open>The way out of a choice with an empty alternative.\<close>

definition dispatch_exit ::
    "emit_env \<Rightarrow> production \<Rightarrow> bool \<Rightarrow> bool \<Rightarrow> entry list \<times> 'f emitter \<Rightarrow> (emit_error, entry list \<times> 'f emitter) result" where
  "dispatch_exit env p is_loop marks acc =
     (case acc of
        (entries, st) \<Rightarrow>
          let (o', rr) = (if is_loop then (alt_new, em_refs st) else rr_node True (p_name p) (p_node_kind p) 0 (alt_new, em_refs st));
              st = st\<lparr>em_refs := rr\<rparr>;
              o' = alt_set ''g'' (JStr (ee_tag env)) o';
              o' = (if marks then marked (Some ''_'') o' else o')
          in res_bind (if p_repeat_helper p then exit_entries env p o' (entries, st) else Inr (entries, st))
               (\<lambda>acc. add_entry_of None acc o'))"

definition strip_entry :: "bool \<Rightarrow> entry \<Rightarrow> entry" where
  "strip_entry array_elem e = e\<lparr>en_o := strip_values array_elem (en_o e)\<rparr>"

text \<open>The prefixes stay held while the entries are made from them.\<close>

definition dispatch_entries ::
    "emit_env \<Rightarrow> production \<Rightarrow> element option \<Rightarrow> string list option \<Rightarrow> bool \<Rightarrow> 'f emitter \<Rightarrow>
     (emit_error, entry list \<times> 'f emitter) result" where
  "dispatch_entries env p loop_item marks array_elem st =
     res_bind (exit_paths env p) (\<lambda>exits.
     res_bind
       (dispatch_prefixes_of (p_alts p) (ee_grammar env) (ee_tokens env) LOOKAHEAD_K (ee_heads env) exits
          (cc_class_sets (ee_contest env)) (em_budget st)) (\<lambda>(dispatch, b).
     res_bind
       (res_fold (dispatch_alt env p loop_item marks array_elem dispatch) ([], [], st\<lparr>em_budget := b\<rparr>) (enumerate 0 (p_alts p)))
       (\<lambda>(entries, nullables, st').
          res_bind (reissue env p nullables (entries, st'\<lparr>em_budget := b_restore (b_held (em_budget st)) (em_budget st')\<rparr>))
            (\<lambda>acc. if [] \<in> set (p_alts p) then dispatch_exit env p (loop_item \<noteq> None) (marks \<noteq> None) acc else Inr acc))))"

definition emit_dispatcher ::
    "emit_env \<Rightarrow> production \<Rightarrow> element option \<Rightarrow> bool \<Rightarrow> 'f emitter \<Rightarrow> (emit_error, 'f emitter) result" where
  "emit_dispatcher env p loop_item array_elem st =
     (let marks = marks_of p (em_refs st) (p_alts p) (ee_tokens env)
      in res_bind (dispatch_entries env p loop_item marks array_elem st) (\<lambda>(entries, st).
         res_bind (placed_opens env p (map (strip_entry array_elem) entries) st) (\<lambda>(opens, st).
           if loop_item \<noteq> None then commit_loop env p array_elem opens st
           else
             (case capture_close env (p_name p) (p_node_kind p) None (em_refs st) of
                (c, rr) \<Rightarrow>
                  let c = (if marks \<noteq> None then marked (Some ''_'') c else c)
                  in commit_rule (p_name p) \<lparr>rs_open = opens, rs_close = Some [strip_values array_elem c]\<rparr> (em_pre st)
                       (st\<lparr>em_refs := rr\<rparr>)))))"

section \<open>A production\<close>

definition emit_shapes ::
    "emit_env \<Rightarrow> production \<Rightarrow> element option \<Rightarrow> bool \<Rightarrow> 'f emitter \<Rightarrow> (emit_error, 'f emitter) result" where
  "emit_shapes env p loop_item array_elem st =
     (let split_alts = (array_elem \<and> 1 < length (p_alts p) \<and> \<not> p_repeat_helper p)
      in if list_all is_single_segment (p_alts p) \<and> p_value p = None \<and> \<not> split_alts then emit_simple env p loop_item array_elem st
         else if length (p_alts p) = 1
         then emit_chain env (p_name p) (hd (p_alts p)) (p_node_kind p) (Some (origin_of p)) (p_value p)
                (map_of (ee_plan env) (origin_of p)) (p_sp p) array_elem st
         else if p_value p \<noteq> None then Inl (err_new (ValueAlternatives (origin_of p) (length (p_alts p))))
         else emit_dispatcher env p loop_item array_elem st)"

definition emit_production :: "emit_env \<Rightarrow> production \<Rightarrow> 'f emitter \<Rightarrow> (emit_error, 'f emitter) result" where
  "emit_production env p st =
     (let array_elem = (p_name p \<in> set (ee_array_helpers env)); st = st\<lparr>em_pre := 0\<rparr>
      in res_bind (res_check (validate_refs env (p_name p)) (p_alts p)) (\<lambda>_.
         case p_tail_repeat p of
           Some sep \<Rightarrow> emit_tail_repeat env p sep st
         | None \<Rightarrow>
             res_bind (if p_repeat_loop p then res_bind (loop_item_of p) (\<lambda>item. Inr (Some item)) else Inr None)
               (\<lambda>loop_item. emit_shapes env p loop_item array_elem st)))"

end
