(* ===== verification/Emit.thy ===== *)
theory Emit
  imports Emit_Rules Token_Tables Annotations Prose Repetitions Probes Factor Desugar Left_Recursion
begin

text \<open>
  A compile: \<open>emit_grammar_spec\<close> of \<open>rs/src/emit.rs\<close>. The grammar goes through the passes in the order
  of the code, then tokens, sets, rules, the wrapper of the start rule, options, provenance and
  removals. What the crate takes from outside is an argument: the regular expressions of the
  \<open>regex\<close> crate (\<open>rx\<close>) and the case mappings of Unicode (\<open>lower\<close>, \<open>upper\<close> on texts, \<open>uc\<close> on characters).
\<close>

record convert_options =
  co_start :: "string option"
  co_tag :: "string option"
  co_builtins :: bool
  co_marks :: bool
  co_word_keywords :: bool
  co_provenance :: bool
  co_token_classes :: bool

definition convert_options_default :: convert_options where
  "convert_options_default =
     \<lparr>co_start = None, co_tag = None, co_builtins = False, co_marks = False, co_word_keywords = False,
      co_provenance = True, co_token_classes = False\<rparr>"

definition tag_of :: "convert_options \<Rightarrow> string" where
  "tag_of opts = (case co_tag opts of Some t \<Rightarrow> t | None \<Rightarrow> ''bnf'')"

section \<open>The passes over the grammar\<close>

definition start_rule :: "convert_options \<Rightarrow> grammar \<Rightarrow> (emit_error, string) result" where
  "start_rule opts g =
     (case co_start opts of
        Some s \<Rightarrow> Inr s
      | None \<Rightarrow> (case productions g of p # _ \<Rightarrow> Inr (p_name p) | [] \<Rightarrow> Inl (err_new NoStartProduction)))"

text \<open>What is read off the authored grammar before any rewrite.\<close>

record authored =
  au_grammar :: grammar
  au_plan :: value_plan
  au_start :: string
  au_accepts_empty :: bool
  au_lifted :: "element list"
  au_classes :: "string list"
  au_remove :: "string list"
  au_clear :: bool

definition read_authored ::
    "regex_crate \<Rightarrow> (string \<Rightarrow> string) \<Rightarrow> convert_options \<Rightarrow> grammar \<Rightarrow> (emit_error, authored) result" where
  "read_authored rx lower opts g =
     res_bind (check_element_depth g) (\<lambda>_.
     res_bind (plan_value_annotations g) (\<lambda>plan.
     res_bind (resolve_prose_terminals lower g) (\<lambda>g.
     res_bind (start_rule opts g) (\<lambda>start.
       let (lg, lits) = lift_literal_tokens start g; ng = normalize_builtin_tokens lg
       in Inr
         \<lparr>au_grammar = ng, au_plan = plan, au_start = start,
          au_accepts_empty = (start \<in> set (nullable_rules rx (productions g))), au_lifted = lits,
          au_classes = (if co_token_classes opts then token_class_names rx ng else []),
          au_remove = removals g, au_clear = clear_all g\<rparr>))))"

text \<open>The rewrites, to rules of terminals and references alone.\<close>

definition rewrite_grammar ::
    "regex_crate \<Rightarrow> (nat \<Rightarrow> nat \<times> nat) \<Rightarrow> authored \<Rightarrow> emit_budget \<Rightarrow> (emit_error, grammar \<times> emit_budget) result" where
  "rewrite_grammar rx uc au b =
     res_bind (eliminate_left_recursion_keeping (au_grammar au) (au_classes au)) (\<lambda>(g, srcs).
     res_bind (validate_rewrite_repetitions rx g srcs) (\<lambda>_.
     res_bind (rewrite_probe_dispatches g b) (\<lambda>(g, b).
     res_bind (left_factor uc g) (\<lambda>g.
       let g = rewrite_tail_repeats g (au_start au)
       in res_bind (validate_repetitions rx g) (\<lambda>_.
          case desugar g of Some g \<Rightarrow> Inr (g, b) | None \<Rightarrow> Inl (err_new (InternalKind ''prose'')))))))"

section \<open>What the emitter reads\<close>

definition valued_rules :: "grammar \<Rightarrow> string list" where
  "valued_rules g = iset_extend [] (map p_name (filter (\<lambda>p. p_value p \<noteq> None) (productions g)))"

text \<open>The sets of a grammar: FIRST, FOLLOW and FOLLOW2, then the debts settled with them.\<close>

record grammar_sets =
  se_first :: token_sets
  se_nullable :: "string list"
  se_follow :: token_sets
  se_pairs :: token_pairs
  se_grammar :: grammar
  se_budget :: emit_budget

definition sets_of ::
    "contest_ctx \<Rightarrow> tokens \<Rightarrow> string \<Rightarrow> grammar \<Rightarrow> emit_budget \<Rightarrow> (emit_error, grammar_sets) result" where
  "sets_of cc tk start g b =
     res_bind (compute_first_sets g tk (cc_class_sets cc) b) (\<lambda>(first, nl, b).
     res_bind (compute_follow_sets g tk first nl start b) (\<lambda>(follow, b).
     res_bind (compute_follow_pairs g tk first nl follow b) (\<lambda>(pairs, b).
     res_bind (resolve_suffix_debts g tk first nl (tokens_overlap cc)) (\<lambda>g.
       Inr \<lparr>se_first = first, se_nullable = nl, se_follow = follow, se_pairs = pairs, se_grammar = g, se_budget = b\<rparr>))))"

definition env_of ::
    "(string \<Rightarrow> string) \<Rightarrow> (string \<Rightarrow> string) \<Rightarrow> convert_options \<Rightarrow> authored \<Rightarrow> contest_ctx \<Rightarrow> tokens \<Rightarrow> grammar \<Rightarrow> grammar_sets \<Rightarrow>
     emit_env" where
  "env_of lower upper opts au cc tk g se =
     \<lparr>ee_grammar = se_grammar se, ee_tag = tag_of opts, ee_tokens = tk,
      ee_known = iset_extend [] (names (productions g)), ee_first = se_first se, ee_nullable = se_nullable se,
      ee_follow = se_follow se, ee_pairs = se_pairs se, ee_contest = cc, ee_heads = heads_contest lower upper cc,
      ee_plan = vp_plan (au_plan au), ee_array_helpers = plan_array_helpers g (vp_collect (au_plan au)),
      ee_value_rules = valued_rules g,
      ee_literal_heads = iset_extend (iset_extend [] (map snd (tk_literals tk))) (map snd (cc_class_sets cc)),
      ee_class_heads = iset_extend [] (map snd (tk_regex tk))\<rparr>"

definition emitter_new :: "convert_options \<Rightarrow> emit_budget \<Rightarrow> 'f emitter" where
  "emitter_new opts b =
     \<lparr>em_refs = \<lparr>rr_refs = [], rr_counter = 0, rr_builtins = co_builtins opts, rr_marks = co_marks opts\<rparr>,
      em_prov = (if co_provenance opts then Some [] else None), em_rules = [], em_budget = b, em_pre = 0\<rparr>"

section \<open>The rules\<close>

definition emit_rule :: "emit_env \<Rightarrow> 'f emitter \<Rightarrow> production \<Rightarrow> (emit_error, 'f emitter) result" where
  "emit_rule env st p =
     (let st = (if origin_of p \<noteq> p_name p then record_prov (p_name p) (origin_of p) st else st);
          st = st\<lparr>em_budget := b_begin_rule (origin_of p) (p_sp p) StepAlternates (em_budget st)\<rparr>
      in case p_probe_helper p of
           Some vocab \<Rightarrow> emit_probe_helper env p vocab st
         | None \<Rightarrow>
             (case p_probe_dispatch p of
                Some pd \<Rightarrow> emit_probe_dispatch env p pd st
              | None \<Rightarrow> emit_production env p st))"

definition start_wrapper :: "string list \<Rightarrow> string" where
  "start_wrapper known =
     (if ''__start__'' \<in> set known then fresh_from (\<lambda>n. ''__start'' @ nat_str n @ ''__'') known 2 else ''__start__'')"

text \<open>The rule that takes the end of the source after the start rule.\<close>

definition emit_start :: "emit_env \<Rightarrow> string \<Rightarrow> 'f emitter \<Rightarrow> (emit_error, 'f emitter) result" where
  "emit_start env start st =
     (let wrapper = start_wrapper (ee_known env);
          st = record_prov wrapper start st;
          open1 = alt_set ''g'' (JStr (ee_tag env)) (alt_set ''p'' (JStr start) alt_new);
          (close1, rr) = rr_bubble (alt_set ''s'' (JStr ''#ZZ'') alt_new, em_refs st);
          close1 = alt_set ''g'' (JStr (sync_g (ee_tag env) ''end'')) close1
      in commit_rule wrapper \<lparr>rs_open = [open1], rs_close = Some [close1]\<rparr> 0
           (st\<lparr>em_refs := rr, em_budget := b_begin_rule start None StepAlternates (em_budget st)\<rparr>))"

section \<open>The document\<close>

definition fixed_json :: "(string \<times> string option) list \<Rightarrow> (string \<times> json) list" where
  "fixed_json fixed = map (\<lambda>(name, src). (name, case src of Some s \<Rightarrow> JStr s | None \<Rightarrow> JNull)) fixed"

definition spec_options :: "token_tables \<Rightarrow> string \<Rightarrow> bool \<Rightarrow> (string \<times> json) list \<Rightarrow> (string \<times> json) list" where
  "spec_options tt wrapper accepts_empty fixed =
     [(''fixed'', JObj [(''token'', JObj fixed)]), (''rule'', JObj [(''start'', JStr wrapper)]),
      (''lex'', JObj [(''empty'', JBool accepts_empty)])] @
     (if tt_match tt = [] then []
      else [(''match'', JObj [(''token'', JObj (map (\<lambda>(name, tok). (name, JStr (mt_serialized tok))) (tt_match tt)))])]) @
     (if tt_sets tt = [] then []
      else [(''tokenSet'', JObj (map (\<lambda>(name, members). (name, JArr (map JStr members))) (tt_sets tt)))])"

definition provenance_meta :: "(string \<times> string) list option \<Rightarrow> json option" where
  "provenance_meta prov =
     (case prov of
        None \<Rightarrow> None
      | Some m \<Rightarrow>
          if m = [] then None
          else Some (JObj [(''provenance'', JObj (map (\<lambda>n. (n, JStr (the (map_of m n)))) (sort_key utf16 (map fst m))))]))"

text \<open>A removed name drops a rule and the fixed token of that name.\<close>

definition remove_name ::
    "(string \<times> rule_spec option) list \<times> (string \<times> json) list \<times> emit_budget \<Rightarrow> string \<Rightarrow>
     (emit_error, (string \<times> rule_spec option) list \<times> (string \<times> json) list \<times> emit_budget) result" where
  "remove_name acc name =
     (case acc of
        (rules, fixed, b) \<Rightarrow>
          res_bind (b_charge 1 b) (\<lambda>b.
          res_bind (b_charge 1 b) (\<lambda>b.
            Inr (imap_insert name None rules, imap_insert (CHR ''#'' # name) JNull fixed, b))))"

definition grammar_document ::
    "authored \<Rightarrow> token_tables \<Rightarrow> string \<Rightarrow> 'f emitter \<Rightarrow> (emit_error, 'f grammar_spec) result" where
  "grammar_document au tt wrapper st =
     (let b = (if au_remove au = [] then em_budget st
               else b_begin (SubjectRemovals (length (au_remove au))) None StepRemove (em_budget st))
      in res_bind (res_fold remove_name (em_rules st, fixed_json (tt_fixed tt), b) (au_remove au)) (\<lambda>(rules, fixed, _).
           Inr \<lparr>gs_refs = rr_refs (em_refs st), gs_options = spec_options tt wrapper (au_accepts_empty au) fixed,
                gs_rule = rules, gs_meta = provenance_meta (em_prov st), gs_clear = au_clear au\<rparr>))"

section \<open>A compile\<close>

text \<open>Every rule of a grammar of terminals and references, and the wrapper.\<close>

definition emit_rules ::
    "emit_env \<Rightarrow> string \<Rightarrow> 'f emitter \<Rightarrow> (emit_error, 'f emitter) result" where
  "emit_rules env start st =
     res_bind (res_fold (emit_rule env) st (productions (ee_grammar env))) (emit_start env start)"

definition emit_grammar_spec ::
    "regex_crate \<Rightarrow> (string \<Rightarrow> string) \<Rightarrow> (string \<Rightarrow> string) \<Rightarrow> (nat \<Rightarrow> nat \<times> nat) \<Rightarrow> grammar \<Rightarrow> convert_options \<Rightarrow>
     (emit_error, 'f grammar_spec) result" where
  "emit_grammar_spec rx lower upper uc g opts =
     res_bind (read_authored rx lower opts g) (\<lambda>au.
     res_bind (rewrite_grammar rx uc au budget_new) (\<lambda>(g, b).
     res_bind (token_tables_of rx (co_word_keywords opts) (au_classes au) (au_lifted au) g b) (\<lambda>(set_names, tt).
     res_bind (contest_of set_names (co_word_keywords opts) (productions g) tt) (\<lambda>(cc, tt).
     res_bind (sets_of cc (tt_tokens tt) (au_start au) g (tt_budget tt)) (\<lambda>se.
       let env = env_of lower upper opts au cc (tt_tokens tt) g se
       in res_bind (emit_rules env (au_start au) (emitter_new opts (se_budget se))) (\<lambda>st.
            grammar_document au tt (start_wrapper (ee_known env)) st))))))"

end
