(* ===== verification/Spec2Isabelle.thy ===== *)
theory Spec2Isabelle
  imports Desugar_Language Budget Spec_Actions Repetitions Coverage Factor_Language Left_Recursion_Results Analysis_Results Probes_Language Value_Plans Transduce Token_Names Emit
begin

text \<open>
  The grammar compiler of \<open>tabnas-bnf\<close>.
\<close>

section \<open>From validation to desugaring\<close>

text \<open>The options, loops and groups of an element.\<close>

fun sugar_count :: "element \<Rightarrow> nat" where
  "sugar_count (Element (Group alts) _) = 1 + sum_list (map (\<lambda>alt. sum_list (map sugar_count alt)) alts)"
| "sugar_count (Element (Opt i) _) = 1 + sugar_count i"
| "sugar_count (Element (Star i _) _) = 1 + sugar_count i"
| "sugar_count (Element (Plus i) _) = 1 + sugar_count i"
| "sugar_count (Element (Rep _ _ i) _) = sugar_count i"
| "sugar_count _ = 0"

lemma sum_list_le_add:
  "(\<And>x. x \<in> set xs \<Longrightarrow> f x \<le> g x + 2 * h x) \<Longrightarrow>
   sum_list (map f xs) \<le> sum_list (map g xs) + 2 * (sum_list (map h xs) :: nat)"
proof (induction xs)
  case (Cons x xs)
  have "f x \<le> g x + 2 * h x" using Cons.prems by simp
  moreover have "sum_list (map f xs) \<le> sum_list (map g xs) + 2 * sum_list (map h xs)"
    using Cons by simp
  ultimately show ?case by simp
qed simp

lemma helper_count_le: "helper_count el \<le> el_cost el + 2 * sugar_count el"
proof (induction el rule: element_induct)
  case (Group alts sp)
  have "sum_list (map (\<lambda>alt. sum_list (map helper_count alt)) alts) \<le>
      sum_list (map (\<lambda>alt. sum_list (map el_cost alt)) alts) +
      2 * sum_list (map (\<lambda>alt. sum_list (map sugar_count alt)) alts)"
    by (intro sum_list_le_add) (use Group in auto)
  then show ?case by simp
qed (auto simp: rep_cost_def split: option.splits)

definition grammar_sugar :: "production list \<Rightarrow> nat" where
  "grammar_sugar ps = sum_list (map (\<lambda>p. sum_list (map sugar_count (concat (p_alts p)))) ps)"

text \<open>
  C28: The repetition limit bounds what desugaring allocates: a validated grammar desugars to its
  own rules, two at most for each option, loop and group, and no more than the limit for its
  numeric repetitions, however large their bounds.
\<close>

theorem desugar_bounded:
  assumes "validate_repetitions rx g = Inr ()" and "desugar g = Some g'"
  shows "length (productions g') \<le>
    length (productions g) + 2 * grammar_sugar (productions g) + MAX_REPEAT_EXPANSION"
proof -
  have "sum_list (map (\<lambda>p. sum_list (map helper_count (concat (p_alts p)))) (productions g)) \<le>
      grammar_cost (productions g) + 2 * grammar_sugar (productions g)"
    unfolding grammar_cost_def grammar_sugar_def by (intro sum_list_le_add helper_count_le)
  moreover have "grammar_cost (productions g) \<le> MAX_REPEAT_EXPANSION"
    using validated_grammar_cost [OF assms(1)] .
  ultimately show ?thesis using desugar_count [OF assms(2)] by linarith
qed

text \<open>
  C27: What prose resolution and validation accept, desugaring compiles: it returns, and on a
  closed grammar every rule keeps its language.
\<close>

theorem front_end_desugars:
  assumes "resolve_prose_terminals lower g0 = Inr g" and "validate_repetitions rx g = Inr ()"
    and "closed (productions g)" and "n \<in> set (names (productions g))"
  shows "\<exists>g'. desugar g = Some g' \<and> glang T (productions g') n = glang T (productions g) n"
proof -
  have np: "all_elements no_prose (productions g)" by (rule resolved_no_prose [OF assms(1)])
  have ok: "all_elements bounds_ok (productions g)" by (rule validated_bounds [OF assms(2)])
  obtain g' where g': "desugar g = Some g'" using desugar_returns [OF np] by blast
  with desugar_keeps_language [OF g' assms(3) ok assms(4)] show ?thesis by blast
qed

lemma front_end_desugars_witness:
  "\<exists>g'. desugar repetition_example = Some g' \<and>
     glang literal_terminals (productions g') ''s'' = glang literal_terminals (productions repetition_example) ''s''"
proof (rule front_end_desugars [of id repetition_example repetition_example example_rx])
  show "resolve_prose_terminals id repetition_example = Inr repetition_example"
    by (simp add: resolve_prose_terminals_def resolve_prose_prod_def only_prose_def first_stray_def
        is_prose_name_def repetition_example_def grammar_new_def prod_new_def default_production_def
        el_rep_def el_term_def el_star_def el_reference_def el_of_def)
  show "validate_repetitions example_rx repetition_example = Inr ()" by (rule repetition_example_valid)
  show "closed (productions repetition_example)"
    by (simp add: closed_def repetition_example_def grammar_new_def prod_new_def default_production_def
        el_rep_def el_term_def el_star_def el_reference_def el_of_def)
  show "''s'' \<in> set (names (productions repetition_example))"
    by (simp add: repetition_example_def grammar_new_def)
qed

lemma repetition_example_desugars: "desugar repetition_example = Some (the (desugar repetition_example))"
proof -
  have "all_elements no_prose (productions repetition_example)"
    by (simp add: repetition_example_def grammar_new_def prod_new_def default_production_def
        el_rep_def el_term_def el_star_def el_reference_def el_of_def)
  from desugar_returns [OF this] show ?thesis by fastforce
qed

lemma desugar_bounded_witness:
  "length (productions (the (desugar repetition_example))) \<le>
    length (productions repetition_example) + 2 * grammar_sugar (productions repetition_example) + MAX_REPEAT_EXPANSION"
  by (rule desugar_bounded [OF repetition_example_valid repetition_example_desugars])

end
